(* ===== verification/Prelude.thy ===== *)
theory Prelude
  imports Main "HOL-Library.Word"
begin

text \<open>
  What every component shares: the results of Go functions (an error value or a run-time
  panic on the left, the value on the right), the machine types, the bytes of Go strings,
  the parts of strconv and strings that the sources use, and the collections of
  simplification rules that carry the component proofs.
\<close>

unbundle bit_operations_syntax

named_theorems go_simps "rewrite rules about results, bytes and strings that are safe everywhere"
named_theorems wire_simps "what reading back an encoded value gives"
named_theorems inv_intros "steps that keep an invariant"

section \<open>Machine types and results\<close>

type_synonym byte = "8 word"
type_synonym bytes = "8 word list"
type_synonym u32 = "32 word"
type_synonym u64 = "64 word"

text \<open>
  The error values of the sources (package errors by their names) and the errors of the
  standard library and of generated code that the sources can return. \<open>OtherErr\<close> is an
  error made by code outside the repository.
\<close>

datatype go_err =
    EOF
  | UnexpectedEOF
  | ErrOverflow
  | ErrInvalidMessage
  | ErrUnknownStreamType
  | ErrClosed
  | ErrStreamUnsynced
  | ErrBadValue
  | ErrRequiredNotSet string
  | ErrWrongWireType nat string
  | ErrIllegalWireType nat
  | ErrInvalidConfig
  | ErrUnknownPlugin string
  | ErrInvalidGenerator string
  | ErrInvalidReceiver string
  | ErrInvalidFilterer string
  | ErrInvalidFormat
  | ErrInvalidMetric
  | ErrUnknownKey
  | ErrUnknownKeyType
  | ErrInvalidPermissions
  | ErrMissingSignature
  | ErrCorruptSignature
  | ErrMissingETag
  | ErrInvalidSignature
  | ErrInvalidS3ACL string
  | ErrInvalidAWSRegion string
  | ErrNoAvailableHosts
  | ErrSyntax
  | OtherErr string

text \<open>A Go function that does not return normally: it returns an error, or it panics.\<close>

datatype fault = Err go_err | Panic string

type_synonym 'a result = "fault + 'a"

definition bindR :: "'a result \<Rightarrow> ('a \<Rightarrow> 'b result) \<Rightarrow> 'b result" where
  "bindR r f = (case r of Inl e \<Rightarrow> Inl e | Inr x \<Rightarrow> f x)"

lemma bindR_simps [simp, go_simps]:
  "bindR (Inl e) f = Inl e"
  "bindR (Inr x) f = f x"
  by (simp_all add: bindR_def)

lemma bindR_eq_Inr_iff [go_simps]: "bindR r f = Inr y \<longleftrightarrow> (\<exists>x. r = Inr x \<and> f x = Inr y)"
  by (cases r) auto

lemma bindR_eq_Inl_iff [go_simps]:
  "bindR r f = Inl e \<longleftrightarrow> r = Inl e \<or> (\<exists>x. r = Inr x \<and> f x = Inl e)"
  by (cases r) auto

lemma bindR_assoc: "bindR (bindR r f) g = bindR r (\<lambda>x. bindR (f x) g)"
  by (cases r) auto

lemma bindR_cong [fundef_cong]:
  assumes "r = r'" and "\<And>x. r' = Inr x \<Longrightarrow> f x = g x"
  shows "bindR r f = bindR r' g"
  using assms by (cases r') auto

definition is_panic :: "'a result \<Rightarrow> bool" where
  "is_panic r = (case r of Inl (Panic _) \<Rightarrow> True | _ \<Rightarrow> False)"

lemma is_panic_simps [simp, go_simps]:
  "is_panic (Inr x) = False"
  "is_panic (Inl (Err e)) = False"
  "is_panic (Inl (Panic s)) = True"
  by (simp_all add: is_panic_def)

text \<open>Indexing a Go slice: a run-time panic out of range.\<close>

definition go_index :: "'a list \<Rightarrow> int \<Rightarrow> 'a result" where
  "go_index xs i =
     (if 0 \<le> i \<and> i < int (length xs) then Inr (xs ! nat i)
      else Inl (Panic ''index out of range''))"

text \<open>The slice expression xs[lo:hi] on a slice whose capacity is its length.\<close>

definition go_slice :: "'a list \<Rightarrow> int \<Rightarrow> int \<Rightarrow> 'a list result" where
  "go_slice xs lo hi =
     (if 0 \<le> lo \<and> lo \<le> hi \<and> hi \<le> int (length xs)
      then Inr (take (nat (hi - lo)) (drop (nat lo) xs))
      else Inl (Panic ''slice bounds out of range''))"

lemma go_index_panics_iff: "is_panic (go_index xs i) \<longleftrightarrow> i < 0 \<or> int (length xs) \<le> i"
  by (auto simp: go_index_def)

section \<open>Strings and bytes\<close>

text \<open>
  A Go string is a sequence of bytes: a HOL string, whose characters are bytes. The
  conversions string(data) and []byte(s) are explicit, as in the code.
\<close>

definition str_bytes :: "string \<Rightarrow> bytes" where
  "str_bytes s = map of_char s"

definition bytes_str :: "bytes \<Rightarrow> string" where
  "bytes_str bs = map (\<lambda>b. char_of (unat b)) bs"

lemma of_char_less: "(of_char c :: nat) < 256"
  by (metis mod_less_divisor of_char_mod_256 zero_less_numeral)

lemma unat_of_char: "unat (of_char c :: byte) = of_char c"
proof -
  have "(of_char c :: byte) = word_of_nat (of_char c :: nat)"
    by (simp only: of_nat_of_char)
  with of_char_less [of c] show ?thesis
    by (simp add: unat_of_nat)
qed

lemma char_of_byte [simp]: "char_of (unat (of_char c :: byte)) = c"
  by (simp add: unat_of_char)

lemma bytes_str_str_bytes [simp, wire_simps]: "bytes_str (str_bytes s) = s"
  by (simp add: bytes_str_def str_bytes_def comp_def)

lemma length_str_bytes [simp]: "length (str_bytes s) = length s"
  by (simp add: str_bytes_def)

lemma length_bytes_str [simp]: "length (bytes_str bs) = length bs"
  by (simp add: bytes_str_def)

lemma str_bytes_append [simp]: "str_bytes (s @ t) = str_bytes s @ str_bytes t"
  by (simp add: str_bytes_def)

lemma str_bytes_inject [simp]: "str_bytes s = str_bytes t \<longleftrightarrow> s = t"
  by (metis bytes_str_str_bytes)

end
