(* ===== verification/Varint.thy ===== *)
theory Varint
  imports Prelude
begin

text \<open>
  Variable-length integers: varint.go (ReadUvarint, WriteUvarint over the standard
  library's PutUvarint), and the helpers of log.pb.go (encodeVarintLog, sovLog, sozLog,
  encodeFixed64Log, the inlined reading loop of every Unmarshal and the zigzag of Ival).
  A reader or a slice is the list of bytes that are still to be read.
\<close>

section \<open>Writing\<close>

lemma unat_drop_7: "unat (drop_bit 7 x) = unat x div 128"
  using unat_drop_bit_eq [of 7 x] drop_bit_eq_div [of 7 "unat x"] by simp

lemma drop_7_zero_iff: "drop_bit 7 x = 0 \<longleftrightarrow> x < (0x80 :: u64)"
proof -
  have "drop_bit 7 x = 0 \<longleftrightarrow> unat (drop_bit 7 x) = 0"
    by (simp only: unat_eq_zero)
  also have "\<dots> \<longleftrightarrow> unat x < 128"
    by (simp only: unat_drop_7) auto
  finally show ?thesis
    by (simp add: word_less_nat_alt)
qed

lemma drop_7_less: "x \<ge> (0x80 :: u64) \<Longrightarrow> unat (drop_bit 7 x) < unat x"
  by (simp add: unat_drop_7 word_le_nat_alt)

lemma drop_7_less': "drop_bit 7 x \<noteq> (0 :: u64) \<Longrightarrow> unat (drop_bit 7 x) < unat x"
  by (rule drop_7_less) (simp add: drop_7_zero_iff)

text \<open>binary.PutUvarint: the bytes it puts into the buffer.\<close>

function PutUvarint :: "u64 \<Rightarrow> bytes" where
  "PutUvarint x =
     (if x \<ge> 0x80 then (ucast x OR 0x80) # PutUvarint (drop_bit 7 x) else [ucast x])"
  by pat_completeness auto
termination PutUvarint
  by (relation "measure unat") (auto simp: drop_7_less)

declare PutUvarint.simps [simp del]

text \<open>WriteUvarint: the bytes written to w.\<close>

definition WriteUvarint :: "bytes \<Rightarrow> u64 \<Rightarrow> bytes" where
  "WriteUvarint w x = w @ PutUvarint x"

text \<open>encodeVarintLog of log.pb.go: the bytes it stores from offset on.\<close>

function encodeVarintLog :: "u64 \<Rightarrow> bytes" where
  "encodeVarintLog v =
     (if v \<ge> 0x80 then ucast ((v AND 0x7F) OR 0x80) # encodeVarintLog (drop_bit 7 v)
      else [ucast v])"
  by pat_completeness auto
termination encodeVarintLog
  by (relation "measure unat") (auto simp: drop_7_less)

declare encodeVarintLog.simps [simp del]

text \<open>encodeFixed64Log: eight bytes, least significant first.\<close>

definition encodeFixed64Log :: "u64 \<Rightarrow> bytes" where
  "encodeFixed64Log v =
     [ucast v, ucast (drop_bit 8 v), ucast (drop_bit 16 v), ucast (drop_bit 24 v),
      ucast (drop_bit 32 v), ucast (drop_bit 40 v), ucast (drop_bit 48 v),
      ucast (drop_bit 56 v)]"

definition encodeFixed32Log :: "u32 \<Rightarrow> bytes" where
  "encodeFixed32Log v =
     [ucast v, ucast (drop_bit 8 v), ucast (drop_bit 16 v), ucast (drop_bit 24 v)]"

text \<open>sovLog: how many bytes encodeVarintLog takes, by a do-while loop.\<close>

function sovLog :: "u64 \<Rightarrow> nat" where
  "sovLog x = (let x' = drop_bit 7 x in if x' = 0 then 1 else Suc (sovLog x'))"
  by pat_completeness auto
termination sovLog
  by (relation "measure unat") (auto simp: drop_7_less')

declare sovLog.simps [simp del]

text \<open>The zigzag form of a signed value, and sozLog, the size of its varint.\<close>

definition zigzag :: "u64 \<Rightarrow> u64" where
  "zigzag x = push_bit 1 x XOR signed_drop_bit 63 x"

definition unzigzag :: "u64 \<Rightarrow> u64" where
  "unzigzag v = drop_bit 1 v XOR signed_drop_bit 63 (push_bit 63 (v AND 1))"

definition sozLog :: "u64 \<Rightarrow> nat" where
  "sozLog x = sovLog (push_bit 1 x XOR signed_drop_bit 63 x)"

section \<open>Reading\<close>

text \<open>
  ReadUvarint (varint.go): i counts the bytes, x is the value so far, s the shift. A
  reader at its end answers io.EOF. The overflow test comes only with the last byte.
\<close>

fun ReadUvarint_loop :: "nat \<Rightarrow> u64 \<Rightarrow> nat \<Rightarrow> bytes \<Rightarrow> (u64 \<times> bytes) result" where
  "ReadUvarint_loop i x s [] = Inl (Err EOF)"
| "ReadUvarint_loop i x s (b # r) =
     (if b < 0x80
      then (if i > 9 \<or> i = 9 \<and> b > 1 then Inl (Err ErrOverflow)
            else Inr (x OR push_bit s (ucast b), r))
      else ReadUvarint_loop (Suc i) (x OR push_bit s (ucast (b AND 0x7F))) (s + 7) r)"

definition ReadUvarint :: "bytes \<Rightarrow> (u64 \<times> bytes) result" where
  "ReadUvarint r = ReadUvarint_loop 0 0 0 r"

text \<open>
  The loop inlined in every Unmarshal of log.pb.go, at the width of its variable: no
  overflow test, and the bits are or-ed into what the variable already holds.
\<close>

fun read_varint :: "nat \<Rightarrow> 'a::len word \<Rightarrow> bytes \<Rightarrow> ('a word \<times> bytes) result" where
  "read_varint shift x [] = Inl (Err UnexpectedEOF)"
| "read_varint shift x (b # r) =
     (let x' = x OR push_bit shift (ucast b AND 0x7F)
      in if b < 0x80 then Inr (x', r) else read_varint (shift + 7) x' r)"

text \<open>The eight bytes of a fixed64 field.\<close>

fun read_fixed64 :: "bytes \<Rightarrow> (u64 \<times> bytes) result" where
  "read_fixed64 (b0 # b1 # b2 # b3 # b4 # b5 # b6 # b7 # r) =
     Inr (ucast b0 OR push_bit 8 (ucast b1) OR push_bit 16 (ucast b2) OR push_bit 24 (ucast b3)
          OR push_bit 32 (ucast b4) OR push_bit 40 (ucast b5) OR push_bit 48 (ucast b6)
          OR push_bit 56 (ucast b7), r)"
| "read_fixed64 _ = Inl (Err UnexpectedEOF)"

section \<open>Round trips\<close>

lemma bit_0x7F: "bit (0x7F :: 'a::len word) n \<longleftrightarrow> n < 7 \<and> n < LENGTH('a)"
proof -
  have "(0x7F :: 'a word) = mask 7" by (simp add: mask_eq_exp_minus_1)
  then show ?thesis by (simp only: bit_mask_iff) (auto simp: possible_bit_def)
qed

lemma bit_0x80: "bit (0x80 :: 'a::len word) n \<longleftrightarrow> n = 7 \<and> n < LENGTH('a)"
proof -
  have "(0x80 :: 'a word) = 2 ^ 7" by simp
  then show ?thesis by (simp only: bit_exp_iff) (auto simp: possible_bit_def)
qed

lemma bit_127_int: "bit (127 :: int) n \<longleftrightarrow> n < 7"
proof -
  have "(127 :: int) = mask 7" by (simp add: mask_eq_exp_minus_1)
  then show ?thesis by (simp only: bit_mask_iff) (auto simp: possible_bit_def)
qed

lemma bit_128_int: "bit (128 :: int) n \<longleftrightarrow> n = 7"
proof -
  have "(128 :: int) = 2 ^ 7" by simp
  then show ?thesis by (simp only: bit_exp_iff) (auto simp: possible_bit_def)
qed

lemmas bits_7 = bit_simps bit_0x7F bit_0x80 bit_127_int bit_128_int

lemma byte_less_0x80: "b < (0x80 :: byte) \<longleftrightarrow> \<not> bit b 7"
proof -
  have lt: "unat b < 256"
    using unsigned_less [of b, where ?'a = nat] by simp
  have "bit b 7 \<longleftrightarrow> bit (unat b) 7"
    by (simp add: bit_unsigned_iff)
  also have "\<dots> \<longleftrightarrow> odd (unat b div 128)"
    by (simp add: bit_iff_odd)
  also have "\<dots> \<longleftrightarrow> unat b \<ge> 128"
  proof -
    have "unat b div 128 < 2" using lt by (simp add: less_mult_imp_div_less)
    then have "odd (unat b div 128) \<longleftrightarrow> 0 < unat b div 128"
      by (auto simp: less_2_cases_iff)
    then show ?thesis by (simp add: div_greater_zero_iff)
  qed
  finally show ?thesis
    by (simp add: word_less_nat_alt not_le)
qed

lemma cont_byte_ge [simp, wire_simps]: "\<not> (b OR 0x80 < (0x80 :: byte))"
  by (simp add: byte_less_0x80 bits_7)

lemma last_byte_less: "x < (0x80 :: u64) \<Longrightarrow> (ucast x :: byte) < 0x80"
proof -
  assume "x < 0x80"
  then have "unat x < 128" by (simp add: word_less_nat_alt)
  then show ?thesis
    by (simp add: word_less_nat_alt unsigned_ucast_eq take_bit_nat_eq_self)
qed

text \<open>The two writers agree.\<close>

lemma cont_byte_eq: "ucast ((x AND 0x7F) OR 0x80) = (ucast (x :: u64) OR 0x80 :: byte)"
proof (rule bit_word_eqI)
  fix n assume "n < LENGTH(8)"
  then have "n < 7 \<or> n = 7" by auto
  then show "bit (ucast ((x AND 0x7F) OR 0x80) :: byte) n = bit (ucast x OR 0x80 :: byte) n"
    by (auto simp: bits_7)
qed

lemma encodeVarintLog_eq_PutUvarint: "encodeVarintLog v = PutUvarint v"
proof (induction v rule: PutUvarint.induct)
  case (1 x)
  then show ?case
    by (simp add: PutUvarint.simps [of x] encodeVarintLog.simps [of x] cont_byte_eq)
qed

text \<open>One step of reading: seven bits come back at their place.\<close>

lemma low_bits_or_high:
  "(x' OR push_bit s (ucast (ucast x OR 0x80 :: byte) AND 0x7F)) OR
     push_bit (s + 7) (ucast (drop_bit 7 x)) = x' OR (push_bit s (ucast (x :: u64)) :: 'a::len word)"
proof (rule bit_word_eqI)
  fix n assume n: "n < LENGTH('a)"
  consider "n < s" | "s \<le> n" "n - s < 7" | "s \<le> n" "n - s \<ge> 7" by linarith
  then show "bit ((x' OR push_bit s (ucast (ucast x OR 0x80 :: byte) AND 0x7F)) OR
     push_bit (s + 7) (ucast (drop_bit 7 x))) n = bit (x' OR (push_bit s (ucast x) :: 'a word)) n"
  proof cases
    case 1
    then show ?thesis by (simp add: bit_simps)
  next
    case 2
    with n show ?thesis by (auto simp: bits_7)
  next
    case 3
    with n show ?thesis by (auto simp: bits_7)
  qed
qed

lemma low_bit_less_7: "x < (0x80 :: u64) \<Longrightarrow> bit x n \<Longrightarrow> n < 7"
proof -
  assume "x < 0x80" and "bit x n"
  moreover from this have "x = take_bit 7 x"
    by (metis drop_7_zero_iff bits_ident push_bit_of_0 add.left_neutral)
  ultimately show "n < 7" by (metis bit_take_bit_iff)
qed

lemma last_bits:
  assumes "x < (0x80 :: u64)"
  shows "ucast (ucast x :: byte) AND 0x7F = (ucast x :: 'a::len word)"
  by (rule bit_word_eqI) (auto simp: bits_7 dest: low_bit_less_7 [OF assms])

lemma read_varint_PutUvarint:
  "read_varint s x' (PutUvarint x @ r) = Inr (x' OR push_bit s (ucast x), r)"
proof (induction x arbitrary: s x' rule: PutUvarint.induct)
  case (1 x)
  show ?case
  proof (cases "x \<ge> 0x80")
    case True
    have "read_varint s x' (PutUvarint x @ r) =
        read_varint (s + 7) (x' OR push_bit s (ucast (ucast x OR 0x80 :: byte) AND 0x7F))
          (PutUvarint (drop_bit 7 x) @ r)"
      using True by (simp add: PutUvarint.simps [of x])
    also have "\<dots> = Inr ((x' OR push_bit s (ucast (ucast x OR 0x80 :: byte) AND 0x7F)) OR
        push_bit (s + 7) (ucast (drop_bit 7 x)), r)"
      by (rule 1 [OF True])
    finally show ?thesis by (simp only: low_bits_or_high)
  next
    case False
    then show ?thesis
      by (simp add: PutUvarint.simps [of x] last_byte_less last_bits)
  qed
qed

lemmas read_varint_encode [wire_simps] =
  read_varint_PutUvarint [where x' = 0, simplified]
  read_varint_PutUvarint [where x' = 0, simplified, folded encodeVarintLog_eq_PutUvarint]

lemma ucast_low: "x < (0x80 :: u64) \<Longrightarrow> ucast (ucast x :: byte) = x"
  by (rule bit_word_eqI) (auto simp: bits_7 dest: low_bit_less_7)

lemma ucast_mask_byte: "ucast (b AND 0x7F :: byte) = (ucast b AND 0x7F :: 'a::len word)"
proof (rule bit_word_eqI)
  fix n
  show "bit (ucast (b AND 0x7F :: byte) :: 'a word) n \<longleftrightarrow> bit (ucast b AND 0x7F :: 'a word) n"
    by (cases "n < 7") (auto simp: bits_7)
qed

lemma ReadUvarint_loop_PutUvarint:
  "i \<le> 9 \<Longrightarrow> unat x < 2 ^ (64 - 7 * i) \<Longrightarrow>
   ReadUvarint_loop i x' (7 * i) (PutUvarint x @ r) = Inr (x' OR push_bit (7 * i) x, r)"
proof (induction x arbitrary: i x' rule: PutUvarint.induct)
  case (1 x)
  show ?case
  proof (cases "x \<ge> 0x80")
    case True
    then have ge: "128 \<le> unat x" by (simp add: word_le_nat_alt)
    have i: "i \<le> 8"
    proof (rule ccontr)
      assume "\<not> i \<le> 8"
      with "1.prems"(1) have "i = 9" by simp
      with "1.prems"(2) ge show False by simp
    qed
    then have "64 - 7 * i = (64 - 7 * Suc i) + 7" by simp
    then have "(2 :: nat) ^ (64 - 7 * i) = 2 ^ (64 - 7 * Suc i) * 128"
      by (simp only: power_add) simp
    with "1.prems"(2) have "unat (drop_bit 7 x) < 2 ^ (64 - 7 * Suc i)"
      by (simp only: unat_drop_7 less_mult_imp_div_less)
    moreover have "Suc i \<le> 9" using i by simp
    ultimately have IH: "ReadUvarint_loop (Suc i) y (7 * Suc i) (PutUvarint (drop_bit 7 x) @ r)
        = Inr (y OR push_bit (7 * Suc i) (drop_bit 7 x), r)" for y
      using "1.IH" [OF True] by blast
    have "ReadUvarint_loop i x' (7 * i) (PutUvarint x @ r) = ReadUvarint_loop (Suc i)
        (x' OR push_bit (7 * i) (ucast (ucast x OR 0x80 :: byte) AND 0x7F)) (7 * Suc i)
        (PutUvarint (drop_bit 7 x) @ r)"
      using True by (simp add: PutUvarint.simps [of x] ucast_mask_byte add.commute)
    also have "\<dots> = Inr (x' OR push_bit (7 * i) x, r)"
      unfolding IH
      using low_bits_or_high [of x' "7 * i" x] by (simp add: add.commute)
    finally show ?thesis .
  next
    case False
    have "(ucast x :: byte) \<le> 1" if "i = 9"
      using "1.prems"(2) False that
      by (simp add: word_le_nat_alt word_less_nat_alt unsigned_ucast_eq take_bit_nat_eq_self)
    with False "1.prems"(1) show ?thesis
      by (auto simp: PutUvarint.simps [of x] last_byte_less ucast_low not_less)
  qed
qed

lemma ReadUvarint_PutUvarint [wire_simps]: "ReadUvarint (PutUvarint x @ r) = Inr (x, r)"
proof -
  have "unat x < 2 ^ 64" using unsigned_less [of x, where ?'a = nat] by simp
  then show ?thesis
    using ReadUvarint_loop_PutUvarint [of 0 x 0 r] by (simp add: ReadUvarint_def)
qed

text \<open>Sizes.\<close>

lemma length_encodeVarintLog [simp]: "length (encodeVarintLog v) = sovLog v"
proof (induction v rule: encodeVarintLog.induct)
  case (1 x)
  show ?case
  proof (cases "x < 0x80")
    case True
    then have "\<not> 0x80 \<le> x" by (simp only: not_le)
    with True show ?thesis
      by (subst encodeVarintLog.simps, subst sovLog.simps) (simp add: Let_def drop_7_zero_iff)
  next
    case False
    then have "x \<ge> 0x80" by simp
    with 1 have "length (encodeVarintLog (drop_bit 7 x)) = sovLog (drop_bit 7 x)" by simp
    with False \<open>x \<ge> 0x80\<close> show ?thesis
      by (subst encodeVarintLog.simps, subst sovLog.simps) (simp add: Let_def drop_7_zero_iff)
  qed
qed

lemma sovLog_pos [simp]: "0 < sovLog x"
  by (simp add: sovLog.simps [of x] Let_def)

lemma sovLog_bound: "unat x < 2 ^ (7 * Suc n) \<Longrightarrow> sovLog x \<le> Suc n"
proof (induction n arbitrary: x)
  case 0
  then have "x < 0x80" by (simp add: word_less_nat_alt)
  then have "drop_bit 7 x = 0" by (simp only: drop_7_zero_iff)
  then show ?case by (simp add: sovLog.simps [of x] Let_def)
next
  case (Suc n)
  have "(2 :: nat) ^ (7 * Suc (Suc n)) = 2 ^ (7 * Suc n) * 128"
    by (simp add: power_add)
  with Suc.prems have "unat (drop_bit 7 x) < 2 ^ (7 * Suc n)"
    by (simp only: unat_drop_7 less_mult_imp_div_less)
  then have "sovLog (drop_bit 7 x) \<le> Suc n" by (rule Suc.IH)
  then show ?case by (simp add: sovLog.simps [of x] Let_def)
qed

lemma sovLog_le_10: "sovLog x \<le> 10"
proof -
  have "unat x < 2 ^ 64" using unsigned_less [of x, where ?'a = nat] by simp
  also have "(2 :: nat) ^ 64 \<le> 2 ^ (7 * Suc 9)" by (rule power_increasing) auto
  finally show ?thesis using sovLog_bound [of x 9] by simp
qed

text \<open>Zigzag.\<close>

lemma bit_signed_drop_63: "k < 64 \<Longrightarrow> bit (signed_drop_bit 63 (x :: u64)) k \<longleftrightarrow> bit x 63"
  by (cases k) (simp_all add: bit_signed_drop_bit_iff)

lemma bit_zigzag: "k < 64 \<Longrightarrow> bit (zigzag x) k \<longleftrightarrow> (1 \<le> k \<and> bit x (k - 1)) \<noteq> bit x 63"
proof -
  assume k: "k < 64"
  have "bit (push_bit 1 x) k \<longleftrightarrow> 1 \<le> k \<and> bit x (k - 1)"
    using k by (simp only: bit_push_bit_iff possible_bit_word) simp
  with k show ?thesis
    by (simp only: zigzag_def bit_xor_iff bit_signed_drop_63)
qed

lemma bit_unzigzag:
  "k < 64 \<Longrightarrow> bit (unzigzag v) k \<longleftrightarrow> (Suc k < 64 \<and> bit v (Suc k)) \<noteq> bit v 0"
proof -
  assume k: "k < 64"
  have "bit (push_bit 63 (v AND 1)) 63 \<longleftrightarrow> bit v 0"
    by (simp only: bit_push_bit_iff bit_and_iff possible_bit_word bit_1_iff) simp
  moreover have "bit (drop_bit 1 v) k \<longleftrightarrow> Suc k < 64 \<and> bit v (Suc k)"
    by (auto simp only: bit_drop_bit_eq comp_apply dest: bit_imp_le_length) (auto dest: bit_imp_le_length)
  ultimately show ?thesis
    using k by (simp only: unzigzag_def bit_xor_iff bit_signed_drop_63)
qed

lemma unzigzag_zigzag [simp, wire_simps]: "unzigzag (zigzag x) = x"
proof (rule bit_word_eqI)
  fix n assume "n < LENGTH(64)"
  then consider "n = 63" | "Suc n < 64" by fastforce
  then show "bit (unzigzag (zigzag x)) n = bit x n"
    by cases (auto simp: bit_unzigzag bit_zigzag)
qed

lemma sozLog_eq: "sozLog x = sovLog (zigzag x)"
  by (simp add: sozLog_def zigzag_def)

text \<open>Fixed-width values.\<close>

lemma length_encodeFixed64Log [simp]: "length (encodeFixed64Log v) = 8"
  by (simp add: encodeFixed64Log_def)

lemma read_fixed64_encode [wire_simps]: "read_fixed64 (encodeFixed64Log v @ r) = Inr (v, r)"
proof -
  have "ucast (ucast v :: byte) OR push_bit 8 (ucast (ucast (drop_bit 8 v) :: byte)) OR
     push_bit 16 (ucast (ucast (drop_bit 16 v) :: byte)) OR
     push_bit 24 (ucast (ucast (drop_bit 24 v) :: byte)) OR
     push_bit 32 (ucast (ucast (drop_bit 32 v) :: byte)) OR
     push_bit 40 (ucast (ucast (drop_bit 40 v) :: byte)) OR
     push_bit 48 (ucast (ucast (drop_bit 48 v) :: byte)) OR
     push_bit 56 (ucast (ucast (drop_bit 56 v) :: byte)) = v" (is "?l = v")
  proof (rule bit_word_eqI)
    fix n assume "n < LENGTH(64)"
    then have n: "n < 64" by simp
    consider "n < 8" | "8 \<le> n" "n < 16" | "16 \<le> n" "n < 24" | "24 \<le> n" "n < 32" |
      "32 \<le> n" "n < 40" | "40 \<le> n" "n < 48" | "48 \<le> n" "n < 56" | "56 \<le> n"
      by linarith
    then show "bit ?l n = bit v n"
      using n by cases (simp_all add: bit_simps less_diff_conv2)
  qed
  then show ?thesis by (simp add: encodeFixed64Log_def)
qed

text \<open>A strict prefix of an encoding is all continuation bytes.\<close>

lemma ReadUvarint_loop_prefix:
  "n < length (PutUvarint x) \<Longrightarrow> ReadUvarint_loop i x' s (take n (PutUvarint x)) = Inl (Err EOF)"
proof (induction x arbitrary: n i x' s rule: PutUvarint.induct)
  case (1 x)
  show ?case
  proof (cases n)
    case (Suc k)
    with "1.prems" have ge: "x \<ge> 0x80" by (simp add: PutUvarint.simps [of x] split: if_splits)
    with Suc "1.prems" have "k < length (PutUvarint (drop_bit 7 x))"
      by (simp add: PutUvarint.simps [of x])
    with "1.IH" [OF ge] Suc ge show ?thesis
      by (simp add: PutUvarint.simps [of x])
  qed simp
qed

section \<open>Properties\<close>

text \<open>
  the varints of the stream framing. Writing takes one to ten bytes and as many as sovLog
  says; reading gives the value back and stops right behind it; input that ends inside a
  varint is EOF, and a tenth byte above 1 is ErrOverflow instead of a wrapped value.
\<close>

lemma uvarint_roundtrip:
  "ReadUvarint (WriteUvarint [] x @ r) = Inr (x, r) \<and>
   length (WriteUvarint w x) = length w + sovLog x \<and> 0 < sovLog x \<and> sovLog x \<le> 10 \<and>
   (n < sovLog x \<longrightarrow> ReadUvarint (take n (WriteUvarint [] x)) = Inl (Err EOF)) \<and>
   (1 < b \<and> b < 0x80 \<longrightarrow> ReadUvarint (replicate 9 0xFF @ b # r) = Inl (Err ErrOverflow))"
proof -
  have "length (PutUvarint x) = sovLog x"
    using length_encodeVarintLog [of x] by (simp add: encodeVarintLog_eq_PutUvarint)
  moreover have "ReadUvarint (replicate 9 0xFF @ b # r) = Inl (Err ErrOverflow)"
    if "1 < b" "b < 0x80"
  proof -
    have "replicate 9 (0xFF :: byte) = [0xFF, 0xFF, 0xFF, 0xFF, 0xFF, 0xFF, 0xFF, 0xFF, 0xFF]"
      by code_simp
    with that show ?thesis by (simp add: ReadUvarint_def)
  qed
  ultimately show ?thesis
    by (auto simp: WriteUvarint_def ReadUvarint_PutUvarint sovLog_le_10 ReadUvarint_loop_prefix
        ReadUvarint_def [of "take n (PutUvarint x)"])
qed

lemma uvarint_roundtrip_witness:
  "ReadUvarint (take 1 (WriteUvarint [] 300)) = Inl (Err EOF)"
proof -
  have "sovLog 300 = 2" by code_simp
  then show ?thesis using uvarint_roundtrip [of 300 "[]" "[]" 1 0] by simp
qed

end
