(* ===== verification/Decimal.thy ===== *)
theory Decimal
  imports Prelude
begin

text \<open>
  Decimal numbers as the sources print and read them: strconv.FormatInt and \<open>%d\<close> in base
  ten, strconv.ParseInt and strconv.Atoi, and the prefix, search and trimming functions of
  package strings that the sources use.
\<close>

section \<open>Printing\<close>

definition digit_char :: "nat \<Rightarrow> char" where
  "digit_char d = char_of (48 + d)"

fun nat_dec :: "nat \<Rightarrow> string" where
  "nat_dec n = (if n < 10 then [digit_char n] else nat_dec (n div 10) @ [digit_char (n mod 10)])"

declare nat_dec.simps [simp del]

definition int_dec :: "int \<Rightarrow> string" where
  "int_dec i = (if i < 0 then ''-'' @ nat_dec (nat (- i)) else nat_dec (nat i))"

text \<open>strconv.FormatInt(i, 10) of an int64.\<close>

definition FormatInt :: "u64 \<Rightarrow> string" where
  "FormatInt i = int_dec (sint i)"

section \<open>Reading\<close>

definition is_digit :: "char \<Rightarrow> bool" where
  "is_digit c \<longleftrightarrow> 48 \<le> (of_char c :: nat) \<and> (of_char c :: nat) \<le> 57"

definition digit_of :: "char \<Rightarrow> nat" where
  "digit_of c = of_char c - 48"

definition digits_val :: "string \<Rightarrow> nat" where
  "digits_val s = foldl (\<lambda>n c. n * 10 + digit_of c) 0 s"

datatype parse_int = Parsed int | BadSyntax | OutOfRange int

text \<open>
  strconv.ParseInt(s, 10, bits): an optional sign and digits. Out of range, the value next
  to the error is the nearest int of that size; after a syntax error it is 0.
\<close>

definition ParseInt10 :: "nat \<Rightarrow> string \<Rightarrow> parse_int" where
  "ParseInt10 bits s =
     (let (neg, ds) = (case s of
            [] \<Rightarrow> (False, [])
          | c # cs \<Rightarrow> if c = CHR ''-'' then (True, cs)
                      else if c = CHR ''+'' then (False, cs) else (False, s))
      in if ds = [] \<or> \<not> list_all is_digit ds then BadSyntax
         else let v = int (digits_val ds); lim = 2 ^ (bits - 1)
              in if neg then (if v > lim then OutOfRange (- lim) else Parsed (- v))
                 else (if v \<ge> lim then OutOfRange (lim - 1) else Parsed v))"

text \<open>The value ParseInt returns next to whatever error.\<close>

definition parse_value :: "parse_int \<Rightarrow> int" where
  "parse_value p = (case p of Parsed v \<Rightarrow> v | BadSyntax \<Rightarrow> 0 | OutOfRange v \<Rightarrow> v)"

text \<open>strconv.Atoi on a 64-bit machine.\<close>

definition Atoi :: "string \<Rightarrow> int result" where
  "Atoi s = (case ParseInt10 64 s of Parsed v \<Rightarrow> Inr v | _ \<Rightarrow> Inl (Err ErrSyntax))"

section \<open>Package strings\<close>

definition HasPrefix :: "string \<Rightarrow> string \<Rightarrow> bool" where
  "HasPrefix s p \<longleftrightarrow> take (length p) s = p"

definition HasSuffix :: "string \<Rightarrow> string \<Rightarrow> bool" where
  "HasSuffix s p \<longleftrightarrow> length p \<le> length s \<and> drop (length s - length p) s = p"

text \<open>strings.IndexByte and bytes.IndexByte: None is -1.\<close>

fun IndexByte :: "'a list \<Rightarrow> 'a \<Rightarrow> nat option" where
  "IndexByte [] c = None"
| "IndexByte (x # xs) c = (if x = c then Some 0 else map_option Suc (IndexByte xs c))"

definition ContainsByte :: "string \<Rightarrow> char \<Rightarrow> bool" where
  "ContainsByte s c \<longleftrightarrow> c \<in> set s"

text \<open>strings.Split(s, sep) for a separator of one byte.\<close>

fun SplitByte :: "char \<Rightarrow> string \<Rightarrow> string list" where
  "SplitByte sep [] = [[]]"
| "SplitByte sep (c # cs) =
     (if c = sep then [] # SplitByte sep cs
      else case SplitByte sep cs of [] \<Rightarrow> [[c]] | p # ps \<Rightarrow> (c # p) # ps)"

text \<open>strings.ToLower on ASCII letters; other bytes are unchanged.\<close>

definition lower_char :: "char \<Rightarrow> char" where
  "lower_char c =
     (let n = of_char c :: nat in if 65 \<le> n \<and> n \<le> 90 then char_of (n + 32) else c)"

definition ToLower :: "string \<Rightarrow> string" where
  "ToLower s = map lower_char s"

text \<open>The ASCII white space of strings.TrimSpace.\<close>

definition is_space :: "char \<Rightarrow> bool" where
  "is_space c \<longleftrightarrow> of_char c \<in> {9, 10, 11, 12, 13, 32 :: nat}"

definition TrimRightIf :: "(char \<Rightarrow> bool) \<Rightarrow> string \<Rightarrow> string" where
  "TrimRightIf p s = rev (dropWhile p (rev s))"

definition TrimSpace :: "string \<Rightarrow> string" where
  "TrimSpace s = TrimRightIf is_space (dropWhile is_space s)"

section \<open>Lemmas\<close>

lemma IndexByte_less: "IndexByte xs c = Some i \<Longrightarrow> i < length xs"
  by (induction xs arbitrary: i) (auto split: if_splits)

lemma IndexByte_at: "c \<notin> set s \<Longrightarrow> IndexByte (s @ c # t) c = Some (length s)"
  by (induction s) auto

lemma IndexByte_none: "c \<notin> set s \<Longrightarrow> IndexByte s c = None"
  by (induction s) auto


lemma digit_char_props:
  assumes "d < 10"
  shows "is_digit (digit_char d)" and "digit_of (digit_char d) = d"
  using assms by (simp_all add: is_digit_def digit_of_def digit_char_def)

lemma nat_dec_nonempty [simp]: "nat_dec n \<noteq> []"
  by (subst nat_dec.simps) simp

lemma nat_dec_digits [simp]: "list_all is_digit (nat_dec n)"
proof (induction n rule: nat_dec.induct)
  case (1 n)
  then show ?case
    by (subst nat_dec.simps) (simp add: digit_char_props)
qed

lemma digits_val_snoc: "digits_val (s @ [c]) = digits_val s * 10 + digit_of c"
  by (simp add: digits_val_def)

lemma digits_val_nat_dec [simp]: "digits_val (nat_dec n) = n"
proof (induction n rule: nat_dec.induct)
  case (1 n)
  show ?case
  proof (cases "n < 10")
    case True
    then show ?thesis
      by (subst nat_dec.simps) (simp add: digits_val_def digit_char_props)
  next
    case False
    with 1 show ?thesis
      by (subst nat_dec.simps) (simp add: digits_val_snoc digit_char_props)
  qed
qed

lemma nat_dec_hd: "hd (nat_dec n) \<noteq> CHR ''-'' \<and> hd (nat_dec n) \<noteq> CHR ''+''"
proof -
  have "is_digit (hd (nat_dec n))"
    using nat_dec_digits [of n] nat_dec_nonempty [of n]
    by (cases "nat_dec n") auto
  then show ?thesis by (auto simp: is_digit_def)
qed

lemma nat_dec_hd_zero: "hd (nat_dec n) = CHR ''0'' \<Longrightarrow> nat_dec n = ''0''"
proof (induction n rule: nat_dec.induct)
  case (1 n)
  have small: "digit_char d = CHR ''0'' \<longleftrightarrow> d = 0" if "d < 10" for d
  proof -
    have "digit_of (digit_char d) = d" using that by (rule digit_char_props(2))
    then show ?thesis by (auto simp: digit_char_def char_of_def bit_simps digit_of_def)
  qed
  show ?case
  proof (cases "n < 10")
    case True
    with "1.prems" show ?thesis by (simp add: nat_dec.simps [of n])
  next
    case False
    then have "hd (nat_dec (n div 10)) = CHR ''0''"
      using "1.prems" by (simp add: nat_dec.simps [of n] hd_append)
    with "1.IH" [OF False] have "digits_val (nat_dec (n div 10)) = digits_val ''0''" by simp
    then have "n div 10 = 0"
      by (simp only: digits_val_nat_dec) (simp add: digits_val_def digit_of_def)
    with False show ?thesis by simp
  qed
qed

lemma ParseInt10_int_dec:
  assumes "- (2 ^ (bits - 1)) \<le> i" and "i < 2 ^ (bits - 1)"
  shows "ParseInt10 bits (int_dec i) = Parsed i"
proof (cases "i < 0")
  case True
  with assms show ?thesis
    by (simp add: ParseInt10_def int_dec_def Let_def)
next
  case False
  obtain c cs where d: "nat_dec (nat i) = c # cs"
    using nat_dec_nonempty [of "nat i"] by (cases "nat_dec (nat i)") auto
  with nat_dec_hd [of "nat i"] have "c \<noteq> CHR ''-''" "c \<noteq> CHR ''+''" by auto
  moreover from d have "list_all is_digit (c # cs)" "digits_val (c # cs) = nat i"
    using nat_dec_digits [of "nat i"] digits_val_nat_dec [of "nat i"] by simp_all
  ultimately show ?thesis
    using False assms d by (simp add: ParseInt10_def int_dec_def Let_def)
qed

text \<open>Every int64 that FormatInt prints, ParseInt reads back.\<close>

lemma ParseInt_FormatInt [simp]: "ParseInt10 64 (FormatInt i) = Parsed (sint i)"
proof -
  have "- (2 ^ 63) \<le> sint i" "sint i < 2 ^ 63"
    using sint_greater_eq [of i] sint_less [of i] by simp_all
  then show ?thesis
    unfolding FormatInt_def by (intro ParseInt10_int_dec) simp_all
qed

end
