(* ===== verification/Symbols.thy ===== *)
theory Symbols
  imports Prelude Decimal
begin

text \<open>
  symbols.go: the table that gives the common attribute keys small numbers. A table is a
  map from strings to numbers and the list of the strings, which starts with a reserved
  entry so that 0 is no symbol. The tables of the message versions are built by the
  package's init.
\<close>

record symbols =
  StrToIndex :: "string \<rightharpoonup> u32"
  IndexToStr :: "string list"

definition newSymbols :: symbols where
  "newSymbols = \<lparr>StrToIndex = Map.empty, IndexToStr = [''-'']\<rparr>"

fun symbols_Append :: "symbols \<Rightarrow> string list \<Rightarrow> symbols result" where
  "symbols_Append s [] = Inr s"
| "symbols_Append s (str # strings) =
     (case StrToIndex s str of
        Some _ \<Rightarrow> Inl (Panic (''already assigned '' @ str))
      | None \<Rightarrow>
          (let idx = length (IndexToStr s)
           in symbols_Append
                (s\<lparr>IndexToStr := IndexToStr s @ [str],
                   StrToIndex := (StrToIndex s)(str \<mapsto> of_nat idx)\<rparr>) strings))"

text \<open>FromIndex: the comparison is on uint32, and the last index it lets through is the length.\<close>

definition FromIndex :: "symbols \<Rightarrow> u32 \<Rightarrow> string result" where
  "FromIndex s i =
     (if i > of_nat (length (IndexToStr s)) then Inr (''symbol'' @ nat_dec (unat i))
      else go_index (IndexToStr s) (uint i))"

text \<open>FindIndex: None is the answer (0, false).\<close>

definition FindIndex :: "symbols \<Rightarrow> string \<Rightarrow> u32 option" where
  "FindIndex s str = StrToIndex s str"

definition init_symbols :: "symbols list result" where
  "init_symbols =
     bindR (symbols_Append newSymbols [''message'', ''value'', ''source'']) (\<lambda>v1.
     bindR (symbols_Append v1 [''host'', ''facility'', ''severity'', ''tag'', ''pid'']) (\<lambda>v1.
     bindR (symbols_Append v1 [''name'', ''type'']) (\<lambda>v1.
     Inr [v1, v1])))"

text \<open>The variable that init sets; a panic of init would end the program before any use.\<close>

definition versionSymbols :: "symbols list" where
  "versionSymbols = (case init_symbols of Inr vs \<Rightarrow> vs | Inl _ \<Rightarrow> [])"

section \<open>Lemmas\<close>

text \<open>The map and the list name the same numbers, and 0 is not one of them.\<close>

definition symbols_wf :: "symbols \<Rightarrow> bool" where
  "symbols_wf s \<longleftrightarrow>
     IndexToStr s \<noteq> [] \<and> length (IndexToStr s) < 2 ^ 32 \<and>
     (\<forall>str i. StrToIndex s str = Some i \<longleftrightarrow>
        0 < unat i \<and> unat i < length (IndexToStr s) \<and> IndexToStr s ! unat i = str)"

lemma symbols_wf_new [inv_intros]: "symbols_wf newSymbols"
  by (auto simp: symbols_wf_def newSymbols_def)

lemma symbols_wf_add:
  assumes "symbols_wf s" and "StrToIndex s str = None" and "Suc (length (IndexToStr s)) < 2 ^ 32"
  shows "symbols_wf (s\<lparr>IndexToStr := IndexToStr s @ [str],
           StrToIndex := (StrToIndex s)(str \<mapsto> of_nat (length (IndexToStr s)))\<rparr>)"
proof -
  have len: "unat (of_nat (length (IndexToStr s)) :: u32) = length (IndexToStr s)"
    using assms(3) by (simp add: unat_of_nat)
  have old: "StrToIndex s x = Some i \<longleftrightarrow>
      0 < unat i \<and> unat i < length (IndexToStr s) \<and> IndexToStr s ! unat i = x" for x i
    using assms(1) by (simp add: symbols_wf_def)
  have new: "i = of_nat (length (IndexToStr s)) \<longleftrightarrow> unat i = length (IndexToStr s)" for i :: u32
    by (simp only: word_eq_iff_unsigned [where ?'a = nat] len)
  have pos: "IndexToStr s \<noteq> []" using assms(1) by (simp add: symbols_wf_def)
  have none: "unat i < length (IndexToStr s) \<Longrightarrow> 0 < unat i \<Longrightarrow> IndexToStr s ! unat i \<noteq> str"
    for i :: u32
    using old [of str i] assms(2) by auto
  show ?thesis
    unfolding symbols_wf_def
    using assms(3) pos none by (auto simp: nth_append less_Suc_eq old new len eq_commute [of "of_nat _"])
qed

lemma symbols_Append_wf [inv_intros]:
  "symbols_Append s strs = Inr s' \<Longrightarrow> symbols_wf s \<Longrightarrow>
   length (IndexToStr s) + length strs < 2 ^ 32 \<Longrightarrow> symbols_wf s'"
proof (induction s strs rule: symbols_Append.induct)
  case (1 s)
  then show ?case by simp
next
  case (2 s str strings)
  then show ?case
    by (auto simp: Let_def symbols_wf_add split: option.splits)
qed

lemma symbols_Append_names:
  "symbols_Append s strs = Inr s' \<Longrightarrow> IndexToStr s' = IndexToStr s @ strs"
  by (induction s strs rule: symbols_Append.induct) (auto simp: Let_def split: option.splits)

lemma FindIndex_FromIndex:
  assumes "symbols_wf s" and "FindIndex s str = Some i"
  shows "FromIndex s i = Inr str" and "i \<noteq> 0"
proof -
  have i: "0 < unat i" "unat i < length (IndexToStr s)" "IndexToStr s ! unat i = str"
    using assms by (auto simp: symbols_wf_def FindIndex_def)
  have "unat (of_nat (length (IndexToStr s)) :: u32) = length (IndexToStr s)"
    using assms(1) by (simp add: symbols_wf_def unat_of_nat)
  with i have "\<not> i > of_nat (length (IndexToStr s))"
    by (simp add: word_less_nat_alt)
  with i show "FromIndex s i = Inr str"
    by (simp add: FromIndex_def go_index_def flip: nat_uint_eq)
  from i show "i \<noteq> 0" by auto
qed

text \<open>What init leaves: two copies of a table of ten symbols.\<close>

definition v1_names :: "string list" where
  "v1_names = [''-'', ''message'', ''value'', ''source'', ''host'', ''facility'', ''severity'',
     ''tag'', ''pid'', ''name'', ''type'']"

lemma versionSymbols_eq:
  "\<exists>v1. versionSymbols = [v1, v1] \<and> IndexToStr v1 = v1_names \<and> symbols_wf v1"
proof -
  have "\<exists>v1. init_symbols = Inr [v1, v1] \<and> IndexToStr v1 = v1_names"
    unfolding init_symbols_def newSymbols_def v1_names_def by simp
  then obtain v1 where v1: "init_symbols = Inr [v1, v1]" and names: "IndexToStr v1 = v1_names"
    by blast
  from v1 obtain a b where
    a: "symbols_Append newSymbols [''message'', ''value'', ''source''] = Inr a" and
    b: "symbols_Append a [''host'', ''facility'', ''severity'', ''tag'', ''pid''] = Inr b" and
    c: "symbols_Append b [''name'', ''type''] = Inr v1"
    unfolding init_symbols_def by (auto simp only: bindR_eq_Inr_iff sum.inject list.inject)
  have "symbols_wf a"
    by (rule symbols_Append_wf [OF a symbols_wf_new]) (simp add: newSymbols_def)
  moreover from symbols_Append_names [OF a] have "length (IndexToStr a) = 4"
    by (simp add: newSymbols_def)
  ultimately have "symbols_wf b"
    by (intro symbols_Append_wf [OF b]) simp_all
  moreover from symbols_Append_names [OF b] \<open>length (IndexToStr a) = 4\<close>
  have "length (IndexToStr b) = 9" by simp
  ultimately have "symbols_wf v1"
    by (intro symbols_Append_wf [OF c]) simp_all
  then show ?thesis
    unfolding versionSymbols_def v1 by (intro exI [of _ v1]) (simp add: names)
qed

lemma unat_11: "unat (11 :: u32) = 11"
  by simp

lemma versionSymbols_set:
  assumes "sy \<in> set versionSymbols"
  shows "IndexToStr sy = v1_names \<and> symbols_wf sy"
proof -
  obtain v1 where "versionSymbols = [v1, v1]" and v1: "IndexToStr v1 = v1_names \<and> symbols_wf v1"
    using versionSymbols_eq by blast
  from assms have "sy = v1" unfolding \<open>versionSymbols = [v1, v1]\<close> by simp
  with v1 show ?thesis by simp
qed

text \<open>
  every table of versionSymbols and its inverse agree: FindIndex answers i for a string
  exactly when i is a nonzero index below the length at which FromIndex gives the string back;
  above the length FromIndex answers the placeholder symbolN, and at the length itself, the
  one index its guard lets through by mistake, it panics.
\<close>

lemma symbols_inverse:
  assumes "sy \<in> set versionSymbols"
  shows "(FindIndex sy str = Some i \<longleftrightarrow> i \<noteq> 0 \<and> unat i < 11 \<and> FromIndex sy i = Inr str)
     \<and> (unat i > 11 \<longrightarrow> FromIndex sy i = Inr (''symbol'' @ nat_dec (unat i)))
     \<and> (is_panic (FromIndex sy i) \<longleftrightarrow> i = 11)"
proof -
  from versionSymbols_set [OF assms] have names: "length (IndexToStr sy) = 11" and wf: "symbols_wf sy"
    by (auto simp: v1_names_def)
  have len: "(of_nat (length (IndexToStr sy)) :: u32) = 11" by (simp add: names)
  have gt: "i > 11 \<longleftrightarrow> unat i > 11"
    unfolding word_less_nat_alt [of 11 i] unat_11 by (rule refl)
  have eq: "i = 11 \<longleftrightarrow> unat i = 11"
    unfolding word_unat_eq_iff [of i 11] unat_11 by (rule refl)
  note idx = gt eq
  have from_idx: "FromIndex sy i = (if unat i > 11 then Inr (''symbol'' @ nat_dec (unat i))
      else if unat i = 11 then Inl (Panic ''index out of range'') else Inr (IndexToStr sy ! unat i))"
    unfolding FromIndex_def len gt by (auto simp: go_index_def names simp flip: nat_uint_eq)
  have find: "FindIndex sy str = Some i \<longleftrightarrow>
      0 < unat i \<and> unat i < 11 \<and> IndexToStr sy ! unat i = str"
    using wf by (simp add: symbols_wf_def FindIndex_def names)
  have nz: "i \<noteq> 0 \<longleftrightarrow> 0 < unat i" by (simp add: unat_gt_0)
  show ?thesis
    unfolding find from_idx idx(2) nz by simp
qed

lemma symbols_inverse_witness:
  "FindIndex (versionSymbols ! 1) ''host'' = Some 4 \<and> FromIndex (versionSymbols ! 1) 4 = Inr ''host''"
proof -
  obtain v1 where vs: "versionSymbols = [v1, v1]" "IndexToStr v1 = v1_names"
    using versionSymbols_eq by blast
  then have "FromIndex v1 4 = Inr ''host''"
    by (simp add: FromIndex_def v1_names_def go_index_def)
  moreover have "(FindIndex v1 ''host'' = Some 4 \<longleftrightarrow>
      (4 :: u32) \<noteq> 0 \<and> unat (4 :: u32) < 11 \<and> FromIndex v1 4 = Inr ''host'')"
    using symbols_inverse [of v1 "''host''" 4] unfolding vs(1) by simp
  ultimately have "FindIndex v1 ''host'' = Some 4 \<and> FromIndex v1 4 = Inr ''host''" by simp
  then show ?thesis unfolding vs(1) by simp
qed

end
