(* ===== verification/Message.thy ===== *)
theory Message
  imports Symbols
begin

text \<open>
  The data of the program: Interval, Attribute, Tag and Message (the structs of log.pb.go)
  and the operations of log.go on them: the constructors, StringKey, the typed getters, the
  tags, SetKey and the typed AddX operations, and the two Remove operations, whose loop
  runs over the slice it shortens. The timestamp is a value of another package (tai64n), so
  its type is a parameter. A float64 is its bit pattern; pointers to scalars are options.
\<close>

type_synonym float64 = "64 word"

record interval =
  Seconds :: u64
  Nanoseconds :: u32
  IUnrecognized :: bytes

record attribute =
  Key :: u32
  Skey :: "string option"
  Ival :: "u64 option"
  Sval :: "string option"
  Bval :: "bytes option"
  Tval :: "interval option"
  Boolval :: "bool option"
  Fval :: "float64 option"
  AUnrecognized :: bytes

record tag =
  TName :: string
  TValue :: "string option"
  TUnrecognized :: bytes

record 'ts message =
  Version :: u32
  Timestamp :: "'ts option"
  MType :: "u32 option"
  Attributes :: "attribute list"
  SessionId :: "string option"
  Tags :: "tag list"
  MUnrecognized :: bytes

definition LOG :: u32 where "LOG = 0"
definition METRIC :: u32 where "METRIC = 1"
definition TRACE :: u32 where "TRACE = 2"
definition AUDIT :: u32 where "AUDIT = 3"
definition HEARTBEAT :: u32 where "HEARTBEAT = 4"
definition DEFAULT_VERSION :: u32 where "DEFAULT_VERSION = 1"

lemmas type_codes = LOG_def METRIC_def TRACE_def AUDIT_def HEARTBEAT_def

text \<open>The zero values of the structs.\<close>

definition zero_interval :: interval where
  "zero_interval = \<lparr>Seconds = 0, Nanoseconds = 0, IUnrecognized = []\<rparr>"

definition zero_attribute :: attribute where
  "zero_attribute = \<lparr>Key = 0, Skey = None, Ival = None, Sval = None, Bval = None, Tval = None,
     Boolval = None, Fval = None, AUnrecognized = []\<rparr>"

definition zero_tag :: tag where
  "zero_tag = \<lparr>TName = '''', TValue = None, TUnrecognized = []\<rparr>"

definition zero_message :: "'ts message" where
  "zero_message = \<lparr>Version = 0, Timestamp = None, MType = None, Attributes = [],
     SessionId = None, Tags = [], MUnrecognized = []\<rparr>"

section \<open>Constructors\<close>

text \<open>The argument is the value of tai64n.Now().\<close>

definition NewMessage :: "'ts \<Rightarrow> 'ts message" where
  "NewMessage now = zero_message\<lparr>Version := DEFAULT_VERSION, Timestamp := Some now\<rparr>"

definition Log :: "'ts \<Rightarrow> 'ts message" where
  "Log now = zero_message\<lparr>Version := DEFAULT_VERSION, Timestamp := Some now, MType := Some LOG\<rparr>"

definition Metric :: "'ts \<Rightarrow> 'ts message" where
  "Metric now =
     zero_message\<lparr>Version := DEFAULT_VERSION, Timestamp := Some now, MType := Some METRIC\<rparr>"

definition Trace :: "'ts \<Rightarrow> 'ts message" where
  "Trace now =
     zero_message\<lparr>Version := DEFAULT_VERSION, Timestamp := Some now, MType := Some TRACE\<rparr>"

definition Audit :: "'ts \<Rightarrow> 'ts message" where
  "Audit now =
     zero_message\<lparr>Version := DEFAULT_VERSION, Timestamp := Some now, MType := Some AUDIT\<rparr>"

definition Heartbeat :: "'ts \<Rightarrow> 'ts message" where
  "Heartbeat now =
     zero_message\<lparr>Version := DEFAULT_VERSION, Timestamp := Some now, MType := Some HEARTBEAT\<rparr>"

definition GetType :: "'ts message \<Rightarrow> u32" where
  "GetType m = (case MType m of Some t \<Rightarrow> t | None \<Rightarrow> 0)"

definition GetSessionId :: "'ts message \<Rightarrow> string" where
  "GetSessionId m = (case SessionId m of Some s \<Rightarrow> s | None \<Rightarrow> '''')"

definition StringType :: "'ts message \<Rightarrow> string" where
  "StringType m =
     (if GetType m = LOG then ''log''
      else if GetType m = METRIC then ''metric''
      else if GetType m = TRACE then ''trace''
      else if GetType m = AUDIT then ''audit''
      else if GetType m = HEARTBEAT then ''heartbeat''
      else ''unknown'')"

text \<open>For: set the session id.\<close>

definition For :: "'ts message \<Rightarrow> string \<Rightarrow> 'ts message" where
  "For m sid = m\<lparr>SessionId := Some sid\<rparr>"

section \<open>Keys\<close>

text \<open>versionSymbols[m.Version]: a panic when the version has no table.\<close>

definition version_table :: "'ts message \<Rightarrow> symbols result" where
  "version_table m = go_index versionSymbols (sint (Version m))"

definition StringKey :: "'ts message \<Rightarrow> attribute \<Rightarrow> string result" where
  "StringKey m a =
     (if Key a \<noteq> 0 then bindR (version_table m) (\<lambda>sy. FromIndex sy (Key a))
      else Inr (case Skey a of None \<Rightarrow> ''<nil>'' | Some s \<Rightarrow> s))"

definition SetKey :: "'ts message \<Rightarrow> attribute \<Rightarrow> string \<Rightarrow> attribute result" where
  "SetKey m attr key =
     bindR (version_table m) (\<lambda>sy.
       Inr (case FindIndex sy key of
              Some val \<Rightarrow> attr\<lparr>Key := val\<rparr>
            | None \<Rightarrow> attr\<lparr>Skey := Some key\<rparr>))"

section \<open>Reading attributes\<close>

text \<open>Attribute.Value: the first field that is set, in the code's order.\<close>

datatype avalue =
    AInt u64 | AFloat float64 | AString string | ABytes bytes | AInterval interval | ABool bool
  | ANil

definition Attribute_Value :: "attribute \<Rightarrow> avalue" where
  "Attribute_Value attr =
     (case Ival attr of Some i \<Rightarrow> AInt i | None \<Rightarrow>
     (case Fval attr of Some f \<Rightarrow> AFloat f | None \<Rightarrow>
     (case Sval attr of Some s \<Rightarrow> AString s | None \<Rightarrow>
     (case Bval attr of Some b \<Rightarrow> ABytes b | None \<Rightarrow>
     (case Tval attr of Some t \<Rightarrow> AInterval t | None \<Rightarrow>
     (case Boolval attr of Some b \<Rightarrow> ABool b | None \<Rightarrow> ANil))))))"

text \<open>The loop that Get and the typed getters share: the first attribute with the key.\<close>

fun find_attr :: "'ts message \<Rightarrow> string \<Rightarrow> attribute list \<Rightarrow> attribute option result" where
  "find_attr m key [] = Inr None"
| "find_attr m key (attr # attrs) =
     bindR (StringKey m attr) (\<lambda>k. if k = key then Inr (Some attr) else find_attr m key attrs)"

text \<open>The getters answer None for the pair (zero value, false).\<close>

definition Get :: "'ts message \<Rightarrow> string \<Rightarrow> avalue option result" where
  "Get m key = bindR (find_attr m key (Attributes m)) (\<lambda>r. Inr (map_option Attribute_Value r))"

definition GetInt :: "'ts message \<Rightarrow> string \<Rightarrow> u64 option result" where
  "GetInt m key = bindR (find_attr m key (Attributes m)) (\<lambda>r. Inr (Option.bind r Ival))"

definition GetFloat :: "'ts message \<Rightarrow> string \<Rightarrow> float64 option result" where
  "GetFloat m key = bindR (find_attr m key (Attributes m)) (\<lambda>r. Inr (Option.bind r Fval))"

definition GetString :: "'ts message \<Rightarrow> string \<Rightarrow> string option result" where
  "GetString m key = bindR (find_attr m key (Attributes m)) (\<lambda>r. Inr (Option.bind r Sval))"

definition GetBytes :: "'ts message \<Rightarrow> string \<Rightarrow> bytes option result" where
  "GetBytes m key = bindR (find_attr m key (Attributes m)) (\<lambda>r. Inr (Option.bind r Bval))"

definition GetInterval :: "'ts message \<Rightarrow> string \<Rightarrow> interval option result" where
  "GetInterval m key = bindR (find_attr m key (Attributes m)) (\<lambda>r. Inr (Option.bind r Tval))"

definition GetBool :: "'ts message \<Rightarrow> string \<Rightarrow> bool option result" where
  "GetBool m key = bindR (find_attr m key (Attributes m)) (\<lambda>r. Inr (Option.bind r Boolval))"

section \<open>Adding attributes\<close>

text \<open>The argument of AddBytes is a slice that may be nil (None).\<close>

definition append_attr :: "'ts message \<Rightarrow> attribute \<Rightarrow> 'ts message" where
  "append_attr m attr = m\<lparr>Attributes := Attributes m @ [attr]\<rparr>"

definition AddInt :: "'ts message \<Rightarrow> string \<Rightarrow> u64 \<Rightarrow> 'ts message result" where
  "AddInt m key val =
     bindR (SetKey m zero_attribute key) (\<lambda>attr. Inr (append_attr m (attr\<lparr>Ival := Some val\<rparr>)))"

definition AddFloat :: "'ts message \<Rightarrow> string \<Rightarrow> float64 \<Rightarrow> 'ts message result" where
  "AddFloat m key val =
     bindR (SetKey m zero_attribute key) (\<lambda>attr. Inr (append_attr m (attr\<lparr>Fval := Some val\<rparr>)))"

definition AddString :: "'ts message \<Rightarrow> string \<Rightarrow> string \<Rightarrow> 'ts message result" where
  "AddString m key val =
     bindR (SetKey m zero_attribute key) (\<lambda>attr. Inr (append_attr m (attr\<lparr>Sval := Some val\<rparr>)))"

definition AddBytes :: "'ts message \<Rightarrow> string \<Rightarrow> bytes option \<Rightarrow> 'ts message result" where
  "AddBytes m key val =
     bindR (SetKey m zero_attribute key) (\<lambda>attr. Inr (append_attr m (attr\<lparr>Bval := val\<rparr>)))"

definition AddInterval :: "'ts message \<Rightarrow> string \<Rightarrow> u64 \<Rightarrow> u32 \<Rightarrow> 'ts message result" where
  "AddInterval m key sec nsec =
     bindR (SetKey m zero_attribute key) (\<lambda>attr.
       Inr (append_attr m
         (attr\<lparr>Tval := Some \<lparr>Seconds = sec, Nanoseconds = nsec, IUnrecognized = []\<rparr>\<rparr>)))"

text \<open>
  Durations are int64 counts of nanoseconds; the conversion to uint64, the division and the
  products of Interval.Duration are at that width.
\<close>

definition nsec_per_sec :: u64 where
  "nsec_per_sec = 1000000000"

definition durationToInterval :: "u64 \<Rightarrow> interval" where
  "durationToInterval dur =
     (let total_nsec = dur; sec = total_nsec div nsec_per_sec; nsec = total_nsec mod nsec_per_sec
      in \<lparr>Seconds = sec, Nanoseconds = ucast nsec, IUnrecognized = []\<rparr>)"

definition Interval_Duration :: "interval \<Rightarrow> u64" where
  "Interval_Duration i = Seconds i * nsec_per_sec + ucast (Nanoseconds i)"

definition AddDuration :: "'ts message \<Rightarrow> string \<Rightarrow> u64 \<Rightarrow> 'ts message result" where
  "AddDuration m key dur =
     bindR (SetKey m zero_attribute key) (\<lambda>attr.
       Inr (append_attr m (attr\<lparr>Tval := Some (durationToInterval dur)\<rparr>)))"

section \<open>Tags\<close>

definition tag_value :: "string \<Rightarrow> string option" where
  "tag_value val = (if val = '''' then None else Some val)"

text \<open>The first tag of the name is changed in place; otherwise a new one is appended.\<close>

fun set_tag :: "tag list \<Rightarrow> string \<Rightarrow> string \<Rightarrow> tag list" where
  "set_tag [] key val = [zero_tag\<lparr>TName := key, TValue := tag_value val\<rparr>]"
| "set_tag (t # ts) key val =
     (if TName t = key then t\<lparr>TValue := tag_value val\<rparr> # ts else t # set_tag ts key val)"

definition AddTag :: "'ts message \<Rightarrow> string \<Rightarrow> string \<Rightarrow> 'ts message" where
  "AddTag m key val = m\<lparr>Tags := set_tag (Tags m) key val\<rparr>"

fun get_tag :: "tag list \<Rightarrow> string \<Rightarrow> string option" where
  "get_tag [] key = None"
| "get_tag (t # ts) key =
     (if TName t = key then Some (case TValue t of None \<Rightarrow> '''' | Some v \<Rightarrow> v)
      else get_tag ts key)"

definition GetTag :: "'ts message \<Rightarrow> string \<Rightarrow> string option" where
  "GetTag m key = get_tag (Tags m) key"

section \<open>Removing\<close>

text \<open>
  The loop of Remove and RemoveTag. The range statement reads the elements of the array
  behind the slice as it was at the start (arr, with the indices of the first argument),
  while the slice m.Tags is the first k elements of that array: append(s[:i], s[i+1:]...)
  moves the rest of the slice one to the left in place, and leaves the array's old last
  element behind the shortened slice. s[i+1:] panics when i+1 is past the slice's length.
\<close>

definition shift_left :: "'a list \<Rightarrow> nat \<Rightarrow> nat \<Rightarrow> 'a list" where
  "shift_left arr k i = take i arr @ drop (Suc i) (take k arr) @ drop (k - 1) arr"

fun remove_loop :: "('a \<Rightarrow> bool result) \<Rightarrow> nat list \<Rightarrow> 'a list \<Rightarrow> nat \<Rightarrow> 'a list result" where
  "remove_loop p [] arr k = Inr (take k arr)"
| "remove_loop p (i # is) arr k =
     bindR (p (arr ! i)) (\<lambda>hit.
       if hit
       then if Suc i \<le> k then remove_loop p is (shift_left arr k i) (k - 1)
            else Inl (Panic ''slice bounds out of range'')
       else remove_loop p is arr k)"

definition remove_in_place :: "('a \<Rightarrow> bool result) \<Rightarrow> 'a list \<Rightarrow> 'a list result" where
  "remove_in_place p xs = remove_loop p [0..<length xs] xs (length xs)"

definition Remove :: "'ts message \<Rightarrow> string \<Rightarrow> 'ts message result" where
  "Remove m key =
     bindR (remove_in_place (\<lambda>a. bindR (StringKey m a) (\<lambda>k. Inr (k = key))) (Attributes m))
       (\<lambda>as. Inr (m\<lparr>Attributes := as\<rparr>))"

definition RemoveTag :: "'ts message \<Rightarrow> string \<Rightarrow> 'ts message result" where
  "RemoveTag m key =
     bindR (remove_in_place (\<lambda>t. Inr (TName t = key)) (Tags m)) (\<lambda>ts. Inr (m\<lparr>Tags := ts\<rparr>))"

section \<open>Lemmas: keys\<close>

text \<open>A message whose version has a table.\<close>

definition known_version :: "'ts message \<Rightarrow> bool" where
  "known_version m \<longleftrightarrow> Version m = 0 \<or> Version m = 1"

lemma version_table_known:
  assumes "known_version m"
  obtains sy where "version_table m = Inr sy" and "symbols_wf sy" and "IndexToStr sy = v1_names"
proof -
  obtain v1 where vs: "versionSymbols = [v1, v1]" and "IndexToStr v1 = v1_names" "symbols_wf v1"
    using versionSymbols_eq by blast
  moreover have "version_table m = Inr v1"
    using assms unfolding version_table_def known_version_def vs by (auto simp: go_index_def)
  ultimately show thesis using that by blast
qed

lemma version_table_unknown:
  assumes "\<not> known_version m"
  shows "version_table m = Inl (Panic ''index out of range'')"
proof -
  obtain v1 where vs: "versionSymbols = [v1, v1]" using versionSymbols_eq by blast
  have "\<not> (0 \<le> sint (Version m) \<and> sint (Version m) < 2)"
  proof
    assume "0 \<le> sint (Version m) \<and> sint (Version m) < 2"
    then have "sint (Version m) = sint (0 :: u32) \<or> sint (Version m) = sint (1 :: u32)"
      by auto
    then show False using assms unfolding known_version_def by (metis signed_word_eqI)
  qed
  then show ?thesis unfolding version_table_def vs by (auto simp: go_index_def)
qed

lemma StringKey_SetKey:
  assumes "known_version m" and "Key a = 0"
  shows "\<exists>a'. SetKey m a key = Inr a' \<and> StringKey m a' = Inr key \<and> (\<exists>k sk. a' = a\<lparr>Key := k, Skey := sk\<rparr>)"
proof -
  obtain sy where sy: "version_table m = Inr sy" "symbols_wf sy"
    using assms(1) by (rule version_table_known)
  show ?thesis
  proof (cases "FindIndex sy key")
    case None
    then have "SetKey m a key = Inr (a\<lparr>Skey := Some key\<rparr>)"
      using sy by (simp add: SetKey_def)
    then show ?thesis using assms(2)
      by (intro exI [of _ "a\<lparr>Skey := Some key\<rparr>"] conjI exI [of _ "Key a"] exI [of _ "Some key"])
        (simp_all add: StringKey_def)
  next
    case (Some i)
    with sy FindIndex_FromIndex [of sy key i]
    have "FromIndex sy i = Inr key" "i \<noteq> 0" by auto
    with Some sy show ?thesis
      by (intro exI [of _ "a\<lparr>Key := i\<rparr>"] conjI exI [of _ i] exI [of _ "Skey a"])
        (simp_all add: SetKey_def StringKey_def)
  qed
qed


lemma StringKey_version: "Version m = Version m' \<Longrightarrow> StringKey m a = StringKey m' a"
  by (simp add: StringKey_def version_table_def)

lemma SetKey_version: "Version m = Version m' \<Longrightarrow> SetKey m a key = SetKey m' a key"
  by (simp add: SetKey_def version_table_def)

lemma StringKey_keys: "Key a = Key a' \<Longrightarrow> Skey a = Skey a' \<Longrightarrow> StringKey m a = StringKey m a'"
  by (simp add: StringKey_def)

lemma find_attr_version: "Version m = Version m' \<Longrightarrow> find_attr m key as = find_attr m' key as"
  by (induction as) (simp_all add: StringKey_version [of m m'] cong: if_cong)

lemma find_attr_append:
  "find_attr m key (as @ bs) =
     bindR (find_attr m key as)
       (\<lambda>r. case r of Some a \<Rightarrow> Inr (Some a) | None \<Rightarrow> find_attr m key bs)"
proof (induction as)
  case (Cons a as)
  then show ?case by (cases "StringKey m a") auto
qed simp

lemma append_attr_simps [simp]:
  "Attributes (append_attr m a) = Attributes m @ [a]"
  "Version (append_attr m a) = Version m"
  "Tags (append_attr m a) = Tags m"
  by (simp_all add: append_attr_def)

lemma find_attr_append_attr:
  "find_attr (append_attr m a) key (Attributes (append_attr m a)) =
     bindR (find_attr m key (Attributes m))
       (\<lambda>r. case r of Some b \<Rightarrow> Inr (Some b) | None \<Rightarrow>
          bindR (StringKey m a) (\<lambda>k. Inr (if k = key then Some a else None)))"
proof -
  have "find_attr (append_attr m a) key bs = find_attr m key bs" for bs
    by (rule find_attr_version) simp
  moreover have "find_attr m key [a] = bindR (StringKey m a) (\<lambda>k. Inr (if k = key then Some a else None))"
    by (cases "StringKey m a") auto
  ultimately show ?thesis
    by (simp add: find_attr_append del: find_attr.simps cong: option.case_cong)
qed

text \<open>
  The interface of a typed field of an attribute: setting it leaves the key alone, and
  reading it gives what was set. Every AddX operation is SetKey and one such setter.
\<close>

locale typed_attr =
  fixes put :: "'v \<Rightarrow> attribute \<Rightarrow> attribute"
    and get :: "attribute \<Rightarrow> 'v option"
  assumes get_put: "get (put v a) = Some v"
    and put_Key: "Key (put v a) = Key a"
    and put_Skey: "Skey (put v a) = Skey a"
begin

lemma add_ok:
  assumes "known_version m"
  shows "\<exists>a'. bindR (SetKey m zero_attribute key) (\<lambda>attr. Inr (append_attr m (put v attr)))
           = Inr (append_attr m (put v a')) \<and> StringKey m (put v a') = Inr key"
proof -
  have "Key zero_attribute = 0" by (simp add: zero_attribute_def)
  from StringKey_SetKey [OF assms this, of key] obtain a' where
    "SetKey m zero_attribute key = Inr a'" "StringKey m a' = Inr key" by blast
  then show ?thesis
    by (intro exI [of _ a']) (simp add: StringKey_keys [OF put_Key put_Skey])
qed

lemma get_after_add:
  assumes "known_version m"
    and "bindR (SetKey m zero_attribute key) (\<lambda>attr. Inr (append_attr m (put v attr))) = Inr m'"
  shows "bindR (find_attr m' key' (Attributes m')) (\<lambda>r. Inr (Option.bind r get)) =
     bindR (find_attr m key' (Attributes m))
       (\<lambda>r. Inr (if r = None \<and> key' = key then Some v else Option.bind r get))"
proof -
  from add_ok [OF assms(1), of key v] assms(2) obtain a' where
    a': "m' = append_attr m (put v a')" "StringKey m (put v a') = Inr key" by auto
  show ?thesis
    using a'(2) unfolding a'(1) find_attr_append_attr
    by (cases "find_attr m key' (Attributes m)") (auto simp: get_put split: option.split)
qed

end

interpretation int_attr: typed_attr "\<lambda>v a. a\<lparr>Ival := Some v\<rparr>" Ival
  by unfold_locales auto

interpretation float_attr: typed_attr "\<lambda>v a. a\<lparr>Fval := Some v\<rparr>" Fval
  by unfold_locales auto

interpretation string_attr: typed_attr "\<lambda>v a. a\<lparr>Sval := Some v\<rparr>" Sval
  by unfold_locales auto

interpretation bytes_attr: typed_attr "\<lambda>v a. a\<lparr>Bval := Some v\<rparr>" Bval
  by unfold_locales auto

interpretation interval_attr: typed_attr "\<lambda>v a. a\<lparr>Tval := Some v\<rparr>" Tval
  by unfold_locales auto

lemmas get_after_adds =
  int_attr.get_after_add float_attr.get_after_add string_attr.get_after_add
  bytes_attr.get_after_add interval_attr.get_after_add

section \<open>Lemmas: removing\<close>

text \<open>What the loop of Remove leaves: the element after a removed one is never looked at.\<close>

fun drop_matches :: "('a \<Rightarrow> bool) \<Rightarrow> 'a list \<Rightarrow> 'a list" where
  "drop_matches p [] = []"
| "drop_matches p (x # xs) =
     (if p x then (case xs of [] \<Rightarrow> [] | y # ys \<Rightarrow> y # drop_matches p ys)
      else x # drop_matches p xs)"

lemma length_shift_left [simp]:
  "i < k \<Longrightarrow> k \<le> length arr \<Longrightarrow> length (shift_left arr k i) = length arr"
  by (simp add: shift_left_def)

lemma nth_shift_left:
  assumes "i < k" "k \<le> length arr" "j < length arr"
  shows "shift_left arr k i ! j = (if j < i \<or> k - 1 \<le> j then arr ! j else arr ! Suc j)"
proof -
  have len: "length (drop (Suc i) (take k arr)) = k - 1 - i" using assms by simp
  consider "j < i" | "i \<le> j" "j < k - 1" | "k - 1 \<le> j" by linarith
  then show ?thesis
  proof cases
    case 3
    then have "j - i - (k - 1 - i) = j - (k - 1)" "\<not> j - i < k - 1 - i" "\<not> j < i"
      using assms by linarith+
    with 3 assms len show ?thesis by (simp add: shift_left_def nth_append min_def)
  qed (use assms len in \<open>auto simp: shift_left_def nth_append\<close>)
qed

lemma remove_loop_misses:
  "(\<And>i. i \<in> set is \<Longrightarrow> \<not> p (arr ! i)) \<Longrightarrow> remove_loop (\<lambda>x. Inr (p x)) is arr k = Inr (take k arr)"
  by (induction "is") auto

lemma take_shift_left:
  assumes "i < k - 1" "k \<le> length arr"
  shows "take (k - 1) (shift_left arr k i) = take i arr @ drop (Suc i) (take k arr)"
  using assms by (simp add: shift_left_def)

lemma remove_loop_last_misses:
  assumes "arr \<noteq> []" "\<not> p (last arr)" "i \<le> k" "k \<le> length arr" "0 < k"
    and "\<And>j. k - 1 \<le> j \<Longrightarrow> j < length arr \<Longrightarrow> arr ! j = last arr"
  shows "remove_loop (\<lambda>x. Inr (p x)) [i..<length arr] arr k =
     Inr (take i arr @ drop_matches p (drop i (take k arr)))"
  using assms
proof (induction "length arr - i" arbitrary: i k arr)
  case 0
  then show ?case by simp
next
  case (Suc n)
  note IH = Suc.hyps(1) and prems = Suc.prems
  have i: "i < length arr" using Suc.hyps(2) by linarith
  have upt: "[i..<length arr] = i # [Suc i..<length arr]" using i by (rule upt_conv_Cons)
  have last: "last arr = arr ! (length arr - 1)" using prems(1) by (rule last_conv_nth)
  show ?case
  proof (cases "i < k \<and> p (arr ! i)")
    case hit: True
    have ik: "i < k - 1"
      using hit prems(2) prems(6) [of i] i by fastforce
    define arr' where "arr' = shift_left arr k i"
    have len: "length arr' = length arr" using hit prems(4) by (simp add: arr'_def)
    then have ne: "arr' \<noteq> []" using prems(1) by auto
    have nth: "arr' ! j = (if j < i \<or> k - 1 \<le> j then arr ! j else arr ! Suc j)"
      if "j < length arr" for j
      using nth_shift_left [of i k arr j] hit prems(4) that by (simp add: arr'_def)
    have last': "last arr' = last arr"
      using nth [of "length arr - 1"] prems(4) i
      by (simp add: last_conv_nth [OF ne] len last) linarith
    have tail: "arr' ! j = last arr'" if "k - 1 - 1 \<le> j" "j < length arr'" for j
    proof (cases "k - 1 \<le> j")
      case True
      then show ?thesis using nth [of j] that len prems(6) [of j] last' by simp
    next
      case False
      then have "Suc j = k - 1" using that(1) by linarith
      then show ?thesis
        using nth [of j] that len prems(6) [of "Suc j"] prems(4) last' ik False by auto
    qed
    have "remove_loop (\<lambda>x. Inr (p x)) [Suc i..<length arr'] arr' (k - 1) =
        Inr (take (Suc i) arr' @ drop_matches p (drop (Suc i) (take (k - 1) arr')))"
      using IH [of arr' "Suc i" "k - 1"] Suc.hyps(2) len ne last' prems(2,4) ik tail by simp
    moreover have "take (k - 1) arr' = take i arr @ drop (Suc i) (take k arr)"
      unfolding arr'_def using take_shift_left [OF ik prems(4)] .
    moreover have "drop (Suc i) (take k arr) = arr ! Suc i # drop (Suc (Suc i)) (take k arr)"
      using ik prems(4) by (subst Cons_nth_drop_Suc [symmetric]) auto
    moreover have "drop i (take k arr) = arr ! i # drop (Suc i) (take k arr)"
      using hit prems(4) by (subst Cons_nth_drop_Suc [symmetric]) auto
    moreover have "take (Suc i) arr' = take i arr @ [arr ! Suc i]"
    proof -
      have "take (Suc i) arr' = take (Suc i) (take (k - 1) arr')" using ik by (simp add: min_def)
      with calculation(2,3) i show ?thesis by simp
    qed
    ultimately show ?thesis
      using hit i unfolding upt by (simp add: arr'_def [symmetric] len)
  next
    case miss: False
    then have np: "\<not> p (arr ! i)"
      using prems(2) prems(6) [of i] i by force
    show ?thesis
    proof (cases "i < k")
      case True
      then have "drop i (take k arr) = arr ! i # drop (Suc i) (take k arr)"
        using prems(4) by (subst Cons_nth_drop_Suc [symmetric]) auto
      moreover have "take (Suc i) arr = take i arr @ [arr ! i]"
        using i by (rule take_Suc_conv_app_nth)
      ultimately show ?thesis
        using IH [of arr "Suc i" k] Suc.hyps(2) prems np True unfolding upt by simp
    next
      case False
      have "\<not> p (arr ! j)" if "j \<in> set [i..<length arr]" for j
      proof -
        have "k - 1 \<le> j" "j < length arr" using that False by auto
        then show ?thesis using prems(2) prems(6) [of j] by simp
      qed
      then have "remove_loop (\<lambda>x. Inr (p x)) [i..<length arr] arr k = Inr (take k arr)"
        by (rule remove_loop_misses)
      then show ?thesis using False prems(3) by simp
    qed
  qed
qed

lemma remove_loop_last_hits:
  assumes "p (arr ! (length arr - 1))" "i < length arr" "k < length arr"
  shows "remove_loop (\<lambda>x. Inr (p x)) [i..<length arr] arr k =
     Inl (Panic ''slice bounds out of range'')"
  using assms
proof (induction "length arr - i" arbitrary: i k arr)
  case (Suc n)
  have upt: "[i..<length arr] = i # [Suc i..<length arr]"
    using Suc.prems(2) by (rule upt_conv_Cons)
  show ?case
  proof (cases "p (arr ! i)")
    case hit: True
    show ?thesis
    proof (cases "i < k")
      case True
      define arr' where "arr' = shift_left arr k i"
      have len: "length arr' = length arr" using True Suc.prems(3) by (simp add: arr'_def)
      have "arr' ! (length arr' - 1) = arr ! (length arr - 1)"
        using nth_shift_left [of i k arr "length arr - 1"] True Suc.prems(2,3) len
        by (auto simp: arr'_def)
      then have "remove_loop (\<lambda>x. Inr (p x)) [Suc i..<length arr'] arr' (k - 1) =
          Inl (Panic ''slice bounds out of range'')"
        using Suc.hyps(1) [of arr' "Suc i" "k - 1"] Suc.hyps(2) Suc.prems True len by simp
      with hit True show ?thesis unfolding upt by (simp add: arr'_def [symmetric] len)
    next
      case False
      with hit show ?thesis unfolding upt by simp
    qed
  next
    case False
    then have "Suc i < length arr" using Suc.prems(1,2) by (cases "i = length arr - 1") auto
    with False show ?thesis
      using Suc.hyps(1) [of arr "Suc i" k] Suc.hyps(2) Suc.prems unfolding upt by simp
  qed
qed simp

lemma remove_loop_first_hit:
  assumes "xs \<noteq> []" "p (last xs)" "i \<le> length xs - 1"
  shows "remove_loop (\<lambda>x. Inr (p x)) [i..<length xs] xs (length xs) =
     (if \<exists>j\<ge>i. j < length xs - 1 \<and> p (xs ! j)
      then Inl (Panic ''slice bounds out of range'') else Inr (butlast xs))"
  using assms(3)
proof (induction "length xs - i" arbitrary: i)
  case 0
  then show ?case using assms(1) by (cases xs) auto
next
  case (Suc n)
  have last: "last xs = xs ! (length xs - 1)" using assms(1) by (rule last_conv_nth)
  have i: "i < length xs" using Suc.hyps(2) by linarith
  have upt: "[i..<length xs] = i # [Suc i..<length xs]" using i by (rule upt_conv_Cons)
  show ?case
  proof (cases "i = length xs - 1")
    case True
    then have "p (xs ! i)" "[Suc i..<length xs] = []" using assms(2) last by auto
    moreover have "take (length xs - 1) (shift_left xs (length xs) i) = butlast xs"
      using True i by (simp add: shift_left_def butlast_conv_take)
    ultimately show ?thesis using True i unfolding upt by auto
  next
    case False
    then have lt: "i < length xs - 1" using i by linarith
    show ?thesis
    proof (cases "p (xs ! i)")
      case True
      define arr' where "arr' = shift_left xs (length xs) i"
      have len: "length arr' = length xs" using i by (simp add: arr'_def)
      have "p (arr' ! (length arr' - 1))"
        using nth_shift_left [of i "length xs" xs "length xs - 1"] i assms(2) last len
        by (simp add: arr'_def)
      then have "remove_loop (\<lambda>x. Inr (p x)) [Suc i..<length arr'] arr' (length xs - 1) =
          Inl (Panic ''slice bounds out of range'')"
        using lt len i by (intro remove_loop_last_hits) auto
      with True lt i show ?thesis unfolding upt by (auto simp: arr'_def [symmetric] len)
    next
      case False
      then have "(\<exists>j\<ge>i. j < length xs - 1 \<and> p (xs ! j)) \<longleftrightarrow>
          (\<exists>j\<ge>Suc i. j < length xs - 1 \<and> p (xs ! j))"
        by (metis Suc_leD le_antisym not_less_eq_eq)
      with False lt show ?thesis
        using Suc.hyps(1) [of "Suc i"] Suc.hyps(2) unfolding upt by simp
    qed
  qed
qed

lemma drop_matches_last_hit:
  "xs \<noteq> [] \<Longrightarrow> p (last xs) \<Longrightarrow> \<forall>x\<in>set (butlast xs). \<not> p x \<Longrightarrow> drop_matches p xs = butlast xs"
  by (induction p xs rule: drop_matches.induct) (auto split: list.splits if_splits)

lemma remove_in_place_eq:
  "remove_in_place (\<lambda>x. Inr (p x)) xs =
     (if xs \<noteq> [] \<and> p (last xs) \<and> (\<exists>x\<in>set (butlast xs). p x)
      then Inl (Panic ''slice bounds out of range'') else Inr (drop_matches p xs))"
proof (cases "xs = []")
  case True
  then show ?thesis by (simp add: remove_in_place_def)
next
  case ne: False
  have ex: "(\<exists>x\<in>set (butlast xs). p x) \<longleftrightarrow> (\<exists>j. j < length xs - 1 \<and> p (xs ! j))"
  proof -
    have "x \<in> set (butlast xs) \<longleftrightarrow> (\<exists>j. j < length xs - 1 \<and> xs ! j = x)" for x
      unfolding in_set_conv_nth by (metis length_butlast nth_butlast)
    then show ?thesis unfolding Bex_def by (auto 0 3)
  qed
  show ?thesis
  proof (cases "p (last xs)")
    case True
    have "remove_in_place (\<lambda>x. Inr (p x)) xs =
        (if \<exists>x\<in>set (butlast xs). p x then Inl (Panic ''slice bounds out of range'')
         else Inr (butlast xs))"
      using remove_loop_first_hit [of xs p 0] ne True unfolding ex remove_in_place_def by simp
    moreover have "drop_matches p xs = butlast xs" if "\<not> (\<exists>x\<in>set (butlast xs). p x)"
      using drop_matches_last_hit [of xs p] ne True that by blast
    ultimately show ?thesis using ne True by simp
  next
    case False
    have "xs ! j = last xs" if "length xs - 1 \<le> j" "j < length xs" for j
      using that ne by (metis Suc_pred' last_conv_nth le_antisym length_greater_0_conv less_Suc_eq_le)
    then show ?thesis
      using remove_loop_last_misses [of xs p 0 "length xs"] ne False
      by (simp add: remove_in_place_def)
  qed
qed

text \<open>With at most one match, removing is filtering.\<close>

lemma drop_matches_filter:
  "length (filter p xs) \<le> 1 \<Longrightarrow> drop_matches p xs = filter (\<lambda>x. \<not> p x) xs"
proof (induction p xs rule: drop_matches.induct)
  case (2 p x xs)
  have none: "filter p ys = [] \<Longrightarrow> drop_matches p ys = ys \<and> filter (\<lambda>x. \<not> p x) ys = ys" for ys
    by (induction ys) (auto split: if_splits)
  show ?case
    using 2 none [of "tl xs"] none [of xs] by (cases xs) (auto split: if_splits)
qed simp

lemma set_shift_left: "set (shift_left arr k i) \<subseteq> set arr"
  unfolding shift_left_def by (auto dest: in_set_takeD in_set_dropD)

lemma remove_loop_cong:
  assumes "\<And>x. x \<in> set arr \<Longrightarrow> p x = q x"
    and "\<And>i. i \<in> set is \<Longrightarrow> i < length arr" and "k \<le> length arr"
  shows "remove_loop p is arr k = remove_loop q is arr k"
  using assms
proof (induction "is" arbitrary: arr k)
  case (Cons i "is")
  have "remove_loop p is (shift_left arr k i) (k - 1) = remove_loop q is (shift_left arr k i) (k - 1)"
    if "Suc i \<le> k"
    using that Cons.prems set_shift_left [of arr k i] by (intro Cons.IH) auto
  moreover have "remove_loop p is arr k = remove_loop q is arr k"
    using Cons.prems by (intro Cons.IH) auto
  moreover have "p (arr ! i) = q (arr ! i)" using Cons.prems(1,2) by simp
  ultimately show ?case by (cases "q (arr ! i)") auto
qed simp

lemma remove_in_place_cong:
  "(\<And>x. x \<in> set xs \<Longrightarrow> p x = q x) \<Longrightarrow> remove_in_place p xs = remove_in_place q xs"
  unfolding remove_in_place_def by (rule remove_loop_cong) auto

lemma Remove_keys:
  assumes "\<forall>a\<in>set (Attributes m). StringKey m a = Inr (name a)"
  shows "Remove m key =
     (if Attributes m \<noteq> [] \<and> name (last (Attributes m)) = key \<and>
         key \<in> name ` set (butlast (Attributes m))
      then Inl (Panic ''slice bounds out of range'')
      else Inr (m\<lparr>Attributes := drop_matches (\<lambda>a. name a = key) (Attributes m)\<rparr>))"
proof -
  have "remove_in_place (\<lambda>a. bindR (StringKey m a) (\<lambda>k. Inr (k = key))) (Attributes m) =
      remove_in_place (\<lambda>a. Inr (name a = key)) (Attributes m)"
    using assms by (intro remove_in_place_cong) simp
  then show ?thesis by (auto simp: Remove_def remove_in_place_eq)
qed

section \<open>Lemmas: tags\<close>

lemma set_tag_names:
  "map TName (set_tag ts k v) = (if k \<in> TName ` set ts then map TName ts else map TName ts @ [k])"
  by (induction ts) (auto simp: zero_tag_def)

lemma get_set_tag: "get_tag (set_tag ts k v) k' = (if k' = k then Some v else get_tag ts k')"
  by (induction ts) (auto simp: zero_tag_def tag_value_def)

lemma get_tag_filter:
  "get_tag (filter (\<lambda>t. TName t \<noteq> k) ts) k' = (if k' = k then None else get_tag ts k')"
  by (induction ts) auto

lemma remove_tag_filter:
  assumes "distinct (map TName ts)"
  shows "remove_in_place (\<lambda>t. Inr (TName t = k)) ts = Inr (filter (\<lambda>t. TName t \<noteq> k) ts)"
proof -
  have one: "length (filter (\<lambda>t. TName t = k) ts) \<le> 1"
    using assms by (induction ts) (auto simp: filter_empty_conv image_iff)
  have "\<not> (\<exists>x\<in>set (butlast ts). TName x = k)" if "ts \<noteq> []" "TName (last ts) = k"
  proof
    assume "\<exists>x\<in>set (butlast ts). TName x = k"
    then have "k \<in> set (map TName (butlast ts))" by auto
    moreover have "map TName ts = map TName (butlast ts) @ [k]"
      using that by (metis append_butlast_last_id list.simps(8,9) map_append)
    ultimately show False using assms by auto
  qed
  then show ?thesis
    by (auto simp: remove_in_place_eq drop_matches_filter [OF one])
qed

section \<open>Properties\<close>

text \<open>
  adding a typed attribute to a message of a known version never fails, whatever the key
  (in the symbol table or not), and the typed getter then answers as before for every key the
  message has, and the new value for the new key.
\<close>

lemma add_then_get:
  assumes "known_version m"
  shows "(\<exists>m'. AddInt m key i = Inr m' \<and> (\<forall>k. GetInt m' k =
           bindR (find_attr m k (Attributes m))
             (\<lambda>r. Inr (if r = None \<and> k = key then Some i else Option.bind r Ival))))
     \<and> (\<exists>m'. AddString m key s = Inr m' \<and> (\<forall>k. GetString m' k =
           bindR (find_attr m k (Attributes m))
             (\<lambda>r. Inr (if r = None \<and> k = key then Some s else Option.bind r Sval))))
     \<and> (\<exists>m'. AddFloat m key f = Inr m' \<and> (\<forall>k. GetFloat m' k =
           bindR (find_attr m k (Attributes m))
             (\<lambda>r. Inr (if r = None \<and> k = key then Some f else Option.bind r Fval))))
     \<and> (\<exists>m'. AddBytes m key (Some b) = Inr m' \<and> (\<forall>k. GetBytes m' k =
           bindR (find_attr m k (Attributes m))
             (\<lambda>r. Inr (if r = None \<and> k = key then Some b else Option.bind r Bval))))
     \<and> (\<exists>m'. AddDuration m key d = Inr m' \<and> (\<forall>k. GetInterval m' k =
           bindR (find_attr m k (Attributes m))
             (\<lambda>r. Inr (if r = None \<and> k = key then Some (durationToInterval d)
                  else Option.bind r Tval))))"
proof (intro conjI)
  show "\<exists>m'. AddInt m key i = Inr m' \<and> (\<forall>k. GetInt m' k =
      bindR (find_attr m k (Attributes m))
        (\<lambda>r. Inr (if r = None \<and> k = key then Some i else Option.bind r Ival)))"
    using int_attr.add_ok [OF assms, of key i] int_attr.get_after_add [OF assms, of key i]
    unfolding AddInt_def GetInt_def by blast
  show "\<exists>m'. AddString m key s = Inr m' \<and> (\<forall>k. GetString m' k =
      bindR (find_attr m k (Attributes m))
        (\<lambda>r. Inr (if r = None \<and> k = key then Some s else Option.bind r Sval)))"
    using string_attr.add_ok [OF assms, of key s] string_attr.get_after_add [OF assms, of key s]
    unfolding AddString_def GetString_def by blast
  show "\<exists>m'. AddFloat m key f = Inr m' \<and> (\<forall>k. GetFloat m' k =
      bindR (find_attr m k (Attributes m))
        (\<lambda>r. Inr (if r = None \<and> k = key then Some f else Option.bind r Fval)))"
    using float_attr.add_ok [OF assms, of key f] float_attr.get_after_add [OF assms, of key f]
    unfolding AddFloat_def GetFloat_def by blast
  show "\<exists>m'. AddBytes m key (Some b) = Inr m' \<and> (\<forall>k. GetBytes m' k =
      bindR (find_attr m k (Attributes m))
        (\<lambda>r. Inr (if r = None \<and> k = key then Some b else Option.bind r Bval)))"
    using bytes_attr.add_ok [OF assms, of key b] bytes_attr.get_after_add [OF assms, of key b]
    unfolding AddBytes_def GetBytes_def by blast
  show "\<exists>m'. AddDuration m key d = Inr m' \<and> (\<forall>k. GetInterval m' k =
      bindR (find_attr m k (Attributes m))
        (\<lambda>r. Inr (if r = None \<and> k = key then Some (durationToInterval d)
             else Option.bind r Tval)))"
    using interval_attr.add_ok [OF assms, of key "durationToInterval d"]
      interval_attr.get_after_add [OF assms, of key "durationToInterval d"]
    unfolding AddDuration_def GetInterval_def by blast
qed

lemma add_then_get_witness:
  "\<exists>m'. AddInt (Log (0 :: nat)) ''pid'' 7 = Inr m' \<and> GetInt m' ''pid'' = Inr (Some 7)"
proof -
  have known: "known_version (Log (0 :: nat))"
    by (simp add: known_version_def Log_def DEFAULT_VERSION_def)
  have none: "find_attr (Log (0 :: nat)) ''pid'' (Attributes (Log (0 :: nat))) = Inr None"
    by (simp add: Log_def zero_message_def)
  from add_then_get [OF known, of "''pid''" 7 "''x''" 0 "[]" 0] obtain m' where
    "AddInt (Log (0 :: nat)) ''pid'' 7 = Inr m'"
    "\<forall>k. GetInt m' k = bindR (find_attr (Log (0 :: nat)) k (Attributes (Log (0 :: nat))))
       (\<lambda>r. Inr (if r = None \<and> k = ''pid'' then Some 7 else Option.bind r Ival))"
    by blast
  with none show ?thesis by auto
qed

text \<open>
  C3: what Remove does on a message whose keys can all be read. It panics exactly when the
  last attribute and an earlier one have the key (the loop ranges over the slice it shortens);
  otherwise it leaves out every match whose predecessor was not just left out, which is all of
  them when at most one attribute has the key.
\<close>

theorem Remove_behaviour:
  assumes "\<forall>a\<in>set (Attributes m). StringKey m a = Inr (name a)"
  shows "Remove m key =
     (if Attributes m \<noteq> [] \<and> name (last (Attributes m)) = key \<and>
         key \<in> name ` set (butlast (Attributes m))
      then Inl (Panic ''slice bounds out of range'')
      else Inr (m\<lparr>Attributes := drop_matches (\<lambda>a. name a = key) (Attributes m)\<rparr>))
   \<and> (length (filter (\<lambda>a. name a = key) (Attributes m)) \<le> 1 \<longrightarrow>
      drop_matches (\<lambda>a. name a = key) (Attributes m) = filter (\<lambda>a. name a \<noteq> key) (Attributes m))"
  using Remove_keys [OF assms] drop_matches_filter by blast

theorem Remove_behaviour_witness:
  "Remove (zero_message\<lparr>Attributes := [zero_attribute, zero_attribute]\<rparr> :: nat message) ''<nil>'' =
     Inl (Panic ''slice bounds out of range'')"
  using Remove_behaviour [of "zero_message\<lparr>Attributes := [zero_attribute, zero_attribute]\<rparr> :: nat message"
      "\<lambda>_. ''<nil>''" "''<nil>''"]
  by (simp add: StringKey_def zero_attribute_def)

text \<open>
  C4: the tags of a message are a finite map. AddTag keeps the names distinct and updates
  the map at one key, and on distinct names RemoveTag never panics and deletes one key.
\<close>

theorem tags_are_a_map:
  assumes "distinct (map TName (Tags m))"
  shows "distinct (map TName (Tags (AddTag m key val)))
     \<and> (\<forall>k. GetTag (AddTag m key val) k = (if k = key then Some val else GetTag m k))
     \<and> (\<exists>m'. RemoveTag m key = Inr m' \<and> distinct (map TName (Tags m')) \<and>
          (\<forall>k. GetTag m' k = (if k = key then None else GetTag m k)))"
  using assms
  by (auto simp: AddTag_def GetTag_def RemoveTag_def set_tag_names get_set_tag
      remove_tag_filter get_tag_filter distinct_map_filter)

theorem tags_are_a_map_witness:
  "distinct (map TName (Tags (AddTag (Log (0 :: nat)) ''a'' ''b''))) \<and>
   GetTag (AddTag (Log (0 :: nat)) ''a'' ''b'') ''a'' = Some ''b''"
  using tags_are_a_map [of "Log (0 :: nat)" "''a''" "''b''"]
  by (simp add: Log_def zero_message_def)

text \<open>
  an Interval loses nothing of a time.Duration, negative durations included (as a uint64
  count they are at least 2^63 nanoseconds), and its nanoseconds are below one second.
\<close>

lemma Duration_durationToInterval:
  "Interval_Duration (durationToInterval d) = d \<and>
   unat (Nanoseconds (durationToInterval d)) < 1000000000"
proof -
  have lt: "unat (d mod nsec_per_sec) < 1000000000"
    by (simp add: unat_mod nsec_per_sec_def)
  then have low: "unat (ucast (d mod nsec_per_sec) :: u32) = unat (d mod nsec_per_sec)"
    by (simp add: unsigned_ucast_eq take_bit_nat_eq_self)
  then have wide: "ucast (ucast (d mod nsec_per_sec) :: u32) = d mod nsec_per_sec"
    using lt by (simp add: word_unat_eq_iff unsigned_ucast_eq unsigned_take_bit_eq take_bit_nat_eq_self)
  have "d div nsec_per_sec * nsec_per_sec + d mod nsec_per_sec = d"
    by (rule div_mult_mod_eq)
  with wide lt low show ?thesis
    by (simp add: Interval_Duration_def durationToInterval_def Let_def)
qed

end
