(* ===== verification/Values.thy ===== *)
theory Values
  imports Message
begin

text \<open>
  Message.Add of log.go: the attribute a Go value becomes. A value of type interface{} is a
  datatype with one constructor per case of the type switch (a value is classified by the first
  case its dynamic type meets), and the values that only the reflection in tryContainers
  understands. The keys of a map are given as fmt prints them with %s, in the order MapKeys
  returns them. A float32 is carried as the float64 it converts to. VPtr is a pointer whose
  type has none of the methods the switch asks for.
\<close>

datatype goval =
    VNil
  | VBool bool
  | VInt u64
  | VInt32 u32
  | VUint32 u32
  | VUint64 u64
  | VInt64 u64
  | VFloat32 float64
  | VFloat64 float64
  | VInter u64
  | VString string
  | VDuration u64
  | VStringer string
  | VBytes "bytes option"
  | VError string
  | VSlice "goval list"
  | VMap "(string \<times> goval) list"
  | VStruct "((bool \<times> string \<times> string) \<times> goval) list"
  | VPtr "goval option"
  | VOther string

text \<open>
  The names of the exported fields of a struct type with their positions. A field is
  (exported, name, value of its log tag).
\<close>

definition fieldNames :: "((bool \<times> string \<times> string) \<times> 'v) list \<Rightarrow> (string \<times> 'v) list" where
  "fieldNames flds =
     map (\<lambda>((_, name, tag), v). (if tag = '''' then ToLower name else tag, v))
       (filter (\<lambda>((exported, _), _). exported) flds)"

fun deref :: "goval \<Rightarrow> goval" where
  "deref (VPtr (Some v)) = deref v"
| "deref v = v"

text \<open>
  The elements of a container with the keys they get. A pointer to a []byte is a slice
  of uint8 to reflect; Add understands no uint8 and the error is dropped, so it adds nothing.
  Type() of the zero reflect.Value, which a nil has, panics.
\<close>

definition container_items :: "string \<Rightarrow> goval \<Rightarrow> (string \<times> goval) list option result" where
  "container_items prefix v =
     (case deref v of
        VSlice xs \<Rightarrow> Inr (Some (map (\<lambda>(i, x). (prefix @ ''.'' @ nat_dec i, x)) (enumerate 0 xs)))
      | VBytes _ \<Rightarrow> Inr (Some [])
      | VMap kvs \<Rightarrow> Inr (Some (map (\<lambda>(k, x). (prefix @ ''.'' @ k, x)) kvs))
      | VStruct flds \<Rightarrow> Inr (Some (map (\<lambda>(k, x). (prefix @ ''.'' @ k, x)) (fieldNames flds)))
      | VNil \<Rightarrow> Inl (Panic ''reflect: call of Value.Type on zero Value'')
      | VPtr None \<Rightarrow> Inl (Panic ''reflect: call of Value.Type on zero Value'')
      | _ \<Rightarrow> Inr None)"

text \<open>The field the type switch of Add sets; None is its default case.\<close>

definition scalar_attr :: "goval \<Rightarrow> attribute \<Rightarrow> attribute option" where
  "scalar_attr v attr =
     (case v of
        VBool b \<Rightarrow> Some (attr\<lparr>Boolval := Some b\<rparr>)
      | VInt x \<Rightarrow> Some (attr\<lparr>Ival := Some x\<rparr>)
      | VInt32 x \<Rightarrow> Some (attr\<lparr>Ival := Some (scast x)\<rparr>)
      | VUint32 x \<Rightarrow> Some (attr\<lparr>Ival := Some (ucast x)\<rparr>)
      | VUint64 x \<Rightarrow> Some (attr\<lparr>Ival := Some x\<rparr>)
      | VInt64 x \<Rightarrow> Some (attr\<lparr>Ival := Some x\<rparr>)
      | VFloat32 x \<Rightarrow> Some (attr\<lparr>Fval := Some x\<rparr>)
      | VFloat64 x \<Rightarrow> Some (attr\<lparr>Fval := Some x\<rparr>)
      | VInter x \<Rightarrow> Some (attr\<lparr>Ival := Some x\<rparr>)
      | VString x \<Rightarrow> Some (attr\<lparr>Sval := Some x\<rparr>)
      | VDuration x \<Rightarrow> Some (attr\<lparr>Tval := Some (durationToInterval x)\<rparr>)
      | VStringer x \<Rightarrow> Some (attr\<lparr>Sval := Some x\<rparr>)
      | VBytes x \<Rightarrow> Some (attr\<lparr>Bval := x\<rparr>)
      | VError x \<Rightarrow> Some (attr\<lparr>Sval := Some x\<rparr>)
      | _ \<Rightarrow> None)"

lemma size_deref: "size (deref v) \<le> size v"
  by (induction v rule: deref.induct) auto

lemma size_items:
  assumes "container_items prefix v = Inr (Some kvs)"
  shows "sum_list (map (\<lambda>(k, x). Suc (size x)) kvs) \<le> size v"
proof -
  have slice: "sum_list (map ((\<lambda>(k, x). Suc (size x)) \<circ> (\<lambda>(i, x). (f i, x))) (enumerate n xs))
      = size_list size xs" for f n and xs :: "goval list"
    by (induction xs arbitrary: n) auto
  have mapped: "sum_list (map ((\<lambda>(k, x). Suc (size x)) \<circ> (\<lambda>(k, x). (f k, x))) kvs)
      \<le> size_list (size_prod (\<lambda>_. 0) size) kvs" for f and kvs :: "(string \<times> goval) list"
    by (induction kvs) (auto simp: size_prod_def split: prod.split)
  have struct: "sum_list (map ((\<lambda>(k, x). Suc (size x)) \<circ> (\<lambda>(k, x). (f k, x))) (fieldNames flds))
      \<le> size_list (size_prod (\<lambda>_. 0) size) flds" for f and flds :: "((bool \<times> string \<times> string) \<times> goval) list"
    by (induction flds) (auto simp: fieldNames_def size_prod_def split: prod.split)
  have "sum_list (map (\<lambda>(k, x). Suc (size x)) kvs) \<le> size (deref v)"
  proof (cases "deref v")
    case (VSlice xs)
    with assms slice [of "\<lambda>i. prefix @ ''.'' @ nat_dec i" 0 xs] show ?thesis
      by (auto simp: container_items_def simp del: enumerate_simps)
  next
    case (VMap m)
    with assms mapped [of "\<lambda>k. prefix @ ''.'' @ k" m] show ?thesis
      by (auto simp: container_items_def)
  next
    case (VStruct flds)
    with assms struct [of "\<lambda>k. prefix @ ''.'' @ k" flds] show ?thesis
      by (auto simp: container_items_def)
  next
    case (VPtr p)
    with assms show ?thesis by (cases p) (auto simp: container_items_def)
  qed (use assms in \<open>auto simp: container_items_def\<close>)
  with size_deref [of v] show ?thesis by simp
qed

text \<open>
  Add and the loops of tryContainers. The answer is the message and the error that Add
  returns; the loops drop the errors of the elements.
\<close>

function Add :: "'ts message \<Rightarrow> string \<Rightarrow> goval \<Rightarrow> ('ts message \<times> go_err option) result"
  and add_items :: "'ts message \<Rightarrow> (string \<times> goval) list \<Rightarrow> 'ts message result" where
  "Add m key v =
     bindR (SetKey m zero_attribute key) (\<lambda>attr.
       case scalar_attr v attr of
         Some a \<Rightarrow> Inr (append_attr m a, None)
       | None \<Rightarrow>
           bindR (container_items key v) (\<lambda>items.
             case items of
               None \<Rightarrow> Inr (m, Some ErrBadValue)
             | Some kvs \<Rightarrow> bindR (add_items m kvs) (\<lambda>m'. Inr (m', None))))"
| "add_items m [] = Inr m"
| "add_items m ((k, x) # kvs) = bindR (Add m k x) (\<lambda>(m', _). add_items m' kvs)"
  by pat_completeness auto
termination Add
proof (relation "measure (\<lambda>a. case a of Inl (m, k, v) \<Rightarrow> 2 * size v + 1
    | Inr (m, kvs) \<Rightarrow> 2 * sum_list (map (\<lambda>(k, x). Suc (size x)) kvs))")
  show "wf (measure (\<lambda>a. case a of Inl (m, k, v) \<Rightarrow> 2 * size v + 1
    | Inr (m, kvs) \<Rightarrow> 2 * sum_list (map (\<lambda>(k, x). Suc (size x)) kvs)))" by simp
qed (auto dest: size_items)

lemmas [simp del] = Add.simps

text \<open>
  AddMany: pairs of a key and a value; a key that is no string is printed with %s (fmt), and
  the errors of Add are dropped.
\<close>

fun add_pairs :: "(goval \<Rightarrow> string) \<Rightarrow> 'ts message \<Rightarrow> goval list \<Rightarrow> 'ts message result" where
  "add_pairs fmt m (k # v # vals) =
     bindR (Add m (case k of VString s \<Rightarrow> s | _ \<Rightarrow> fmt k) v) (\<lambda>(m', _). add_pairs fmt m' vals)"
| "add_pairs fmt m _ = Inr m"

definition AddMany :: "(goval \<Rightarrow> string) \<Rightarrow> 'ts message \<Rightarrow> goval list \<Rightarrow> 'ts message result" where
  "AddMany fmt m vals =
     (if odd (length vals) then Inl (Panic ''Passed an uneven number of values to Send'')
      else add_pairs fmt m vals)"

section \<open>Lemmas\<close>

text \<open>No nil where reflection would look at it.\<close>

fun nil_free :: "goval \<Rightarrow> bool" where
  "nil_free VNil = False"
| "nil_free (VPtr None) = False"
| "nil_free (VPtr (Some v)) = nil_free v"
| "nil_free (VSlice xs) = (\<forall>x\<in>set xs. nil_free x)"
| "nil_free (VMap kvs) = (\<forall>x\<in>snd ` set kvs. nil_free x)"
| "nil_free (VStruct flds) = (\<forall>x\<in>snd ` set flds. nil_free x)"
| "nil_free _ = True"

lemma nil_free_deref: "nil_free v \<Longrightarrow> nil_free (deref v)"
  by (induction v rule: deref.induct) auto

lemma container_items_nil_free:
  assumes "nil_free v"
  shows "\<exists>items. container_items prefix v = Inr items \<and>
     (\<forall>kvs. items = Some kvs \<longrightarrow> (\<forall>(k, x)\<in>set kvs. nil_free x))"
proof -
  have d: "nil_free (deref v)" using assms by (rule nil_free_deref)
  show ?thesis
  proof (cases "deref v")
    case (VSlice xs)
    with d show ?thesis by (auto simp: container_items_def in_set_enumerate_eq)
  next
    case (VMap kvs)
    with d show ?thesis by (force simp: container_items_def)
  next
    case (VStruct flds)
    with d show ?thesis by (force simp: container_items_def fieldNames_def)
  next
    case (VPtr p)
    with d show ?thesis by (cases p) (auto simp: container_items_def)
  qed (use d in \<open>auto simp: container_items_def\<close>)
qed

lemma SetKey_known:
  assumes "known_version m"
  shows "\<exists>a. SetKey m zero_attribute key = Inr a"
  using StringKey_SetKey [OF assms, of zero_attribute key] by (auto simp: zero_attribute_def)

lemma known_version_append [simp]: "known_version (append_attr m a) = known_version m"
  by (simp add: known_version_def)

text \<open>Add only appends, and where it answers an error it does nothing.\<close>

definition extends :: "'ts message \<Rightarrow> 'ts message \<Rightarrow> bool" where
  "extends m m' \<longleftrightarrow> (\<exists>as. m' = m\<lparr>Attributes := Attributes m @ as\<rparr>)"

lemma extends_refl [inv_intros]: "extends m m"
  by (auto simp: extends_def intro!: exI [of _ "[]"])

lemma extends_trans: "extends m m' \<Longrightarrow> extends m' m'' \<Longrightarrow> extends m m''"
  by (auto simp: extends_def)

lemma extends_append [inv_intros]: "extends m (append_attr m a)"
  by (auto simp: extends_def append_attr_def)

lemma extends_known: "extends m m' \<Longrightarrow> known_version m' = known_version m"
  by (auto simp: extends_def known_version_def)

lemma Add_spec:
  "known_version m \<Longrightarrow> nil_free v \<Longrightarrow>
     \<exists>m' e. Add m key v = Inr (m', e) \<and> extends m m' \<and> (e \<noteq> None \<longrightarrow> m' = m \<and> e = Some ErrBadValue)"
  "known_version m \<Longrightarrow> (\<forall>(k, x)\<in>set kvs. nil_free x) \<Longrightarrow>
     \<exists>m'. add_items m kvs = Inr m' \<and> extends m m'"
proof (induction m key v and m kvs rule: Add_add_items.induct)
  case (1 m key v)
  obtain attr where attr: "SetKey m zero_attribute key = Inr attr"
    using SetKey_known [OF "1.prems"(1)] by blast
  show ?case
  proof (cases "scalar_attr v attr")
    case (Some a)
    then show ?thesis by (auto simp: Add.simps attr intro: extends_append)
  next
    case None
    obtain items where items: "container_items key v = Inr items"
      and free: "\<And>kvs. items = Some kvs \<Longrightarrow> \<forall>(k, x)\<in>set kvs. nil_free x"
      using container_items_nil_free [OF "1.prems"(2), of key] by blast
    show ?thesis
    proof (cases items)
      case None
      with \<open>scalar_attr v attr = None\<close> items show ?thesis
        by (auto simp: Add.simps attr intro: extends_refl)
    next
      case (Some kvs)
      with "1.IH" [OF attr None items] "1.prems"(1) free obtain m' where
        "add_items m kvs = Inr m'" "extends m m'" by auto
      with \<open>scalar_attr v attr = None\<close> items Some show ?thesis
        by (auto simp: Add.simps attr)
    qed
  qed
next
  case (2 m)
  then show ?case by (auto intro: extends_refl)
next
  case (3 m k x kvs)
  then obtain m' e where m': "Add m k x = Inr (m', e)" "extends m m'" by auto
  moreover have "known_version m'" using m'(2) "3.prems"(1) by (simp add: extends_known)
  ultimately obtain m'' where "add_items m' kvs = Inr m''" "extends m' m''"
    using "3.IH"(2) [OF m'(1)] "3.prems"(2) by auto
  with m' show ?case by (auto intro: extends_trans)
qed

text \<open>What a list of scalars becomes: one attribute each, in order, under the keys given.\<close>

definition is_scalar :: "goval \<Rightarrow> bool" where
  "is_scalar v \<longleftrightarrow> scalar_attr v zero_attribute \<noteq> None"

lemma scalar_attr_shape:
  assumes "is_scalar v"
  shows "\<exists>a. scalar_attr v attr = Some a \<and> Key a = Key attr \<and> Skey a = Skey attr \<and>
     (attr = zero_attribute\<lparr>Key := k, Skey := s\<rparr> \<longrightarrow>
        Attribute_Value a = Attribute_Value (the (scalar_attr v zero_attribute)))"
  using assms
  by (cases v) (auto simp: is_scalar_def scalar_attr_def Attribute_Value_def zero_attribute_def
      split: option.split)

lemma Add_scalar:
  assumes "known_version m" and "is_scalar v"
  shows "\<exists>a. Add m key v = Inr (append_attr m a, None) \<and> StringKey m a = Inr key \<and>
     Attribute_Value a = Attribute_Value (the (scalar_attr v zero_attribute))"
proof -
  have "Key zero_attribute = 0" by (simp add: zero_attribute_def)
  from StringKey_SetKey [OF assms(1) this, of key] obtain a' k s where
    a': "SetKey m zero_attribute key = Inr a'" "StringKey m a' = Inr key"
    and "a' = zero_attribute\<lparr>Key := k, Skey := s\<rparr>" by blast
  with scalar_attr_shape [OF assms(2), where attr = a' and k = k and s = s] obtain a where
    a: "scalar_attr v a' = Some a" "Key a = Key a'" "Skey a = Skey a'"
    "Attribute_Value a = Attribute_Value (the (scalar_attr v zero_attribute))" by blast
  have "StringKey m a = Inr key" using a'(2) StringKey_keys [OF a(2,3), of m] by simp
  with a a'(1) show ?thesis by (auto simp: Add.simps)
qed

lemma add_items_scalars:
  assumes "known_version m" and "\<forall>(k, v)\<in>set kvs. is_scalar v"
  shows "\<exists>as. add_items m kvs = Inr (m\<lparr>Attributes := Attributes m @ as\<rparr>) \<and>
     map (StringKey m) as = map (\<lambda>(k, v). Inr k) kvs \<and>
     map Attribute_Value as =
       map (\<lambda>(k, v). Attribute_Value (the (scalar_attr v zero_attribute))) kvs"
  using assms
proof (induction kvs arbitrary: m)
  case Nil
  then show ?case by (auto intro!: exI [of _ "[]"])
next
  case (Cons kv kvs)
  obtain k v where kv: "kv = (k, v)" by (cases kv)
  from Cons.prems kv Add_scalar [of m v k] obtain a where a: "Add m k v = Inr (append_attr m a, None)"
    "StringKey m a = Inr k" "Attribute_Value a = Attribute_Value (the (scalar_attr v zero_attribute))"
    by auto
  have "known_version (append_attr m a)" using Cons.prems(1) by simp
  from Cons.IH [OF this] Cons.prems(2) obtain as where as:
    "add_items (append_attr m a) kvs =
       Inr ((append_attr m a)\<lparr>Attributes := Attributes (append_attr m a) @ as\<rparr>)"
    "map (StringKey (append_attr m a)) as = map (\<lambda>(k, v). Inr k) kvs"
    "map Attribute_Value as =
       map (\<lambda>(k, v). Attribute_Value (the (scalar_attr v zero_attribute))) kvs"
    by auto
  have "StringKey (append_attr m a) = StringKey m"
    by (rule ext, rule StringKey_version) simp
  with as a kv show ?case
    by (intro exI [of _ "a # as"]) (simp add: append_attr_def)
qed

section \<open>Properties\<close>

text \<open>
  C5: Add on a message of a known version. For every value without a nil inside it returns,
  appends attributes and touches nothing else, and its only error is ErrBadValue, with the
  message as it was; a nil value is a panic, although Add has an error to return.
\<close>

theorem Add_total:
  assumes "known_version m"
  shows "(nil_free v \<longrightarrow> (\<exists>as e. Add m key v = Inr (m\<lparr>Attributes := Attributes m @ as\<rparr>, e) \<and>
            (e = None \<or> e = Some ErrBadValue \<and> as = [])))
     \<and> is_panic (Add m key VNil) \<and> is_panic (Add m key (VSlice [VNil]))"
proof (intro conjI impI)
  assume "nil_free v"
  from Add_spec(1) [OF assms this, of key] show
    "\<exists>as e. Add m key v = Inr (m\<lparr>Attributes := Attributes m @ as\<rparr>, e) \<and>
       (e = None \<or> e = Some ErrBadValue \<and> as = [])"
    by (fastforce simp: extends_def)
next
  obtain a where "SetKey m zero_attribute key = Inr a" using SetKey_known [OF assms] by blast
  moreover obtain a' where "SetKey m zero_attribute (key @ ''.'' @ nat_dec 0) = Inr a'"
    using SetKey_known [OF assms] by blast
  ultimately show "is_panic (Add m key VNil)" "is_panic (Add m key (VSlice [VNil]))"
    by (simp_all add: Add.simps scalar_attr_def container_items_def)
qed

theorem Add_total_witness:
  "is_panic (Add (Log (0 :: nat)) ''user'' VNil) \<and>
   (\<exists>as e. Add (Log (0 :: nat)) ''user'' (VSlice [VInt 1, VOther ''chan'']) =
      Inr ((Log 0)\<lparr>Attributes := Attributes (Log (0 :: nat)) @ as\<rparr>, e))"
proof -
  have "known_version (Log (0 :: nat))"
    by (simp add: known_version_def Log_def DEFAULT_VERSION_def)
  from Add_total [OF this, of "VSlice [VInt 1, VOther ''chan'']" "''user''"]
  show ?thesis by auto
qed

text \<open>
  a slice of scalars becomes one attribute per element, in order, the i-th with the key
  prefix.i and the value that Value reads back from the element's own attribute.
\<close>

lemma Add_slice:
  assumes "known_version m" and "\<forall>v\<in>set vs. is_scalar v"
  shows "\<exists>as. Add m key (VSlice vs) = Inr (m\<lparr>Attributes := Attributes m @ as\<rparr>, None) \<and>
     map (StringKey m) as = map (\<lambda>i. Inr (key @ ''.'' @ nat_dec i)) [0..<length vs] \<and>
     map Attribute_Value as =
       map (\<lambda>v. Attribute_Value (the (scalar_attr v zero_attribute))) vs"
proof -
  let ?kvs = "map (\<lambda>(i, x). (key @ ''.'' @ nat_dec i, x)) (enumerate 0 vs)"
  obtain attr where attr: "SetKey m zero_attribute key = Inr attr"
    using SetKey_known [OF assms(1)] by blast
  have "\<forall>(k, v)\<in>set ?kvs. is_scalar v" using assms(2) by (auto simp: in_set_enumerate_eq)
  from add_items_scalars [OF assms(1) this] obtain as where as:
    "add_items m ?kvs = Inr (m\<lparr>Attributes := Attributes m @ as\<rparr>)"
    "map (StringKey m) as = map (\<lambda>(k, v). Inr k) ?kvs"
    "map Attribute_Value as =
       map (\<lambda>(k, v). Attribute_Value (the (scalar_attr v zero_attribute))) ?kvs"
    by blast
  have fst: "map (\<lambda>(k, v). Inr k) ?kvs = map (\<lambda>i. Inr (key @ ''.'' @ nat_dec i)) [0..<length vs]"
    by (rule nth_equalityI) (auto simp: nth_enumerate_eq)
  have snd: "map (\<lambda>(k, v). g v) ?kvs = map g vs" for g :: "goval \<Rightarrow> avalue"
    by (rule nth_equalityI) (auto simp: nth_enumerate_eq)
  from as fst snd [of "\<lambda>v. Attribute_Value (the (scalar_attr v zero_attribute))"] show ?thesis
    by (intro exI [of _ as]) (simp add: Add.simps attr scalar_attr_def container_items_def)
qed

lemma Add_slice_witness:
  "\<exists>as. Add (Log (0 :: nat)) ''p'' (VSlice [VInt 4, VBool True]) =
       Inr ((Log 0)\<lparr>Attributes := Attributes (Log (0 :: nat)) @ as\<rparr>, None) \<and>
     map Attribute_Value as = [AInt 4, ABool True]"
proof -
  have "known_version (Log (0 :: nat))"
    by (simp add: known_version_def Log_def DEFAULT_VERSION_def)
  from Add_slice [OF this, of "[VInt 4, VBool True]" "''p''"] show ?thesis
    by (auto simp: is_scalar_def scalar_attr_def Attribute_Value_def zero_attribute_def)
qed

end
