(* ===== verification/Render.thy ===== *)
theory Render
  imports Message
begin

text \<open>
  The text forms of a message in log.go: HSTORE for PostgreSQL, the KV format, the syslog
  line and the line for people. A function that writes into a buffer is the function that gives
  what it writes. What the standard library and tai64n print is a parameter: FormatFloat, the
  label of a timestamp, its time in RFC3339 and its String, and the colour codes of ansi.
\<close>

record 'ts printers =
  FormatFloat :: "float64 \<Rightarrow> string"
  Label :: "'ts option \<Rightarrow> string"
  RFC3339 :: "'ts option \<Rightarrow> string"
  TsString :: "'ts option \<Rightarrow> string"
  voltColor :: string
  systemColor :: string
  resetColor :: string

definition dq :: char where "dq = CHR 0x22"
definition backslash :: char where "backslash = CHR 0x5C"

text \<open>
  subsecond: pad to nine digits, then drop the trailing zeros with no test for the empty
  string, so that indexing it panics.
\<close>

fun strip_zeros :: "string \<Rightarrow> string result" where
  "strip_zeros [] = Inl (Panic ''index out of range'')"
| "strip_zeros (c # rev_rest) = (if c = CHR ''0'' then strip_zeros rev_rest else Inr (rev (c # rev_rest)))"

definition pad9 :: "string \<Rightarrow> string" where
  "pad9 str = replicate (9 - length str) (CHR ''0'') @ str"

definition subsecond :: "u32 \<Rightarrow> string result" where
  "subsecond s =
     bindR (strip_zeros (rev (pad9 (nat_dec (unat s))))) (\<lambda>str.
       Inr (if str = '''' then ''0'' else str))"

definition strquote :: "string \<Rightarrow> string" where
  "strquote s = concat (map (\<lambda>c. if c = dq then [backslash, dq] else [c]) s)"

definition quoted :: "string \<Rightarrow> string" where
  "quoted s = dq # strquote s @ [dq]"

text \<open>The switch that writes the value of an attribute, the same in all three functions.\<close>

definition render_value :: "'ts printers \<Rightarrow> attribute \<Rightarrow> string result" where
  "render_value p attr =
     (case Ival attr of Some i \<Rightarrow> Inr (FormatInt i) | None \<Rightarrow>
     (case Fval attr of Some f \<Rightarrow> Inr (FormatFloat p f) | None \<Rightarrow>
     (case Boolval attr of Some b \<Rightarrow> Inr (if b then ''true'' else ''false'') | None \<Rightarrow>
     (case Sval attr of Some s \<Rightarrow> Inr (quoted s) | None \<Rightarrow>
     (case Bval attr of Some b \<Rightarrow> Inr (quoted (bytes_str b)) | None \<Rightarrow>
     (case Tval attr of
        Some t \<Rightarrow> bindR (subsecond (Nanoseconds t)) (\<lambda>sub.
          Inr ('':'' @ FormatInt (Seconds t) @ ''.'' @ sub))
      | None \<Rightarrow> Inr '''' ))))))"

section \<open>HSTORE\<close>

definition hstore_tag :: "tag \<Rightarrow> string" where
  "hstore_tag t =
     [dq] @ TName t @ [dq] @ ''=>'' @ [dq] @
     (case TValue t of Some v \<Rightarrow> strquote v | None \<Rightarrow> '''') @ [dq]"

fun hstore_tags :: "tag list \<Rightarrow> string" where
  "hstore_tags [] = ''''"
| "hstore_tags (t # ts) = hstore_tag t @ (if ts \<noteq> [] then '', '' else '''') @ hstore_tags ts"

definition HstoreTags :: "'ts message \<Rightarrow> string" where
  "HstoreTags m = hstore_tags (Tags m)"

fun hstore_attrs :: "'ts printers \<Rightarrow> 'ts message \<Rightarrow> attribute list \<Rightarrow> string result" where
  "hstore_attrs p m [] = Inr ''''"
| "hstore_attrs p m (a # as) =
     bindR (StringKey m a) (\<lambda>k. bindR (render_value p a) (\<lambda>v. bindR (hstore_attrs p m as) (\<lambda>r.
       Inr ([dq] @ k @ [dq] @ ''=>'' @ v @ (if as \<noteq> [] then '', '' else '''') @ r))))"

definition HstoreAttributes :: "'ts printers \<Rightarrow> 'ts message \<Rightarrow> string result" where
  "HstoreAttributes p m = hstore_attrs p m (Attributes m)"

section \<open>KV\<close>

definition Attribute_KVString :: "'ts printers \<Rightarrow> 'ts message \<Rightarrow> attribute \<Rightarrow> string result" where
  "Attribute_KVString p m a =
     bindR (StringKey m a) (\<lambda>k. bindR (render_value p a) (\<lambda>v. Inr (k @ ''='' @ v)))"

fun kv_pairs :: "'ts printers \<Rightarrow> 'ts message \<Rightarrow> attribute list \<Rightarrow> string result" where
  "kv_pairs p m [] = Inr ''''"
| "kv_pairs p m (a # as) =
     bindR (StringKey m a) (\<lambda>k. bindR (render_value p a) (\<lambda>v. bindR (kv_pairs p m as) (\<lambda>r.
       Inr ('' '' @ k @ ''='' @ v @ r))))"

definition KVPairs :: "'ts printers \<Rightarrow> 'ts message \<Rightarrow> string result" where
  "KVPairs p m = kv_pairs p m (Attributes m)"

text \<open>A tag with a value is followed by a space unless it is the last; one without is not.\<close>

fun kv_tags :: "tag list \<Rightarrow> string" where
  "kv_tags [] = ''''"
| "kv_tags (t # ts) =
     (case TValue t of
        None \<Rightarrow> ''!'' @ TName t
      | Some v \<Rightarrow> TName t @ ''='' @ quoted v @ (if ts \<noteq> [] then '' '' else ''''))
     @ kv_tags ts"

definition KVTags :: "'ts message \<Rightarrow> string" where
  "KVTags m = (if Tags m \<noteq> [] then '' ['' @ kv_tags (Tags m) @ '']'' else '''')"

definition type_prefix :: "'ts message \<Rightarrow> string" where
  "type_prefix m =
     (if GetType m = METRIC then ''! ''
      else if GetType m = TRACE then ''$ ''
      else if GetType m = AUDIT then ''* ''
      else if GetType m = HEARTBEAT then ''? ''
      else '' '')"

definition KVString :: "'ts printers \<Rightarrow> 'ts message \<Rightarrow> string result" where
  "KVString p m =
     bindR (KVPairs p m) (\<lambda>pairs.
       Inr (''>'' @ type_prefix m @ Label p (Timestamp m)
         @ (if GetSessionId m \<noteq> '''' then '' '' @ [backslash] @ GetSessionId m else '''')
         @ KVTags m @ pairs))"

section \<open>Lines for people\<close>

text \<open>The first seven bytes of the session id: a panic for a shorter one that is not empty.\<close>

definition short_session :: "'ts message \<Rightarrow> string result" where
  "short_session m =
     (if GetSessionId m \<noteq> '''' then go_slice (GetSessionId m) 0 7 else Inr ''0000000'')"

definition aligned :: "bool \<Rightarrow> string \<Rightarrow> string" where
  "aligned align time = time @ (if align then replicate (35 - length time) (CHR '' '') else '''')"

definition SyslogString :: "'ts printers \<Rightarrow> 'ts message \<Rightarrow> bool \<Rightarrow> bool \<Rightarrow> string result" where
  "SyslogString p m colorize align =
     bindR (if GetType m = 0
            then bindR (GetString m ''volt'') (\<lambda>volt. case volt of None \<Rightarrow> Inr None | Some v \<Rightarrow>
                 bindR (GetString m ''log'') (\<lambda>log. Inr (map_option (\<lambda>l. (v, l)) log)))
            else Inr None) (\<lambda>special.
     case special of
       Some (volt, log) \<Rightarrow>
         bindR (short_session m) (\<lambda>sid.
           Inr ((if colorize then voltColor p else '''')
             @ aligned align (RFC3339 p (Timestamp m)) @ '' '' @ sid @ '' '' @ volt @ '' ''
             @ (if colorize then resetColor p else '''') @ log))
     | None \<Rightarrow>
         bindR (short_session m) (\<lambda>sid. bindR (KVPairs p m) (\<lambda>pairs.
           Inr ((if colorize then systemColor p else '''')
             @ aligned align (RFC3339 p (Timestamp m)) @ '' '' @ sid @ '' system ''
             @ (if colorize then resetColor p else '''')
             @ (if GetType m = METRIC then ''!'' else if GetType m = TRACE then ''$'' else ''*'')
             @ KVTags m @ pairs))))"

definition HumanString :: "'ts printers \<Rightarrow> 'ts message \<Rightarrow> string result" where
  "HumanString p m =
     bindR (short_session m) (\<lambda>sid. bindR (KVPairs p m) (\<lambda>pairs.
       Inr (type_prefix m @ '' '' @ TsString p (Timestamp m) @ '' '' @ sid @ KVTags m @ pairs)))"

section \<open>Lemmas: the fraction of a second\<close>

lemma strip_zeros_spec:
  "strip_zeros s = Inr t \<Longrightarrow> \<exists>n. rev s = t @ replicate n (CHR ''0'') \<and> t \<noteq> [] \<and> last t \<noteq> CHR ''0''"
proof (induction s)
  case (Cons c s)
  show ?case
  proof (cases "c = CHR ''0''")
    case True
    with Cons obtain n where "rev s = t @ replicate n (CHR ''0'')" "t \<noteq> []" "last t \<noteq> CHR ''0''"
      by auto
    then show ?thesis using True
      by (intro exI [of _ "Suc n"]) (simp flip: replicate_append_same)
  next
    case False
    with Cons.prems show ?thesis by (intro exI [of _ 0]) auto
  qed
qed simp

lemma strip_zeros_panics: "is_panic (strip_zeros s) \<longleftrightarrow> (\<forall>c\<in>set s. c = CHR ''0'')"
  by (induction s) auto

lemma strip_zeros_total: "(\<exists>t. strip_zeros s = Inr t) \<or> strip_zeros s = Inl (Panic ''index out of range'')"
  by (induction s) auto

lemma length_nat_dec: "n < 10 ^ Suc k \<Longrightarrow> length (nat_dec n) \<le> Suc k"
proof (induction k arbitrary: n)
  case 0
  then show ?case by (subst nat_dec.simps) simp
next
  case (Suc k)
  then have "n div 10 < 10 ^ Suc k" by (simp add: less_mult_imp_div_less)
  with Suc.IH [of "n div 10"] show ?case by (subst nat_dec.simps) simp
qed

lemma digits_val_zeros [simp]: "digits_val (replicate n (CHR ''0'') @ s) = digits_val s"
  by (induction n) (simp_all add: digits_val_def digit_of_def)

lemma digits_val_scaled: "digits_val (s @ replicate n (CHR ''0'')) = digits_val s * 10 ^ n"
  by (induction n)
    (simp_all add: digits_val_snoc digit_of_def replicate_append_same [symmetric]
      flip: append_assoc)

lemma strip_zeros_pad9:
  assumes "n < 10 ^ 9"
  shows "is_panic (strip_zeros (rev (pad9 (nat_dec n)))) \<longleftrightarrow> n = 0"
proof
  assume "is_panic (strip_zeros (rev (pad9 (nat_dec n))))"
  then have "\<forall>c\<in>set (nat_dec n). c = CHR ''0''"
    by (simp add: strip_zeros_panics pad9_def)
  then have "nat_dec n = replicate (length (nat_dec n)) (CHR ''0'')"
    by (simp add: replicate_length_same)
  then have "digits_val (nat_dec n) = digits_val (replicate (length (nat_dec n)) (CHR ''0'') @ [])"
    by simp
  then show "n = 0" by (simp only: digits_val_zeros digits_val_nat_dec) (simp add: digits_val_def)
next
  assume "n = 0"
  then show "is_panic (strip_zeros (rev (pad9 (nat_dec n))))"
    by (simp add: strip_zeros_panics pad9_def nat_dec.simps digit_char_def char_of_def bit_simps)
qed

lemma subsecond_cases:
  assumes "unat s < 10 ^ 9"
  shows "s = 0 \<and> subsecond s = Inl (Panic ''index out of range'') \<or>
     s \<noteq> 0 \<and> (\<exists>t. subsecond s = Inr t \<and> t \<noteq> [] \<and> length t \<le> 9 \<and>
       digits_val t * 10 ^ (9 - length t) = unat s)"
proof (cases "s = 0")
  case True
  with strip_zeros_pad9 [of 0] strip_zeros_total [of "rev (pad9 (nat_dec 0))"]
  show ?thesis by (auto simp: subsecond_def)
next
  case False
  then have "unat s \<noteq> 0" by (simp add: unat_eq_zero)
  with strip_zeros_pad9 [OF assms] have "\<not> is_panic (strip_zeros (rev (pad9 (nat_dec (unat s)))))"
    by simp
  with strip_zeros_total obtain t where t: "strip_zeros (rev (pad9 (nat_dec (unat s)))) = Inr t"
    by (metis is_panic_simps(3))
  from strip_zeros_spec [OF this] obtain n where n: "pad9 (nat_dec (unat s)) = t @ replicate n (CHR ''0'')"
    and ne: "t \<noteq> []" by auto
  have "length (nat_dec (unat s)) \<le> 9" using length_nat_dec [of "unat s" 8] assms by simp
  then have "length t + n = 9" using n by (metis pad9_def length_append length_replicate le_add_diff_inverse2)
  moreover have "digits_val (t @ replicate n (CHR ''0'')) = unat s"
    unfolding n [symmetric] by (simp add: pad9_def)
  ultimately have "n = 9 - length t" "digits_val t * 10 ^ n = unat s" "length t \<le> 9"
    by (simp_all add: digits_val_scaled)
  then show ?thesis using False t ne
    by (auto simp: subsecond_def intro!: exI [of _ t])
qed

section \<open>Lemmas: quoting\<close>

text \<open>The reader of a quoted string for which a backslash escapes the character behind it.\<close>

fun read_quoted :: "string \<Rightarrow> (string \<times> string) option" where
  "read_quoted [] = None"
| "read_quoted (c # r) =
     (if c = dq then Some ([], r)
      else if c = backslash then
        (case r of [] \<Rightarrow> None | d # r' \<Rightarrow> map_option (\<lambda>(s, u). (d # s, u)) (read_quoted r'))
      else map_option (\<lambda>(s, u). (c # s, u)) (read_quoted r))"

lemma dq_backslash [simp]: "dq \<noteq> backslash" "backslash \<noteq> dq"
  by (simp_all add: dq_def backslash_def)

lemma strquote_simps [simp]:
  "strquote [] = []"
  "strquote (c # s) = (if c = dq then [backslash, dq] else [c]) @ strquote s"
  by (simp_all add: strquote_def)

lemma read_strquote: "backslash \<notin> set s \<Longrightarrow> read_quoted (strquote s @ dq # r) = Some (s, r)"
  by (induction s) auto

lemma read_strquote_shorter:
  "read_quoted (strquote s @ [dq]) = Some (t, []) \<Longrightarrow>
   length t \<le> length s \<and> (backslash \<in> set s \<longrightarrow> length t < length s)"
proof (induction "length s" arbitrary: s t rule: less_induct)
  case less
  show ?case
  proof (cases s)
    case Nil
    with less.prems show ?thesis by simp
  next
    case (Cons c s')
    show ?thesis
    proof (cases "c = backslash")
      case False
      with less.prems Cons obtain t' where "read_quoted (strquote s' @ [dq]) = Some (t', [])"
        "t = c # t'" by (auto split: if_splits)
      with less.hyps [of s' t'] Cons False show ?thesis by auto
    next
      case True
      show ?thesis
      proof (cases s')
        case Nil
        with less.prems Cons True show ?thesis by simp
      next
        case (Cons d s'')
        with less.prems \<open>s = c # s'\<close> True have "d \<noteq> dq" by auto
        with less.prems \<open>s = c # s'\<close> True Cons obtain t' where
          "read_quoted (strquote s'' @ [dq]) = Some (t', [])" "t = d # t'" by auto
        with less.hyps [of s'' t'] \<open>s = c # s'\<close> Cons show ?thesis by auto
      qed
    qed
  qed
qed

section \<open>Lemmas: rendering\<close>

text \<open>The attributes whose value is an interval of whole seconds.\<close>

definition whole_seconds :: "attribute \<Rightarrow> bool" where
  "whole_seconds a \<longleftrightarrow>
     Ival a = None \<and> Fval a = None \<and> Boolval a = None \<and> Sval a = None \<and> Bval a = None \<and>
     (\<exists>t. Tval a = Some t \<and> Nanoseconds t = 0)"

definition nanos_ok :: "attribute \<Rightarrow> bool" where
  "nanos_ok a \<longleftrightarrow> (\<forall>t. Tval a = Some t \<longrightarrow> unat (Nanoseconds t) < 10 ^ 9)"

lemma render_value_panics:
  assumes "nanos_ok a"
  shows "if whole_seconds a then render_value p a = Inl (Panic ''index out of range'')
     else \<exists>v. render_value p a = Inr v"
proof -
  have sub: "Nanoseconds t = 0 \<and> subsecond (Nanoseconds t) = Inl (Panic ''index out of range'') \<or>
      Nanoseconds t \<noteq> 0 \<and> (\<exists>u. subsecond (Nanoseconds t) = Inr u)" if "Tval a = Some t" for t
    using subsecond_cases [of "Nanoseconds t"] assms that by (auto simp: nanos_ok_def)
  show ?thesis
  proof (cases "Tval a")
    case None
    then show ?thesis by (auto simp: render_value_def whole_seconds_def split: option.split)
  next
    case (Some t)
    with sub [OF Some] show ?thesis
      by (auto simp: render_value_def whole_seconds_def split: option.split)
  qed
qed

lemma kv_pairs_panics:
  assumes "\<forall>a\<in>set as. nanos_ok a" and "\<forall>a\<in>set as. \<exists>k. StringKey m a = Inr k"
  shows "if \<exists>a\<in>set as. whole_seconds a then kv_pairs p m as = Inl (Panic ''index out of range'')
     else \<exists>v. kv_pairs p m as = Inr v"
  using assms
proof (induction as)
  case (Cons a as)
  from Cons.prems obtain k where "StringKey m a = Inr k" by auto
  with Cons render_value_panics [of a p] show ?case
    by (auto split: if_splits)
qed simp

section \<open>Properties\<close>

text \<open>
  the fraction of a second. For nanoseconds below one second, subsecond either gives one
  to nine digits from which the KV parser's scaling by powers of ten recovers the count exactly,
  or, when the count is 0, it panics.
\<close>

lemma subsecond_exact:
  assumes "unat s < 1000000000"
  shows "(is_panic (subsecond s) \<longleftrightarrow> s = 0) \<and>
     (s \<noteq> 0 \<longrightarrow> (\<exists>t. subsecond s = Inr t \<and> 1 \<le> length t \<and> length t \<le> 9 \<and>
        digits_val t * 10 ^ (9 - length t) = unat s))"
  using subsecond_cases [of s] assms by (auto simp: Suc_le_eq)

lemma subsecond_exact_witness:
  "is_panic (subsecond 0) \<and> (\<exists>t. subsecond 500000000 = Inr t)"
  using subsecond_exact [of 0] subsecond_exact [of 500000000] by auto

text \<open>
  when KVString fails. On a message whose keys can be read and whose intervals have
  nanoseconds below one second, KVString, HumanString's attributes and KVPairs return, except
  that an attribute that is an interval of whole seconds makes them panic.
\<close>

lemma KVString_panics_iff:
  assumes "\<forall>a\<in>set (Attributes m). nanos_ok a"
    and "\<forall>a\<in>set (Attributes m). \<exists>k. StringKey m a = Inr k"
  shows "(is_panic (KVString p m) \<longleftrightarrow> (\<exists>a\<in>set (Attributes m). whole_seconds a)) \<and>
     ((\<exists>s. KVString p m = Inr s) \<longleftrightarrow> \<not> (\<exists>a\<in>set (Attributes m). whole_seconds a))"
  using kv_pairs_panics [OF assms, of p] by (auto simp: KVString_def KVPairs_def split: if_splits)

text \<open>Printers for the witnesses.\<close>

definition plain_printers :: "nat printers" where
  "plain_printers = \<lparr>FormatFloat = (\<lambda>f. nat_dec (unat f)),
     Label = (\<lambda>t. ''@'' @ (case t of None \<Rightarrow> '''' | Some n \<Rightarrow> nat_dec n)),
     RFC3339 = (\<lambda>t. case t of None \<Rightarrow> '''' | Some n \<Rightarrow> nat_dec n),
     TsString = (\<lambda>t. case t of None \<Rightarrow> '''' | Some n \<Rightarrow> nat_dec n),
     voltColor = '''', systemColor = '''', resetColor = ''''\<rparr>"

lemma KVString_panics_iff_witness:
  "is_panic (KVString plain_printers (append_attr (Log (0 :: nat))
     (zero_attribute\<lparr>Skey := Some ''d'', Tval := Some (durationToInterval 2000000000)\<rparr>)))"
proof -
  let ?a = "zero_attribute\<lparr>Skey := Some ''d'', Tval := Some (durationToInterval 2000000000)\<rparr>"
  let ?m = "append_attr (Log (0 :: nat)) ?a"
  have "Attributes ?m = [?a]" by (simp add: Log_def zero_message_def)
  moreover have "Nanoseconds (durationToInterval 2000000000) = 0" by code_simp
  ultimately show ?thesis
    using KVString_panics_iff [of ?m plain_printers]
    by (simp add: nanos_ok_def whole_seconds_def StringKey_def zero_attribute_def)
qed

text \<open>
  strquote makes a string safe between double quotes exactly when it has no backslash:
  a reader for which a backslash escapes the next character then reads the string back and
  stops at the closing quote. A backslash, which strquote leaves alone, is lost or swallows the
  quote.
\<close>

lemma strquote_safe_iff:
  "(\<forall>r. read_quoted (strquote s @ dq # r) = Some (s, r)) \<longleftrightarrow> backslash \<notin> set s"
  using read_strquote [of s] read_strquote_shorter [of s s] by auto

end
