(* ===== verification/Wire.thy ===== *)
theory Wire
  imports Varint Message
begin

text \<open>
  log.pb.go, the wire format: Size, MarshalTo, Marshal, Unmarshal, skipLog and Equal of
  Interval, Attribute, Tag, Message and StreamHeader. A read position is the list of the
  bytes that are left, so that the code's index is the length of the data minus the length of
  the rest. Lengths read from the input are 64-bit integers, as the code's int: a length can be
  negative and an addition can wrap, and slices then panic. An input can make the loops of
  skipLog and Unmarshal run forever, so they are partial functions, and None is a call that
  does not return.

  The timestamp is encoded by the package tai64n, whose operations are the parameter of type
  ts_ops; ts_laws is what its documentation promises.
\<close>

record 'ts ts_ops =
  TsZero :: 'ts
  TsSize :: "'ts \<Rightarrow> nat"
  TsMarshalTo :: "'ts \<Rightarrow> bytes result"
  TsUnmarshal :: "'ts \<Rightarrow> bytes \<Rightarrow> 'ts result"
  TsEqual :: "'ts option \<Rightarrow> 'ts option \<Rightarrow> bool"

definition ts_laws :: "'ts ts_ops \<Rightarrow> bool" where
  "ts_laws ops \<longleftrightarrow>
     (\<forall>t. \<exists>bs. TsMarshalTo ops t = Inr bs \<and> length bs = TsSize ops t
         \<and> TsUnmarshal ops (TsZero ops) bs = Inr t)"

section \<open>StreamHeader\<close>

record stream_header =
  Compression :: "u32 option"
  Mode :: "u32 option"
  SHUnrecognized :: bytes

definition zero_header :: stream_header where
  "zero_header = \<lparr>Compression = None, Mode = None, SHUnrecognized = []\<rparr>"

definition StreamHeader_NONE :: u32 where "StreamHeader_NONE = 0"
definition StreamHeader_SNAPPY :: u32 where "StreamHeader_SNAPPY = 1"
definition StreamHeader_ZLIB :: u32 where "StreamHeader_ZLIB = 2"
definition StreamHeader_RAW :: u32 where "StreamHeader_RAW = 0"
definition StreamHeader_RELIABLE :: u32 where "StreamHeader_RELIABLE = 1"

lemmas header_codes = StreamHeader_NONE_def StreamHeader_SNAPPY_def StreamHeader_ZLIB_def
  StreamHeader_RAW_def StreamHeader_RELIABLE_def

definition GetCompression :: "stream_header \<Rightarrow> u32" where
  "GetCompression h = (case Compression h of Some c \<Rightarrow> c | None \<Rightarrow> StreamHeader_NONE)"

definition GetMode :: "stream_header \<Rightarrow> u32" where
  "GetMode h = (case Mode h of Some c \<Rightarrow> c | None \<Rightarrow> StreamHeader_RAW)"

section \<open>Sizes\<close>

definition delim_size :: "nat \<Rightarrow> nat" where
  "delim_size l = 1 + l + sovLog (of_nat l)"

definition Interval_Size :: "interval \<Rightarrow> nat" where
  "Interval_Size i =
     (1 + sovLog (Seconds i)) + (1 + sovLog (ucast (Nanoseconds i))) + length (IUnrecognized i)"

definition Attribute_Size :: "attribute \<Rightarrow> nat" where
  "Attribute_Size a =
     (1 + sovLog (ucast (Key a)))
     + (case Skey a of None \<Rightarrow> 0 | Some s \<Rightarrow> delim_size (length s))
     + (case Ival a of None \<Rightarrow> 0 | Some v \<Rightarrow> 1 + sozLog v)
     + (case Sval a of None \<Rightarrow> 0 | Some s \<Rightarrow> delim_size (length s))
     + (case Bval a of None \<Rightarrow> 0 | Some b \<Rightarrow> delim_size (length b))
     + (case Tval a of None \<Rightarrow> 0 | Some t \<Rightarrow> delim_size (Interval_Size t))
     + (case Boolval a of None \<Rightarrow> 0 | Some _ \<Rightarrow> 2)
     + (case Fval a of None \<Rightarrow> 0 | Some _ \<Rightarrow> 9)
     + length (AUnrecognized a)"

definition Tag_Size :: "tag \<Rightarrow> nat" where
  "Tag_Size t =
     delim_size (length (TName t))
     + (case TValue t of None \<Rightarrow> 0 | Some s \<Rightarrow> delim_size (length s))
     + length (TUnrecognized t)"

definition Message_Size :: "'ts ts_ops \<Rightarrow> 'ts message \<Rightarrow> nat" where
  "Message_Size ops m =
     (1 + sovLog (scast (Version m)))
     + (case Timestamp m of None \<Rightarrow> 0 | Some t \<Rightarrow> delim_size (TsSize ops t))
     + (case MType m of None \<Rightarrow> 0 | Some t \<Rightarrow> 1 + sovLog (ucast t))
     + sum_list (map (\<lambda>e. delim_size (Attribute_Size e)) (Attributes m))
     + (case SessionId m of None \<Rightarrow> 0 | Some s \<Rightarrow> delim_size (length s))
     + sum_list (map (\<lambda>e. delim_size (Tag_Size e)) (Tags m))
     + length (MUnrecognized m)"

definition StreamHeader_Size :: "stream_header \<Rightarrow> nat" where
  "StreamHeader_Size h =
     (case Compression h of None \<Rightarrow> 0 | Some c \<Rightarrow> 1 + sovLog (scast c))
     + (case Mode h of None \<Rightarrow> 0 | Some c \<Rightarrow> 1 + sovLog (scast c))
     + length (SHUnrecognized h)"

section \<open>Writing\<close>

text \<open>A length-delimited field: its key byte, the length, the bytes.\<close>

definition put_delim :: "byte \<Rightarrow> nat \<Rightarrow> bytes \<Rightarrow> bytes" where
  "put_delim key l bs = key # encodeVarintLog (of_nat l) @ bs"

definition Interval_MarshalTo :: "interval \<Rightarrow> bytes" where
  "Interval_MarshalTo i =
     0x08 # encodeVarintLog (Seconds i) @ 0x10 # encodeVarintLog (ucast (Nanoseconds i))
     @ IUnrecognized i"

definition Attribute_MarshalTo :: "attribute \<Rightarrow> bytes" where
  "Attribute_MarshalTo a =
     0x08 # encodeVarintLog (ucast (Key a))
     @ (case Skey a of None \<Rightarrow> [] | Some s \<Rightarrow> put_delim 0x12 (length s) (str_bytes s))
     @ (case Ival a of None \<Rightarrow> [] | Some v \<Rightarrow> 0x18 # encodeVarintLog (zigzag v))
     @ (case Sval a of None \<Rightarrow> [] | Some s \<Rightarrow> put_delim 0x22 (length s) (str_bytes s))
     @ (case Bval a of None \<Rightarrow> [] | Some b \<Rightarrow> put_delim 0x2A (length b) b)
     @ (case Tval a of None \<Rightarrow> []
         | Some t \<Rightarrow> put_delim 0x32 (Interval_Size t) (Interval_MarshalTo t))
     @ (case Boolval a of None \<Rightarrow> [] | Some b \<Rightarrow> [0x38, if b then 1 else 0])
     @ (case Fval a of None \<Rightarrow> [] | Some f \<Rightarrow> 0x41 # encodeFixed64Log f)
     @ AUnrecognized a"

definition Tag_MarshalTo :: "tag \<Rightarrow> bytes" where
  "Tag_MarshalTo t =
     put_delim 0x0A (length (TName t)) (str_bytes (TName t))
     @ (case TValue t of None \<Rightarrow> [] | Some s \<Rightarrow> put_delim 0x12 (length s) (str_bytes s))
     @ TUnrecognized t"

definition Message_MarshalTo :: "'ts ts_ops \<Rightarrow> 'ts message \<Rightarrow> bytes result" where
  "Message_MarshalTo ops m =
     (case Timestamp m of
        None \<Rightarrow> Inl (Err (ErrRequiredNotSet ''timestamp''))
      | Some t \<Rightarrow> bindR (TsMarshalTo ops t) (\<lambda>tbs.
     (case MType m of
        None \<Rightarrow> Inl (Err (ErrRequiredNotSet ''type''))
      | Some ty \<Rightarrow> Inr (
          put_delim 0x0A (TsSize ops t) tbs
          @ 0x10 # encodeVarintLog (ucast ty)
          @ concat (map (\<lambda>a. put_delim 0x1A (Attribute_Size a) (Attribute_MarshalTo a)) (Attributes m))
          @ (case SessionId m of None \<Rightarrow> [] | Some s \<Rightarrow> put_delim 0x22 (length s) (str_bytes s))
          @ concat (map (\<lambda>t. put_delim 0x2A (Tag_Size t) (Tag_MarshalTo t)) (Tags m))
          @ 0x30 # encodeVarintLog (scast (Version m))
          @ MUnrecognized m))))"

definition StreamHeader_MarshalTo :: "stream_header \<Rightarrow> bytes" where
  "StreamHeader_MarshalTo h =
     (case Compression h of None \<Rightarrow> [] | Some c \<Rightarrow> 0x08 # encodeVarintLog (scast c))
     @ (case Mode h of None \<Rightarrow> [] | Some c \<Rightarrow> 0x10 # encodeVarintLog (scast c))
     @ SHUnrecognized h"

text \<open>Marshal: MarshalTo into a buffer of Size bytes, which must be long enough.\<close>

definition into_buffer :: "nat \<Rightarrow> bytes \<Rightarrow> bytes result" where
  "into_buffer n bs =
     (if length bs \<le> n then Inr bs else Inl (Panic ''index out of range''))"

definition Interval_Marshal :: "interval \<Rightarrow> bytes result" where
  "Interval_Marshal i = into_buffer (Interval_Size i) (Interval_MarshalTo i)"

definition Attribute_Marshal :: "attribute \<Rightarrow> bytes result" where
  "Attribute_Marshal a = into_buffer (Attribute_Size a) (Attribute_MarshalTo a)"

definition Tag_Marshal :: "tag \<Rightarrow> bytes result" where
  "Tag_Marshal t = into_buffer (Tag_Size t) (Tag_MarshalTo t)"

definition Message_Marshal :: "'ts ts_ops \<Rightarrow> 'ts message \<Rightarrow> bytes result" where
  "Message_Marshal ops m = bindR (Message_MarshalTo ops m) (into_buffer (Message_Size ops m))"

definition StreamHeader_Marshal :: "stream_header \<Rightarrow> bytes result" where
  "StreamHeader_Marshal h = into_buffer (StreamHeader_Size h) (StreamHeader_MarshalTo h)"

section \<open>Skipping\<close>

text \<open>The sum of two values of Go's int.\<close>

definition go_add :: "int \<Rightarrow> int \<Rightarrow> int" where
  "go_add a b = sint (word_of_int (a + b) :: u64)"

definition go_index_of :: "bytes \<Rightarrow> bytes \<Rightarrow> int" where
  "go_index_of data rest = int (length data) - int (length rest)"

fun skip_varint :: "bytes \<Rightarrow> bytes result" where
  "skip_varint [] = Inl (Err UnexpectedEOF)"
| "skip_varint (b # r) = (if b < 0x80 then Inr r else skip_varint r)"

text \<open>
  skipLog, with None as its second argument, and with Some index the loop over the fields of a
  group inside skipLog. All branches of the function return, so its own loop runs once; on
  empty data the loop does not run at all and the panic after it is reached.
\<close>

partial_function (option) skip_run :: "bytes \<Rightarrow> int option \<Rightarrow> int result option" where
  "skip_run data grp =
     (case grp of
        None \<Rightarrow>
          (if data = [] then Some (Inl (Panic ''unreachable''))
           else case read_varint 0 (0 :: u64) data of
             Inl e \<Rightarrow> Some (Inl e)
           | Inr (wire, rest) \<Rightarrow>
               (let wt = wire AND 7; index = go_index_of data rest in
                if wt = 0 then Some (bindR (skip_varint rest) (\<lambda>r. Inr (go_index_of data r)))
                else if wt = 1 then Some (Inr (index + 8))
                else if wt = 2 then
                  Some (bindR (read_varint 0 (0 :: u64) rest) (\<lambda>(len, r).
                    Inr (go_add (go_index_of data r) (sint len))))
                else if wt = 3 then skip_run data (Some index)
                else if wt = 4 then Some (Inr index)
                else if wt = 5 then Some (Inr (index + 4))
                else Some (Inl (Err (ErrIllegalWireType (unat wt))))))
      | Some start \<Rightarrow>
          (if start < 0 then Some (Inl (Panic ''index out of range''))
           else case read_varint 0 (0 :: u64) (drop (nat start) data) of
             Inl e \<Rightarrow> Some (Inl e)
           | Inr (wire, rest) \<Rightarrow>
               (if wire AND 7 = 4 then Some (Inr (go_index_of data rest))
                else Option.bind (skip_run (drop (nat start) data) None) (\<lambda>r.
                  case r of
                    Inl e \<Rightarrow> Some (Inl e)
                  | Inr next_index \<Rightarrow> skip_run data (Some (go_add start next_index))))))"

definition skipLog :: "bytes \<Rightarrow> int result option" where
  "skipLog data = skip_run data None"

section \<open>Reading\<close>

definition fieldNum :: "u64 \<Rightarrow> u32" where
  "fieldNum wire = ucast (drop_bit 3 wire)"

definition wireType :: "u64 \<Rightarrow> nat" where
  "wireType wire = unat (wire AND 7)"

text \<open>A length and that many bytes of the data; the answer is the bytes and the rest.\<close>

definition read_delim :: "bytes \<Rightarrow> bytes \<Rightarrow> (bytes \<times> bytes) result" where
  "read_delim data rest =
     bindR (read_varint 0 (0 :: u64) rest) (\<lambda>(len, r).
       let index = go_index_of data r; postIndex = go_add index (sint len) in
       if postIndex > int (length data) then Inl (Err UnexpectedEOF)
       else bindR (go_slice data index postIndex) (\<lambda>b. Inr (b, drop (nat postIndex) data)))"

text \<open>
  A field the struct does not have: go back over the key as it would be encoded, skip the field
  and keep its bytes.
\<close>

definition unknown_field :: "bytes \<Rightarrow> u64 \<Rightarrow> bytes \<Rightarrow> (bytes \<times> bytes) result option" where
  "unknown_field data wire rest =
     (let index = go_index_of data rest - int (sovLog wire) in
      case go_slice data index (int (length data)) of
        Inl e \<Rightarrow> Some (Inl e)
      | Inr from \<Rightarrow>
          map_option (\<lambda>r. bindR r (\<lambda>skippy.
            if go_add index skippy > int (length data) then Inl (Err UnexpectedEOF)
            else bindR (go_slice data index (go_add index skippy)) (\<lambda>b.
              Inr (b, drop (nat (go_add index skippy)) data)))) (skipLog from))"

definition wrong_type :: "u64 \<Rightarrow> string \<Rightarrow> 'a result" where
  "wrong_type wire field = Inl (Err (ErrWrongWireType (wireType wire) field))"

text \<open>The loop over the fields that the Unmarshal methods share; the step is one field.\<close>

partial_function (option) fields_loop ::
  "(bytes \<Rightarrow> u64 \<Rightarrow> 'm \<Rightarrow> bytes \<Rightarrow> ('m \<times> bytes) result option)
     \<Rightarrow> bytes \<Rightarrow> bytes \<Rightarrow> 'm \<Rightarrow> 'm result option" where
  "fields_loop step data rest st =
     (if rest = [] then Some (Inr st)
      else case read_varint 0 (0 :: u64) rest of
        Inl e \<Rightarrow> Some (Inl e)
      | Inr (wire, r) \<Rightarrow>
          Option.bind (step data wire st r) (\<lambda>u.
            case u of
              Inl e \<Rightarrow> Some (Inl e)
            | Inr (st', rest') \<Rightarrow> fields_loop step data rest' st'))"

text \<open>The state of an Unmarshal: the struct and the bits of hasFields.\<close>

definition Interval_field ::
  "bytes \<Rightarrow> u64 \<Rightarrow> interval \<times> u64 \<Rightarrow> bytes \<Rightarrow> ((interval \<times> u64) \<times> bytes) result option" where
  "Interval_field data wire st rest =
     (case st of (m, hf) \<Rightarrow>
      if fieldNum wire = 1 then Some
        (if wireType wire \<noteq> 0 then wrong_type wire ''Seconds''
         else bindR (read_varint 0 (Seconds m) rest) (\<lambda>(v, r).
           Inr ((m\<lparr>Seconds := v\<rparr>, hf OR 1), r)))
      else if fieldNum wire = 2 then Some
        (if wireType wire \<noteq> 0 then wrong_type wire ''Nanoseconds''
         else bindR (read_varint 0 (Nanoseconds m) rest) (\<lambda>(v, r).
           Inr ((m\<lparr>Nanoseconds := v\<rparr>, hf OR 2), r)))
      else map_option (\<lambda>u. bindR u (\<lambda>(b, r).
             Inr ((m\<lparr>IUnrecognized := IUnrecognized m @ b\<rparr>, hf), r)))
           (unknown_field data wire rest))"

definition Interval_Unmarshal :: "interval \<Rightarrow> bytes \<Rightarrow> interval result option" where
  "Interval_Unmarshal m data =
     map_option (\<lambda>r. bindR r (\<lambda>(m', hf).
       if hf AND 1 = 0 then Inl (Err (ErrRequiredNotSet ''seconds''))
       else if hf AND 2 = 0 then Inl (Err (ErrRequiredNotSet ''nanoseconds''))
       else Inr m'))
     (fields_loop Interval_field data data (m, 0))"

definition Attribute_field ::
  "bytes \<Rightarrow> u64 \<Rightarrow> attribute \<times> u64 \<Rightarrow> bytes \<Rightarrow> ((attribute \<times> u64) \<times> bytes) result option" where
  "Attribute_field data wire st rest =
     (case st of (m, hf) \<Rightarrow>
      if fieldNum wire = 1 then Some
        (if wireType wire \<noteq> 0 then wrong_type wire ''Key''
         else bindR (read_varint 0 (Key m) rest) (\<lambda>(v, r). Inr ((m\<lparr>Key := v\<rparr>, hf OR 1), r)))
      else if fieldNum wire = 2 then Some
        (if wireType wire \<noteq> 2 then wrong_type wire ''Skey''
         else bindR (read_delim data rest) (\<lambda>(b, r). Inr ((m\<lparr>Skey := Some (bytes_str b)\<rparr>, hf), r)))
      else if fieldNum wire = 3 then Some
        (if wireType wire \<noteq> 0 then wrong_type wire ''Ival''
         else bindR (read_varint 0 (0 :: u64) rest) (\<lambda>(v, r).
           Inr ((m\<lparr>Ival := Some (unzigzag v)\<rparr>, hf), r)))
      else if fieldNum wire = 4 then Some
        (if wireType wire \<noteq> 2 then wrong_type wire ''Sval''
         else bindR (read_delim data rest) (\<lambda>(b, r). Inr ((m\<lparr>Sval := Some (bytes_str b)\<rparr>, hf), r)))
      else if fieldNum wire = 5 then Some
        (if wireType wire \<noteq> 2 then wrong_type wire ''Bval''
         else bindR (read_delim data rest) (\<lambda>(b, r). Inr ((m\<lparr>Bval := Some b\<rparr>, hf), r)))
      else if fieldNum wire = 6 then
        (if wireType wire \<noteq> 2 then Some (wrong_type wire ''Tval'')
         else case read_delim data rest of
           Inl e \<Rightarrow> Some (Inl e)
         | Inr (b, r) \<Rightarrow>
             map_option (\<lambda>u. bindR u (\<lambda>t. Inr ((m\<lparr>Tval := Some t\<rparr>, hf), r)))
               (Interval_Unmarshal (case Tval m of None \<Rightarrow> zero_interval | Some t \<Rightarrow> t) b))
      else if fieldNum wire = 7 then Some
        (if wireType wire \<noteq> 0 then wrong_type wire ''Boolval''
         else bindR (read_varint 0 (0 :: u64) rest) (\<lambda>(v, r).
           Inr ((m\<lparr>Boolval := Some (v \<noteq> 0)\<rparr>, hf), r)))
      else if fieldNum wire = 8 then Some
        (if wireType wire \<noteq> 1 then wrong_type wire ''Fval''
         else bindR (read_fixed64 rest) (\<lambda>(v, r). Inr ((m\<lparr>Fval := Some v\<rparr>, hf), r)))
      else map_option (\<lambda>u. bindR u (\<lambda>(b, r).
             Inr ((m\<lparr>AUnrecognized := AUnrecognized m @ b\<rparr>, hf), r)))
           (unknown_field data wire rest))"

definition Attribute_Unmarshal :: "attribute \<Rightarrow> bytes \<Rightarrow> attribute result option" where
  "Attribute_Unmarshal m data =
     map_option (\<lambda>r. bindR r (\<lambda>(m', hf).
       if hf AND 1 = 0 then Inl (Err (ErrRequiredNotSet ''key'')) else Inr m'))
     (fields_loop Attribute_field data data (m, 0))"

definition Tag_field ::
  "bytes \<Rightarrow> u64 \<Rightarrow> tag \<times> u64 \<Rightarrow> bytes \<Rightarrow> ((tag \<times> u64) \<times> bytes) result option" where
  "Tag_field data wire st rest =
     (case st of (m, hf) \<Rightarrow>
      if fieldNum wire = 1 then Some
        (if wireType wire \<noteq> 2 then wrong_type wire ''Name''
         else bindR (read_delim data rest) (\<lambda>(b, r). Inr ((m\<lparr>TName := bytes_str b\<rparr>, hf OR 1), r)))
      else if fieldNum wire = 2 then Some
        (if wireType wire \<noteq> 2 then wrong_type wire ''Value''
         else bindR (read_delim data rest) (\<lambda>(b, r). Inr ((m\<lparr>TValue := Some (bytes_str b)\<rparr>, hf), r)))
      else map_option (\<lambda>u. bindR u (\<lambda>(b, r).
             Inr ((m\<lparr>TUnrecognized := TUnrecognized m @ b\<rparr>, hf), r)))
           (unknown_field data wire rest))"

definition Tag_Unmarshal :: "tag \<Rightarrow> bytes \<Rightarrow> tag result option" where
  "Tag_Unmarshal m data =
     map_option (\<lambda>r. bindR r (\<lambda>(m', hf).
       if hf AND 1 = 0 then Inl (Err (ErrRequiredNotSet ''name'')) else Inr m'))
     (fields_loop Tag_field data data (m, 0))"

definition Message_field ::
  "'ts ts_ops \<Rightarrow> bytes \<Rightarrow> u64 \<Rightarrow> 'ts message \<times> u64 \<Rightarrow> bytes
     \<Rightarrow> (('ts message \<times> u64) \<times> bytes) result option" where
  "Message_field ops data wire st rest =
     (case st of (m, hf) \<Rightarrow>
      if fieldNum wire = 6 then Some
        (if wireType wire \<noteq> 0 then wrong_type wire ''Version''
         else bindR (read_varint 0 (Version m) rest) (\<lambda>(v, r). Inr ((m\<lparr>Version := v\<rparr>, hf), r)))
      else if fieldNum wire = 1 then Some
        (if wireType wire \<noteq> 2 then wrong_type wire ''Timestamp''
         else bindR (read_delim data rest) (\<lambda>(b, r).
           bindR (TsUnmarshal ops (case Timestamp m of None \<Rightarrow> TsZero ops | Some t \<Rightarrow> t) b) (\<lambda>t.
             Inr ((m\<lparr>Timestamp := Some t\<rparr>, hf OR 1), r))))
      else if fieldNum wire = 2 then Some
        (if wireType wire \<noteq> 0 then wrong_type wire ''Type''
         else bindR (read_varint 0 (0 :: u32) rest) (\<lambda>(v, r).
           Inr ((m\<lparr>MType := Some v\<rparr>, hf OR 2), r)))
      else if fieldNum wire = 3 then
        (if wireType wire \<noteq> 2 then Some (wrong_type wire ''Attributes'')
         else case read_delim data rest of
           Inl e \<Rightarrow> Some (Inl e)
         | Inr (b, r) \<Rightarrow>
             map_option (\<lambda>u. bindR u (\<lambda>a. Inr ((m\<lparr>Attributes := Attributes m @ [a]\<rparr>, hf), r)))
               (Attribute_Unmarshal zero_attribute b))
      else if fieldNum wire = 4 then Some
        (if wireType wire \<noteq> 2 then wrong_type wire ''SessionId''
         else bindR (read_delim data rest) (\<lambda>(b, r).
           Inr ((m\<lparr>SessionId := Some (bytes_str b)\<rparr>, hf), r)))
      else if fieldNum wire = 5 then
        (if wireType wire \<noteq> 2 then Some (wrong_type wire ''Tags'')
         else case read_delim data rest of
           Inl e \<Rightarrow> Some (Inl e)
         | Inr (b, r) \<Rightarrow>
             map_option (\<lambda>u. bindR u (\<lambda>t. Inr ((m\<lparr>Tags := Tags m @ [t]\<rparr>, hf), r)))
               (Tag_Unmarshal zero_tag b))
      else map_option (\<lambda>u. bindR u (\<lambda>(b, r).
             Inr ((m\<lparr>MUnrecognized := MUnrecognized m @ b\<rparr>, hf), r)))
           (unknown_field data wire rest))"

definition Message_Unmarshal ::
  "'ts ts_ops \<Rightarrow> 'ts message \<Rightarrow> bytes \<Rightarrow> 'ts message result option" where
  "Message_Unmarshal ops m data =
     map_option (\<lambda>r. bindR r (\<lambda>(m', hf).
       if hf AND 1 = 0 then Inl (Err (ErrRequiredNotSet ''timestamp''))
       else if hf AND 2 = 0 then Inl (Err (ErrRequiredNotSet ''type''))
       else Inr m'))
     (fields_loop (Message_field ops) data data (m, 0))"

definition StreamHeader_field ::
  "bytes \<Rightarrow> u64 \<Rightarrow> stream_header \<Rightarrow> bytes \<Rightarrow> (stream_header \<times> bytes) result option" where
  "StreamHeader_field data wire m rest =
     (if fieldNum wire = 1 then Some
        (if wireType wire \<noteq> 0 then wrong_type wire ''Compression''
         else bindR (read_varint 0 (0 :: u32) rest) (\<lambda>(v, r).
           Inr (m\<lparr>Compression := Some v\<rparr>, r)))
      else if fieldNum wire = 2 then Some
        (if wireType wire \<noteq> 0 then wrong_type wire ''Mode''
         else bindR (read_varint 0 (0 :: u32) rest) (\<lambda>(v, r). Inr (m\<lparr>Mode := Some v\<rparr>, r)))
      else map_option (\<lambda>u. bindR u (\<lambda>(b, r).
             Inr (m\<lparr>SHUnrecognized := SHUnrecognized m @ b\<rparr>, r)))
           (unknown_field data wire rest))"

definition StreamHeader_Unmarshal :: "stream_header \<Rightarrow> bytes \<Rightarrow> stream_header result option" where
  "StreamHeader_Unmarshal m data = fields_loop StreamHeader_field data data m"

section \<open>Equality\<close>

text \<open>bytes.Equal takes a nil slice and an empty one to be equal; floats compare by IEEE (feq).\<close>

definition opt_eq :: "('a \<Rightarrow> 'a \<Rightarrow> bool) \<Rightarrow> 'a option \<Rightarrow> 'a option \<Rightarrow> bool" where
  "opt_eq eq x y = (case (x, y) of
      (Some a, Some b) \<Rightarrow> eq a b | (None, None) \<Rightarrow> True | _ \<Rightarrow> False)"

definition bytes_of :: "bytes option \<Rightarrow> bytes" where
  "bytes_of b = (case b of None \<Rightarrow> [] | Some x \<Rightarrow> x)"

definition Interval_Equal :: "interval \<Rightarrow> interval \<Rightarrow> bool" where
  "Interval_Equal a b \<longleftrightarrow>
     Seconds a = Seconds b \<and> Nanoseconds a = Nanoseconds b \<and> IUnrecognized a = IUnrecognized b"

definition Attribute_Equal :: "(float64 \<Rightarrow> float64 \<Rightarrow> bool) \<Rightarrow> attribute \<Rightarrow> attribute \<Rightarrow> bool" where
  "Attribute_Equal feq a b \<longleftrightarrow>
     Key a = Key b \<and> opt_eq (=) (Skey a) (Skey b) \<and> opt_eq (=) (Ival a) (Ival b) \<and>
     opt_eq (=) (Sval a) (Sval b) \<and> bytes_of (Bval a) = bytes_of (Bval b) \<and>
     opt_eq Interval_Equal (Tval a) (Tval b) \<and> opt_eq (=) (Boolval a) (Boolval b) \<and>
     opt_eq feq (Fval a) (Fval b) \<and> AUnrecognized a = AUnrecognized b"

definition Tag_Equal :: "tag \<Rightarrow> tag \<Rightarrow> bool" where
  "Tag_Equal a b \<longleftrightarrow>
     TName a = TName b \<and> opt_eq (=) (TValue a) (TValue b) \<and> TUnrecognized a = TUnrecognized b"

definition Message_Equal ::
  "'ts ts_ops \<Rightarrow> (float64 \<Rightarrow> float64 \<Rightarrow> bool) \<Rightarrow> 'ts message \<Rightarrow> 'ts message \<Rightarrow> bool" where
  "Message_Equal ops feq a b \<longleftrightarrow>
     TsEqual ops (Timestamp a) (Timestamp b) \<and> opt_eq (=) (MType a) (MType b) \<and>
     list_all2 (Attribute_Equal feq) (Attributes a) (Attributes b) \<and>
     opt_eq (=) (SessionId a) (SessionId b) \<and> list_all2 Tag_Equal (Tags a) (Tags b) \<and>
     Version a = Version b \<and> MUnrecognized a = MUnrecognized b"

definition StreamHeader_Equal :: "stream_header \<Rightarrow> stream_header \<Rightarrow> bool" where
  "StreamHeader_Equal a b \<longleftrightarrow>
     opt_eq (=) (Compression a) (Compression b) \<and> opt_eq (=) (Mode a) (Mode b) \<and>
     SHUnrecognized a = SHUnrecognized b"

section \<open>Lemmas: sizes\<close>

lemma length_put_delim: "length bs = l \<Longrightarrow> length (put_delim key l bs) = delim_size l"
  by (simp add: put_delim_def delim_size_def)

lemma Interval_Size_MarshalTo: "length (Interval_MarshalTo i) = Interval_Size i"
  by (simp add: Interval_MarshalTo_def Interval_Size_def)

lemma Attribute_Size_MarshalTo: "length (Attribute_MarshalTo a) = Attribute_Size a"
  by (simp add: Attribute_MarshalTo_def Attribute_Size_def length_put_delim sozLog_eq
      Interval_Size_MarshalTo split: option.split)

lemma Tag_Size_MarshalTo: "length (Tag_MarshalTo t) = Tag_Size t"
  by (simp add: Tag_MarshalTo_def Tag_Size_def length_put_delim split: option.split)

lemma Message_Size_MarshalTo:
  assumes "ts_laws ops" and "Message_MarshalTo ops m = Inr bs"
  shows "length bs = Message_Size ops m"
proof -
  from assms(2) obtain t ty tbs where t: "Timestamp m = Some t" "MType m = Some ty"
    "TsMarshalTo ops t = Inr tbs"
    by (auto simp: Message_MarshalTo_def go_simps split: option.splits)
  with assms have "length tbs = TsSize ops t"
    by (metis Inr_inject ts_laws_def)
  with assms(2) t show ?thesis
    by (auto simp: Message_MarshalTo_def Message_Size_def length_put_delim length_concat comp_def
        Attribute_Size_MarshalTo Tag_Size_MarshalTo split: option.splits)
qed

lemma StreamHeader_Size_MarshalTo: "length (StreamHeader_MarshalTo h) = StreamHeader_Size h"
  by (simp add: StreamHeader_MarshalTo_def StreamHeader_Size_def split: option.split)

section \<open>Lemmas: reading what was written\<close>

text \<open>The rest is what is left of the data, and the data fits an int.\<close>

definition at_rest :: "bytes \<Rightarrow> bytes \<Rightarrow> bool" where
  "at_rest data rest \<longleftrightarrow> length data < 2 ^ 63 \<and> (\<exists>pre. data = pre @ rest)"

lemma at_rest_start: "length data < 2 ^ 63 \<Longrightarrow> at_rest data data"
  by (simp add: at_rest_def)

lemma at_rest_drop [intro]: "at_rest data (xs @ rest) \<Longrightarrow> at_rest data rest"
  by (force simp: at_rest_def)

lemma at_rest_tl [intro]: "at_rest data (x # rest) \<Longrightarrow> at_rest data rest"
  using at_rest_drop [of data "[x]" rest] by simp

lemma sint_of_nat: "n < 2 ^ 63 \<Longrightarrow> sint (of_nat n :: u64) = int n"
  by (simp add: signed_of_nat signed_take_bit_int_eq_self)

lemma go_add_eq: "- (2 ^ 63) \<le> a + b \<Longrightarrow> a + b < 2 ^ 63 \<Longrightarrow> go_add a b = a + b"
  by (simp add: go_add_def signed_of_int signed_take_bit_int_eq_self del: of_int_add)

lemma read_delim_put:
  assumes "at_rest data (encodeVarintLog (of_nat (length b)) @ b @ r)"
  shows "read_delim data (encodeVarintLog (of_nat (length b)) @ b @ r) = Inr (b, r)"
proof -
  from assms obtain pre where data: "data = pre @ encodeVarintLog (of_nat (length b)) @ b @ r"
    and len: "length data < 2 ^ 63"
    by (auto simp: at_rest_def)
  define pre' where "pre' = pre @ encodeVarintLog (of_nat (length b))"
  have data': "data = pre' @ b @ r" by (simp add: data pre'_def)
  have b: "sint (of_nat (length b) :: u64) = int (length b)"
    using len data' by (intro sint_of_nat) simp
  have idx: "go_index_of data (b @ r) = int (length pre')"
    by (simp add: go_index_of_def data')
  have post: "go_add (int (length pre')) (int (length b)) = int (length pre' + length b)"
    using len data' by (subst go_add_eq) simp_all
  have "go_slice data (int (length pre')) (int (length pre' + length b)) = Inr b"
    by (simp add: go_slice_def data')
  then show ?thesis
    unfolding read_delim_def by (simp add: wire_simps Let_def idx b post) (simp add: data')
qed

lemma fields_loop_Nil [simp]: "fields_loop step data [] st = Some (Inr st)"
  by (simp add: fields_loop.simps)

lemma fields_loop_step:
  assumes "read_varint 0 (0 :: u64) (k # rest) = Inr (wire, r)"
    and "step data wire st r = Some (Inr (st', rest'))"
  shows "fields_loop step data (k # rest) st = fields_loop step data rest' st'"
  by (subst fields_loop.simps) (simp add: assms del: read_varint.simps)

lemma read_key:
  "k < 0x80 \<Longrightarrow> read_varint 0 (0 :: u64) (k # rest) = Inr (ucast k AND 0x7F, rest)"
  by (simp add: Let_def)

text \<open>The key bytes of the fields: their numbers and wire types.\<close>

lemma read_keys [wire_simps]:
  "read_varint 0 (0 :: u64) (0x08 # r) = Inr (0x08, r)"
  "read_varint 0 (0 :: u64) (0x10 # r) = Inr (0x10, r)"
  "read_varint 0 (0 :: u64) (0x18 # r) = Inr (0x18, r)"
  "read_varint 0 (0 :: u64) (0x30 # r) = Inr (0x30, r)"
  "read_varint 0 (0 :: u64) (0x38 # r) = Inr (0x38, r)"
  "read_varint 0 (0 :: u64) (0x41 # r) = Inr (0x41, r)"
  "read_varint 0 (0 :: u64) (0x0A # r) = Inr (0x0A, r)"
  "read_varint 0 (0 :: u64) (0x12 # r) = Inr (0x12, r)"
  "read_varint 0 (0 :: u64) (0x1A # r) = Inr (0x1A, r)"
  "read_varint 0 (0 :: u64) (0x22 # r) = Inr (0x22, r)"
  "read_varint 0 (0 :: u64) (0x2A # r) = Inr (0x2A, r)"
  "read_varint 0 (0 :: u64) (0x32 # r) = Inr (0x32, r)"
  by (simp_all add: Let_def)

lemma key_fields [wire_simps]:
  "fieldNum 0x08 = 1" "wireType 0x08 = 0"
  "fieldNum 0x10 = 2" "wireType 0x10 = 0"
  "fieldNum 0x18 = 3" "wireType 0x18 = 0"
  "fieldNum 0x30 = 6" "wireType 0x30 = 0"
  "fieldNum 0x38 = 7" "wireType 0x38 = 0"
  "fieldNum 0x41 = 8" "wireType 0x41 = 1"
  "fieldNum 0x0A = 1" "wireType 0x0A = 2"
  "fieldNum 0x12 = 2" "wireType 0x12 = 2"
  "fieldNum 0x1A = 3" "wireType 0x1A = 2"
  "fieldNum 0x22 = 4" "wireType 0x22 = 2"
  "fieldNum 0x2A = 5" "wireType 0x2A = 2"
  "fieldNum 0x32 = 6" "wireType 0x32 = 2"
  by (simp_all add: fieldNum_def wireType_def)

lemma ucast_ucast_u32 [wire_simps]: "ucast (ucast (x :: u32) :: u64) = x"
  by (rule bit_word_eqI) (auto simp: bit_simps)

lemma ucast_scast_u32 [wire_simps]: "ucast (scast (x :: u32) :: u64) = x"
  by (rule bit_word_eqI) (auto simp: bit_simps)

section \<open>Lemmas: round trips\<close>

lemma Interval_fields:
  "fields_loop Interval_field data (0x08 # encodeVarintLog v @ r) (m, hf) =
     fields_loop Interval_field data r (m\<lparr>Seconds := Seconds m OR v\<rparr>, hf OR 1)"
  "fields_loop Interval_field data (0x10 # encodeVarintLog (ucast w) @ r) (m, hf) =
     fields_loop Interval_field data r (m\<lparr>Nanoseconds := Nanoseconds m OR w\<rparr>, hf OR 2)"
  by (rule fields_loop_step, rule read_keys,
      simp add: Interval_field_def wire_simps read_varint_PutUvarint encodeVarintLog_eq_PutUvarint)+

lemma Interval_Unmarshal_MarshalTo:
  assumes "IUnrecognized i = []"
  shows "Interval_Unmarshal zero_interval (Interval_MarshalTo i) = Some (Inr i)"
  using Interval_fields(2) [of _ _ "[]"] assms
  by (simp add: Interval_Unmarshal_def Interval_MarshalTo_def Interval_fields(1) zero_interval_def)

text \<open>A delimited field is read by read_delim; its step decides what becomes of it.\<close>

lemma fields_loop_delim:
  assumes "at_rest data (put_delim k (length b) b @ r)"
    and "read_varint 0 (0 :: u64) (k # encodeVarintLog (of_nat (length b)) @ b @ r) =
      Inr (wire, encodeVarintLog (of_nat (length b)) @ b @ r)"
    and "\<And>rest. read_delim data rest = Inr (b, r) \<Longrightarrow> step data wire st rest = Some (Inr (st', r))"
  shows "fields_loop step data (put_delim k (length b) b @ r) st = fields_loop step data r st'"
proof -
  have "at_rest data (encodeVarintLog (of_nat (length b)) @ b @ r)"
    using assms(1) unfolding put_delim_def by auto
  from assms(3) [OF read_delim_put [OF this]] assms(2) show ?thesis
    by (simp add: put_delim_def fields_loop_step)
qed

lemma put_delim_str: "put_delim k (length s) (str_bytes s) = put_delim k (length (str_bytes s)) (str_bytes s)"
  by simp

lemma put_delim_Interval: "put_delim k (Interval_Size t) (Interval_MarshalTo t) =
    put_delim k (length (Interval_MarshalTo t)) (Interval_MarshalTo t)"
  by (simp add: Interval_Size_MarshalTo)

definition interval_ok :: "interval \<Rightarrow> bool" where
  "interval_ok i \<longleftrightarrow> IUnrecognized i = []"

definition attribute_ok :: "attribute \<Rightarrow> bool" where
  "attribute_ok a \<longleftrightarrow> AUnrecognized a = [] \<and> (\<forall>t. Tval a = Some t \<longrightarrow> interval_ok t)"

definition tag_ok :: "tag \<Rightarrow> bool" where
  "tag_ok t \<longleftrightarrow> TUnrecognized t = []"

definition later :: "'a option \<Rightarrow> 'a option \<Rightarrow> 'a option" where
  "later new old = (case new of None \<Rightarrow> old | Some x \<Rightarrow> Some x)"

lemma later_simps [simp]: "later None z = z" "later (Some x) y = Some x" "later y None = y"
  by (simp_all add: later_def split: option.split)

lemma Attribute_scalar_fields:
  "fields_loop Attribute_field data (0x08 # encodeVarintLog (ucast k) @ r) (m, hf) =
     fields_loop Attribute_field data r (m\<lparr>Key := Key m OR k\<rparr>, hf OR 1)"
  "fields_loop Attribute_field data
     ((case i of None \<Rightarrow> [] | Some v \<Rightarrow> 0x18 # encodeVarintLog (zigzag v)) @ r) (m, hf) =
     fields_loop Attribute_field data r (m\<lparr>Ival := later i (Ival m)\<rparr>, hf)"
  "fields_loop Attribute_field data
     ((case bo of None \<Rightarrow> [] | Some v \<Rightarrow> [0x38, if v then 1 else 0]) @ r) (m, hf) =
     fields_loop Attribute_field data r (m\<lparr>Boolval := later bo (Boolval m)\<rparr>, hf)"
  "fields_loop Attribute_field data
     ((case f of None \<Rightarrow> [] | Some v \<Rightarrow> 0x41 # encodeFixed64Log v) @ r) (m, hf) =
     fields_loop Attribute_field data r (m\<lparr>Fval := later f (Fval m)\<rparr>, hf)"
proof -
  show "fields_loop Attribute_field data (0x08 # encodeVarintLog (ucast k) @ r) (m, hf) =
     fields_loop Attribute_field data r (m\<lparr>Key := Key m OR k\<rparr>, hf OR 1)"
    by (rule fields_loop_step, rule read_keys)
      (simp add: Attribute_field_def wire_simps read_varint_PutUvarint encodeVarintLog_eq_PutUvarint)
  show "fields_loop Attribute_field data
     ((case i of None \<Rightarrow> [] | Some v \<Rightarrow> 0x18 # encodeVarintLog (zigzag v)) @ r) (m, hf) =
     fields_loop Attribute_field data r (m\<lparr>Ival := later i (Ival m)\<rparr>, hf)"
    by (cases i, simp, simp, rule fields_loop_step, rule read_keys)
      (simp add: Attribute_field_def wire_simps)
  show "fields_loop Attribute_field data
     ((case bo of None \<Rightarrow> [] | Some v \<Rightarrow> [0x38, if v then 1 else 0]) @ r) (m, hf) =
     fields_loop Attribute_field data r (m\<lparr>Boolval := later bo (Boolval m)\<rparr>, hf)"
  proof (cases bo)
    case (Some v)
    have "fields_loop Attribute_field data (0x38 # (if v then 1 else 0) # r) (m, hf) =
        fields_loop Attribute_field data r (m\<lparr>Boolval := Some v\<rparr>, hf)"
      by (rule fields_loop_step, rule read_keys)
        (simp add: Attribute_field_def wire_simps Let_def split: if_split)
    with Some show ?thesis by simp
  qed simp
  show "fields_loop Attribute_field data
     ((case f of None \<Rightarrow> [] | Some v \<Rightarrow> 0x41 # encodeFixed64Log v) @ r) (m, hf) =
     fields_loop Attribute_field data r (m\<lparr>Fval := later f (Fval m)\<rparr>, hf)"
    by (cases f, simp, simp, rule fields_loop_step, rule read_keys)
      (simp add: Attribute_field_def wire_simps)
qed

lemma Attribute_string_fields:
  "at_rest data ((case s of None \<Rightarrow> [] | Some v \<Rightarrow> put_delim 0x12 (length v) (str_bytes v)) @ r) \<Longrightarrow>
   fields_loop Attribute_field data
     ((case s of None \<Rightarrow> [] | Some v \<Rightarrow> put_delim 0x12 (length v) (str_bytes v)) @ r) (m, hf) =
     fields_loop Attribute_field data r (m\<lparr>Skey := later s (Skey m)\<rparr>, hf)"
  "at_rest data ((case s of None \<Rightarrow> [] | Some v \<Rightarrow> put_delim 0x22 (length v) (str_bytes v)) @ r) \<Longrightarrow>
   fields_loop Attribute_field data
     ((case s of None \<Rightarrow> [] | Some v \<Rightarrow> put_delim 0x22 (length v) (str_bytes v)) @ r) (m, hf) =
     fields_loop Attribute_field data r (m\<lparr>Sval := later s (Sval m)\<rparr>, hf)"
  by (cases s, simp, simp add: put_delim_str del: length_str_bytes, rule fields_loop_delim,
      assumption, rule read_keys, simp add: Attribute_field_def wire_simps)+

lemma Attribute_bytes_field:
  assumes "at_rest data ((case b of None \<Rightarrow> [] | Some v \<Rightarrow> put_delim 0x2A (length v) v) @ r)"
  shows "fields_loop Attribute_field data
     ((case b of None \<Rightarrow> [] | Some v \<Rightarrow> put_delim 0x2A (length v) v) @ r) (m, hf) =
     fields_loop Attribute_field data r (m\<lparr>Bval := later b (Bval m)\<rparr>, hf)"
proof (cases b)
  case (Some v)
  with assms have "at_rest data (put_delim 0x2A (length v) v @ r)" by simp
  from fields_loop_delim [OF this, of _ Attribute_field, OF read_keys(11)] show ?thesis
    by (simp add: Attribute_field_def wire_simps Some)
qed simp

lemma Attribute_interval_field:
  assumes "at_rest data ((case t of None \<Rightarrow> []
      | Some v \<Rightarrow> put_delim 0x32 (Interval_Size v) (Interval_MarshalTo v)) @ r)"
    and "\<And>v. t = Some v \<Longrightarrow> interval_ok v" and "Tval m = None"
  shows "fields_loop Attribute_field data ((case t of None \<Rightarrow> []
      | Some v \<Rightarrow> put_delim 0x32 (Interval_Size v) (Interval_MarshalTo v)) @ r) (m, hf) =
     fields_loop Attribute_field data r (m\<lparr>Tval := t\<rparr>, hf)"
proof (cases t)
  case None
  with assms(3) show ?thesis by (cases m) simp
next
  case (Some v)
  with assms(2) have un: "Interval_Unmarshal zero_interval (Interval_MarshalTo v) = Some (Inr v)"
    by (simp add: Interval_Unmarshal_MarshalTo interval_ok_def)
  have at: "at_rest data (put_delim 0x32 (length (Interval_MarshalTo v)) (Interval_MarshalTo v) @ r)"
    using assms(1) Some by (simp add: put_delim_Interval)
  show ?thesis
    unfolding Some option.case put_delim_Interval
    by (rule fields_loop_delim [OF at], rule read_keys)
      (simp add: Attribute_field_def wire_simps assms(3) un)
qed

lemma Attribute_Unmarshal_MarshalTo:
  assumes "attribute_ok a" and "length (Attribute_MarshalTo a) < 2 ^ 63"
  shows "Attribute_Unmarshal zero_attribute (Attribute_MarshalTo a) = Some (Inr a)"
proof -
  have len: "at_rest (Attribute_MarshalTo a) (Attribute_MarshalTo a)"
    using assms(2) by (rule at_rest_start)
  define data where "data = Attribute_MarshalTo a"
  from assms(1) have ok: "AUnrecognized a = []" "\<And>t. Tval a = Some t \<Longrightarrow> interval_ok t"
    by (auto simp: attribute_ok_def)
  have at: "at_rest data (Attribute_MarshalTo a)" using len by (simp add: data_def)
  note at0 = at [unfolded Attribute_MarshalTo_def ok(1), THEN at_rest_tl, THEN at_rest_drop]
  note at2 = at0 [THEN at_rest_drop, THEN at_rest_drop]
  note at3 = at2 [THEN at_rest_drop]
  note at4 = at3 [THEN at_rest_drop]
  have "fields_loop Attribute_field data (Attribute_MarshalTo a) (zero_attribute, 0) = Some (Inr (a, 1))"
    unfolding Attribute_MarshalTo_def ok(1)
    by (simp only: Attribute_scalar_fields Attribute_string_fields(1) [OF at0]
        Attribute_string_fields(2) [OF at2] Attribute_bytes_field [OF at3]
        Attribute_interval_field [OF at4 ok(2)] zero_attribute_def attribute.simps)
      (simp add: ok(1))
  then show ?thesis by (simp add: Attribute_Unmarshal_def data_def)
qed

lemma Tag_fields:
  "at_rest data (put_delim 0x0A (length s) (str_bytes s) @ r) \<Longrightarrow>
   fields_loop Tag_field data (put_delim 0x0A (length s) (str_bytes s) @ r) (m, hf) =
     fields_loop Tag_field data r (m\<lparr>TName := s\<rparr>, hf OR 1)"
  "at_rest data ((case v of None \<Rightarrow> [] | Some v \<Rightarrow> put_delim 0x12 (length v) (str_bytes v)) @ r) \<Longrightarrow>
   fields_loop Tag_field data
     ((case v of None \<Rightarrow> [] | Some v \<Rightarrow> put_delim 0x12 (length v) (str_bytes v)) @ r) (m, hf) =
     fields_loop Tag_field data r (m\<lparr>TValue := later v (TValue m)\<rparr>, hf)"
proof -
  assume "at_rest data (put_delim 0x0A (length s) (str_bytes s) @ r)"
  then have "at_rest data (put_delim 0x0A (length (str_bytes s)) (str_bytes s) @ r)" by simp
  from fields_loop_delim [OF this, of _ Tag_field, OF read_keys(7)]
  show "fields_loop Tag_field data (put_delim 0x0A (length s) (str_bytes s) @ r) (m, hf) =
     fields_loop Tag_field data r (m\<lparr>TName := s\<rparr>, hf OR 1)"
    by (simp add: Tag_field_def wire_simps)
next
  assume at: "at_rest data
    ((case v of None \<Rightarrow> [] | Some v \<Rightarrow> put_delim 0x12 (length v) (str_bytes v)) @ r)"
  show "fields_loop Tag_field data
     ((case v of None \<Rightarrow> [] | Some v \<Rightarrow> put_delim 0x12 (length v) (str_bytes v)) @ r) (m, hf) =
     fields_loop Tag_field data r (m\<lparr>TValue := later v (TValue m)\<rparr>, hf)"
  proof (cases v)
    case (Some s)
    with at have "at_rest data (put_delim 0x12 (length (str_bytes s)) (str_bytes s) @ r)" by simp
    from fields_loop_delim [OF this, of _ Tag_field, OF read_keys(8)] Some show ?thesis
      by (simp add: Tag_field_def wire_simps)
  qed simp
qed

lemma Tag_Unmarshal_MarshalTo:
  assumes "tag_ok t" and "length (Tag_MarshalTo t) < 2 ^ 63"
  shows "Tag_Unmarshal zero_tag (Tag_MarshalTo t) = Some (Inr t)"
proof -
  define data where "data = Tag_MarshalTo t"
  from assms(1) have ok: "TUnrecognized t = []" by (simp add: tag_ok_def)
  have at: "at_rest data (Tag_MarshalTo t)" using at_rest_start [OF assms(2)] by (simp add: data_def)
  note at0 = at [unfolded Tag_MarshalTo_def ok]
  have "fields_loop Tag_field data (Tag_MarshalTo t) (zero_tag, 0) = Some (Inr (t, 1))"
    unfolding Tag_MarshalTo_def ok
    by (simp only: Tag_fields(1) [OF at0] Tag_fields(2) [OF at0 [THEN at_rest_drop]])
      (simp add: zero_tag_def ok)
  then show ?thesis by (simp add: Tag_Unmarshal_def data_def)
qed

definition message_ok :: "'ts message \<Rightarrow> bool" where
  "message_ok m \<longleftrightarrow>
     Timestamp m \<noteq> None \<and> MType m \<noteq> None \<and> (\<forall>a\<in>set (Attributes m). attribute_ok a) \<and>
     (\<forall>t\<in>set (Tags m). tag_ok t) \<and> MUnrecognized m = []"

lemma length_put_delim_less:
  "length (put_delim k l b @ r) < n \<Longrightarrow> length b < n"
  by (simp add: put_delim_def)

lemma Message_scalar_fields:
  "fields_loop (Message_field ops) data (0x10 # encodeVarintLog (ucast ty) @ r) (m, hf) =
     fields_loop (Message_field ops) data r (m\<lparr>MType := Some ty\<rparr>, hf OR 2)"
  "fields_loop (Message_field ops) data (0x30 # encodeVarintLog (scast v) @ r) (m, hf) =
     fields_loop (Message_field ops) data r (m\<lparr>Version := Version m OR v\<rparr>, hf)"
  by (rule fields_loop_step, rule read_keys,
      simp add: Message_field_def wire_simps read_varint_PutUvarint encodeVarintLog_eq_PutUvarint)+

lemma Message_session_field:
  assumes at: "at_rest data
    ((case v of None \<Rightarrow> [] | Some v \<Rightarrow> put_delim 0x22 (length v) (str_bytes v)) @ r)"
  shows "fields_loop (Message_field ops) data
     ((case v of None \<Rightarrow> [] | Some v \<Rightarrow> put_delim 0x22 (length v) (str_bytes v)) @ r) (m, hf) =
     fields_loop (Message_field ops) data r (m\<lparr>SessionId := later v (SessionId m)\<rparr>, hf)"
proof (cases v)
  case (Some s)
  with at have "at_rest data (put_delim 0x22 (length (str_bytes s)) (str_bytes s) @ r)" by simp
  from fields_loop_delim [OF this, of _ "Message_field ops", OF read_keys(10)] Some show ?thesis
    by (simp add: Message_field_def wire_simps)
qed simp

lemma Message_timestamp_field:
  assumes "at_rest data (put_delim 0x0A (TsSize ops t) tbs @ r)" and "ts_laws ops"
    and "TsMarshalTo ops t = Inr tbs" and "Timestamp m = None"
  shows "fields_loop (Message_field ops) data (put_delim 0x0A (TsSize ops t) tbs @ r) (m, hf) =
     fields_loop (Message_field ops) data r (m\<lparr>Timestamp := Some t\<rparr>, hf OR 1)"
proof -
  from assms(2,3) have ts: "length tbs = TsSize ops t" "TsUnmarshal ops (TsZero ops) tbs = Inr t"
    by (metis Inr_inject ts_laws_def)+
  then have eq: "put_delim 0x0A (TsSize ops t) tbs = put_delim 0x0A (length tbs) tbs" by simp
  from fields_loop_delim [OF assms(1) [unfolded eq], of _ "Message_field ops", OF read_keys(7)]
  show ?thesis unfolding eq by (simp add: Message_field_def wire_simps assms(4) ts(2))
qed

lemma Message_attributes_field:
  assumes "at_rest data (concat (map (\<lambda>a. put_delim 0x1A (Attribute_Size a) (Attribute_MarshalTo a)) as) @ r)"
    and "\<forall>a\<in>set as. attribute_ok a"
  shows "fields_loop (Message_field ops) data
     (concat (map (\<lambda>a. put_delim 0x1A (Attribute_Size a) (Attribute_MarshalTo a)) as) @ r) (m, hf) =
     fields_loop (Message_field ops) data r (m\<lparr>Attributes := Attributes m @ as\<rparr>, hf)"
  using assms
proof (induction as arbitrary: m)
  case (Cons a as)
  let ?r = "concat (map (\<lambda>a. put_delim 0x1A (Attribute_Size a) (Attribute_MarshalTo a)) as) @ r"
  have eq: "put_delim 0x1A (Attribute_Size a) (Attribute_MarshalTo a) =
      put_delim 0x1A (length (Attribute_MarshalTo a)) (Attribute_MarshalTo a)"
    by (simp add: Attribute_Size_MarshalTo)
  have at: "at_rest data (put_delim 0x1A (length (Attribute_MarshalTo a)) (Attribute_MarshalTo a) @ ?r)"
    using Cons.prems(1) by (simp add: eq)
  then have "length (Attribute_MarshalTo a) < 2 ^ 63"
    by (auto simp: at_rest_def put_delim_def)
  with Cons.prems(2) have "Attribute_Unmarshal zero_attribute (Attribute_MarshalTo a) = Some (Inr a)"
    by (simp add: Attribute_Unmarshal_MarshalTo)
  with fields_loop_delim [OF at, of _ "Message_field ops", OF read_keys(9)]
  have "fields_loop (Message_field ops) data
      (put_delim 0x1A (length (Attribute_MarshalTo a)) (Attribute_MarshalTo a) @ ?r) (m, hf) =
    fields_loop (Message_field ops) data ?r (m\<lparr>Attributes := Attributes m @ [a]\<rparr>, hf)"
    by (simp add: Message_field_def wire_simps)
  moreover have "at_rest data ?r" using at by auto
  ultimately show ?case using Cons.IH Cons.prems(2) by (simp add: eq)
qed simp

lemma Message_tags_field:
  assumes "at_rest data (concat (map (\<lambda>t. put_delim 0x2A (Tag_Size t) (Tag_MarshalTo t)) ts) @ r)"
    and "\<forall>t\<in>set ts. tag_ok t"
  shows "fields_loop (Message_field ops) data
     (concat (map (\<lambda>t. put_delim 0x2A (Tag_Size t) (Tag_MarshalTo t)) ts) @ r) (m, hf) =
     fields_loop (Message_field ops) data r (m\<lparr>Tags := Tags m @ ts\<rparr>, hf)"
  using assms
proof (induction ts arbitrary: m)
  case (Cons t ts)
  let ?r = "concat (map (\<lambda>t. put_delim 0x2A (Tag_Size t) (Tag_MarshalTo t)) ts) @ r"
  have eq: "put_delim 0x2A (Tag_Size t) (Tag_MarshalTo t) =
      put_delim 0x2A (length (Tag_MarshalTo t)) (Tag_MarshalTo t)"
    by (simp add: Tag_Size_MarshalTo)
  have at: "at_rest data (put_delim 0x2A (length (Tag_MarshalTo t)) (Tag_MarshalTo t) @ ?r)"
    using Cons.prems(1) by (simp add: eq)
  then have "length (Tag_MarshalTo t) < 2 ^ 63"
    by (auto simp: at_rest_def put_delim_def)
  with Cons.prems(2) have "Tag_Unmarshal zero_tag (Tag_MarshalTo t) = Some (Inr t)"
    by (simp add: Tag_Unmarshal_MarshalTo)
  with fields_loop_delim [OF at, of _ "Message_field ops", OF read_keys(11)]
  have "fields_loop (Message_field ops) data
      (put_delim 0x2A (length (Tag_MarshalTo t)) (Tag_MarshalTo t) @ ?r) (m, hf) =
    fields_loop (Message_field ops) data ?r (m\<lparr>Tags := Tags m @ [t]\<rparr>, hf)"
    by (simp add: Message_field_def wire_simps)
  moreover have "at_rest data ?r" using at by auto
  ultimately show ?case using Cons.IH Cons.prems(2) by (simp add: eq)
qed simp

lemma Message_Unmarshal_MarshalTo:
  assumes "ts_laws ops" "message_ok m" "Message_MarshalTo ops m = Inr bs" "length bs < 2 ^ 63"
  shows "Message_Unmarshal ops (zero_message\<lparr>Version := v0\<rparr>) bs =
     Some (Inr (m\<lparr>Version := v0 OR Version m\<rparr>))"
proof -
  from assms(3) obtain t ty tbs where t: "Timestamp m = Some t" "MType m = Some ty"
    "TsMarshalTo ops t = Inr tbs"
    by (auto simp: Message_MarshalTo_def go_simps split: option.splits)
  from assms(2) have ok: "MUnrecognized m = []" "\<forall>a\<in>set (Attributes m). attribute_ok a"
    "\<forall>t\<in>set (Tags m). tag_ok t"
    by (auto simp: message_ok_def)
  have bs: "bs = put_delim 0x0A (TsSize ops t) tbs
      @ 0x10 # encodeVarintLog (ucast ty)
      @ concat (map (\<lambda>a. put_delim 0x1A (Attribute_Size a) (Attribute_MarshalTo a)) (Attributes m))
      @ (case SessionId m of None \<Rightarrow> [] | Some s \<Rightarrow> put_delim 0x22 (length s) (str_bytes s))
      @ concat (map (\<lambda>t. put_delim 0x2A (Tag_Size t) (Tag_MarshalTo t)) (Tags m))
      @ 0x30 # encodeVarintLog (scast (Version m)) @ []"
    using assms(3) t ok(1) by (simp add: Message_MarshalTo_def)
  have at: "at_rest bs bs" using assms(4) by (rule at_rest_start)
  define data where "data = bs"
  have "at_rest data bs" using at by (simp add: data_def)
  note at0 = this [unfolded bs]
  note at1 = at0 [THEN at_rest_drop, THEN at_rest_tl, THEN at_rest_drop]
  note at2 = at1 [THEN at_rest_drop]
  note at3 = at2 [THEN at_rest_drop]
  have "fields_loop (Message_field ops) data bs (zero_message\<lparr>Version := v0\<rparr>, 0) =
      Some (Inr (m\<lparr>Version := v0 OR Version m\<rparr>, 1 OR 2))"
    unfolding bs
    by (simp only: Message_timestamp_field [OF at0 assms(1) t(3)] Message_scalar_fields
        Message_attributes_field [OF at1 ok(2)] Message_session_field [OF at2]
        Message_tags_field [OF at3 ok(3)] zero_message_def message.simps)
      (simp add: t ok(1))
  then show ?thesis by (simp add: Message_Unmarshal_def data_def)
qed

text \<open>StreamHeader.\<close>

lemma StreamHeader_fields:
  "fields_loop StreamHeader_field data
     ((case c of None \<Rightarrow> [] | Some c \<Rightarrow> 0x08 # encodeVarintLog (scast c)) @ r) m =
     fields_loop StreamHeader_field data r (m\<lparr>Compression := later c (Compression m)\<rparr>)"
  "fields_loop StreamHeader_field data
     ((case c of None \<Rightarrow> [] | Some c \<Rightarrow> 0x10 # encodeVarintLog (scast c)) @ r) m =
     fields_loop StreamHeader_field data r (m\<lparr>Mode := later c (Mode m)\<rparr>)"
  by (cases c, simp, simp, rule fields_loop_step, rule read_keys,
      simp add: StreamHeader_field_def wire_simps)+

lemma StreamHeader_Unmarshal_MarshalTo:
  assumes "SHUnrecognized h = []"
  shows "StreamHeader_Unmarshal zero_header (StreamHeader_MarshalTo h) = Some (Inr h)"
  unfolding StreamHeader_Unmarshal_def StreamHeader_MarshalTo_def assms
  by (simp only: StreamHeader_fields) (simp add: zero_header_def assms)

section \<open>Lemmas: fields a struct does not have\<close>

lemma sovLog_small: "x < 0x80 \<Longrightarrow> sovLog x = 1"
  by (simp add: sovLog.simps [of x] drop_7_zero_iff)

lemma skipLog_delim:
  assumes "wire AND 7 = 2" and "at_rest data (encodeVarintLog wire @ encodeVarintLog (of_nat (length b)) @ b @ r)"
  shows "skipLog (encodeVarintLog wire @ encodeVarintLog (of_nat (length b)) @ b @ r) =
     Some (Inr (int (sovLog wire + sovLog (of_nat (length b)) + length b)))"
proof -
  have ne: "encodeVarintLog wire \<noteq> []"
    by (metis length_0_conv length_encodeVarintLog less_irrefl sovLog_pos)
  from assms(2) have len: "sovLog wire + sovLog (of_nat (length b)) + length b < 2 ^ 63"
    by (auto simp: at_rest_def)
  then have b: "sint (of_nat (length b) :: u64) = int (length b)" by (intro sint_of_nat) simp
  have "go_add (int (sovLog wire + sovLog (of_nat (length b)))) (int (length b)) =
      int (sovLog wire + sovLog (of_nat (length b)) + length b)"
    using len by (subst go_add_eq) simp_all
  then show ?thesis
    unfolding skipLog_def
    by (subst skip_run.simps) (simp add: ne wire_simps Let_def assms(1) go_index_of_def b)
qed

lemma unknown_delim:
  assumes "wire AND 7 = 2"
    and at: "at_rest data (encodeVarintLog wire @ encodeVarintLog (of_nat (length b)) @ b @ r)"
  shows "unknown_field data wire (encodeVarintLog (of_nat (length b)) @ b @ r) =
     Some (Inr (encodeVarintLog wire @ encodeVarintLog (of_nat (length b)) @ b, r))"
proof -
  let ?f = "encodeVarintLog wire @ encodeVarintLog (of_nat (length b)) @ b"
  from at obtain pre where data: "data = pre @ ?f @ r" and len: "length data < 2 ^ 63"
    by (auto simp: at_rest_def)
  have idx: "go_index_of data (encodeVarintLog (of_nat (length b)) @ b @ r) - int (sovLog wire) =
      int (length pre)"
    by (simp add: go_index_of_def data)
  have from_key: "go_slice data (int (length pre)) (int (length data)) = Inr (?f @ r)"
    by (simp add: go_slice_def data)
  have end_idx: "go_add (int (length pre)) (int (sovLog wire + sovLog (of_nat (length b)) + length b))
      = int (length pre + length ?f)"
    using len data by (subst go_add_eq) simp_all
  have sl: "go_slice data (int (length pre)) (int (length pre + length ?f)) = Inr ?f"
    by (simp add: go_slice_def data)
  have bound: "(int (length pre + length ?f) > int (length data)) = False" by (simp add: data)
  have rest: "drop (nat (int (length pre + length ?f))) data = r" by (simp add: data)
  have skip: "skipLog (?f @ r) =
      Some (Inr (int (sovLog wire + sovLog (of_nat (length b)) + length b)))"
    using skipLog_delim [OF assms(1) at] by simp
  show ?thesis
    unfolding unknown_field_def Let_def idx from_key
    by (simp only: sum.case skip option.map bindR_simps end_idx bound if_False sl rest)
qed

lemma opt_eq_eq [simp]: "opt_eq (=) x y \<longleftrightarrow> x = y"
  by (auto simp: opt_eq_def split: option.splits)

section \<open>Properties\<close>

text \<open>
  C1: Marshal then Unmarshal is the identity. For every message that has a timestamp and a
  type and no leftover bytes, and whose size fits an int, Marshal fills exactly the Size bytes
  it allocates, without an error or a panic, and Unmarshal of these bytes returns the message.
  Into a message whose version is already set (as the stream decoder has it) the two versions
  are ORed.
\<close>

theorem message_roundtrip:
  assumes "ts_laws ops" and "message_ok m" and "Message_Size ops m < 2 ^ 63"
  shows "\<exists>bs. Message_Marshal ops m = Inr bs \<and> length bs = Message_Size ops m
     \<and> Message_Unmarshal ops zero_message bs = Some (Inr m)
     \<and> Message_Unmarshal ops (zero_message\<lparr>Version := v\<rparr>) bs = Some (Inr (m\<lparr>Version := v OR Version m\<rparr>))"
proof -
  from assms(2) obtain t ty where "Timestamp m = Some t" "MType m = Some ty"
    by (auto simp: message_ok_def)
  moreover obtain tbs where "TsMarshalTo ops t = Inr tbs"
    using assms(1) unfolding ts_laws_def by blast
  ultimately obtain bs where bs: "Message_MarshalTo ops m = Inr bs"
    by (simp add: Message_MarshalTo_def)
  from Message_Size_MarshalTo [OF assms(1) bs] assms(3)
  have len: "length bs = Message_Size ops m" "length bs < 2 ^ 63" by simp_all
  note un = Message_Unmarshal_MarshalTo [OF assms(1,2) bs len(2)]
  have zero: "zero_message\<lparr>Version := 0\<rparr> = zero_message" by (simp add: zero_message_def)
  have "Message_Unmarshal ops zero_message bs = Some (Inr m)"
    using un [of 0] unfolding zero by simp
  with un [of v] bs len(1) show ?thesis
    by (simp add: Message_Marshal_def into_buffer_def)
qed

text \<open>A timestamp codec for the witnesses: a natural number as that many bytes.\<close>

definition unary_ts :: "nat ts_ops" where
  "unary_ts = \<lparr>TsZero = 0, TsSize = id, TsMarshalTo = (\<lambda>n. Inr (replicate n 0)),
     TsUnmarshal = (\<lambda>_ bs. Inr (length bs)), TsEqual = (=)\<rparr>"

lemma unary_ts_laws: "ts_laws unary_ts"
  by (simp add: ts_laws_def unary_ts_def)

theorem message_roundtrip_witness:
  "\<exists>bs. Message_Marshal unary_ts (For (Log 12) ''abc'') = Inr bs \<and>
     Message_Unmarshal unary_ts zero_message bs = Some (Inr (For (Log 12) ''abc''))"
proof -
  have "message_ok (For (Log (12 :: nat)) ''abc'')"
    by (simp add: message_ok_def For_def Log_def zero_message_def)
  moreover have "Message_Size unary_ts (For (Log 12) ''abc'') < 2 ^ 63"
  proof -
    show ?thesis
      by (simp add: Message_Size_def unary_ts_def For_def Log_def zero_message_def
          DEFAULT_VERSION_def LOG_def delim_size_def sovLog_small)
  qed
  ultimately show ?thesis using message_roundtrip [OF unary_ts_laws] by blast
qed

text \<open>
  forward compatibility. A delimited field whose number a Message does not have, written
  anywhere among its fields, is skipped without an error and its bytes, key included, are kept
  in XXX_unrecognized.
\<close>

lemma unknown_field_kept:
  assumes "wireType wire = 2" and "fieldNum wire \<notin> {1, 2, 3, 4, 5, 6}"
    and "data = pre @ encodeVarintLog wire @ encodeVarintLog (of_nat (length b)) @ b @ r"
    and "length data < 2 ^ 63"
  shows "fields_loop (Message_field ops) data
       (encodeVarintLog wire @ encodeVarintLog (of_nat (length b)) @ b @ r) (m, hf) =
     fields_loop (Message_field ops) data r
       (m\<lparr>MUnrecognized := MUnrecognized m @ encodeVarintLog wire @
            encodeVarintLog (of_nat (length b)) @ b\<rparr>, hf)"
proof -
  have at: "at_rest data (encodeVarintLog wire @ encodeVarintLog (of_nat (length b)) @ b @ r)"
    using assms(3,4) by (auto simp: at_rest_def)
  have "wire AND 7 = 2"
    using assms(1) word_unat_eq_iff [of "wire AND 7" 2] by (simp add: wireType_def)
  note un = unknown_delim [OF this at]
  obtain k ks where k: "encodeVarintLog wire = k # ks"
    by (metis length_encodeVarintLog length_greater_0_conv list.exhaust sovLog_pos)
  have "read_varint 0 (0 :: u64) (k # ks @ encodeVarintLog (of_nat (length b)) @ b @ r) =
      Inr (wire, encodeVarintLog (of_nat (length b)) @ b @ r)"
    using read_varint_encode(2) [where 'a = 64 and s = 0 and x = wire
        and r = "encodeVarintLog (of_nat (length b)) @ b @ r"] k
    by (simp del: read_varint.simps)
  from fields_loop_step [OF this, of "Message_field ops" data "(m, hf)"] un assms(2)
  show ?thesis by (simp add: Message_field_def k)
qed

lemma unknown_field_kept_witness:
  "fields_loop (Message_field unary_ts) (encodeVarintLog 0x7A @ encodeVarintLog 1 @ [5])
       (encodeVarintLog 0x7A @ encodeVarintLog 1 @ [5]) (zero_message, 3) =
     Some (Inr (zero_message\<lparr>MUnrecognized := encodeVarintLog 0x7A @ encodeVarintLog 1 @ [5]\<rparr>, 3))"
  using unknown_field_kept [where wire = "0x7A" and pre = "[]" and b = "[5]" and r = "[]"
      and data = "encodeVarintLog 0x7A @ encodeVarintLog 1 @ [5]" and ops = unary_ts
      and m = zero_message and hf = 3]
  by (simp add: wireType_def fieldNum_def sovLog_small zero_message_def)

text \<open>
  A loop that comes back to where it was does not return: when a step leaves the rest and the
  state as they are, the loop over the fields is undefined there.
\<close>

lemma fields_loop_stuck:
  assumes "rest \<noteq> []" and "read_varint 0 (0 :: u64) rest = Inr (wire, r)"
    and "step data wire st r = Some (Inr (st, rest))"
  shows "fields_loop step data rest st = None"
proof (cases "fields_loop step data rest st")
  case (Some y)
  have "\<not> (sp = step \<and> d = data \<and> x = rest \<and> s = st)"
    if "fields_loop sp d x s = Some z" for sp d x s z
  proof (rule fields_loop.raw_induct
      [where P = "\<lambda>sp d x s z. \<not> (sp = step \<and> d = data \<and> x = rest \<and> s = st)", OF _ that])
    fix f sp d x s z
    assume IH: "\<And>sp d x s z. f sp d x s = Some z \<Longrightarrow>
        \<not> (sp = step \<and> d = data \<and> x = rest \<and> s = st)"
      and body: "(if x = [] then Some (Inr s)
        else case read_varint 0 (0 :: u64) x of Inl e \<Rightarrow> Some (Inl e)
             | Inr (wire, r) \<Rightarrow> Option.bind (sp d wire s r)
                 (\<lambda>u. case u of Inl e \<Rightarrow> Some (Inl e) | Inr (st', rest') \<Rightarrow> f sp d rest' st')) = Some z"
    show "\<not> (sp = step \<and> d = data \<and> x = rest \<and> s = st)"
    proof
      assume "sp = step \<and> d = data \<and> x = rest \<and> s = st"
      with body assms have "f step data rest st = Some z" by simp
      from IH [OF this] show False by simp
    qed
  qed
  from this [OF Some] show ?thesis by simp
qed simp

lemma hostile_parts:
  "StreamHeader_Unmarshal h (0x7A # encodeVarintLog (- 11)) = None"
  "StreamHeader_Unmarshal h (0x7A # encodeVarintLog (- 12)) =
     Some (Inl (Panic ''slice bounds out of range''))"
  "Tag_Unmarshal t (0x0A # encodeVarintLog (- 1)) =
     Some (Inl (Panic ''slice bounds out of range''))"
  "Tag_Unmarshal t (0x0A # encodeVarintLog 1) = Some (Inl (Err UnexpectedEOF))"
proof -
  let ?d = "[0x7A, 0xF5, 0xFF, 0xFF, 0xFF, 0xFF, 0xFF, 0xFF, 0xFF, 0xFF, 1] :: bytes"
  let ?d' = "[0x7A, 0xF4, 0xFF, 0xFF, 0xFF, 0xFF, 0xFF, 0xFF, 0xFF, 0xFF, 1] :: bytes"
  have d: "0x7A # encodeVarintLog (- 11) = ?d" "0x7A # encodeVarintLog (- 12) = ?d'"
    by code_simp+
  have skip: "skipLog ?d = Some (Inr 0)" "skipLog ?d' = Some (Inr (- 1))"
    unfolding skipLog_def by (subst skip_run.simps, code_simp)+
  have key: "read_varint 0 (0 :: u64) ?d = Inr (0x7A, tl ?d)"
    "read_varint 0 (0 :: u64) ?d' = Inr (0x7A, tl ?d')"
    by (simp_all add: Let_def)
  have idx: "go_index_of ?d (tl ?d) - int (sovLog 0x7A) = 0"
    "go_index_of ?d' (tl ?d') - int (sovLog 0x7A) = 0"
    by (simp_all add: go_index_of_def sovLog_small)
  have unknown: "unknown_field ?d 0x7A (tl ?d) = Some (Inr ([], ?d))"
    "unknown_field ?d' 0x7A (tl ?d') = Some (Inl (Panic ''slice bounds out of range''))"
    unfolding unknown_field_def Let_def idx
    by (simp_all add: go_slice_def skip go_add_def)
  have field: "StreamHeader_field ?d 0x7A h (tl ?d) = Some (Inr (h, ?d))"
    "StreamHeader_field ?d' 0x7A h (tl ?d') = Some (Inl (Panic ''slice bounds out of range''))"
    unfolding StreamHeader_field_def unknown by (simp_all add: fieldNum_def)
  show "StreamHeader_Unmarshal h (0x7A # encodeVarintLog (- 11)) = None"
    unfolding d StreamHeader_Unmarshal_def using key(1) field(1) by (intro fields_loop_stuck) simp_all
  show "StreamHeader_Unmarshal h (0x7A # encodeVarintLog (- 12)) =
     Some (Inl (Panic ''slice bounds out of range''))"
    unfolding d StreamHeader_Unmarshal_def
    by (subst fields_loop.simps) (simp add: key field del: read_varint.simps list.sel)
next
  have d: "0x0A # encodeVarintLog (- 1) =
      ([0x0A, 0xFF, 0xFF, 0xFF, 0xFF, 0xFF, 0xFF, 0xFF, 0xFF, 0xFF, 1] :: bytes)" by code_simp
  have rd: "read_delim (0x0A # encodeVarintLog (- 1)) (encodeVarintLog (- 1)) =
      Inl (Panic ''slice bounds out of range'')" by code_simp
  have rd1: "read_delim (0x0A # encodeVarintLog 1) (encodeVarintLog 1) = Inl (Err UnexpectedEOF)"
    by code_simp
  show "Tag_Unmarshal t (0x0A # encodeVarintLog (- 1)) =
     Some (Inl (Panic ''slice bounds out of range''))"
    unfolding Tag_Unmarshal_def
    by (subst fields_loop.simps) (simp add: wire_simps Tag_field_def rd del: read_varint.simps)
  show "Tag_Unmarshal t (0x0A # encodeVarintLog 1) = Some (Inl (Err UnexpectedEOF))"
    unfolding Tag_Unmarshal_def
    by (subst fields_loop.simps) (simp add: wire_simps Tag_field_def rd1 del: read_varint.simps)
qed


text \<open>
  Equal is equality of the structs, up to the two forms of an absent byte slice (nil and
  empty) and to the comparison of floats: for intervals and tags exactly, for attributes after
  Bval is normalised.
\<close>

lemma Equal_is_equality:
  "(Interval_Equal i j \<longleftrightarrow> i = j) \<and> (Tag_Equal s t \<longleftrightarrow> s = t) \<and>
   (Attribute_Equal (=) a b \<longleftrightarrow>
      a\<lparr>Bval := Some (bytes_of (Bval a))\<rparr> = b\<lparr>Bval := Some (bytes_of (Bval b))\<rparr>)"
proof -
  have int: "Interval_Equal x y \<longleftrightarrow> x = y" for x y
    by (cases x; cases y) (simp add: Interval_Equal_def)
  have "opt_eq Interval_Equal x y \<longleftrightarrow> x = y" for x y
    by (auto simp: opt_eq_def int split: option.splits)
  with int show ?thesis
    by (cases a; cases b; cases s; cases t) (auto simp: Attribute_Equal_def Tag_Equal_def)
qed

end
