(* ===== verification/Scanner.thy ===== *)
theory Scanner
  imports Render
begin

text \<open>
  The package scanner: the tokenizer of the KV parser. Its source is the whole input, so that
  the buffer of 1024 bytes and its refilling are gone and positions are offsets in the input;
  token text is the input between two offsets. A rune is an int, with the negative token
  classes of the code. The positions kept for error messages (line and column) and the hook
  IsIdentRune, which nothing sets, are left out. The tables of the package unicode above ASCII
  are parameters.
\<close>

record unicode =
  UniLetter :: "int \<Rightarrow> bool"
  UniDigit :: "int \<Rightarrow> bool"

definition rune :: "char \<Rightarrow> int" where
  "rune c = of_char c"

definition TokEOF :: int where "TokEOF = - 1"
definition Ident :: int where "Ident = - 2"
definition IntTok :: int where "IntTok = - 3"
definition Float :: int where "Float = - 4"
definition CharTok :: int where "CharTok = - 5"
definition StringTok :: int where "StringTok = - 6"
definition RawString :: int where "RawString = - 7"
definition CommentTok :: int where "CommentTok = - 8"

lemmas token_classes = TokEOF_def Ident_def IntTok_def Float_def CharTok_def StringTok_def
  RawString_def CommentTok_def

text \<open>The mode bits, 1 shifted by the negated class.\<close>

definition ScanIdents :: u32 where "ScanIdents = 4"
definition ScanInts :: u32 where "ScanInts = 8"
definition ScanFloats :: u32 where "ScanFloats = 16"
definition ScanChars :: u32 where "ScanChars = 32"
definition ScanStrings :: u32 where "ScanStrings = 64"
definition ScanRawStrings :: u32 where "ScanRawStrings = 128"
definition ScanComments :: u32 where "ScanComments = 256"
definition SkipComments :: u32 where "SkipComments = 512"
definition GoTokens :: u32 where
  "GoTokens = ScanIdents OR ScanFloats OR ScanChars OR ScanStrings OR ScanRawStrings
     OR ScanComments OR SkipComments"

definition GoWhitespace :: u64 where
  "GoWhitespace = push_bit 9 1 OR push_bit 10 1 OR push_bit 13 1 OR push_bit 32 1"

lemmas mode_bits = ScanIdents_def ScanInts_def ScanFloats_def ScanChars_def ScanStrings_def
  ScanRawStrings_def ScanComments_def SkipComments_def

section \<open>UTF-8\<close>

definition RuneError :: int where "RuneError = 0xFFFD"

definition cont_byte :: "byte \<Rightarrow> bool" where
  "cont_byte b \<longleftrightarrow> 0x80 \<le> b \<and> b \<le> 0xBF"

definition low6 :: "byte \<Rightarrow> int" where
  "low6 b = uint (b AND 0x3F)"

text \<open>utf8.DecodeRune: the rune and its width, or RuneError and width 1.\<close>

fun decode_rune :: "bytes \<Rightarrow> int \<times> nat" where
  "decode_rune [] = (RuneError, 0)"
| "decode_rune (b0 # r) =
     (if b0 < 0x80 then (uint b0, 1)
      else if 0xC2 \<le> b0 \<and> b0 \<le> 0xDF then
        (case r of b1 # _ \<Rightarrow>
           if cont_byte b1 then (uint (b0 AND 0x1F) * 64 + low6 b1, 2) else (RuneError, 1)
         | _ \<Rightarrow> (RuneError, 1))
      else if 0xE0 \<le> b0 \<and> b0 \<le> 0xEF then
        (case r of b1 # b2 # _ \<Rightarrow>
           if cont_byte b1 \<and> cont_byte b2 \<and> (b0 = 0xE0 \<longrightarrow> 0xA0 \<le> b1) \<and> (b0 = 0xED \<longrightarrow> b1 \<le> 0x9F)
           then (uint (b0 AND 0x0F) * 4096 + low6 b1 * 64 + low6 b2, 3) else (RuneError, 1)
         | _ \<Rightarrow> (RuneError, 1))
      else if 0xF0 \<le> b0 \<and> b0 \<le> 0xF4 then
        (case r of b1 # b2 # b3 # _ \<Rightarrow>
           if cont_byte b1 \<and> cont_byte b2 \<and> cont_byte b3 \<and> (b0 = 0xF0 \<longrightarrow> 0x90 \<le> b1)
             \<and> (b0 = 0xF4 \<longrightarrow> b1 \<le> 0x8F)
           then (uint (b0 AND 0x07) * 262144 + low6 b1 * 4096 + low6 b2 * 64 + low6 b3, 4)
           else (RuneError, 1)
         | _ \<Rightarrow> (RuneError, 1))
      else (RuneError, 1))"

text \<open>The conversion string(r) of a rune, which takes any invalid one as RuneError.\<close>

definition rune_bytes :: "int \<Rightarrow> bytes" where
  "rune_bytes r =
     (let c = (if r < 0 \<or> r > 0x10FFFF \<or> (0xD800 \<le> r \<and> r \<le> 0xDFFF) then RuneError else r) in
      if c < 0x80 then [word_of_int c]
      else if c < 0x800 then [word_of_int (0xC0 + c div 64), word_of_int (0x80 + c mod 64)]
      else if c < 0x10000 then
        [word_of_int (0xE0 + c div 4096), word_of_int (0x80 + c div 64 mod 64),
         word_of_int (0x80 + c mod 64)]
      else
        [word_of_int (0xF0 + c div 262144), word_of_int (0x80 + c div 4096 mod 64),
         word_of_int (0x80 + c div 64 mod 64), word_of_int (0x80 + c mod 64)])"

section \<open>The state\<close>

record scanner =
  Src :: bytes
  SrcPos :: nat
  LastCharLen :: nat
  Ch :: int
  TokPos :: "nat option"
  TokEnd :: nat
  ErrorCount :: nat
  ScMode :: u32
  Whitespace :: u64

definition sc_Init :: "bytes \<Rightarrow> scanner" where
  "sc_Init src = \<lparr>Src = src, SrcPos = 0, LastCharLen = 0, Ch = - 2, TokPos = None, TokEnd = 0,
     ErrorCount = 0, ScMode = GoTokens, Whitespace = GoWhitespace\<rparr>"

definition unread :: "scanner \<Rightarrow> bytes" where
  "unread s = drop (SrcPos s) (Src s)"

definition sc_error :: "scanner \<Rightarrow> scanner" where
  "sc_error s = s\<lparr>ErrorCount := Suc (ErrorCount s)\<rparr>"

text \<open>next: at the end of the source the width of the last character becomes 0.\<close>

definition sc_next :: "scanner \<Rightarrow> int \<times> scanner" where
  "sc_next s =
     (if unread s = [] then (TokEOF, s\<lparr>LastCharLen := 0\<rparr>)
      else case decode_rune (unread s) of (ch, width) \<Rightarrow>
        let s' = s\<lparr>SrcPos := SrcPos s + width, LastCharLen := width\<rparr>
        in (ch, if ch = RuneError \<and> width = 1 \<or> ch = 0 then sc_error s' else s'))"

definition sc_Peek :: "scanner \<Rightarrow> int \<times> scanner" where
  "sc_Peek s =
     (if Ch s = - 2 then
        (case sc_next s of (ch, s1) \<Rightarrow>
           if ch = 0xFEFF then (case sc_next s1 of (ch', s2) \<Rightarrow> (ch', s2\<lparr>Ch := ch'\<rparr>))
           else (ch, s1\<lparr>Ch := ch\<rparr>))
      else (Ch s, s))"

definition sc_Next :: "scanner \<Rightarrow> int \<times> scanner" where
  "sc_Next s =
     (case sc_Peek (s\<lparr>TokPos := None\<rparr>) of (ch, s1) \<Rightarrow>
      case sc_next s1 of (ch', s2) \<Rightarrow> (ch, s2\<lparr>Ch := ch'\<rparr>))"

section \<open>How much is left\<close>

text \<open>The characters a scanner can still give, the one it holds included.\<close>

definition room :: "int \<times> scanner \<Rightarrow> nat" where
  "room cs = length (unread (snd cs)) + (if fst cs = - 1 then 0 else 1)"

lemma decode_rune_width:
  "bs \<noteq> [] \<Longrightarrow> 1 \<le> snd (decode_rune bs) \<and> snd (decode_rune bs) \<le> length bs"
  by (cases bs) (auto split: list.split)

lemma decode_rune_nonneg: "0 \<le> fst (decode_rune bs)"
  by (cases bs) (auto simp: RuneError_def low6_def split: list.split)

lemma unread_simps [simp]:
  "unread (s\<lparr>LastCharLen := n\<rparr>) = unread s"
  "unread (s\<lparr>Ch := c\<rparr>) = unread s"
  "unread (s\<lparr>TokPos := p\<rparr>) = unread s"
  "unread (s\<lparr>TokEnd := e\<rparr>) = unread s"
  "unread (sc_error s) = unread s"
  by (simp_all add: unread_def sc_error_def)

lemma sc_next_room: "sc_next s = (ch, s') \<Longrightarrow> room (ch, s') \<le> length (unread s)"
  using decode_rune_width [of "unread s"]
  by (cases "decode_rune (unread s)")
    (auto simp: sc_next_def room_def TokEOF_def Let_def unread_def sc_error_def split: if_splits)

lemma sc_next_room_less:
  "sc_next s = (ch', s') \<Longrightarrow> ch \<noteq> - 1 \<Longrightarrow> room (ch', s') < room (ch, s)"
  using sc_next_room [of s ch' s'] by (simp add: room_def)

lemma room_sc_next: "0 \<le> ch \<Longrightarrow> room (sc_next s) < room (ch, s)"
  using sc_next_room_less [of s "fst (sc_next s)" "snd (sc_next s)" ch] by simp

lemma sc_next_nonneg: "sc_next s = (ch, s') \<Longrightarrow> - 1 \<le> ch"
  using decode_rune_nonneg [of "unread s"]
  by (auto simp: sc_next_def TokEOF_def Let_def split: if_splits prod.splits)

section \<open>The loops\<close>

text \<open>
  The loops that read on while a character has a property that the end of the source does not
  have. The flag says whether any character read had a second property.
\<close>

function scan_while :: "(int \<Rightarrow> bool) \<Rightarrow> (int \<Rightarrow> bool) \<Rightarrow> bool \<Rightarrow> int \<Rightarrow> scanner \<Rightarrow> bool \<times> int \<times> scanner" where
  "scan_while p q flag ch s =
     (if 0 \<le> ch \<and> p ch
      then (case sc_next s of (ch', s') \<Rightarrow> scan_while p q (flag \<or> q ch) ch' s')
      else (flag, ch, s))"
  by pat_completeness auto
termination scan_while
  by (relation "measure (\<lambda>(p, q, flag, ch, s). room (ch, s))") (auto intro: room_sc_next)

declare scan_while.simps [simp del]

definition is_letter :: "unicode \<Rightarrow> int \<Rightarrow> bool" where
  "is_letter u ch \<longleftrightarrow> (65 \<le> ch \<and> ch \<le> 90) \<or> (97 \<le> ch \<and> ch \<le> 122) \<or> (0x80 \<le> ch \<and> UniLetter u ch)"

definition is_udigit :: "unicode \<Rightarrow> int \<Rightarrow> bool" where
  "is_udigit u ch \<longleftrightarrow> (48 \<le> ch \<and> ch \<le> 57) \<or> (0x80 \<le> ch \<and> UniDigit u ch)"

definition isIdentRune :: "unicode \<Rightarrow> int \<Rightarrow> nat \<Rightarrow> bool" where
  "isIdentRune u ch i \<longleftrightarrow> ch = 95 \<or> is_letter u ch \<or> is_udigit u ch \<and> i > 0"

definition scanIdentifier :: "unicode \<Rightarrow> scanner \<Rightarrow> int \<times> scanner" where
  "scanIdentifier u s =
     (case sc_next s of (ch, s') \<Rightarrow> snd (scan_while (\<lambda>c. isIdentRune u c 1) (\<lambda>_. False) False ch s'))"

definition digitVal :: "int \<Rightarrow> int" where
  "digitVal ch =
     (if 48 \<le> ch \<and> ch \<le> 57 then ch - 48
      else if 97 \<le> ch \<and> ch \<le> 102 then ch - 97 + 10
      else if 65 \<le> ch \<and> ch \<le> 70 then ch - 65 + 10
      else 16)"

definition isDecimal :: "int \<Rightarrow> bool" where
  "isDecimal ch \<longleftrightarrow> 48 \<le> ch \<and> ch \<le> 57"

definition scanMantissa :: "int \<Rightarrow> scanner \<Rightarrow> int \<times> scanner" where
  "scanMantissa ch s = snd (scan_while isDecimal (\<lambda>_. False) False ch s)"

definition scanFraction :: "int \<Rightarrow> scanner \<Rightarrow> int \<times> scanner" where
  "scanFraction ch s =
     (if ch = rune CHR ''.'' then (case sc_next s of (ch', s') \<Rightarrow> scanMantissa ch' s') else (ch, s))"

definition scanExponent :: "int \<Rightarrow> scanner \<Rightarrow> int \<times> scanner" where
  "scanExponent ch s =
     (if ch = rune CHR ''e'' \<or> ch = rune CHR ''E'' then
        (case sc_next s of (ch1, s1) \<Rightarrow>
         case (if ch1 = rune CHR ''-'' \<or> ch1 = rune CHR ''+'' then sc_next s1 else (ch1, s1)) of
           (ch2, s2) \<Rightarrow> scanMantissa ch2 s2)
      else (ch, s))"

definition float_start :: "scanner \<Rightarrow> int \<Rightarrow> bool" where
  "float_start s ch \<longleftrightarrow> ScMode s AND ScanFloats \<noteq> 0
     \<and> (ch = rune CHR ''.'' \<or> ch = rune CHR ''e'' \<or> ch = rune CHR ''E'')"

definition scan_float :: "int \<Rightarrow> scanner \<Rightarrow> int \<times> int \<times> scanner" where
  "scan_float ch s = (case scanFraction ch s of (ch1, s1) \<Rightarrow> (Float, scanExponent ch1 s1))"

definition scanNumber :: "int \<Rightarrow> scanner \<Rightarrow> int \<times> int \<times> scanner" where
  "scanNumber ch s =
     (if ch = rune CHR ''0'' then
        (case sc_next s of (ch1, s1) \<Rightarrow>
           if ch1 = rune CHR ''x'' \<or> ch1 = rune CHR ''X'' then
             (case sc_next s1 of (ch2, s2) \<Rightarrow>
              case scan_while (\<lambda>c. digitVal c < 16) (\<lambda>_. True) False ch2 s2 of (hasMantissa, ch3, s3) \<Rightarrow>
                (IntTok, ch3, if hasMantissa then s3 else sc_error s3))
           else
             (case scan_while isDecimal (\<lambda>c. c > rune CHR ''7'') False ch1 s1 of (has8or9, ch2, s2) \<Rightarrow>
                if float_start s2 ch2 then scan_float ch2 s2
                else (IntTok, ch2, if has8or9 then sc_error s2 else s2)))
      else
        (case scanMantissa ch s of (ch1, s1) \<Rightarrow>
           if float_start s1 ch1 then scan_float ch1 s1 else (IntTok, ch1, s1)))"

fun scanDigits :: "int \<Rightarrow> int \<Rightarrow> nat \<Rightarrow> scanner \<Rightarrow> int \<times> scanner" where
  "scanDigits ch base 0 s = (ch, s)"
| "scanDigits ch base (Suc n) s =
     (if digitVal ch < base then (case sc_next s of (ch', s') \<Rightarrow> scanDigits ch' base n s')
      else (ch, sc_error s))"

definition scanEscape :: "int \<Rightarrow> scanner \<Rightarrow> int \<times> scanner" where
  "scanEscape quote s =
     (case sc_next s of (ch, s1) \<Rightarrow>
        if ch \<in> rune ` set ''abfnrtv'' \<or> ch = rune backslash \<or> ch = quote then sc_next s1
        else if 48 \<le> ch \<and> ch \<le> 55 then scanDigits ch 8 3 s1
        else if ch = rune CHR ''x'' then (case sc_next s1 of (c, s2) \<Rightarrow> scanDigits c 16 2 s2)
        else if ch = rune CHR ''u'' then (case sc_next s1 of (c, s2) \<Rightarrow> scanDigits c 16 4 s2)
        else if ch = rune CHR ''U'' then (case sc_next s1 of (c, s2) \<Rightarrow> scanDigits c 16 8 s2)
        else (ch, sc_error s1))"

lemma room_error [simp]: "room (ch, sc_error s) = room (ch, s)"
  by (simp add: room_def)

lemma scanDigits_room: "scanDigits ch base n s = (ch', s') \<Longrightarrow> base \<le> 16 \<Longrightarrow> room (ch', s') \<le> room (ch, s)"
proof (induction ch base n s rule: scanDigits.induct)
  case (2 ch base n s)
  show ?case
  proof (cases "digitVal ch < base")
    case True
    then have "ch \<noteq> - 1" using "2.prems"(2) by (auto simp: digitVal_def)
    obtain c s1 where n: "sc_next s = (c, s1)" by (cases "sc_next s")
    with True "2.prems" have "scanDigits c base n s1 = (ch', s')" by simp
    with "2.IH" [OF True n [symmetric]] "2.prems"(2) have "room (ch', s') \<le> room (c, s1)" by simp
    with sc_next_room_less [OF n \<open>ch \<noteq> - 1\<close>] show ?thesis by simp
  qed (use 2 in auto)
qed simp

lemma sc_next_room_le: "sc_next s = (ch', s') \<Longrightarrow> room (ch', s') \<le> room (ch, s)"
  using sc_next_room [of s ch' s'] by (simp add: room_def)

lemma unread_room: "length (unread s) \<le> room (ch, s)"
  by (simp add: room_def)

lemma scanEscape_room:
  assumes "scanEscape quote s = (ch, s')"
  shows "room (ch, s') \<le> length (unread s)"
proof -
  obtain c s1 where n: "sc_next s = (c, s1)" by (cases "sc_next s")
  obtain d s2 where n2: "sc_next s1 = (d, s2)" by (cases "sc_next s1")
  have r1: "room (c, s1) \<le> length (unread s)" using n by (rule sc_next_room)
  have r2: "room (d, s2) \<le> room (c, s1)"
    using sc_next_room [OF n2] unread_room [of s1 c] by (rule order_trans)
  have "room (ch, s') \<le> room (c, s1)"
    using assms r2 unfolding scanEscape_def n
    by (auto simp: n2 split: if_splits dest!: scanDigits_room)
  with r1 show ?thesis by simp
qed

lemma room_scanEscape: "0 \<le> ch \<Longrightarrow> room (scanEscape quote s) < room (ch, s)"
  using scanEscape_room [of quote s "fst (scanEscape quote s)" "snd (scanEscape quote s)"]
  by (simp add: room_def)

text \<open>
  scanString: n counts the characters; it stops without them all at a newline or at the end of
  the source, which it has then read.
\<close>

function scan_string :: "int \<Rightarrow> nat \<Rightarrow> int \<Rightarrow> scanner \<Rightarrow> nat \<times> scanner" where
  "scan_string quote n ch s =
     (if ch = quote then (n, s)
      else if ch = rune CHR 0x0A \<or> ch < 0 then (n, sc_error s)
      else if ch = rune backslash then
        (case scanEscape quote s of (ch', s') \<Rightarrow> scan_string quote (Suc n) ch' s')
      else (case sc_next s of (ch', s') \<Rightarrow> scan_string quote (Suc n) ch' s'))"
  by pat_completeness auto
termination scan_string
  by (relation "measure (\<lambda>(quote, n, ch, s). room (ch, s))")
    (auto intro: room_sc_next room_scanEscape simp: linorder_not_less)

declare scan_string.simps [simp del]

definition scanString :: "int \<Rightarrow> scanner \<Rightarrow> nat \<times> scanner" where
  "scanString quote s = (case sc_next s of (ch, s') \<Rightarrow> scan_string quote 0 ch s')"

definition scanRawString :: "scanner \<Rightarrow> scanner" where
  "scanRawString s =
     (case sc_next s of (ch, s') \<Rightarrow>
      case scan_while (\<lambda>c. c \<noteq> rune CHR ''`'') (\<lambda>_. False) False ch s' of (_, ch', s'') \<Rightarrow>
        if ch' < 0 then sc_error s'' else s'')"

definition scanChar :: "scanner \<Rightarrow> scanner" where
  "scanChar s = (case scanString (rune CHR 0x27) s of (n, s') \<Rightarrow> if n = 1 then s' else sc_error s')"

function scan_general_comment :: "int \<Rightarrow> scanner \<Rightarrow> int \<times> scanner" where
  "scan_general_comment ch s =
     (if ch < 0 then (ch, sc_error s)
      else case sc_next s of (ch', s') \<Rightarrow>
        if ch = rune CHR ''*'' \<and> ch' = rune CHR ''/'' then sc_next s'
        else scan_general_comment ch' s')"
  by pat_completeness auto
termination scan_general_comment
  by (relation "measure (\<lambda>(ch, s). room (ch, s))")
    (auto intro: room_sc_next simp: linorder_not_less)

declare scan_general_comment.simps [simp del]

definition scanComment :: "int \<Rightarrow> scanner \<Rightarrow> int \<times> scanner" where
  "scanComment ch s =
     (case sc_next s of (ch', s') \<Rightarrow>
        if ch = rune CHR ''/''
        then snd (scan_while (\<lambda>c. c \<noteq> rune CHR 0x0A) (\<lambda>_. False) False ch' s')
        else scan_general_comment ch' s')"

definition mode_on :: "scanner \<Rightarrow> u32 \<Rightarrow> bool" where
  "mode_on s m \<longleftrightarrow> ScMode s AND m \<noteq> 0"

definition skip_white :: "int \<Rightarrow> scanner \<Rightarrow> int \<times> scanner" where
  "skip_white ch s = snd (scan_while (\<lambda>c. c < 64 \<and> bit (Whitespace s) (nat c)) (\<lambda>_. False) False ch s)"

text \<open>
  The switch of Scan after the white space: the token, the next character and the state, or
  Inl for a comment that is skipped.
\<close>

definition scan_token :: "unicode \<Rightarrow> int \<Rightarrow> scanner \<Rightarrow> (int \<times> scanner) + (int \<times> int \<times> scanner)" where
  "scan_token u ch s =
     (let single = (case sc_next s of (c, s') \<Rightarrow> Inr (ch, c, s')) in
      if isIdentRune u ch 0 then
        (if mode_on s ScanIdents then (case scanIdentifier u s of (c, s') \<Rightarrow> Inr (Ident, c, s'))
         else single)
      else if isDecimal ch then
        (if mode_on s (ScanInts OR ScanFloats) then Inr (scanNumber ch s) else single)
      else if ch = rune dq then
        (if mode_on s ScanStrings
         then (case sc_next (snd (scanString (rune dq) s)) of (c, s') \<Rightarrow> Inr (StringTok, c, s'))
         else single)
      else if ch = rune CHR 0x27 then
        (if mode_on s ScanChars
         then (case sc_next (scanChar s) of (c, s') \<Rightarrow> Inr (CharTok, c, s'))
         else single)
      else if ch = rune CHR ''.'' then
        (case sc_next s of (c, s1) \<Rightarrow>
           if isDecimal c \<and> mode_on s1 ScanFloats then
             (case scanMantissa c s1 of (c2, s2) \<Rightarrow> Inr (Float, scanExponent c2 s2))
           else Inr (ch, c, s1))
      else if ch = rune CHR ''/'' then
        (case sc_next s of (c, s1) \<Rightarrow>
           if (c = rune CHR ''/'' \<or> c = rune CHR ''*'') \<and> mode_on s1 ScanComments then
             (if mode_on s1 SkipComments then Inl (scanComment c (s1\<lparr>TokPos := None\<rparr>))
              else Inr (CommentTok, scanComment c s1))
           else Inr (ch, c, s1))
      else if ch = rune CHR ''`'' then
        (if mode_on s ScanRawStrings
         then (case sc_next (scanRawString s) of (c, s') \<Rightarrow> Inr (StringTok, c, s'))
         else single)
      else single)"

definition mark_token :: "scanner \<Rightarrow> scanner" where
  "mark_token s = s\<lparr>TokPos := Some (SrcPos s - LastCharLen s)\<rparr>"

lemma room_mark [simp]: "room (ch, mark_token s) = room (ch, s)"
  by (simp add: room_def mark_token_def)

lemma room_fields [simp]:
  "room (ch, s\<lparr>TokPos := p\<rparr>) = room (ch, s)"
  "room (ch, s\<lparr>Ch := c\<rparr>) = room (ch, s)"
  "room (ch, s\<lparr>TokEnd := e\<rparr>) = room (ch, s)"
  by (simp_all add: room_def)

lemma scan_while_room: "scan_while p q flag ch s = (f, ch', s') \<Longrightarrow> room (ch', s') \<le> room (ch, s)"
proof (induction p q flag ch s rule: scan_while.induct)
  case (1 p q flag ch s)
  show ?case
  proof (cases "0 \<le> ch \<and> p ch")
    case True
    obtain c s1 where n: "sc_next s = (c, s1)" by (cases "sc_next s")
    with True "1.prems" have "scan_while p q (flag \<or> q ch) c s1 = (f, ch', s')"
      by (simp add: scan_while.simps [of p q flag ch s])
    from "1.IH" [OF True n [symmetric] this] room_sc_next [of ch s] True n show ?thesis by simp
  next
    case False
    with "1.prems" show ?thesis by (simp add: scan_while.simps [of p q flag ch s])
  qed
qed

lemma snd_scan_while_room: "room (snd (scan_while p q flag ch s)) \<le> room (ch, s)"
  by (metis scan_while_room prod.collapse)

lemma scan_general_comment_room: "room (scan_general_comment ch s) \<le> room (ch, s)"
proof (induction ch s rule: scan_general_comment.induct)
  case (1 ch s)
  obtain c s1 where n: "sc_next s = (c, s1)" by (cases "sc_next s")
  have "room (c, s1) \<le> room (ch, s)" using n by (rule sc_next_room_le)
  moreover have "room (sc_next s1) \<le> room (c, s1)"
    using sc_next_room_le [of s1 "fst (sc_next s1)" "snd (sc_next s1)" c] by simp
  ultimately show ?case using 1 n by (subst scan_general_comment.simps) auto
qed

lemma scan_string_room: "scan_string quote n ch s = (k, s') \<Longrightarrow> length (unread s') \<le> length (unread s)"
proof (induction quote n ch s rule: scan_string.induct)
  case (1 quote n ch s)
  note step = scan_string.simps [of quote n ch s]
  consider "ch = quote \<or> ch = rune CHR 0x0A \<or> ch < 0"
    | "\<not> (ch = quote)" "\<not> (ch = rune CHR 0x0A \<or> ch < 0)" "ch = rune backslash"
    | "\<not> (ch = quote)" "\<not> (ch = rune CHR 0x0A \<or> ch < 0)" "ch \<noteq> rune backslash" by blast
  then show ?case
  proof cases
    case 1
    with "1.prems" step show ?thesis by (auto split: if_splits)
  next
    case 2
    obtain c s1 where n: "scanEscape quote s = (c, s1)" by (cases "scanEscape quote s")
    with 2 "1.prems" step have "scan_string quote (Suc n) c s1 = (k, s')" by auto
    from "1.IH"(1) [OF 2 n [symmetric] this] scanEscape_room [OF n] unread_room [of s1 c]
    show ?thesis by simp
  next
    case 3
    obtain c s1 where n: "sc_next s = (c, s1)" by (cases "sc_next s")
    with 3 "1.prems" step have "scan_string quote (Suc n) c s1 = (k, s')" by auto
    from "1.IH"(2) [OF 3 n [symmetric] this] sc_next_room [OF n] unread_room [of s1 c]
    show ?thesis by simp
  qed
qed

lemma snd_scan_while_next_room: "0 \<le> ch \<Longrightarrow> sc_next s = (c, s1) \<Longrightarrow>
   room (snd (scan_while p q flag c s1)) < room (ch, s)"
  using snd_scan_while_room [of p q flag c s1] room_sc_next [of ch s] by simp

lemma sc_next_unread: "length (unread (snd (sc_next s))) \<le> length (unread s)"
  using sc_next_room [of s "fst (sc_next s)" "snd (sc_next s)"] unread_room [of "snd (sc_next s)" 0]
  by (simp add: room_def split: if_splits)

lemma scanString_unread: "length (unread (snd (scanString quote s))) \<le> length (unread s)"
proof -
  obtain c s1 where n: "sc_next s = (c, s1)" by (cases "sc_next s")
  obtain k s2 where k: "scan_string quote 0 c s1 = (k, s2)" by (cases "scan_string quote 0 c s1")
  show ?thesis
    using sc_next_unread [of s] scan_string_room [OF k] n k by (simp add: scanString_def)
qed

lemma sc_next_after: "length (unread s') \<le> length (unread s) \<Longrightarrow> 0 \<le> ch \<Longrightarrow> room (sc_next s') < room (ch, s)"
  using sc_next_room [of s' "fst (sc_next s')" "snd (sc_next s')"] by (simp add: room_def)

lemma scanRawString_unread: "length (unread (scanRawString s)) \<le> length (unread s)"
proof -
  obtain c s1 where n: "sc_next s = (c, s1)" by (cases "sc_next s")
  obtain f c2 s2 where w: "scan_while (\<lambda>c. c \<noteq> rune CHR ''`'') (\<lambda>_. False) False c s1 = (f, c2, s2)"
    by (cases "scan_while (\<lambda>c. c \<noteq> rune CHR ''`'') (\<lambda>_. False) False c s1")
  from sc_next_room [OF n] scan_while_room [OF w] unread_room [of s2 c2] n w show ?thesis
    by (simp add: scanRawString_def)
qed

lemma scanChar_unread: "length (unread (scanChar s)) \<le> length (unread s)"
  using scanString_unread [of "rune CHR 0x27" s]
  by (cases "scanString (rune CHR 0x27) s") (simp add: scanChar_def)

lemma scanMantissa_room: "room (scanMantissa ch s) \<le> room (ch, s)"
  unfolding scanMantissa_def by (rule snd_scan_while_room)

lemma room_next_le: "sc_next s = (c, s1) \<Longrightarrow> room (c, s1) \<le> room (ch, s)"
  by (rule sc_next_room_le)

lemma scanExponent_room: "room (scanExponent ch s) \<le> room (ch, s)"
proof -
  obtain c1 s1 where n: "sc_next s = (c1, s1)" by (cases "sc_next s")
  obtain c2 s2 where n2: "sc_next s1 = (c2, s2)" by (cases "sc_next s1")
  have "room (scanMantissa c1 s1) \<le> room (ch, s)" "room (scanMantissa c2 s2) \<le> room (ch, s)"
    using room_next_le [OF n, of ch] room_next_le [OF n2, of c1]
      scanMantissa_room [of c1 s1] scanMantissa_room [of c2 s2] by simp_all
  then show ?thesis by (auto simp: scanExponent_def n n2)
qed

lemma scanFraction_room: "room (scanFraction ch s) \<le> room (ch, s)"
proof -
  obtain c1 s1 where n: "sc_next s = (c1, s1)" by (cases "sc_next s")
  with room_next_le [OF n, of ch] scanMantissa_room [of c1 s1] show ?thesis
    by (auto simp: scanFraction_def)
qed

lemma scan_float_room: "room (snd (scan_float ch s)) \<le> room (ch, s)"
proof -
  obtain c1 s1 where f: "scanFraction ch s = (c1, s1)" by (cases "scanFraction ch s")
  with scanFraction_room [of ch s] scanExponent_room [of c1 s1] show ?thesis
    by (simp add: scan_float_def)
qed

lemma scanNumber_room: "isDecimal ch \<Longrightarrow> room (snd (scanNumber ch s)) < room (ch, s)"
proof -
  assume dec: "isDecimal ch"
  then have ch: "0 \<le> ch" by (simp add: isDecimal_def)
  obtain c1 s1 where n: "sc_next s = (c1, s1)" by (cases "sc_next s")
  have r1: "room (c1, s1) < room (ch, s)" using room_sc_next [OF ch, of s] n by simp
  show ?thesis
  proof (cases "ch = rune CHR ''0''")
    case True
    obtain c2 s2 where n2: "sc_next s1 = (c2, s2)" by (cases "sc_next s1")
    obtain f c3 s3 where w: "scan_while (\<lambda>c. digitVal c < 16) (\<lambda>_. True) False c2 s2 = (f, c3, s3)"
      by (cases "scan_while (\<lambda>c. digitVal c < 16) (\<lambda>_. True) False c2 s2")
    obtain g c4 s4 where v: "scan_while isDecimal (\<lambda>c. c > rune CHR ''7'') False c1 s1 = (g, c4, s4)"
      by (cases "scan_while isDecimal (\<lambda>c. c > rune CHR ''7'') False c1 s1")
    have "room (c3, s3) < room (ch, s)"
      using scan_while_room [OF w] room_next_le [OF n2, of c1] r1 by simp
    moreover have "room (c4, s4) < room (ch, s)" using scan_while_room [OF v] r1 by simp
    moreover have "room (snd (scan_float c4 s4)) \<le> room (c4, s4)" by (rule scan_float_room)
    ultimately show ?thesis using True by (auto simp: scanNumber_def n n2 w v)
  next
    case False
    obtain c2 s2 where m: "scanMantissa ch s = (c2, s2)" by (cases "scanMantissa ch s")
    have "scanMantissa ch s = scanMantissa c1 s1"
      using dec ch by (simp add: scanMantissa_def n scan_while.simps [of isDecimal _ _ ch])
    with m r1 scanMantissa_room [of c1 s1] have "room (c2, s2) < room (ch, s)" by simp
    moreover have "room (snd (scan_float c2 s2)) \<le> room (c2, s2)" by (rule scan_float_room)
    ultimately show ?thesis using False by (simp add: scanNumber_def m)
  qed
qed

lemma scanComment_room: "room (scanComment ch s) \<le> room (ch, s)"
proof -
  obtain c s1 where n: "sc_next s = (c, s1)" by (cases "sc_next s")
  have "room (scanComment ch s) \<le> room (c, s1)"
    using snd_scan_while_room scan_general_comment_room by (simp add: scanComment_def n)
  also have "room (c, s1) \<le> room (ch, s)" using n by (rule room_next_le)
  finally show ?thesis .
qed

text \<open>Every token but the one at the end of the source takes at least one character.\<close>

lemma scan_token_room:
  "0 \<le> ch \<Longrightarrow> scan_token u ch s = Inr (tok, c, s') \<Longrightarrow> room (c, s') < room (ch, s)"
  "0 \<le> ch \<Longrightarrow> scan_token u ch s = Inl (c, s') \<Longrightarrow> room (c, s') < room (ch, s)"
proof -
  assume ch: "0 \<le> ch"
  obtain d s1 where n: "sc_next s = (d, s1)" by (cases "sc_next s")
  have r: "room (d, s1) < room (ch, s)" using room_sc_next [OF ch, of s] n by simp
  have com: "room (scanComment d s1) < room (ch, s)"
    "room (scanComment d (s1\<lparr>TokPos := None\<rparr>)) < room (ch, s)"
    using scanComment_room [of d s1] scanComment_room [of d "s1\<lparr>TokPos := None\<rparr>"] r by simp_all
  { assume tok: "scan_token u ch s = Inr (tok, c, s')"
    consider "isIdentRune u ch 0 \<and> mode_on s ScanIdents"
      | "\<not> isIdentRune u ch 0 \<and> isDecimal ch \<and> mode_on s (ScanInts OR ScanFloats)"
      | "ch = rune dq" | "ch = rune CHR 0x27" | "ch = rune CHR ''.''" | "ch = rune CHR ''/''"
      | "ch = rune CHR ''`''" | "(c, s') = (d, s1)"
      using tok by (fastforce simp: scan_token_def n Let_def split: if_splits prod.splits)
    then show "room (c, s') < room (ch, s)"
    proof cases
      case 1
      with tok have "(c, s') = snd (scan_while (\<lambda>c. isIdentRune u c 1) (\<lambda>_. False) False d s1)"
        by (auto simp: scan_token_def scanIdentifier_def n Let_def split: prod.splits)
      with snd_scan_while_next_room [OF ch n] show ?thesis by simp
    next
      case 2
      with tok have "(c, s') = snd (scanNumber ch s)" by (auto simp: scan_token_def Let_def)
      with scanNumber_room 2 show ?thesis by simp
    next
      case 3
      with tok have "(c, s') = (d, s1) \<or> (c, s') = sc_next (snd (scanString (rune dq) s))"
        by (auto simp: scan_token_def n Let_def rune_def dq_def isIdentRune_def is_letter_def
            is_udigit_def isDecimal_def split: prod.splits if_splits)
      with r sc_next_after [OF scanString_unread ch] show ?thesis by auto
    next
      case 4
      with tok have "(c, s') = (d, s1) \<or> (c, s') = sc_next (scanChar s)"
        by (auto simp: scan_token_def n Let_def rune_def dq_def isIdentRune_def is_letter_def
            is_udigit_def isDecimal_def split: prod.splits if_splits)
      with r sc_next_after [OF scanChar_unread ch] show ?thesis by auto
    next
      case 5
      obtain e s2 where m: "scanMantissa d s1 = (e, s2)" by (cases "scanMantissa d s1")
      from 5 tok have "(c, s') = (d, s1) \<or> (c, s') = scanExponent e s2"
        by (auto simp: scan_token_def n m Let_def rune_def dq_def isIdentRune_def is_letter_def
            is_udigit_def isDecimal_def split: prod.splits if_splits)
      with r scanMantissa_room [of d s1] scanExponent_room [of e s2] m show ?thesis by auto
    next
      case 6
      with tok have "(c, s') = (d, s1) \<or> (c, s') = scanComment d s1"
        by (auto simp: scan_token_def n Let_def rune_def dq_def isIdentRune_def is_letter_def
            is_udigit_def isDecimal_def split: prod.splits if_splits)
      with r com show ?thesis by auto
    next
      case 7
      with tok have "(c, s') = (d, s1) \<or> (c, s') = sc_next (scanRawString s)"
        by (auto simp: scan_token_def n Let_def rune_def dq_def isIdentRune_def is_letter_def
            is_udigit_def isDecimal_def split: prod.splits if_splits)
      with r sc_next_after [OF scanRawString_unread ch] show ?thesis by auto
    next
      case 8
      with r show ?thesis by simp
    qed
  next
    assume "scan_token u ch s = Inl (c, s')"
    then have "(c, s') = scanComment d (s1\<lparr>TokPos := None\<rparr>)"
      by (auto simp: scan_token_def n Let_def split: if_splits prod.splits)
    with com show "room (c, s') < room (ch, s)" by simp
  }
qed

section \<open>Scan\<close>

function scan_redo :: "unicode \<Rightarrow> int \<Rightarrow> scanner \<Rightarrow> int \<times> scanner" where
  "scan_redo u ch s =
     (case skip_white ch s of (ch1, s1) \<Rightarrow>
      if ch1 < 0 then
        (case sc_next (mark_token s1) of (c, s') \<Rightarrow>
           (ch1, s'\<lparr>TokEnd := SrcPos s' - LastCharLen s', Ch := c\<rparr>))
      else case scan_token u ch1 (mark_token s1) of
        Inl (c, s') \<Rightarrow> scan_redo u c s'
      | Inr (tok, c, s') \<Rightarrow> (tok, s'\<lparr>TokEnd := SrcPos s' - LastCharLen s', Ch := c\<rparr>))"
  by pat_completeness auto

lemma skip_white_room: "room (skip_white ch s) \<le> room (ch, s)"
  unfolding skip_white_def by (rule snd_scan_while_room)

lemma scan_redo_room:
  "(ch1, s1) = skip_white ch s \<Longrightarrow> \<not> ch1 < 0 \<Longrightarrow>
   scan_token u ch1 (mark_token s1) = Inl (c, s') \<Longrightarrow> room (c, s') < room (ch, s)"
  using scan_token_room(2) [of ch1 u "mark_token s1" c s'] skip_white_room [of ch s]
  by (metis less_le_trans linorder_not_less room_mark)

termination scan_redo
  by (relation "measure (\<lambda>(u, ch, s). room (ch, s))") (auto intro: scan_redo_room)

declare scan_redo.simps [simp del]

text \<open>
  At the end of the source every branch of the switch is the default one, whose token is the
  character itself; a negative character is no letter, digit or quote.
\<close>

definition sc_Scan :: "unicode \<Rightarrow> scanner \<Rightarrow> int \<times> scanner" where
  "sc_Scan u s = (case sc_Peek s of (ch, s') \<Rightarrow> scan_redo u ch (s'\<lparr>TokPos := None\<rparr>))"

definition TokenText :: "scanner \<Rightarrow> bytes" where
  "TokenText s =
     (case TokPos s of None \<Rightarrow> [] | Some p \<Rightarrow> take (TokEnd s - p) (drop p (Src s)))"

text \<open>What a scanner can still give between two calls.\<close>

definition left :: "scanner \<Rightarrow> nat" where
  "left s = room (Ch s, s)"

lemma sc_Peek_left: "sc_Peek s = (ch, s') \<Longrightarrow> left s' \<le> left s \<and> Ch s' = ch \<and> (ch \<noteq> - 1 \<longrightarrow> Ch s \<noteq> - 1)"
proof -
  assume p: "sc_Peek s = (ch, s')"
  obtain c s1 where n: "sc_next s = (c, s1)" by (cases "sc_next s")
  obtain d s2 where m: "sc_next s1 = (d, s2)" by (cases "sc_next s1")
  have "room (c, s1) \<le> room (Ch s, s)" "room (d, s2) \<le> room (c, s1)"
    using n m by (auto intro: room_next_le)
  with p n m show ?thesis
    by (auto simp: sc_Peek_def left_def room_def split: if_splits)
qed

lemma scan_redo_left:
  "scan_redo u ch s = (tok, s') \<Longrightarrow> left s' \<le> room (ch, s) \<and> (ch \<noteq> - 1 \<longrightarrow> left s' < room (ch, s)) \<and>
     (ch < 0 \<longrightarrow> tok = ch)"
proof (induction u ch s arbitrary: tok s' rule: scan_redo.induct)
  case (1 u ch s)
  obtain ch1 s1 where w: "skip_white ch s = (ch1, s1)" by (cases "skip_white ch s")
  have le: "room (ch1, s1) \<le> room (ch, s)" using skip_white_room [of ch s] w by simp
  show ?case
  proof (cases "ch1 < 0")
    case True
    obtain c s2 where n: "sc_next (mark_token s1) = (c, s2)" by (cases "sc_next (mark_token s1)")
    have "room (c, s2) \<le> room (ch1, s1)" using room_next_le [OF n, of ch1] by simp
    moreover have "room (ch1, s1) < room (ch, s)" if "0 \<le> ch"
    proof -
      obtain d s3 where d: "sc_next s = (d, s3)" by (cases "sc_next s")
      have "(ch1, s1) = snd (scan_while (\<lambda>c. c < 64 \<and> bit (Whitespace s) (nat c)) (\<lambda>_. False) False d s3)"
        using w that True d
        by (auto simp: skip_white_def scan_while.simps [of _ _ _ ch] split: if_splits)
      with snd_scan_while_next_room [OF that d] show ?thesis by metis
    qed
    moreover have neg: "ch1 = ch" if "ch < 0"
      using w that by (auto simp: skip_white_def scan_while.simps [of _ _ _ ch])
    moreover have "room (c, s2) < room (ch, s)" if "ch < 0" "ch \<noteq> - 1"
      using sc_next_room_less [OF n, of ch1] neg [OF that(1)] that le by simp
    ultimately show ?thesis
      using "1.prems" True le n
      by (cases "0 \<le> ch") (auto simp: scan_redo.simps [of u ch s] w left_def)
  next
    case False
    then have "0 \<le> ch1" by simp
    have "0 \<le> ch"
      using w False by (auto simp: skip_white_def scan_while.simps [of _ _ _ ch] split: if_splits)
    show ?thesis
    proof (cases "scan_token u ch1 (mark_token s1)")
      case (Inr r)
      obtain t c s2 where r: "r = (t, c, s2)" by (cases r)
      with scan_token_room(1) [OF \<open>0 \<le> ch1\<close>] Inr have "room (c, s2) < room (ch1, s1)"
        by fastforce
      with "1.prems" False le \<open>0 \<le> ch\<close> Inr r show ?thesis
        by (auto simp: scan_redo.simps [of u ch s] w left_def)
    next
      case (Inl r)
      obtain c s2 where r: "r = (c, s2)" by (cases r)
      with scan_token_room(2) [OF \<open>0 \<le> ch1\<close>] Inl have "room (c, s2) < room (ch1, s1)"
        by fastforce
      moreover have rec: "scan_redo u c s2 = (tok, s')"
        using "1.prems" False Inl r by (simp add: scan_redo.simps [of u ch s] w)
      from "1.IH" [OF w [symmetric] False Inl r [symmetric] rec]
      have "left s' \<le> room (c, s2)" by simp
      ultimately show ?thesis using le \<open>0 \<le> ch\<close> by simp
    qed
  qed
qed

lemma sc_Scan_left:
  assumes "sc_Scan u s = (tok, s')"
  shows "left s' \<le> left s" and "tok \<noteq> - 1 \<Longrightarrow> left s' < left s"
proof -
  obtain ch s1 where p: "sc_Peek s = (ch, s1)" by (cases "sc_Peek s")
  from sc_Peek_left [OF p] have le: "left s1 \<le> left s" and ch: "Ch s1 = ch" by auto
  have red: "scan_redo u ch (s1\<lparr>TokPos := None\<rparr>) = (tok, s')"
    using assms p by (simp add: sc_Scan_def)
  from scan_redo_left [OF this] le ch show "left s' \<le> left s" by (simp add: left_def)
  assume "tok \<noteq> - 1"
  with scan_redo_left [OF red] have "ch \<noteq> - 1" by auto
  with scan_redo_left [OF red] le ch show "left s' < left s" by (simp add: left_def)
qed

lemma sc_Next_left:
  assumes "sc_Next s = (ch, s')"
  shows "left s' \<le> left s" and "ch \<noteq> - 1 \<Longrightarrow> left s' < left s"
proof -
  obtain c s1 where p: "sc_Peek (s\<lparr>TokPos := None\<rparr>) = (c, s1)" by (cases "sc_Peek (s\<lparr>TokPos := None\<rparr>)")
  obtain d s2 where n: "sc_next s1 = (d, s2)" by (cases "sc_next s1")
  from sc_Peek_left [OF p] have le: "left s1 \<le> left s" "Ch s1 = c" by (auto simp: left_def)
  have eq: "ch = c" "s' = s2\<lparr>Ch := d\<rparr>" using assms p n by (auto simp: sc_Next_def)
  with sc_next_room_le [OF n, of c] sc_next_room_less [OF n, of c] le
  show "left s' \<le> left s" "ch \<noteq> - 1 \<Longrightarrow> left s' < left s" by (auto simp: left_def)
qed

end
