(* ===== verification/KVParse.thy ===== *)
theory KVParse
  imports Scanner
begin

text \<open>
  kv.go: the parser of the KV format. ParseTAI64NLabel of tai64n and strconv.ParseFloat are
  parameters, and so is what tai64n.Now() answers. The two loops that read up to a space do not
  look for the end of the source, so that there they never return: that outcome is Hang.
\<close>

record 'ts kv_env =
  Now :: 'ts
  ParseLabel :: "bytes \<Rightarrow> 'ts option"
  ParseFloat :: "string \<Rightarrow> float64 option"
  Uni :: unicode

record kvparser =
  Bare :: bool
  KScan :: scanner

definition kv_whitespace :: u64 where
  "kv_whitespace = push_bit 9 1 OR push_bit 32 1"

definition kv_tokens :: u32 where
  "kv_tokens = ScanIdents OR ScanFloats OR ScanStrings"

definition NewKVParser :: "bytes \<Rightarrow> kvparser" where
  "NewKVParser r =
     \<lparr>Bare = False, KScan = (sc_Init r)\<lparr>Whitespace := kv_whitespace, ScMode := kv_tokens\<rparr>\<rparr>"

definition cToNano :: "int list" where
  "cToNano = [100000000, 10000000, 1000000, 100000, 10000, 1000, 100, 10, 1]"

text \<open>
  strconv.ParseInt(s, 0, 64) on token text: hexadecimal after 0x, octal after another leading
  0, else decimal. None is an error.
\<close>

definition hex_val :: "char \<Rightarrow> int" where
  "hex_val c = digitVal (rune c)"

definition ParseInt0 :: "string \<Rightarrow> u64 option" where
  "ParseInt0 s =
     (let (base, ds) =
        (case s of
           a # b # r \<Rightarrow>
             if a = CHR ''0'' \<and> (b = CHR ''x'' \<or> b = CHR ''X'') then (16, r)
             else if a = CHR ''0'' then (8, b # r) else (10, s)
         | _ \<Rightarrow> (10, s));
          v = foldl (\<lambda>n c. n * base + hex_val c) 0 ds
      in if ds = [] \<or> \<not> list_all (\<lambda>c. hex_val c < base) ds \<or> v \<ge> 2 ^ 63 then None
         else Some (word_of_int v))"

section \<open>What is left gets less\<close>

text \<open>The facts about the scanner's calls in the form that the termination proofs meet them.\<close>

lemma sc_Next_dec: "(tok, s') = sc_Next s \<Longrightarrow> tok \<noteq> - 1 \<Longrightarrow> left s' < left s"
  using sc_Next_left(2) by metis

lemma sc_Scan_dec: "(tok, s') = sc_Scan u s \<Longrightarrow> tok \<noteq> - 1 \<Longrightarrow> left s' < left s"
  using sc_Scan_left(2) by metis

lemma sc_Scan_le: "(tok, s') = sc_Scan u s \<Longrightarrow> left s' \<le> left s"
  using sc_Scan_left(1) by metis

lemma sc_Peek_le: "(ch, s') = sc_Peek s \<Longrightarrow> left s' \<le> left s"
  using sc_Peek_left by metis

lemma Next_Peek_dec:
  "(tok, s1) = sc_Next s \<Longrightarrow> tok \<noteq> - 1 \<Longrightarrow> (ch, s2) = sc_Peek s1 \<Longrightarrow> left s2 < left s"
  using sc_Next_dec sc_Peek_le by (meson le_less_trans)

lemma Peek_Scan_Scan_dec:
  "(ch, s1) = sc_Peek s \<Longrightarrow> (t, s2) = sc_Scan u s1 \<Longrightarrow> (tok, s3) = sc_Scan u s2 \<Longrightarrow>
   tok \<noteq> - 1 \<Longrightarrow> left s3 < left s"
  using sc_Peek_le sc_Scan_le sc_Scan_dec by (meson le_less_trans less_le_trans)

section \<open>Reading lines and names\<close>

text \<open>Text up to the next space; None is the loop that never ends.\<close>

function until_space :: "scanner \<Rightarrow> bytes \<Rightarrow> (bytes \<times> scanner) option" where
  "until_space s buf =
     (case sc_Next s of (tok, s') \<Rightarrow>
        if tok = rune CHR '' '' then Some (buf, s')
        else if tok = TokEOF then None
        else until_space s' (buf @ rune_bytes tok))"
  by pat_completeness auto
termination until_space
  by (relation "measure (\<lambda>(s, buf). left s)") (auto simp: TokEOF_def intro: sc_Next_dec)

declare until_space.simps [simp del]

function read_bare :: "scanner \<Rightarrow> bytes \<Rightarrow> bytes option \<times> scanner" where
  "read_bare s buf =
     (case sc_Next s of (tok, s') \<Rightarrow>
        if tok = TokEOF then (if buf \<noteq> [] then (Some buf, s') else (None, s'))
        else if tok = rune CHR 0x0A then (if buf \<noteq> [] then (Some buf, s') else read_bare s' buf)
        else read_bare s' (buf @ rune_bytes tok))"
  by pat_completeness auto
termination read_bare
  by (relation "measure (\<lambda>(s, buf). left s)") (auto simp: TokEOF_def intro: sc_Next_dec)

declare read_bare.simps [simp del]

text \<open>skipToStart: the answer is the character that starts a message, or TokEOF.\<close>

function skipToStart :: "scanner \<Rightarrow> int \<times> scanner" where
  "skipToStart s =
     (case sc_Next s of (tok, s1) \<Rightarrow>
        if tok = TokEOF then (TokEOF, s1)
        else if tok = rune CHR 0x0A then
          (case sc_Peek s1 of (ch, s2) \<Rightarrow>
             if ch = rune CHR ''>'' then sc_Next s2
             else if ch = TokEOF then (ch, s2)
             else skipToStart s2)
        else skipToStart s1)"
  by pat_completeness auto
termination skipToStart
  by (relation "measure left")
    (auto simp: TokEOF_def rune_def intro: sc_Next_dec Next_Peek_dec)

declare skipToStart.simps [simp del]

function skipToNewline :: "unicode \<Rightarrow> scanner \<Rightarrow> scanner" where
  "skipToNewline u s =
     (case sc_Scan u s of (tok, s') \<Rightarrow>
        if tok = rune CHR 0x0A \<or> tok = TokEOF then s' else skipToNewline u s')"
  by pat_completeness auto
termination skipToNewline
  by (relation "measure (\<lambda>(u, s). left s)") (auto simp: TokEOF_def intro: sc_Scan_dec)

declare skipToNewline.simps [simp del]

text \<open>
  A name with dots. The answer is None where the code goes to its label for bad input; a
  panic is the slice of a string token shorter than its two quotes.
\<close>

function dotted :: "unicode \<Rightarrow> string \<Rightarrow> scanner \<Rightarrow> string option \<times> scanner" where
  "dotted u name s =
     (case sc_Peek s of (ch, s1) \<Rightarrow>
        if ch \<noteq> rune CHR ''.'' then (Some name, s1)
        else case sc_Scan u s1 of (_, s2) \<Rightarrow>
          case sc_Scan u s2 of (tok, s3) \<Rightarrow>
            if tok \<noteq> Ident then (None, s3)
            else dotted u (name @ ''.'' @ bytes_str (TokenText s3)) s3)"
  by pat_completeness auto
termination dotted
  by (relation "measure (\<lambda>(u, name, s). left s)") (auto simp: Ident_def intro: Peek_Scan_Scan_dec)

declare dotted.simps [simp del]

definition strip_quotes :: "bytes \<Rightarrow> string result" where
  "strip_quotes t = bindR (go_slice t 1 (int (length t) - 1)) (\<lambda>b. Inr (bytes_str b))"

definition scan_name :: "unicode \<Rightarrow> int \<Rightarrow> scanner \<Rightarrow> string option result \<times> scanner" where
  "scan_name u tok s =
     (if tok = Ident then
        (case dotted u (bytes_str (TokenText s)) s of (n, s') \<Rightarrow> (Inr n, s'))
      else if tok = StringTok \<or> tok = RawString then
        (bindR (strip_quotes (TokenText s)) (\<lambda>n. Inr (Some n)), s)
      else (Inr None, s))"

section \<open>Tags\<close>

datatype 'ts section_end = SecDone "'ts message" scanner | SecBad scanner | SecPanic fault

definition append_tag :: "'ts message \<Rightarrow> tag \<Rightarrow> 'ts message" where
  "append_tag m t = m\<lparr>Tags := Tags m @ [t]\<rparr>"

definition tag_token_value :: "int \<Rightarrow> scanner \<Rightarrow> string option result" where
  "tag_token_value tok s =
     (if tok = StringTok \<or> tok = RawString then
        bindR (strip_quotes (TokenText s)) (\<lambda>v. Inr (Some v))
      else if tok = Ident then Inr (Some (bytes_str (TokenText s)))
      else Inr None)"

lemma dotted_left: "left (snd (dotted u name s)) \<le> left s"
proof (induction u name s rule: dotted.induct)
  case (1 u name s)
  obtain ch s1 where p: "sc_Peek s = (ch, s1)" by (cases "sc_Peek s")
  obtain t s2 where a: "sc_Scan u s1 = (t, s2)" by (cases "sc_Scan u s1")
  obtain tok s3 where b: "sc_Scan u s2 = (tok, s3)" by (cases "sc_Scan u s2")
  have le: "left s1 \<le> left s" "left s2 \<le> left s1" "left s3 \<le> left s2"
    using sc_Peek_left [OF p] sc_Scan_left(1) [OF a] sc_Scan_left(1) [OF b] by auto
  show ?case
  proof (cases "ch = rune CHR ''.'' \<and> tok = Ident")
    case True
    with "1.IH" [OF p [symmetric] _ a [symmetric] b [symmetric]] le show ?thesis
      by (subst dotted.simps) (simp add: p a b)
  next
    case False
    with le show ?thesis by (subst dotted.simps) (auto simp: p a b)
  qed
qed

lemma scan_name_left: "scan_name u tok s = (r, s') \<Longrightarrow> left s' \<le> left s"
  using dotted_left [of u "bytes_str (TokenText s)" s]
  by (auto simp: scan_name_def split: if_splits prod.splits)

lemma Scan_Scan_dec:
  "(t, s1) = sc_Scan u s \<Longrightarrow> (tok, s2) = sc_Scan u s1 \<Longrightarrow> tok \<noteq> - 1 \<Longrightarrow> left s2 < left s"
  using sc_Scan_le sc_Scan_dec by (meson less_le_trans)

lemma scan_name_le: "(r, s') = scan_name u tok s \<Longrightarrow> left s' \<le> left s"
  using scan_name_left by metis

lemma name_value_dec:
  "(t, s1) = sc_Scan u s \<Longrightarrow> (r, s2) = scan_name u t s1 \<Longrightarrow> (tok3, s3) = sc_Scan u s2 \<Longrightarrow>
   tok3 \<noteq> - 1 \<Longrightarrow> (tok4, s4) = sc_Scan u s3 \<Longrightarrow> left s4 < left s"
  using sc_Scan_le sc_Scan_dec scan_name_le by (meson less_le_trans le_less_trans)

function tags_loop :: "unicode \<Rightarrow> 'ts message \<Rightarrow> scanner \<Rightarrow> 'ts section_end" where
  "tags_loop u m s =
     (case sc_Scan u s of (tok, s1) \<Rightarrow>
        if tok = rune CHR '']'' then SecDone m s1
        else if tok = rune CHR ''!'' then
          (case sc_Scan u s1 of (tok2, s2) \<Rightarrow>
             if tok2 \<noteq> Ident then SecBad s2
             else tags_loop u (append_tag m (zero_tag\<lparr>TName := bytes_str (TokenText s2)\<rparr>)) s2)
        else case scan_name u tok s1 of
          (Inl f, s2) \<Rightarrow> SecPanic f
        | (Inr None, s2) \<Rightarrow> SecBad s2
        | (Inr (Some name), s2) \<Rightarrow>
            (case sc_Scan u s2 of (tok3, s3) \<Rightarrow>
               if tok3 \<noteq> rune CHR ''='' then SecBad s3
               else case sc_Scan u s3 of (tok4, s4) \<Rightarrow>
                 (case tag_token_value tok4 s4 of
                    Inl f \<Rightarrow> SecPanic f
                  | Inr None \<Rightarrow> SecBad s4
                  | Inr (Some val) \<Rightarrow>
                      tags_loop u (append_tag m (zero_tag\<lparr>TName := name, TValue := Some val\<rparr>)) s4)))"
  by pat_completeness auto
termination tags_loop
  by (relation "measure (\<lambda>(u, m, s). left s)")
    (auto simp: Ident_def rune_def intro: Scan_Scan_dec name_value_dec)

declare tags_loop.simps [simp del]

section \<open>Attributes\<close>

text \<open>
  The seconds and nanoseconds of a token like 12.5: errors of ParseInt are dropped, and the
  power of ten is indexed by the number of digits behind the point, which may be none.
\<close>

definition interval_parts :: "string \<Rightarrow> (int \<times> int) option result" where
  "interval_parts dec =
     (case IndexByte dec (CHR ''.'') of
        None \<Rightarrow> Inr None
      | Some dot \<Rightarrow>
          (let tsec = take dot dec; tssec = drop (Suc dot) dec;
               sec = parse_value (ParseInt10 64 tsec); subsec = parse_value (ParseInt10 32 tssec)
           in if length tssec \<le> 9
              then bindR (go_index cToNano (int (length tssec) - 1)) (\<lambda>f. Inr (Some (sec, subsec * f)))
              else Inr (Some (sec, subsec))))"

text \<open>The value behind the equals sign; None is bad input.\<close>

definition add_value ::
  "'ts kv_env \<Rightarrow> 'ts message \<Rightarrow> string \<Rightarrow> int \<Rightarrow> scanner \<Rightarrow> 'ts message option result \<times> scanner" where
  "add_value env m key tok s =
     (let text = bytes_str (TokenText s); some = (\<lambda>r. bindR r (\<lambda>m'. Inr (Some m'))) in
      if tok = rune CHR '':'' then
        (case sc_Scan (Uni env) s of (st, s') \<Rightarrow>
           if st \<noteq> Float then (Inr None, s')
           else (bindR (interval_parts (bytes_str (TokenText s'))) (\<lambda>p.
                   case p of None \<Rightarrow> Inr None
                   | Some (sec, subsec) \<Rightarrow> some (AddInterval m key (word_of_int sec) (word_of_int subsec))), s'))
      else if tok = IntTok then
        ((case ParseInt0 text of None \<Rightarrow> Inr None | Some i \<Rightarrow> some (AddInt m key i)), s)
      else if tok = Float then
        ((case ParseFloat env text of
            Some f \<Rightarrow> some (AddFloat m key f)
          | None \<Rightarrow> (case ParseInt0 text of None \<Rightarrow> Inr None | Some i \<Rightarrow> some (AddInt m key i))), s)
      else if tok = StringTok \<or> tok = RawString then
        (bindR (strip_quotes (TokenText s)) (\<lambda>v. some (AddString m key v)), s)
      else if tok = Ident \<or> tok = CharTok then (some (AddString m key text), s)
      else (Inr None, s))"

lemma add_value_left: "add_value env m key tok s = (r, s') \<Longrightarrow> left s' \<le> left s"
  using sc_Scan_left(1) [of "Uni env" s]
  by (auto simp: add_value_def Let_def split: if_splits prod.splits)

lemma add_value_le: "(r, s') = add_value env m key tok s \<Longrightarrow> left s' \<le> left s"
  using add_value_left by metis

lemma pair_dec:
  "(ch, s0) = sc_Peek s \<Longrightarrow> (t, s1) = sc_Scan u s0 \<Longrightarrow> (r, s2) = scan_name u t s1 \<Longrightarrow>
   (tok3, s3) = sc_Scan u s2 \<Longrightarrow> tok3 \<noteq> - 1 \<Longrightarrow> (tok4, s4) = sc_Scan u s3 \<Longrightarrow>
   (q, s5) = add_value env m key tok4 s4 \<Longrightarrow> left s5 < left s"
  using sc_Peek_le name_value_dec add_value_le by (meson less_le_trans le_less_trans)

function pairs_loop :: "'ts kv_env \<Rightarrow> 'ts message \<Rightarrow> scanner \<Rightarrow> 'ts section_end" where
  "pairs_loop env m s =
     (case sc_Peek s of (ch, s0) \<Rightarrow>
        if ch = rune CHR 0x0A \<or> ch = TokEOF then SecDone m s0
        else case sc_Scan (Uni env) s0 of (tok, s1) \<Rightarrow>
        (case scan_name (Uni env) tok s1 of
          (Inl f, s2) \<Rightarrow> SecPanic f
        | (Inr None, s2) \<Rightarrow> SecBad s2
        | (Inr (Some key), s2) \<Rightarrow>
            (case sc_Scan (Uni env) s2 of (tok3, s3) \<Rightarrow>
               if tok3 \<noteq> rune CHR ''='' then SecBad s3
               else case sc_Scan (Uni env) s3 of (tok4, s4) \<Rightarrow>
                 (case add_value env m key tok4 s4 of
                    (Inl f, s5) \<Rightarrow> SecPanic f
                  | (Inr None, s5) \<Rightarrow> SecBad s5
                  | (Inr (Some m'), s5) \<Rightarrow> pairs_loop env m' s5))))"
  by pat_completeness auto
termination pairs_loop
  by (relation "measure (\<lambda>(env, m, s). left s)") (auto simp: rune_def intro: pair_dec)

declare pairs_loop.simps [simp del]

section \<open>Generate\<close>

datatype 'ts kv_out =
    KvMessage "'ts message" scanner
  | KvErr go_err scanner
  | KvPanic fault
  | Hang

text \<open>The type flag after the start of a message.\<close>

definition flag_type :: "int \<Rightarrow> u32 option" where
  "flag_type tok =
     (if tok = rune CHR ''!'' then Some METRIC
      else if tok = rune CHR ''$'' then Some TRACE
      else if tok = rune CHR ''*'' then Some AUDIT
      else if tok = rune CHR ''?'' then Some HEARTBEAT
      else None)"

text \<open>
  What follows the start of a message, up to the end of it: the flag, the space, timestamp,
  session, tags and attributes. Restart is the jump back to the label restart.
\<close>

datatype 'ts kv_step = Restart scanner | Stop "'ts kv_out"

definition parse_timestamp ::
  "'ts kv_env \<Rightarrow> 'ts message \<Rightarrow> scanner \<Rightarrow> ('ts message \<times> scanner) option" where
  "parse_timestamp env m s =
     (case sc_Peek s of (ch, s1) \<Rightarrow>
        if ch = rune CHR ''@'' then
          map_option (\<lambda>(buf, s3).
              ((case ParseLabel env buf of Some ts \<Rightarrow> m\<lparr>Timestamp := Some ts\<rparr> | None \<Rightarrow> m), s3))
            (until_space (snd (sc_Next s1)) (str_bytes ''@''))
        else Some (m, s1))"

definition parse_session :: "'ts message \<Rightarrow> scanner \<Rightarrow> ('ts message \<times> scanner) option" where
  "parse_session m s =
     (case sc_Peek s of (ch, s1) \<Rightarrow>
        if ch = rune backslash then
          map_option (\<lambda>(buf, s3). (m\<lparr>SessionId := Some (bytes_str buf)\<rparr>, s3))
            (until_space (snd (sc_Next s1)) [])
        else Some (m, s1))"

definition parse_tags :: "unicode \<Rightarrow> 'ts message \<Rightarrow> scanner \<Rightarrow> 'ts section_end" where
  "parse_tags u m s =
     (case sc_Peek s of (ch, s1) \<Rightarrow>
        if ch = rune CHR ''['' then tags_loop u m (snd (sc_Next s1)) else SecDone m s1)"

definition parse_body :: "'ts kv_env \<Rightarrow> scanner \<Rightarrow> 'ts kv_step" where
  "parse_body env s =
     (case sc_Peek s of (ch, s1) \<Rightarrow>
      if ch = TokEOF then Stop (KvErr EOF s1)
      else
        (case (case flag_type ch of
                 Some ty \<Rightarrow> ((Log (Now env))\<lparr>MType := Some ty\<rparr>, snd (sc_Next s1))
               | None \<Rightarrow> (Log (Now env), s1)) of (m, s2) \<Rightarrow>
         case sc_Next s2 of (sp, s3) \<Rightarrow>
         if sp \<noteq> rune CHR '' '' then Restart s3
         else case parse_timestamp env m s3 of
           None \<Rightarrow> Stop Hang
         | Some (m4, s4) \<Rightarrow>
           (case parse_session m4 s4 of
              None \<Rightarrow> Stop Hang
            | Some (m5, s5) \<Rightarrow>
              (case parse_tags (Uni env) m5 s5 of
                 SecPanic f \<Rightarrow> Stop (KvPanic f)
               | SecBad s6 \<Rightarrow> Restart (skipToNewline (Uni env) s6)
               | SecDone m6 s6 \<Rightarrow>
                 (case pairs_loop env m6 s6 of
                    SecPanic f \<Rightarrow> Stop (KvPanic f)
                  | SecBad s7 \<Rightarrow> Restart (skipToNewline (Uni env) s7)
                  | SecDone m7 s7 \<Rightarrow> Stop (KvMessage m7 s7))))))"

definition readBare :: "'ts kv_env \<Rightarrow> scanner \<Rightarrow> 'ts kv_out" where
  "readBare env s =
     (case read_bare s [] of
        (Some buf, s') \<Rightarrow>
          (case AddString (Log (Now env)) ''message'' (bytes_str buf) of
             Inr m \<Rightarrow> KvMessage m s' | Inl f \<Rightarrow> KvPanic f)
      | (None, s') \<Rightarrow> KvErr EOF s')"

definition parse_start :: "'ts kv_env \<Rightarrow> bool \<Rightarrow> scanner \<Rightarrow> 'ts kv_step" where
  "parse_start env bare s =
     (case sc_Peek s of (tok, s1) \<Rightarrow>
        if tok = TokEOF then Stop (KvErr EOF s1)
        else if tok \<noteq> rune CHR ''>'' then
          (if bare then Stop (readBare env s1)
           else case skipToStart s1 of (tok2, s2) \<Rightarrow>
             if tok2 = TokEOF then Stop (KvErr EOF s2) else parse_body env s2)
        else parse_body env (snd (sc_Next s1)))"

text \<open>No section gives back what it has read.\<close>

definition ends_below :: "nat \<Rightarrow> 'ts section_end \<Rightarrow> bool" where
  "ends_below n e =
     (case e of SecDone _ s \<Rightarrow> left s \<le> n | SecBad s \<Rightarrow> left s \<le> n | SecPanic _ \<Rightarrow> True)"

lemma ends_below_simps [simp]:
  "ends_below n (SecDone m s) = (left s \<le> n)"
  "ends_below n (SecBad s) = (left s \<le> n)"
  "ends_below n (SecPanic f)"
  by (simp_all add: ends_below_def)

lemma ends_below_mono: "ends_below n e \<Longrightarrow> n \<le> k \<Longrightarrow> ends_below k e"
  by (cases e) auto

lemma tags_loop_left: "ends_below (left s) (tags_loop u m s)"
proof (induction u m s rule: tags_loop.induct)
  case (1 u m s)
  obtain tok s1 where a: "sc_Scan u s = (tok, s1)" by (cases "sc_Scan u s")
  obtain tok2 s2 where b: "sc_Scan u s1 = (tok2, s2)" by (cases "sc_Scan u s1")
  obtain r s2' where n: "scan_name u tok s1 = (r, s2')" by (cases "scan_name u tok s1")
  obtain tok3 s3 where c: "sc_Scan u s2' = (tok3, s3)" by (cases "sc_Scan u s2'")
  obtain tok4 s4 where d: "sc_Scan u s3 = (tok4, s4)" by (cases "sc_Scan u s3")
  note le = sc_Scan_left(1) [OF a] sc_Scan_left(1) [OF b] scan_name_left [OF n]
    sc_Scan_left(1) [OF c] sc_Scan_left(1) [OF d]
  note step = tags_loop.simps [of u m s]
  consider "tok = rune CHR '']''" | "tok \<noteq> rune CHR '']''" "tok = rune CHR ''!''"
    | "tok \<noteq> rune CHR '']''" "tok \<noteq> rune CHR ''!''" by blast
  then show ?case
  proof cases
    case 1
    with step a le show ?thesis by simp
  next
    case 2
    with "1.IH"(1) [OF a [symmetric] 2 b [symmetric]] step a b le show ?thesis
      by (auto elim!: ends_below_mono)
  next
    case 3
    show ?thesis
    proof (cases r)
      case (Inl f)
      with 3 step a n show ?thesis by simp
    next
      case (Inr w)
      show ?thesis
      proof (cases w)
        case None
        with Inr 3 step a n le show ?thesis by simp
      next
        case (Some name)
        show ?thesis
        proof (cases "tok3 = rune CHR ''=''")
          case False
          with Some Inr 3 step a n c le show ?thesis by simp
        next
          case True
          show ?thesis
          proof (cases "tag_token_value tok4 s4")
            case (Inl f)
            with True Some \<open>r = Inr w\<close> 3 step a n c d show ?thesis by simp
          next
            case (Inr v)
            show ?thesis
            proof (cases v)
              case None
              with Inr True Some \<open>r = Inr w\<close> 3 step a n c d le show ?thesis by simp
            next
              case (Some val)
              with "1.IH"(2) [OF a [symmetric] 3 n [symmetric] \<open>r = Inr w\<close> \<open>w = Some name\<close> c [symmetric]]
                Inr True d
              have "ends_below (left s4)
                (tags_loop u (append_tag m (zero_tag\<lparr>TName := name, TValue := Some val\<rparr>)) s4)"
                by auto
              then have "ends_below (left s)
                (tags_loop u (append_tag m (zero_tag\<lparr>TName := name, TValue := Some val\<rparr>)) s4)"
                by (rule ends_below_mono) (use le in simp)
              with Some Inr True \<open>w = Some name\<close> \<open>r = Inr w\<close> 3 step a n c d show ?thesis by simp
            qed
          qed
        qed
      qed
    qed
  qed
qed

lemma pairs_loop_left: "ends_below (left s) (pairs_loop env m s)"
proof (induction env m s rule: pairs_loop.induct)
  case (1 env m s)
  obtain ch s0 where p: "sc_Peek s = (ch, s0)" by (cases "sc_Peek s")
  obtain tok s1 where a: "sc_Scan (Uni env) s0 = (tok, s1)" by (cases "sc_Scan (Uni env) s0")
  obtain r s2 where n: "scan_name (Uni env) tok s1 = (r, s2)" by (cases "scan_name (Uni env) tok s1")
  obtain tok3 s3 where c: "sc_Scan (Uni env) s2 = (tok3, s3)" by (cases "sc_Scan (Uni env) s2")
  obtain tok4 s4 where d: "sc_Scan (Uni env) s3 = (tok4, s4)" by (cases "sc_Scan (Uni env) s3")
  have le: "left s0 \<le> left s" "left s1 \<le> left s0" "left s2 \<le> left s1" "left s3 \<le> left s2"
    "left s4 \<le> left s3"
    using sc_Peek_left [OF p] sc_Scan_left(1) [OF a] scan_name_left [OF n]
      sc_Scan_left(1) [OF c] sc_Scan_left(1) [OF d] by auto
  note step = pairs_loop.simps [of env m s]
  show ?case
  proof (cases "ch = rune CHR 0x0A \<or> ch = TokEOF")
    case True
    with step p le show ?thesis by auto
  next
    case ch: False
    show ?thesis
    proof (cases "(\<exists>f. r = Inl f) \<or> r = Inr None \<or> tok3 \<noteq> rune CHR ''=''")
      case True
      with ch step p a n c le show ?thesis by (auto split: sum.split option.split)
    next
      case False
      then obtain key where r: "r = Inr (Some key)" and eq: "tok3 = rune CHR ''=''"
        by (cases r) auto
      obtain q s5 where v: "add_value env m key tok4 s4 = (q, s5)" by (cases "add_value env m key tok4 s4")
      note le5 = add_value_left [OF v]
      show ?thesis
      proof (cases "\<exists>m'. q = Inr (Some m')")
        case True
        then obtain m' where q: "q = Inr (Some m')" by blast
        with "1.IH" [OF p [symmetric] ch a [symmetric] n [symmetric] r refl c [symmetric]] eq d v
        have "ends_below (left s5) (pairs_loop env m' s5)" by auto
        then have "ends_below (left s) (pairs_loop env m' s5)"
          by (rule ends_below_mono) (use le le5 in simp)
        with q r eq ch step p a n c d v show ?thesis by simp
      next
        case False
        then have "(\<exists>f. q = Inl f) \<or> q = Inr None" by (cases q) auto
        with r eq ch step p a n c d v le le5 show ?thesis by auto
      qed
    qed
  qed
qed

lemma until_space_left: "until_space s buf = Some (b, s') \<Longrightarrow> left s' \<le> left s"
proof (induction s buf rule: until_space.induct)
  case (1 s buf)
  obtain tok s1 where n: "sc_Next s = (tok, s1)" by (cases "sc_Next s")
  from sc_Next_left(1) [OF n] 1 n show ?case
    by (auto simp: until_space.simps [of s buf] split: if_splits)
qed

lemma skipToNewline_left: "left (skipToNewline u s) \<le> left s"
proof (induction u s rule: skipToNewline.induct)
  case (1 u s)
  obtain tok s1 where n: "sc_Scan u s = (tok, s1)" by (cases "sc_Scan u s")
  from sc_Scan_left(1) [OF n] "1.IH" [OF n [symmetric]] show ?case
    by (subst skipToNewline.simps) (auto simp: n)
qed

lemma skipToStart_left:
  "skipToStart s = (tok, s') \<Longrightarrow> left s' \<le> left s \<and> (tok \<noteq> - 1 \<longrightarrow> left s' < left s)"
proof (induction s rule: skipToStart.induct)
  case (1 s)
  obtain t s1 where n: "sc_Next s = (t, s1)" by (cases "sc_Next s")
  obtain ch s2 where p: "sc_Peek s1 = (ch, s2)" by (cases "sc_Peek s1")
  obtain t3 s3 where n3: "sc_Next s2 = (t3, s3)" by (cases "sc_Next s2")
  have le: "left s1 \<le> left s" "t \<noteq> - 1 \<Longrightarrow> left s1 < left s" "left s2 \<le> left s1" "left s3 \<le> left s2"
    using sc_Next_left [OF n] sc_Peek_left [OF p] sc_Next_left [OF n3] by auto
  show ?case
    using "1.prems" le "1.IH"(1) [OF n [symmetric] _ _ p [symmetric]] "1.IH"(2) [OF n [symmetric]]
    by (auto simp: skipToStart.simps [of s] n p n3 TokEOF_def rune_def split: if_splits)
qed

lemma snd_sc_Next_left: "left (snd (sc_Next s)) \<le> left s"
  using sc_Next_left(1) [of s "fst (sc_Next s)" "snd (sc_Next s)"] by simp

lemma parse_timestamp_left: "parse_timestamp env m s = Some (m', s') \<Longrightarrow> left s' \<le> left s"
  using snd_sc_Next_left sc_Peek_left
  by (auto simp: parse_timestamp_def split: prod.splits if_splits dest!: until_space_left)
    (metis order_trans)+

lemma parse_session_left: "parse_session m s = Some (m', s') \<Longrightarrow> left s' \<le> left s"
  using snd_sc_Next_left sc_Peek_left
  by (auto simp: parse_session_def split: prod.splits if_splits dest!: until_space_left)
    (metis order_trans)+

lemma parse_tags_left: "ends_below (left s) (parse_tags u m s)"
proof -
  obtain ch s1 where p: "sc_Peek s = (ch, s1)" by (cases "sc_Peek s")
  have "left (snd (sc_Next s1)) \<le> left s"
    using snd_sc_Next_left [of s1] sc_Peek_left [OF p] by simp
  then have "ends_below (left s) (tags_loop u m (snd (sc_Next s1)))"
    by (rule ends_below_mono [OF tags_loop_left])
  with sc_Peek_left [OF p] show ?thesis by (simp add: parse_tags_def p)
qed

lemma parse_body_left: "parse_body env s = Restart s' \<Longrightarrow> left s' \<le> left s"
proof -
  assume r: "parse_body env s = Restart s'"
  obtain ch s1 where p: "sc_Peek s = (ch, s1)" by (cases "sc_Peek s")
  define ms where "ms = (case flag_type ch of
      Some ty \<Rightarrow> ((Log (Now env))\<lparr>MType := Some ty\<rparr>, snd (sc_Next s1)) | None \<Rightarrow> (Log (Now env), s1))"
  obtain m s2 where ms: "ms = (m, s2)" by (cases ms)
  obtain sp s3 where n: "sc_Next s2 = (sp, s3)" by (cases "sc_Next s2")
  have "left s1 \<le> left s" using sc_Peek_left [OF p] by simp
  moreover have "left s2 \<le> left s1"
    using ms snd_sc_Next_left [of s1] by (auto simp: ms_def split: option.splits)
  moreover have "left s3 \<le> left s2" using sc_Next_left(1) [OF n] .
  ultimately have s3: "left s3 \<le> left s" by simp
  have chE: "ch \<noteq> TokEOF" using r p by (auto simp: parse_body_def)
  show ?thesis
  proof (cases "sp = rune CHR '' ''")
    case False
    with r p chE ms n s3 show ?thesis by (simp add: parse_body_def ms_def [symmetric])
  next
    case True
    then obtain m4 s4 where t: "parse_timestamp env m s3 = Some (m4, s4)"
      using r p chE ms n by (cases "parse_timestamp env m s3") (auto simp: parse_body_def ms_def [symmetric])
    then obtain m5 s5 where u: "parse_session m4 s4 = Some (m5, s5)"
      using r p chE ms n True
      by (cases "parse_session m4 s4") (auto simp: parse_body_def ms_def [symmetric])
    have s5: "left s5 \<le> left s"
      using parse_timestamp_left [OF t] parse_session_left [OF u] s3 by simp
    from parse_tags_left [of s5 "Uni env" m5] show ?thesis
    proof (cases "parse_tags (Uni env) m5 s5")
      case (SecBad s6)
      with parse_tags_left [of s5 "Uni env" m5] r p chE ms n True t u s5
        skipToNewline_left [of "Uni env" s6]
      show ?thesis by (simp add: parse_body_def ms_def [symmetric])
    next
      case (SecDone m6 s6)
      with parse_tags_left [of s5 "Uni env" m5] have s6: "left s6 \<le> left s5" by simp
      from SecDone r p chE ms n True t u obtain s7 where "pairs_loop env m6 s6 = SecBad s7"
        "s' = skipToNewline (Uni env) s7"
        by (cases "pairs_loop env m6 s6") (auto simp: parse_body_def ms_def [symmetric])
      with pairs_loop_left [of s6 env m6] s5 s6 skipToNewline_left [of "Uni env" s7]
      show ?thesis by simp
    next
      case (SecPanic f)
      with r p chE ms n True t u show ?thesis by (simp add: parse_body_def ms_def [symmetric])
    qed
  qed
qed

lemma parse_start_left: "parse_start env bare s = Restart s' \<Longrightarrow> left s' < left s"
proof -
  assume r: "parse_start env bare s = Restart s'"
  obtain tok s1 where p: "sc_Peek s = (tok, s1)" by (cases "sc_Peek s")
  from sc_Peek_left [OF p] have le: "left s1 \<le> left s" and ch: "Ch s1 = tok" by auto
  have tok: "tok \<noteq> TokEOF" using r p by (auto simp: parse_start_def)
  obtain tok2 s2 where k: "skipToStart s1 = (tok2, s2)" by (cases "skipToStart s1")
  obtain c s3 where n: "sc_Next s1 = (c, s3)" by (cases "sc_Next s1")
  have "c = (if tok = - 2 then fst (sc_Peek (s1\<lparr>TokPos := None\<rparr>)) else tok)"
    using n ch by (auto simp: sc_Next_def sc_Peek_def split: prod.splits)
  show ?thesis
  proof (cases "tok = rune CHR ''>''")
    case True
    then have "c \<noteq> - 1"
      using n ch by (auto simp: sc_Next_def sc_Peek_def rune_def split: prod.splits)
    with sc_Next_left(2) [OF n] r p tok True n le parse_body_left [of env s3 s']
    show ?thesis by (auto simp: parse_start_def)
  next
    case False
    with r p tok k have "tok2 \<noteq> TokEOF" "parse_body env s2 = Restart s'"
      by (auto simp: parse_start_def split: if_splits)
    with skipToStart_left [OF k] parse_body_left [of env s2 s'] le show ?thesis
      by (simp add: TokEOF_def)
  qed
qed

text \<open>Generate: every jump back to the start has consumed input.\<close>

function generate :: "'ts kv_env \<Rightarrow> bool \<Rightarrow> scanner \<Rightarrow> 'ts kv_out" where
  "generate env bare s =
     (case parse_start env bare s of Restart s' \<Rightarrow> generate env bare s' | Stop out \<Rightarrow> out)"
  by pat_completeness auto
termination generate
  by (relation "measure (\<lambda>(env, bare, s). left s)") (auto intro: parse_start_left)

declare generate.simps [simp del]

definition KV_Generate :: "'ts kv_env \<Rightarrow> kvparser \<Rightarrow> 'ts kv_out" where
  "KV_Generate env kv = generate env (Bare kv) (KScan kv)"

definition ParseKV :: "'ts kv_env \<Rightarrow> string \<Rightarrow> 'ts kv_out" where
  "ParseKV env line = KV_Generate env (NewKVParser (str_bytes line))"

section \<open>Properties\<close>

definition plain_env :: "nat kv_env" where
  "plain_env = \<lparr>Now = 0, ParseLabel = (\<lambda>b. Some (length b)), ParseFloat = (\<lambda>_. None),
     Uni = \<lparr>UniLetter = (\<lambda>_. False), UniDigit = (\<lambda>_. False)\<rparr>\<rparr>"

text \<open>
  lines that break the KV parser. A timestamp or a session id that is not followed by a
  space before the end of the input makes Generate loop forever, and KVString writes such a line
  for every message that has neither session nor tags nor attributes; an unterminated string at
  the end of the input and an interval with nothing behind its point are panics; a negative
  integer, which KVString writes, is bad input that drops the message, and so is a valueless
  tag that KVTags puts in front of one with a value.
\<close>

lemma kv_hostile_lines:
  "ParseKV plain_env ''> @x'' = Hang \<and>
   (\<exists>s. KVString plain_printers (Log 12) = Inr s \<and> ParseKV plain_env s = Hang) \<and>
   ParseKV plain_env (''> a='' @ [dq]) = KvPanic (Panic ''slice bounds out of range'') \<and>
   ParseKV plain_env ''> a=:1. '' = KvPanic (Panic ''index out of range'') \<and>
   (case ParseKV plain_env ''> a=-1 b=2'' of KvErr e _ \<Rightarrow> e = EOF | _ \<Rightarrow> False) \<and>
   (case ParseKV plain_env (''> ['' @ kv_tags [zero_tag\<lparr>TName := ''a''\<rparr>,
        zero_tag\<lparr>TName := ''b'', TValue := Some ''c''\<rparr>] @ ''] d=2'') of
      KvErr e _ \<Rightarrow> e = EOF | _ \<Rightarrow> False)"
proof (intro conjI)
  show "\<exists>s. KVString plain_printers (Log 12) = Inr s \<and> ParseKV plain_env s = Hang"
    by (rule exI [of _ "''> @12''"]) code_simp
qed code_simp+

end
