(* ===== verification/KVRoundtrip.thy ===== *)
theory KVRoundtrip
  imports KVParse
begin

text \<open>
  The KV format read back: the scanner on ASCII input, token by token, and the parser on the
  lines that KVString writes. A scanner is on a string when its current character and what it
  has not read are that string.
\<close>

section \<open>The scanner on ASCII\<close>

definition ascii :: "char \<Rightarrow> bool" where
  "ascii c \<longleftrightarrow> (of_char c :: nat) < 128"

definition upcoming :: "int \<Rightarrow> scanner \<Rightarrow> string \<Rightarrow> bool" where
  "upcoming ch s cs \<longleftrightarrow> list_all ascii cs \<and>
     (case cs of
        [] \<Rightarrow> ch = - 1 \<and> unread s = [] \<and> LastCharLen s = 0
      | c # r \<Rightarrow> ch = rune c \<and> 0 < SrcPos s \<and> LastCharLen s = 1 \<and>
          drop (SrcPos s - 1) (Src s) = str_bytes (c # r))"

definition loaded :: "scanner \<Rightarrow> string \<Rightarrow> bool" where
  "loaded s cs \<longleftrightarrow> upcoming (Ch s) s cs"

text \<open>What reading does not change.\<close>

definition same_setup :: "scanner \<Rightarrow> scanner \<Rightarrow> bool" where
  "same_setup s s' \<longleftrightarrow> Src s' = Src s \<and> TokPos s' = TokPos s \<and> ScMode s' = ScMode s
     \<and> Whitespace s' = Whitespace s"

lemma same_setup_refl [simp]: "same_setup s s"
  by (simp add: same_setup_def)

lemma same_setup_trans: "same_setup s s' \<Longrightarrow> same_setup s' s'' \<Longrightarrow> same_setup s s''"
  by (simp add: same_setup_def)

definition kv_setup :: "scanner \<Rightarrow> bool" where
  "kv_setup s \<longleftrightarrow> ScMode s = kv_tokens \<and> Whitespace s = kv_whitespace"

lemma rune_nat: "rune c = int (of_char c)"
  by (simp only: rune_def of_nat_of_char)

lemma rune_range: "0 \<le> rune c" "rune c < 256"
  using of_char_less [of c] unfolding rune_nat by linarith+

lemma rune_not_negative [simp]:
  "\<not> rune c < 0" "0 \<le> rune c" "rune c \<noteq> - 1" "rune c \<noteq> - numeral k" "- 1 \<noteq> rune c"
  using rune_range [of c] by auto

lemma rune_inject [simp]: "rune c = rune d \<longleftrightarrow> c = d"
  by (simp add: rune_def)

lemma uint_of_char: "uint (of_char c :: byte) = rune c"
proof -
  have "uint (of_char c :: byte) = int (unat (of_char c :: byte))" by (rule uint_nat)
  then show ?thesis by (simp only: unat_of_char rune_nat)
qed

lemma decode_ascii: "ascii c \<Longrightarrow> decode_rune (of_char c # r) = (rune c, 1)"
proof -
  assume "ascii c"
  then have "(of_char c :: byte) < 0x80"
    by (simp add: ascii_def word_less_nat_alt unat_of_char)
  then show ?thesis by (simp add: uint_of_char)
qed

lemma str_bytes_Cons: "str_bytes (c # s) = of_char c # str_bytes s"
  by (simp add: str_bytes_def)

lemma str_bytes_Nil [simp]: "str_bytes [] = []"
  by (simp add: str_bytes_def)

lemma upcoming_unread: "upcoming ch s (c # r) \<Longrightarrow> unread s = str_bytes r"
proof -
  assume "upcoming ch s (c # r)"
  then have pos: "0 < SrcPos s" and d: "drop (SrcPos s - 1) (Src s) = str_bytes (c # r)"
    by (auto simp: upcoming_def)
  obtain n where n: "SrcPos s = Suc n" using pos by (cases "SrcPos s") auto
  then have "unread s = tl (drop (SrcPos s - 1) (Src s))"
    by (simp add: unread_def drop_Suc tl_drop)
  then show ?thesis unfolding d by (simp add: str_bytes_Cons)
qed

lemma next_upcoming:
  assumes "upcoming ch s (c # r)"
  obtains ch' s' where "sc_next s = (ch', s')" "upcoming ch' s' r" "same_setup s s'"
proof -
  have un: "unread s = str_bytes r" using assms by (rule upcoming_unread)
  show ?thesis
  proof (cases r)
    case Nil
    with un that [of "- 1" "s\<lparr>LastCharLen := 0\<rparr>"] show ?thesis
      by (simp add: sc_next_def TokEOF_def upcoming_def same_setup_def)
  next
    case (Cons d r')
    then have asc: "ascii d" "list_all ascii r" using assms by (auto simp: upcoming_def)
    define s1 where "s1 = s\<lparr>SrcPos := SrcPos s + 1, LastCharLen := 1\<rparr>"
    define s' where "s' = (if rune d = RuneError \<and> (1 :: nat) = 1 \<or> rune d = 0 then sc_error s1 else s1)"
    have "sc_next s = (rune d, s')"
      using un Cons decode_ascii [OF asc(1)]
      by (simp add: sc_next_def str_bytes_Cons Let_def s'_def s1_def)
    moreover have "drop (SrcPos s) (Src s) = str_bytes (d # r')" using un Cons by (simp add: unread_def)
    then have "upcoming (rune d) s' r"
      using asc Cons by (auto simp: upcoming_def s'_def s1_def sc_error_def)
    moreover have "same_setup s s'" by (simp add: same_setup_def s'_def s1_def sc_error_def)
    ultimately show ?thesis by (rule that)
  qed
qed

lemma upcoming_Ch [simp]: "upcoming ch (s\<lparr>Ch := c\<rparr>) cs = upcoming ch s cs"
  "upcoming ch (s\<lparr>TokPos := p\<rparr>) cs = upcoming ch s cs"
  "upcoming ch (s\<lparr>TokEnd := e\<rparr>) cs = upcoming ch s cs"
  by (simp_all add: upcoming_def unread_def split: list.split)

lemma upcoming_char: "upcoming ch s (c # r) \<Longrightarrow> ch = rune c"
  by (simp add: upcoming_def)

lemma upcoming_Nil: "upcoming ch s [] \<Longrightarrow> ch = - 1"
  by (simp add: upcoming_def)

lemma Next_on:
  assumes "loaded s (c # r)"
  obtains s' where "sc_Next s = (rune c, s')" "loaded s' r" "Src s' = Src s"
    "ScMode s' = ScMode s" "Whitespace s' = Whitespace s"
proof -
  from assms have up: "upcoming (Ch s) (s\<lparr>TokPos := None\<rparr>) (c # r)" by (simp add: loaded_def)
  then have ch: "Ch s = rune c" by (rule upcoming_char)
  from up obtain ch' s' where n: "sc_next (s\<lparr>TokPos := None\<rparr>) = (ch', s')" "upcoming ch' s' r"
    "same_setup (s\<lparr>TokPos := None\<rparr>) s'" by (rule next_upcoming)
  have "sc_Next s = (rune c, s'\<lparr>Ch := ch'\<rparr>)"
    using ch n(1) rune_range [of c] by (simp add: sc_Next_def sc_Peek_def)
  with n show ?thesis by (intro that [of "s'\<lparr>Ch := ch'\<rparr>"]) (auto simp: loaded_def same_setup_def)
qed

lemma Peek_on: "loaded s cs \<Longrightarrow> sc_Peek s = ((case cs of [] \<Rightarrow> - 1 | c # _ \<Rightarrow> rune c), s)"
  by (auto simp: loaded_def upcoming_def sc_Peek_def split: list.splits)

text \<open>Reading on over the characters with a property.\<close>

definition stops :: "(int \<Rightarrow> bool) \<Rightarrow> string \<Rightarrow> bool" where
  "stops p r \<longleftrightarrow> (case r of [] \<Rightarrow> True | c # _ \<Rightarrow> \<not> p (rune c))"

lemma scan_while_upcoming:
  assumes "upcoming ch s (xs @ r)" and "list_all (\<lambda>c. p (rune c)) xs" and "stops p r"
  obtains f ch' s' where "scan_while p q flag ch s = (f, ch', s')" "upcoming ch' s' r" "same_setup s s'"
  using assms
proof (induction xs arbitrary: ch s flag thesis)
  case Nil
  then have "scan_while p q flag ch s = (flag, ch, s)"
    by (cases r) (auto simp: scan_while.simps stops_def dest: upcoming_Nil upcoming_char)
  with Nil show ?case by auto
next
  case (Cons c xs)
  then have up: "upcoming ch s (c # xs @ r)" by simp
  then obtain ch1 s1 where n: "sc_next s = (ch1, s1)" "upcoming ch1 s1 (xs @ r)" "same_setup s s1"
    by (rule next_upcoming)
  have "ch = rune c" using up by (rule upcoming_char)
  with Cons.prems(3) n(1) rune_range [of c]
  have step: "scan_while p q flag ch s = scan_while p q (flag \<or> q ch) ch1 s1"
    by (subst scan_while.simps) simp
  show ?case
  proof (rule Cons.IH [where ch = ch1 and s = s1 and flag = "flag \<or> q ch"])
    fix f ch' s'
    assume "scan_while p q (flag \<or> q ch) ch1 s1 = (f, ch', s')" "upcoming ch' s' r" "same_setup s1 s'"
    with step n(3) same_setup_trans Cons.prems(1) show thesis by simp
  qed (use n Cons.prems in auto)
qed

section \<open>Tokens\<close>

lemma token_text:
  assumes "drop p (Src s) = str_bytes (tok @ r)" and "upcoming ch s r"
    and "TokPos s = Some p"
  shows "TokenText (s\<lparr>TokEnd := SrcPos s - LastCharLen s, Ch := c\<rparr>) = str_bytes tok"
proof (cases r)
  case Nil
  with assms have "length (Src s) \<le> SrcPos s" "LastCharLen s = 0"
    by (auto simp: upcoming_def unread_def)
  moreover have "length (Src s) - p = length tok"
    using assms(1) Nil by (metis append_Nil2 length_drop length_str_bytes)
  ultimately show ?thesis using assms Nil by (simp add: TokenText_def)
next
  case (Cons d r')
  with assms(2) have "drop (SrcPos s - 1) (Src s) = str_bytes r" "LastCharLen s = 1"
    by (auto simp: upcoming_def)
  moreover from this(1) Cons have "length (Src s) - (SrcPos s - 1) = length r"
    by (metis length_drop length_str_bytes)
  moreover have "length (Src s) - p = length tok + length r"
    using assms(1) by (metis length_append length_drop length_str_bytes)
  ultimately have "SrcPos s - 1 - p = length tok" "LastCharLen s = 1"
    using Cons by auto
  then show ?thesis using assms by (simp add: TokenText_def)
qed

text \<open>One call of Scan, given what its switch does at the first character of the token.\<close>

definition white :: "char \<Rightarrow> bool" where
  "white c \<longleftrightarrow> c = CHR '' '' \<or> c = CHR 0x09"

lemma kv_white: "(rune c < 64 \<and> bit kv_whitespace (nat (rune c))) \<longleftrightarrow> white c"
proof -
  have "nat (rune c) = of_char c" "rune c < 64 \<longleftrightarrow> (of_char c :: nat) < 64"
    unfolding rune_nat by linarith+
  moreover have "bit kv_whitespace n \<longleftrightarrow> n = 9 \<or> n = 32" if "n < 64" for n
    unfolding kv_whitespace_def bit_or_iff bit_push_bit_iff bit_1_iff possible_bit_word
    using that by auto
  moreover have "white c \<longleftrightarrow> (of_char c :: nat) = 9 \<or> (of_char c :: nat) = 32"
    using of_char_eq_iff [of c "CHR 0x09", where ?'a = nat]
      of_char_eq_iff [of c "CHR '' ''", where ?'a = nat]
    by (auto simp: white_def)
  ultimately show ?thesis by auto
qed

text \<open>One call of Scan: white space, then a token that the switch takes from its first character.\<close>

lemma Scan_on:
  assumes ld: "loaded s (ws @ c # tok @ r)" and kvs: "kv_setup s"
    and "list_all white ws" and "\<not> white c"
    and token: "\<And>s1. upcoming (rune c) s1 (c # tok @ r) \<Longrightarrow> kv_setup s1 \<Longrightarrow>
      \<exists>ch' s2. scan_token u (rune c) s1 = Inr (t, ch', s2) \<and> upcoming ch' s2 r \<and> same_setup s1 s2"
  obtains s' where "sc_Scan u s = (t, s')" "loaded s' r" "kv_setup s'" "TokenText s' = str_bytes (c # tok)"
proof -
  define s0 where "s0 = s\<lparr>TokPos := None\<rparr>"
  have up: "upcoming (Ch s) s0 (ws @ c # tok @ r)" using ld by (simp add: loaded_def s0_def)
  have ws: "Whitespace s0 = kv_whitespace" using kvs by (simp add: kv_setup_def s0_def)
  have p: "list_all (\<lambda>c. rune c < 64 \<and> bit (Whitespace s0) (nat (rune c))) ws"
    using assms(3) unfolding ws kv_white .
  have q: "stops (\<lambda>ch. ch < 64 \<and> bit (Whitespace s0) (nat ch)) (c # tok @ r)"
    using assms(4) unfolding ws stops_def list.case kv_white .
  from up p q obtain f ch1 s1 where w:
    "scan_while (\<lambda>ch. ch < 64 \<and> bit (Whitespace s0) (nat ch)) (\<lambda>_. False) False (Ch s) s0 = (f, ch1, s1)"
    "upcoming ch1 s1 (c # tok @ r)" "same_setup s0 s1"
    by (rule scan_while_upcoming)
  have ch1: "ch1 = rune c" using w(2) by (rule upcoming_char)
  define p where "p = SrcPos s1 - LastCharLen s1"
  have d: "drop p (Src s1) = str_bytes (c # tok @ r)" using w(2) by (auto simp: upcoming_def p_def)
  have "upcoming (rune c) (mark_token s1) (c # tok @ r)"
    using w(2) ch1 by (simp add: mark_token_def)
  moreover have "kv_setup (mark_token s1)"
    using kvs w(3) by (simp add: kv_setup_def same_setup_def s0_def mark_token_def)
  ultimately obtain ch' s2 where t: "scan_token u (rune c) (mark_token s1) = Inr (t, ch', s2)"
    "upcoming ch' s2 r" "same_setup (mark_token s1) s2"
    using token by blast
  define s' where "s' = s2\<lparr>TokEnd := SrcPos s2 - LastCharLen s2, Ch := ch'\<rparr>"
  have "sc_Peek s = (Ch s, s)" using Peek_on [OF ld] ld by (cases ws) (auto simp: loaded_def upcoming_def)
  moreover have "skip_white (Ch s) s0 = (rune c, s1)" using w(1) ch1 by (simp add: skip_white_def)
  ultimately have "sc_Scan u s = (t, s')"
    using t(1) by (simp add: sc_Scan_def scan_redo.simps s0_def [symmetric] s'_def)
  moreover have "loaded s' r" using t(2) by (simp add: loaded_def s'_def)
  moreover have "kv_setup s'"
    using kvs w(3) t(3) by (simp add: kv_setup_def same_setup_def s0_def mark_token_def s'_def)
  moreover have "TokenText s' = str_bytes (c # tok)"
  proof -
    have "drop p (Src s2) = str_bytes ((c # tok) @ r)" "TokPos s2 = Some p"
      using d t(3) by (simp_all add: same_setup_def mark_token_def p_def)
    from token_text [OF this(1) t(2) this(2)] show ?thesis by (simp add: s'_def)
  qed
  ultimately show ?thesis by (rule that)
qed

text \<open>The classes of characters, independent of the tables above ASCII.\<close>

definition letter :: "char \<Rightarrow> bool" where
  "letter c \<longleftrightarrow> c = CHR ''_'' \<or> (65 \<le> rune c \<and> rune c \<le> 90) \<or> (97 \<le> rune c \<and> rune c \<le> 122)"

lemma rune_underscore: "rune CHR ''_'' = 95"
  by (simp add: rune_def)

lemma ident_first: "ascii c \<Longrightarrow> isIdentRune u (rune c) 0 \<longleftrightarrow> letter c"
proof -
  assume "ascii c"
  then have "rune c < 128" unfolding rune_nat ascii_def by linarith
  moreover have "c = CHR ''_'' \<longleftrightarrow> rune c = 95" using rune_inject [of c "CHR ''_''"] rune_underscore by simp
  ultimately show ?thesis by (auto simp: isIdentRune_def is_letter_def letter_def)
qed

lemma ident_rest: "ascii c \<Longrightarrow> isIdentRune u (rune c) 1 \<longleftrightarrow> letter c \<or> is_digit c"
proof -
  assume a: "ascii c"
  then have "rune c < 128" unfolding rune_nat ascii_def by linarith
  moreover have "c = CHR ''_'' \<longleftrightarrow> rune c = 95" using rune_inject [of c "CHR ''_''"] rune_underscore by simp
  moreover have "is_digit c \<longleftrightarrow> 48 \<le> rune c \<and> rune c \<le> 57"
    unfolding is_digit_def rune_nat by linarith
  ultimately show ?thesis by (auto simp: isIdentRune_def is_letter_def is_udigit_def letter_def)
qed

definition ident_name :: "string \<Rightarrow> bool" where
  "ident_name s \<longleftrightarrow> (case s of [] \<Rightarrow> False | c # r \<Rightarrow> letter c \<and> list_all (\<lambda>c. letter c \<or> is_digit c) r)
     \<and> list_all ascii s"

definition ident_ends :: "string \<Rightarrow> bool" where
  "ident_ends r \<longleftrightarrow> (case r of [] \<Rightarrow> True | c # _ \<Rightarrow> \<not> letter c \<and> \<not> is_digit c)"

lemma kv_modes:
  "kv_setup s \<Longrightarrow> mode_on s ScanIdents"
  "kv_setup s \<Longrightarrow> mode_on s (ScanInts OR ScanFloats)"
  "kv_setup s \<Longrightarrow> mode_on s ScanStrings"
  "kv_setup s \<Longrightarrow> mode_on s ScanFloats"
  "kv_setup s \<Longrightarrow> \<not> mode_on s ScanChars"
  "kv_setup s \<Longrightarrow> \<not> mode_on s ScanComments"
  by (simp_all add: kv_setup_def mode_on_def kv_tokens_def mode_bits)

lemma letter_not_white: "letter c \<Longrightarrow> \<not> white c"
  by (auto simp: letter_def white_def rune_def)

lemma Scan_ident:
  assumes "loaded s (ws @ name @ r)" "kv_setup s" "list_all white ws" "ident_name name" "ident_ends r"
  obtains s' where "sc_Scan u s = (Ident, s')" "loaded s' r" "kv_setup s'" "TokenText s' = str_bytes name"
proof -
  from assms(4) obtain c tok where name: "name = c # tok" and c: "letter c" "ascii c"
    and tok: "list_all (\<lambda>c. letter c \<or> is_digit c) tok" "list_all ascii tok"
    by (auto simp: ident_name_def split: list.splits)
  have r: "list_all ascii r" using assms(1) by (auto simp: loaded_def upcoming_def)
  have token: "\<exists>ch' s2. scan_token u (rune c) s1 = Inr (Ident, ch', s2) \<and> upcoming ch' s2 r \<and> same_setup s1 s2"
    if up: "upcoming (rune c) s1 (c # tok @ r)" and k: "kv_setup s1" for s1
  proof -
    from up obtain ch1 s2 where n: "sc_next s1 = (ch1, s2)" "upcoming ch1 s2 (tok @ r)" "same_setup s1 s2"
      by (rule next_upcoming)
    have "list_all (\<lambda>c. isIdentRune u (rune c) 1) tok"
      using tok ident_rest by (auto simp: list_all_iff)
    moreover have "stops (\<lambda>ch. isIdentRune u ch 1) r"
      using assms(5) r ident_rest by (auto simp: stops_def ident_ends_def split: list.splits)
    ultimately obtain f ch' s' where
      "scan_while (\<lambda>ch. isIdentRune u ch 1) (\<lambda>_. False) False ch1 s2 = (f, ch', s')"
      "upcoming ch' s' r" "same_setup s2 s'"
      by (rule scan_while_upcoming [OF n(2)])
    with n(1,3) c k show ?thesis
      by (intro exI [of _ ch'] exI [of _ s'])
        (auto simp: scan_token_def ident_first kv_modes scanIdentifier_def Let_def
          intro: same_setup_trans)
  qed
  from assms(1) name have "loaded s (ws @ c # tok @ r)" by simp
  from Scan_on [OF this assms(2,3) letter_not_white [OF c(1)] token] obtain s' where
    "sc_Scan u s = (Ident, s')" "loaded s' r" "kv_setup s'" "TokenText s' = str_bytes (c # tok)" by blast
  with name show ?thesis by (intro that) auto
qed

text \<open>Strings: nothing between the quotes that the scanner looks at.\<close>

definition clean :: "string \<Rightarrow> bool" where
  "clean v \<longleftrightarrow> list_all (\<lambda>c. ascii c \<and> c \<noteq> dq \<and> c \<noteq> backslash \<and> c \<noteq> CHR 0x0A) v"

lemma dq_props [simp]: "\<not> letter dq" "\<not> is_digit dq" "\<not> white dq" "ascii dq"
  by (simp_all add: letter_def is_digit_def white_def ascii_def dq_def rune_def)

lemma scan_string_clean:
  assumes "upcoming ch s (v @ dq # r)" and "clean v"
  obtains k s' where "scan_string (rune dq) n ch s = (k, s')" "upcoming (rune dq) s' (dq # r)"
    "same_setup s s'"
  using assms
proof (induction v arbitrary: ch s n thesis)
  case Nil
  then have "ch = rune dq" by (auto dest: upcoming_char)
  with Nil show ?case by (simp add: scan_string.simps)
next
  case (Cons c v)
  then have up: "upcoming ch s (c # v @ dq # r)" by simp
  then obtain ch1 s1 where nx: "sc_next s = (ch1, s1)" "upcoming ch1 s1 (v @ dq # r)" "same_setup s s1"
    by (rule next_upcoming)
  have "ch = rune c" using up by (rule upcoming_char)
  with Cons.prems(3) nx(1)
  have step: "scan_string (rune dq) n ch s = scan_string (rune dq) (Suc n) ch1 s1"
    by (subst scan_string.simps) (simp add: clean_def)
  show ?case
  proof (rule Cons.IH [where ch = ch1 and s = s1 and n = "Suc n"])
    fix k s'
    assume "scan_string (rune dq) (Suc n) ch1 s1 = (k, s')" "upcoming (rune dq) s' (dq # r)"
      "same_setup s1 s'"
    with step nx(3) same_setup_trans Cons.prems(1) show thesis by simp
  qed (use nx Cons.prems in \<open>auto simp: clean_def\<close>)
qed

lemma ident_first_not: "ascii c \<Longrightarrow> \<not> letter c \<Longrightarrow> \<not> isIdentRune u (rune c) 0"
  by (simp add: ident_first)

lemma decimal_rune: "isDecimal (rune c) \<longleftrightarrow> is_digit c"
  unfolding isDecimal_def is_digit_def rune_nat by linarith

lemma Scan_string:
  assumes "loaded s (ws @ dq # v @ dq # r)" "kv_setup s" "list_all white ws" "clean v"
  obtains s' where "sc_Scan u s = (StringTok, s')" "loaded s' r" "kv_setup s'"
    "TokenText s' = str_bytes (dq # v @ [dq])"
proof -
  have token: "\<exists>ch' s2. scan_token u (rune dq) s1 = Inr (StringTok, ch', s2) \<and> upcoming ch' s2 r \<and> same_setup s1 s2"
    if up: "upcoming (rune dq) s1 (dq # (v @ [dq]) @ r)" and k: "kv_setup s1" for s1
  proof -
    from up have "upcoming (rune dq) s1 (dq # v @ dq # r)" by simp
    then obtain ch1 s2 where n: "sc_next s1 = (ch1, s2)" "upcoming ch1 s2 (v @ dq # r)" "same_setup s1 s2"
      by (rule next_upcoming)
    from n(2) assms(4) obtain m s3 where sc: "scan_string (rune dq) 0 ch1 s2 = (m, s3)"
      "upcoming (rune dq) s3 (dq # r)" "same_setup s2 s3" by (rule scan_string_clean)
    from sc(2) obtain ch' s4 where n4: "sc_next s3 = (ch', s4)" "upcoming ch' s4 r" "same_setup s3 s4"
      by (rule next_upcoming)
    have "same_setup s1 s4" using n(3) sc(3) n4(3) same_setup_trans by blast
    with n(1) sc(1) n4 k show ?thesis
      by (intro exI [of _ ch'] exI [of _ s4])
        (simp add: scan_token_def ident_first decimal_rune kv_modes scanString_def Let_def)
  qed
  have "loaded s (ws @ dq # (v @ [dq]) @ r)" using assms(1) by simp
  from Scan_on [OF this assms(2,3) _ token] obtain s' where
    "sc_Scan u s = (StringTok, s')" "loaded s' r" "kv_setup s'"
    "TokenText s' = str_bytes (dq # v @ [dq])" by (metis dq_props(3))
  then show ?thesis by (rule that)
qed

text \<open>Punctuation is a token of its own.\<close>

definition punct :: "char \<Rightarrow> bool" where
  "punct c \<longleftrightarrow> c \<in> set ''=!]:''"

lemma punct_props: "punct c \<Longrightarrow> ascii c \<and> \<not> letter c \<and> \<not> is_digit c \<and> \<not> white c \<and> c \<noteq> dq
    \<and> c \<noteq> CHR 0x27 \<and> c \<noteq> CHR ''.'' \<and> c \<noteq> CHR ''/'' \<and> c \<noteq> CHR ''`''"
  by (auto simp: punct_def letter_def is_digit_def white_def ascii_def dq_def rune_def)

lemma Scan_punct:
  assumes "loaded s (ws @ c # r)" "kv_setup s" "list_all white ws" "punct c"
  obtains s' where "sc_Scan u s = (rune c, s')" "loaded s' r" "kv_setup s'"
proof -
  note pc = punct_props [OF assms(4)]
  have token: "\<exists>ch' s2. scan_token u (rune c) s1 = Inr (rune c, ch', s2) \<and> upcoming ch' s2 r \<and> same_setup s1 s2"
    if up: "upcoming (rune c) s1 (c # [] @ r)" and k: "kv_setup s1" for s1
  proof -
    from up have "upcoming (rune c) s1 (c # r)" by simp
    then obtain ch1 s2 where n: "sc_next s1 = (ch1, s2)" "upcoming ch1 s2 r" "same_setup s1 s2"
      by (rule next_upcoming)
    with pc show ?thesis
      by (intro exI [of _ ch1] exI [of _ s2])
        (simp add: scan_token_def ident_first decimal_rune Let_def)
  qed
  have "loaded s (ws @ c # [] @ r)" using assms(1) by simp
  from Scan_on [OF this assms(2,3) _ token] pc obtain s' where
    "sc_Scan u s = (rune c, s')" "loaded s' r" "kv_setup s'" by metis
  then show ?thesis by (rule that)
qed

text \<open>Integers without a sign, as FormatInt writes them.\<close>

definition number_ends :: "string \<Rightarrow> bool" where
  "number_ends r \<longleftrightarrow> (case r of [] \<Rightarrow> True | c # _ \<Rightarrow> \<not> is_digit c \<and> c \<notin> set ''.eExX'')"

definition plain_number :: "string \<Rightarrow> bool" where
  "plain_number s \<longleftrightarrow> s \<noteq> [] \<and> list_all is_digit s \<and> (hd s = CHR ''0'' \<longrightarrow> s = ''0'')"

lemma digit_props: "is_digit c \<Longrightarrow> ascii c \<and> \<not> letter c \<and> \<not> white c"
  by (auto simp: is_digit_def ascii_def letter_def white_def rune_nat)

lemma Scan_number:
  assumes "loaded s (ws @ num @ r)" "kv_setup s" "list_all white ws" "plain_number num" "number_ends r"
  obtains s' where "sc_Scan u s = (IntTok, s')" "loaded s' r" "kv_setup s'" "TokenText s' = str_bytes num"
proof -
  from assms(4) obtain c tok where num: "num = c # tok" and c: "is_digit c"
    and tok: "list_all is_digit tok" and zero: "c = CHR ''0'' \<longrightarrow> tok = []"
    by (cases num) (auto simp: plain_number_def)
  note dc = digit_props [OF c]
  have stop: "stops isDecimal r"
    using assms(5) by (auto simp: stops_def number_ends_def decimal_rune split: list.splits)
  have no_float: "\<not> float_start s3 ch" if "upcoming ch s3 r" for ch s3
    using that assms(5)
    by (cases r) (auto simp: float_start_def number_ends_def dest!: upcoming_char upcoming_Nil)
  have token: "\<exists>ch' s2. scan_token u (rune c) s1 = Inr (IntTok, ch', s2) \<and> upcoming ch' s2 r \<and> same_setup s1 s2"
    if up: "upcoming (rune c) s1 (c # tok @ r)" and k: "kv_setup s1" for s1
  proof (cases "c = CHR ''0''")
    case True
    with zero up have "upcoming (rune c) s1 (c # r)" by simp
    then obtain ch1 s2 where n: "sc_next s1 = (ch1, s2)" "upcoming ch1 s2 r" "same_setup s1 s2"
      by (rule next_upcoming)
    have nx: "ch1 \<noteq> rune CHR ''x'' \<and> ch1 \<noteq> rune CHR ''X''"
      using n(2) assms(5)
      by (cases r) (auto simp: number_ends_def dest!: upcoming_char upcoming_Nil)
    have "\<not> (0 \<le> ch1 \<and> isDecimal ch1)"
      using n(2) stop by (cases r) (auto simp: stops_def dest!: upcoming_char upcoming_Nil)
    then have "scan_while isDecimal (\<lambda>c. c > rune CHR ''7'') False ch1 s2 = (False, ch1, s2)"
      by (subst scan_while.simps) (rule if_not_P)
    with n nx no_float [OF n(2)] k c dc True show ?thesis
      by (intro exI [of _ ch1] exI [of _ s2])
        (simp add: scan_token_def ident_first decimal_rune kv_modes scanNumber_def Let_def)
  next
    case False
    have "list_all (\<lambda>c. isDecimal (rune c)) (c # tok)" using c tok by (simp add: decimal_rune)
    with stop up obtain f ch' s2 where w:
      "scan_while isDecimal (\<lambda>_. False) False (rune c) s1 = (f, ch', s2)" "upcoming ch' s2 r" "same_setup s1 s2"
      by (metis append_Cons scan_while_upcoming)
    with no_float [OF w(2)] k c dc False show ?thesis
      by (intro exI [of _ ch'] exI [of _ s2])
        (simp add: scan_token_def ident_first decimal_rune kv_modes scanNumber_def scanMantissa_def Let_def)
  qed
  from assms(1) num have "loaded s (ws @ c # tok @ r)" by simp
  from Scan_on [OF this assms(2,3) _ token] dc obtain s' where
    "sc_Scan u s = (IntTok, s')" "loaded s' r" "kv_setup s'" "TokenText s' = str_bytes (c # tok)" by metis
  with num show ?thesis by (intro that) auto
qed

section \<open>Sections of a line\<close>

lemma rune_bytes_ascii: "ascii c \<Longrightarrow> rune_bytes (rune c) = [of_char c]"
proof -
  assume "ascii c"
  then have lt: "rune c < 128" unfolding rune_nat ascii_def by linarith
  have "word_of_int (rune c) = (of_char c :: byte)"
    unfolding rune_nat of_int_of_nat_eq by (simp only: of_nat_of_char)
  with lt show ?thesis by (simp add: rune_bytes_def Let_def)
qed

lemma until_space_loaded:
  assumes "loaded s (xs @ CHR '' '' # r)" and "CHR '' '' \<notin> set xs" and "kv_setup s"
  obtains s' where "until_space s buf = Some (buf @ str_bytes xs, s')" "loaded s' r" "kv_setup s'"
  using assms
proof (induction xs arbitrary: s buf thesis)
  case Nil
  then have "loaded s (CHR '' '' # r)" by simp
  then obtain s' where "sc_Next s = (rune CHR '' '', s')" "loaded s' r" "Src s' = Src s"
    "ScMode s' = ScMode s" "Whitespace s' = Whitespace s" by (rule Next_on)
  with Nil show ?case by (simp add: until_space.simps [of s] kv_setup_def)
next
  case (Cons x xs)
  then have "loaded s (x # xs @ CHR '' '' # r)" by simp
  then obtain s1 where n: "sc_Next s = (rune x, s1)" "loaded s1 (xs @ CHR '' '' # r)"
    "ScMode s1 = ScMode s" "Whitespace s1 = Whitespace s" by (rule Next_on)
  have "ascii x" using Cons.prems(2) by (simp add: loaded_def upcoming_def)
  with n(1) Cons.prems(3)
  have step: "until_space s buf = until_space s1 (buf @ [of_char x])"
    by (subst until_space.simps) (auto simp: TokEOF_def rune_bytes_ascii)
  show ?case
  proof (rule Cons.IH [where s = s1 and buf = "buf @ [of_char x]"])
    fix s'
    assume "until_space s1 (buf @ [of_char x]) = Some ((buf @ [of_char x]) @ str_bytes xs, s')"
      "loaded s' r" "kv_setup s'"
    with step Cons.prems(1) show thesis by (simp add: str_bytes_Cons)
  qed (use n Cons.prems in \<open>auto simp: kv_setup_def\<close>)
qed

lemma dotted_plain:
  assumes "loaded s r" and "stops (\<lambda>ch. ch = rune CHR ''.'') r"
  shows "dotted u name s = (Some name, s)"
  using assms(2) Peek_on [OF assms(1)]
  by (subst dotted.simps) (auto simp: stops_def split: list.splits)

lemma strip_quotes_clean: "strip_quotes (str_bytes (dq # v @ [dq])) = Inr v"
proof -
  have "str_bytes (dq # v @ [dq]) = of_char dq # str_bytes v @ [of_char dq]"
    by (simp add: str_bytes_Cons)
  then show ?thesis by (simp add: strip_quotes_def go_slice_def)
qed

text \<open>The tags that can be read back: a tag without a value is not followed by one with a value.\<close>

fun tags_readable :: "tag list \<Rightarrow> bool" where
  "tags_readable [] = True"
| "tags_readable (t # ts) =
     (ident_name (TName t) \<and> TUnrecognized t = [] \<and>
      (case TValue t of
         None \<Rightarrow> (case ts of [] \<Rightarrow> True | t' # _ \<Rightarrow> TValue t' = None)
       | Some v \<Rightarrow> clean v) \<and>
      tags_readable ts)"

lemma strquote_clean: "clean v \<Longrightarrow> strquote v = v"
  by (induction v) (auto simp: clean_def)

lemma tag_eq: "TUnrecognized t = [] \<Longrightarrow> zero_tag\<lparr>TName := TName t, TValue := TValue t\<rparr> = t"
  by (cases t) (simp add: zero_tag_def)

lemma ident_ends_punct: "ident_ends (CHR ''='' # r)" "ident_ends (CHR '']'' # r)" "ident_ends (CHR ''!'' # r)"
  by (simp_all add: ident_ends_def letter_def is_digit_def rune_def)

lemma tags_loop_readable:
  assumes "loaded s (ws @ kv_tags ts @ CHR '']'' # r)" "list_all white ws" "kv_setup s" "tags_readable ts"
  obtains s' where "tags_loop u m s = SecDone (m\<lparr>Tags := Tags m @ ts\<rparr>) s'" "loaded s' r" "kv_setup s'"
  using assms
proof (induction ts arbitrary: s m ws thesis)
  case Nil
  then have "loaded s (ws @ CHR '']'' # r)" by simp
  then obtain s' where "sc_Scan u s = (rune CHR '']'', s')" "loaded s' r" "kv_setup s'"
    using Nil.prems(4,3) by (rule Scan_punct) (simp_all add: punct_def)
  with Nil.prems(1) show ?case by (simp add: tags_loop.simps [of u m s])
next
  case (Cons t ts)
  have name: "ident_name (TName t)" and un: "TUnrecognized t = []" and rd: "tags_readable ts"
    using Cons.prems(5) by auto
  show ?case
  proof (cases "TValue t")
    case None
    have tail: "ident_ends (kv_tags ts @ CHR '']'' # r)"
      using Cons.prems(5) None by (cases ts) (auto simp: ident_ends_punct)
    have "loaded s (ws @ CHR ''!'' # [] @ TName t @ kv_tags ts @ CHR '']'' # r)"
      using Cons.prems(2) None by simp
    then obtain s1 where s1: "sc_Scan u s = (rune CHR ''!'', s1)"
      "loaded s1 ([] @ TName t @ kv_tags ts @ CHR '']'' # r)" "kv_setup s1"
      using Cons.prems(4,3) by (rule Scan_punct) (simp_all add: punct_def)
    from s1(2,3) obtain s2 where s2: "sc_Scan u s1 = (Ident, s2)"
      "loaded s2 (kv_tags ts @ CHR '']'' # r)" "kv_setup s2" "TokenText s2 = str_bytes (TName t)"
      by (rule Scan_ident) (use name tail in simp_all)
    have t: "zero_tag\<lparr>TName := TName t\<rparr> = t" using tag_eq [OF un] None by (simp add: zero_tag_def)
    have step: "tags_loop u m s = tags_loop u (append_tag m t) s2"
      by (subst tags_loop.simps) (simp add: s1 s2 t)
    show ?thesis
    proof (rule Cons.IH [where s = s2 and m = "append_tag m t" and ws = "[]"])
      fix s'
      assume "tags_loop u (append_tag m t) s2 = SecDone (append_tag m t\<lparr>Tags := Tags (append_tag m t) @ ts\<rparr>) s'"
        "loaded s' r" "kv_setup s'"
      with step Cons.prems(1) show thesis by (simp add: append_tag_def)
    qed (use s2 rd in simp_all)
  next
    case (Some v)
    have v: "clean v" using Cons.prems(5) Some by simp
    let ?sep = "if ts \<noteq> [] then '' '' else ''''"
    let ?r = "?sep @ kv_tags ts @ CHR '']'' # r"
    have "loaded s (ws @ TName t @ CHR ''='' # dq # v @ dq # ?r)"
      using Cons.prems(2) Some v by (simp add: quoted_def strquote_clean)
    then obtain s1 where s1: "sc_Scan u s = (Ident, s1)" "loaded s1 (CHR ''='' # dq # v @ dq # ?r)"
      "kv_setup s1" "TokenText s1 = str_bytes (TName t)"
      using Cons.prems(4,3) by (rule Scan_ident) (use name ident_ends_punct in simp_all)
    from s1(2) have "loaded s1 ([] @ CHR ''='' # dq # v @ dq # ?r)" by simp
    then obtain s2 where s2: "sc_Scan u s1 = (rune CHR ''='', s2)" "loaded s2 (dq # v @ dq # ?r)" "kv_setup s2"
      using s1(3) by (rule Scan_punct) (simp_all add: punct_def)
    from s2(2) have "loaded s2 ([] @ dq # v @ dq # ?r)" by simp
    then obtain s3 where s3: "sc_Scan u s2 = (StringTok, s3)" "loaded s3 ?r" "kv_setup s3"
      "TokenText s3 = str_bytes (dq # v @ [dq])"
      using s2(3) by (rule Scan_string) (use v in simp_all)
    have dot: "dotted u (TName t) s1 = (Some (TName t), s1)"
      by (rule dotted_plain [OF s1(2)]) (simp add: stops_def)
    have step: "tags_loop u m s = tags_loop u (append_tag m t) s3"
      using tag_eq [OF un] Some
      by (subst tags_loop.simps)
        (simp add: s1 s2 s3 scan_name_def dot tag_token_value_def strip_quotes_clean Ident_def
          StringTok_def RawString_def)
    show ?thesis
    proof (rule Cons.IH [where s = s3 and m = "append_tag m t" and ws = "?sep"])
      fix s'
      assume "tags_loop u (append_tag m t) s3 = SecDone (append_tag m t\<lparr>Tags := Tags (append_tag m t) @ ts\<rparr>) s'"
        "loaded s' r" "kv_setup s'"
      with step Cons.prems(1) show thesis by (simp add: append_tag_def)
    qed (use s3 rd in \<open>auto simp: white_def\<close>)
  qed
qed

section \<open>Attributes\<close>

lemma plain_number_nat_dec: "plain_number (nat_dec n)"
  using nat_dec_hd_zero [of n] by (simp add: plain_number_def)

lemma hex_val_digit: "is_digit c \<Longrightarrow> hex_val c = int (digit_of c) \<and> hex_val c < 10"
  unfolding hex_val_def digitVal_def is_digit_def digit_of_def rune_nat by auto

lemma foldl_hex_digits:
  "list_all is_digit s \<Longrightarrow> foldl (\<lambda>n c. n * 10 + hex_val c) (int k) s =
     int (foldl (\<lambda>n c. n * 10 + digit_of c) k s)"
proof (induction s arbitrary: k)
  case (Cons c s)
  then have "int k * 10 + hex_val c = int (k * 10 + digit_of c)" by (simp add: hex_val_digit)
  with Cons.IH [of "k * 10 + digit_of c"] Cons.prems show ?case by (simp del: of_nat_add of_nat_mult)
qed simp

lemma ParseInt0_FormatInt:
  assumes "0 \<le> sint i"
  shows "ParseInt0 (FormatInt i) = Some i" and "FormatInt i = nat_dec (nat (sint i))"
proof -
  show f: "FormatInt i = nat_dec (nat (sint i))" using assms by (simp add: FormatInt_def int_dec_def)
  let ?s = "nat_dec (nat (sint i))"
  have base: "(case ?s of a # b # r \<Rightarrow> if a = CHR ''0'' \<and> (b = CHR ''x'' \<or> b = CHR ''X'') then (16, r)
      else if a = CHR ''0'' then (8, b # r) else (10, ?s) | _ \<Rightarrow> (10 :: int, ?s)) = (10, ?s)"
    using nat_dec_hd_zero [of "nat (sint i)"] by (auto split: list.split)
  have val: "foldl (\<lambda>n c. n * 10 + hex_val c) 0 ?s = sint i"
    using foldl_hex_digits [OF nat_dec_digits, of 0 "nat (sint i)"] digits_val_nat_dec [of "nat (sint i)"]
      assms by (simp add: digits_val_def)
  have "list_all (\<lambda>c. hex_val c < 10) ?s"
    using nat_dec_digits [of "nat (sint i)"] hex_val_digit [THEN conjunct2] by (auto simp: list_all_iff)
  moreover have "sint i < 2 ^ 63" using sint_less [of i] by simp
  ultimately show "ParseInt0 (FormatInt i) = Some i"
    unfolding f ParseInt0_def base by (simp add: val)
qed

text \<open>
  The attributes that can be read back: made by AddInt of a number that is not negative or by
  AddString of a clean string, under an identifier.
\<close>

definition attr_readable :: "'ts message \<Rightarrow> attribute \<Rightarrow> bool" where
  "attr_readable m a \<longleftrightarrow>
     (\<exists>key a0. ident_name key \<and> SetKey m zero_attribute key = Inr a0 \<and>
       ((\<exists>i. 0 \<le> sint i \<and> a = a0\<lparr>Ival := Some i\<rparr>) \<or> (\<exists>v. clean v \<and> a = a0\<lparr>Sval := Some v\<rparr>)))"

lemma readable_cases:
  assumes "attr_readable (m :: 'ts message) a" and "known_version m"
  obtains key v where "ident_name key" "StringKey m a = Inr key" "render_value p a = Inr v"
    "\<And>m' :: 'ts message. Version m' = Version m \<Longrightarrow>
       (\<exists>i. 0 \<le> sint i \<and> v = FormatInt i \<and> AddInt m' key i = Inr (append_attr m' a)) \<or>
       (\<exists>w. clean w \<and> v = quoted w \<and> AddString m' key w = Inr (append_attr m' a))"
proof -
  from assms(1) obtain key a0 where key: "ident_name key" "SetKey m zero_attribute key = Inr a0"
    and a: "(\<exists>i. 0 \<le> sint i \<and> a = a0\<lparr>Ival := Some i\<rparr>) \<or> (\<exists>v. clean v \<and> a = a0\<lparr>Sval := Some v\<rparr>)"
    by (auto simp: attr_readable_def)
  have "Key zero_attribute = 0" by (simp add: zero_attribute_def)
  from StringKey_SetKey [OF assms(2) this, of key] key(2) obtain k sk where
    a0: "StringKey m a0 = Inr key" "a0 = zero_attribute\<lparr>Key := k, Skey := sk\<rparr>" by auto
  have set: "SetKey m' zero_attribute key = Inr a0" if "Version m' = Version m" for m' :: "'ts message"
    using SetKey_version [OF that] key(2) by simp
  have sk: "StringKey m a = Inr key"
    using a a0(1) StringKey_keys [of a a0 m] by auto
  from a show ?thesis
  proof (elim disjE exE conjE)
    fix i assume i: "0 \<le> sint i" "a = a0\<lparr>Ival := Some i\<rparr>"
    show ?thesis
    proof (rule that [OF key(1) sk, of "FormatInt i"])
      show "render_value p a = Inr (FormatInt i)" by (simp add: i(2) render_value_def)
      show "(\<exists>j. 0 \<le> sint j \<and> FormatInt i = FormatInt j \<and> AddInt m' key j = Inr (append_attr m' a)) \<or>
         (\<exists>w. clean w \<and> FormatInt i = quoted w \<and> AddString m' key w = Inr (append_attr m' a))"
        if "Version m' = Version m" for m' :: "'ts message"
        using set [OF that] i by (intro disjI1 exI [of _ i]) (simp add: AddInt_def)
    qed
  next
    fix v assume v: "clean v" "a = a0\<lparr>Sval := Some v\<rparr>"
    show ?thesis
    proof (rule that [OF key(1) sk, of "quoted v"])
      show "render_value p a = Inr (quoted v)"
        by (simp add: v(2) render_value_def a0(2) zero_attribute_def)
      show "(\<exists>j. 0 \<le> sint j \<and> quoted v = FormatInt j \<and> AddInt m' key j = Inr (append_attr m' a)) \<or>
         (\<exists>w. clean w \<and> quoted v = quoted w \<and> AddString m' key w = Inr (append_attr m' a))"
        if "Version m' = Version m" for m' :: "'ts message"
        using set [OF that] v by (intro disjI2 exI [of _ v]) (simp add: AddString_def)
    qed
  qed
qed

lemma pairs_loop_readable:
  assumes "\<forall>a\<in>set as. attr_readable (m :: 'ts message) a" and "known_version m"
    and "Version (m' :: 'ts message) = Version m"
    and "kv_pairs p m as = Inr line" and "loaded s (ws @ drop 1 line)" and "kv_setup s"
    and "list_all white ws" and "as = [] \<longrightarrow> ws = []"
  obtains s' where "pairs_loop env m' s = SecDone (m'\<lparr>Attributes := Attributes m' @ as\<rparr>) s'"
  using assms
proof (induction as arbitrary: m' s line ws thesis)
  case Nil
  from Peek_on [of s "[]"] Nil.prems(5,6,9) have "sc_Peek s = (- 1, s)" by simp
  with Nil.prems(1) show ?case by (simp add: pairs_loop.simps [of env m' s] TokEOF_def)
next
  case (Cons a as)
  from Cons.prems(2) have "attr_readable m a" by simp
  from readable_cases [OF this Cons.prems(3), of p] obtain key v where kv: "ident_name key"
    "StringKey m a = Inr key" "render_value p a = Inr v"
    and add: "(\<exists>i. 0 \<le> sint i \<and> v = FormatInt i \<and> AddInt m' key i = Inr (append_attr m' a)) \<or>
       (\<exists>w. clean w \<and> v = quoted w \<and> AddString m' key w = Inr (append_attr m' a))"
    using Cons.prems(4) by metis
  from Cons.prems(5) kv obtain r where r: "kv_pairs p m as = Inr r"
    and ln: "line = '' '' @ key @ ''='' @ v @ r"
    by (auto simp: go_simps)
  have r_start: "r = [] \<or> (\<exists>r'. r = CHR '' '' # r')"
    using r by (cases as) (auto simp: go_simps)
  then have ends: "ident_ends r" "number_ends r"
    by (auto simp: ident_ends_def number_ends_def letter_def is_digit_def rune_def)
  have ld: "loaded s (ws @ key @ CHR ''='' # v @ r)" using Cons.prems(6) ln by simp
  obtain c cs where head: "ws @ key @ CHR ''='' # v @ r = c # cs" and c: "white c \<or> letter c"
    using Cons.prems(8) kv(1) by (cases ws; cases key) (auto simp: ident_name_def)
  have pk: "sc_Peek s = (rune c, s)" using Peek_on [OF ld] head by simp
  have no_nl: "c \<noteq> CHR 0x0A" using c by (auto simp: white_def letter_def rune_def)
  from ld obtain s1 where s1: "sc_Scan (Uni env) s = (Ident, s1)" "loaded s1 (CHR ''='' # v @ r)"
    "kv_setup s1" "TokenText s1 = str_bytes key"
    using Cons.prems(7,8) by (elim Scan_ident) (use kv(1) ident_ends_punct in simp_all)
  from s1(2) have "loaded s1 ([] @ CHR ''='' # v @ r)" by simp
  then obtain s2 where s2: "sc_Scan (Uni env) s1 = (rune CHR ''='', s2)" "loaded s2 (v @ r)" "kv_setup s2"
    using s1(3) by (rule Scan_punct) (simp_all add: punct_def)
  have dot: "dotted (Uni env) key s1 = (Some key, s1)"
    by (rule dotted_plain [OF s1(2)]) (simp add: stops_def)
  obtain tok s3 where s3: "sc_Scan (Uni env) s2 = (tok, s3)" "loaded s3 r" "kv_setup s3"
    and val: "add_value env m' key tok s3 = (Inr (Some (append_attr m' a)), s3)"
    using add
  proof (elim disjE exE conjE)
    fix i assume i: "0 \<le> sint i" "v = FormatInt i" "AddInt m' key i = Inr (append_attr m' a)"
    from s2(2) i(2) have "loaded s2 ([] @ FormatInt i @ r)" by simp
    then obtain s3 where "sc_Scan (Uni env) s2 = (IntTok, s3)" "loaded s3 r" "kv_setup s3"
      "TokenText s3 = str_bytes (FormatInt i)"
      using s2(3)
      by (rule Scan_number) (use ends ParseInt0_FormatInt(2) [OF i(1)] plain_number_nat_dec in simp_all)
    with i(3) ParseInt0_FormatInt(1) [OF i(1)] show ?thesis
      by (intro that [of IntTok s3])
        (simp_all add: add_value_def Let_def IntTok_def Float_def StringTok_def RawString_def)
  next
    fix w assume w: "clean w" "v = quoted w" "AddString m' key w = Inr (append_attr m' a)"
    from s2(2) w have "loaded s2 ([] @ dq # w @ dq # r)" by (simp add: quoted_def strquote_clean)
    then obtain s3 where "sc_Scan (Uni env) s2 = (StringTok, s3)" "loaded s3 r" "kv_setup s3"
      "TokenText s3 = str_bytes (dq # w @ [dq])"
      using s2(3) by (rule Scan_string) (use w in simp_all)
    with w(3) show ?thesis
      by (intro that [of StringTok s3])
        (simp_all add: add_value_def Let_def strip_quotes_clean IntTok_def Float_def StringTok_def
          RawString_def)
  qed
  have step: "pairs_loop env m' s = pairs_loop env (append_attr m' a) s3"
    by (subst pairs_loop.simps)
      (simp add: pk no_nl s1 s2 s3 val scan_name_def dot TokEOF_def)
  show ?case
  proof (rule Cons.IH [where m' = "append_attr m' a" and s = s3 and line = r
      and ws = "if as = [] then '''' else '' ''"])
    fix s'
    assume "pairs_loop env (append_attr m' a) s3 =
      SecDone (append_attr m' a\<lparr>Attributes := Attributes (append_attr m' a) @ as\<rparr>) s'"
    with step Cons.prems(1) show thesis by (simp add: append_attr_def)
  next
    show "loaded s3 ((if as = [] then '''' else '' '') @ drop 1 r)"
      using s3(2) r r_start by (cases as) (auto simp: go_simps)
  qed (use Cons.prems r s3 in \<open>auto simp: white_def\<close>)
qed

section \<open>Whole lines\<close>

text \<open>The messages that KVString and ParseKV carry through.\<close>

definition kv_readable :: "'ts printers \<Rightarrow> 'ts kv_env \<Rightarrow> 'ts message \<Rightarrow> bool" where
  "kv_readable p env m \<longleftrightarrow>
     Version m = DEFAULT_VERSION \<and> MUnrecognized m = [] \<and>
     (\<exists>ts label. Timestamp m = Some ts \<and> Label p (Some ts) = CHR ''@'' # label \<and>
        list_all ascii label \<and> CHR '' '' \<notin> set label \<and>
        ParseLabel env (str_bytes (CHR ''@'' # label)) = Some ts) \<and>
     (\<exists>ty\<in>{LOG, METRIC, TRACE, AUDIT, HEARTBEAT}. MType m = Some ty) \<and>
     (\<forall>sid. SessionId m = Some sid \<longrightarrow> sid \<noteq> '''' \<and> list_all ascii sid \<and> CHR '' '' \<notin> set sid) \<and>
     tags_readable (Tags m) \<and> Attributes m \<noteq> [] \<and> (\<forall>a\<in>set (Attributes m). attr_readable m a)"

lemma ascii_concat: "ident_name s \<Longrightarrow> list_all ascii s" "clean v \<Longrightarrow> list_all ascii v"
  by (auto simp: ident_name_def clean_def list_all_iff)

lemma ascii_chars [simp]: "ascii CHR ''>''" "ascii CHR '' ''" "ascii CHR ''!''" "ascii CHR ''$''"
  "ascii CHR ''*''" "ascii CHR ''?''" "ascii CHR ''@''" "ascii CHR ''[''" "ascii CHR '']''"
  "ascii CHR ''=''" "ascii backslash"
  by (simp_all add: ascii_def backslash_def)

lemma kv_tags_ascii: "tags_readable ts \<Longrightarrow> list_all ascii (kv_tags ts)"
  by (induction ts) (auto simp: quoted_def strquote_clean ascii_concat split: option.splits)

lemma kv_pairs_readable:
  assumes "\<forall>a\<in>set as. attr_readable m a" and "known_version m"
  shows "\<exists>line. kv_pairs p m as = Inr line \<and> list_all ascii line \<and> (as \<noteq> [] \<longrightarrow> (\<exists>l. line = CHR '' '' # l \<and> (\<exists>c cs. l = c # cs \<and> letter c)))"
  using assms
proof (induction as)
  case (Cons a as)
  then obtain line where line: "kv_pairs p m as = Inr line" "list_all ascii line" by auto
  from Cons.prems have "attr_readable m a" by simp
  from readable_cases [OF this Cons.prems(2), of p] obtain key v where kv: "ident_name key"
    "StringKey m a = Inr key" "render_value p a = Inr v"
    and add: "(\<exists>i. 0 \<le> sint i \<and> v = FormatInt i) \<or> (\<exists>w. clean w \<and> v = quoted w)"
    by metis
  have "list_all ascii v"
    using add ParseInt0_FormatInt(2) nat_dec_digits digit_props
    by (auto simp: quoted_def strquote_clean clean_def list_all_iff)
  with line kv show ?case by (cases key) (auto simp: ascii_concat ident_name_def)
qed simp

lemma NewKVParser_loaded:
  assumes "list_all ascii line" and "line = c # r"
  obtains s where "sc_Peek (KScan (NewKVParser (str_bytes line))) = (rune c, s)" "loaded s line" "kv_setup s"
proof -
  let ?s0 = "KScan (NewKVParser (str_bytes line))"
  define s1 where "s1 = ?s0\<lparr>SrcPos := 1, LastCharLen := 1\<rparr>"
  define s where "s = (if rune c = RuneError \<or> rune c = 0 then sc_error s1 else s1)\<lparr>Ch := rune c\<rparr>"
  have un: "unread ?s0 = of_char c # str_bytes r"
    by (simp add: unread_def NewKVParser_def sc_Init_def assms(2) str_bytes_Cons)
  have asc: "ascii c" using assms by simp
  have "sc_next ?s0 = (rune c, if rune c = RuneError \<or> rune c = 0 then sc_error s1 else s1)"
    using un decode_ascii [OF asc, of "str_bytes r"]
    by (simp add: sc_next_def Let_def s1_def NewKVParser_def sc_Init_def)
  moreover have "rune c \<noteq> 0xFEFF" using rune_range [of c] by simp
  moreover have "Ch ?s0 = - 2" by (simp add: NewKVParser_def sc_Init_def)
  ultimately have "sc_Peek ?s0 = (rune c, s)" by (simp add: sc_Peek_def s_def)
  moreover have "loaded s line"
    using assms by (auto simp: loaded_def upcoming_def s_def s1_def sc_error_def NewKVParser_def sc_Init_def)
  moreover have "kv_setup s"
    by (simp add: kv_setup_def s_def s1_def sc_error_def NewKVParser_def sc_Init_def)
  ultimately show ?thesis by (rule that)
qed

lemma Next_loaded:
  assumes "loaded s (c # r)" and "kv_setup s"
  obtains s' where "sc_Next s = (rune c, s')" "loaded s' r" "kv_setup s'"
proof -
  from assms(1) obtain s' where "sc_Next s = (rune c, s')" "loaded s' r" "Src s' = Src s"
    "ScMode s' = ScMode s" "Whitespace s' = Whitespace s" by (rule Next_on)
  with assms(2) that show ?thesis by (simp add: kv_setup_def)
qed

lemma parse_timestamp_loaded:
  assumes "loaded s (CHR ''@'' # label @ CHR '' '' # r)" "kv_setup s" "CHR '' '' \<notin> set label"
    and "ParseLabel env (str_bytes (CHR ''@'' # label)) = Some ts"
  obtains s' where "parse_timestamp env m s = Some (m\<lparr>Timestamp := Some ts\<rparr>, s')"
    "loaded s' r" "kv_setup s'"
proof -
  from assms(1,2) obtain s1 where s1: "sc_Next s = (rune CHR ''@'', s1)"
    "loaded s1 (label @ CHR '' '' # r)" "kv_setup s1" by (rule Next_loaded)
  from s1(2) assms(3) s1(3) obtain s2 where s2:
    "until_space s1 (str_bytes ''@'') = Some (str_bytes ''@'' @ str_bytes label, s2)"
    "loaded s2 r" "kv_setup s2" by (rule until_space_loaded)
  have "str_bytes ''@'' @ str_bytes label = str_bytes (CHR ''@'' # label)"
    by (simp add: str_bytes_Cons)
  with s1 s2 assms(4) Peek_on [OF assms(1)] show ?thesis
    by (intro that [of s2]) (simp_all add: parse_timestamp_def)
qed

lemma parse_session_loaded:
  assumes "loaded s (backslash # sid @ CHR '' '' # r)" "kv_setup s" "CHR '' '' \<notin> set sid"
  obtains s' where "parse_session m s = Some (m\<lparr>SessionId := Some sid\<rparr>, s')" "loaded s' r" "kv_setup s'"
proof -
  from assms(1,2) obtain s1 where s1: "sc_Next s = (rune backslash, s1)"
    "loaded s1 (sid @ CHR '' '' # r)" "kv_setup s1" by (rule Next_loaded)
  from s1(2) assms(3) s1(3) obtain s2 where s2:
    "until_space s1 [] = Some ([] @ str_bytes sid, s2)" "loaded s2 r" "kv_setup s2"
    by (rule until_space_loaded)
  with s1 s2 Peek_on [OF assms(1)] show ?thesis
    by (intro that [of s2]) (simp_all add: parse_session_def)
qed

text \<open>Tags and attributes behind the space that ended what came before.\<close>

lemma parse_rest_loaded:
  assumes "loaded s (drop 1 (KVTags m @ line))" and "kv_setup s"
    and "kv_pairs p m (Attributes m) = Inr line" and "Attributes m \<noteq> []"
    and "\<forall>a\<in>set (Attributes m). attr_readable (m :: 'ts message) a" and "known_version m"
    and "tags_readable (Tags m)" and "Version (m0 :: 'ts message) = Version m" and "Tags m0 = []"
    and "Attributes m0 = []"
  obtains s1 s' where "parse_tags (Uni env) m0 s = SecDone (m0\<lparr>Tags := Tags m\<rparr>) s1"
    "pairs_loop env (m0\<lparr>Tags := Tags m\<rparr>) s1 = SecDone (m0\<lparr>Tags := Tags m, Attributes := Attributes m\<rparr>) s'"
proof -
  obtain l c cs where line: "line = CHR '' '' # l" "l = c # cs" "letter c"
    using kv_pairs_readable [OF assms(5,6), of p] assms(3,4) by auto
  have v: "Version (m0\<lparr>Tags := Tags m\<rparr>) = Version m" using assms(8) by simp
  show ?thesis
  proof (cases "Tags m = []")
    case True
    have at: "loaded s l" using assms(1) line(1) True by (simp add: KVTags_def)
    have "c \<noteq> CHR ''[''" using line(3) by (auto simp: letter_def rune_def)
    with Peek_on [OF at] line(2) True assms(9)
    have tg: "parse_tags (Uni env) m0 s = SecDone (m0\<lparr>Tags := Tags m\<rparr>) s"
      by (cases m0) (simp add: parse_tags_def)
    have "loaded s ([] @ drop 1 line)" using at line(1) by simp
    from pairs_loop_readable [OF assms(5,6) v assms(3) this assms(2)] obtain s' where
      "pairs_loop env (m0\<lparr>Tags := Tags m\<rparr>) s =
        SecDone (m0\<lparr>Tags := Tags m, Attributes := Attributes (m0\<lparr>Tags := Tags m\<rparr>) @ Attributes m\<rparr>) s'"
      by auto
    with tg assms(10) show ?thesis by (intro that [of s s']) simp_all
  next
    case False
    have ld: "loaded s (CHR ''['' # kv_tags (Tags m) @ CHR '']'' # line)"
      using assms(1) False by (simp add: KVTags_def)
    from ld assms(2) obtain s1 where s1: "sc_Next s = (rune CHR ''['', s1)"
      "loaded s1 (kv_tags (Tags m) @ CHR '']'' # line)" "kv_setup s1" by (rule Next_loaded)
    from s1(2) have "loaded s1 ([] @ kv_tags (Tags m) @ CHR '']'' # line)" by simp
    from tags_loop_readable [OF this _ s1(3) assms(7), of "Uni env" m0] obtain s2 where
      s2: "tags_loop (Uni env) m0 s1 = SecDone (m0\<lparr>Tags := Tags m0 @ Tags m\<rparr>) s2"
        "loaded s2 line" "kv_setup s2" by auto
    have tg: "parse_tags (Uni env) m0 s = SecDone (m0\<lparr>Tags := Tags m\<rparr>) s2"
      using Peek_on [OF ld] s1(1) s2(1) assms(9) by (simp add: parse_tags_def)
    have "loaded s2 ('' '' @ drop 1 line)" using s2(2) line(1) by simp
    from pairs_loop_readable [OF assms(5,6) v assms(3) this s2(3)] assms(4) obtain s' where
      "pairs_loop env (m0\<lparr>Tags := Tags m\<rparr>) s2 =
        SecDone (m0\<lparr>Tags := Tags m, Attributes := Attributes (m0\<lparr>Tags := Tags m\<rparr>) @ Attributes m\<rparr>) s'"
      by (auto simp: white_def)
    with tg assms(10) show ?thesis by (intro that [of s2 s']) simp_all
  qed
qed

lemma flag_types: "flag_type (rune CHR '' '') = None" "flag_type (rune CHR ''!'') = Some METRIC"
  "flag_type (rune CHR ''$'') = Some TRACE" "flag_type (rune CHR ''*'') = Some AUDIT"
  "flag_type (rune CHR ''?'') = Some HEARTBEAT"
  by (simp_all add: flag_type_def)

lemma type_prefix_cases:
  assumes "MType m = Some ty" "ty \<in> {LOG, METRIC, TRACE, AUDIT, HEARTBEAT}"
  shows "type_prefix m = '' '' \<and> ty = LOG \<or>
     (\<exists>f. type_prefix m = [f, CHR '' ''] \<and> flag_type (rune f) = Some ty)"
  using assms flag_types by (auto simp: type_prefix_def GetType_def type_codes)

lemma parse_flag_loaded:
  assumes "loaded s (type_prefix m @ r)" and "kv_setup s"
    and "MType m = Some ty" "ty \<in> {LOG, METRIC, TRACE, AUDIT, HEARTBEAT}"
  obtains c s1 s2 where "sc_Peek s = (rune c, s)"
    "(case flag_type (rune c) of Some ty \<Rightarrow> ((Log now)\<lparr>MType := Some ty\<rparr>, snd (sc_Next s))
       | None \<Rightarrow> (Log now, s)) = ((Log now)\<lparr>MType := Some ty\<rparr>, s1)"
    "sc_Next s1 = (rune CHR '' '', s2)" "loaded s2 r" "kv_setup s2"
  using type_prefix_cases [OF assms(3,4)]
proof (elim disjE exE conjE)
  assume "type_prefix m = '' ''" "ty = LOG"
  then have ld: "loaded s (CHR '' '' # r)" using assms(1) by simp
  then obtain s2 where "sc_Next s = (rune CHR '' '', s2)" "loaded s2 r" "kv_setup s2"
    using assms(2) by (rule Next_loaded)
  moreover have "(Log now)\<lparr>MType := Some ty\<rparr> = Log now" using \<open>ty = LOG\<close> by (simp add: Log_def zero_message_def)
  ultimately show ?thesis using Peek_on [OF ld] flag_types
    by (intro that [of "CHR '' ''" s s2]) simp_all
next
  fix f assume f: "type_prefix m = [f, CHR '' '']" "flag_type (rune f) = Some ty"
  then have ld: "loaded s (f # CHR '' '' # r)" using assms(1) by simp
  then obtain s1 where s1: "sc_Next s = (rune f, s1)" "loaded s1 (CHR '' '' # r)" "kv_setup s1"
    using assms(2) by (rule Next_loaded)
  from s1(2,3) obtain s2 where "sc_Next s1 = (rune CHR '' '', s2)" "loaded s2 r" "kv_setup s2"
    by (rule Next_loaded)
  with s1 Peek_on [OF ld] f(2) show ?thesis by (intro that [of f s1 s2]) simp_all
qed

lemma letter_not_backslash: "letter c \<Longrightarrow> c \<noteq> backslash"
  by (auto simp: letter_def backslash_def rune_def)

lemma bracket_not_backslash: "CHR ''['' \<noteq> backslash"
  by (simp add: backslash_def)

lemma KVString_line:
  assumes "kv_readable p env m" and "Timestamp m = Some ts" and "Label p (Some ts) = CHR ''@'' # label"
    and "kv_pairs p m (Attributes m) = Inr line"
  shows "KVString p m = Inr (CHR ''>'' # type_prefix m @ CHR ''@'' # label @
     (case SessionId m of None \<Rightarrow> '''' | Some sid \<Rightarrow> CHR '' '' # backslash # sid) @ KVTags m @ line)"
  using assms by (auto simp: KVString_def KVPairs_def GetSessionId_def kv_readable_def split: option.split)

lemma parse_body_loaded:
  assumes kr: "kv_readable p env m" and ts: "Timestamp m = Some ts" "Label p (Some ts) = CHR ''@'' # label"
    and line: "kv_pairs p m (Attributes m) = Inr line"
    and ld: "loaded s (type_prefix m @ CHR ''@'' # label @
     (case SessionId m of None \<Rightarrow> '''' | Some sid \<Rightarrow> CHR '' '' # backslash # sid) @ KVTags m @ line)"
    and kvs: "kv_setup s"
  obtains s' where "parse_body env s = Stop (KvMessage m s')"
proof -
  from kr obtain ty where ty: "MType m = Some ty" "ty \<in> {LOG, METRIC, TRACE, AUDIT, HEARTBEAT}"
    by (auto simp: kv_readable_def)
  from kr ts have lab: "CHR '' '' \<notin> set label" "ParseLabel env (str_bytes (CHR ''@'' # label)) = Some ts"
    by (auto simp: kv_readable_def)
  from kr have ok: "Version m = DEFAULT_VERSION" "MUnrecognized m = []" "tags_readable (Tags m)"
    "Attributes m \<noteq> []" "\<forall>a\<in>set (Attributes m). attr_readable m a" "known_version m"
    by (auto simp: kv_readable_def known_version_def DEFAULT_VERSION_def)
  from kv_pairs_readable [OF ok(5,6), of p] line ok(4) obtain l where l: "line = CHR '' '' # l" by auto
  let ?m0 = "(Log (Now env))\<lparr>MType := Some ty\<rparr>"
  from parse_flag_loaded [OF ld kvs ty, of "Now env"] obtain c s1 s2 where
    f: "sc_Peek s = (rune c, s)"
      "(case flag_type (rune c) of Some ty \<Rightarrow> ((Log (Now env))\<lparr>MType := Some ty\<rparr>, snd (sc_Next s))
        | None \<Rightarrow> (Log (Now env), s)) = (?m0, s1)" "sc_Next s1 = (rune CHR '' '', s2)"
    and s2: "loaded s2 (CHR ''@'' # label @
      (case SessionId m of None \<Rightarrow> '''' | Some sid \<Rightarrow> CHR '' '' # backslash # sid) @ KVTags m @ line)"
      "kv_setup s2" by blast
  let ?m1 = "?m0\<lparr>Timestamp := Some ts\<rparr>" and ?m2 = "?m0\<lparr>Timestamp := Some ts, SessionId := SessionId m\<rparr>"
  have tl: "KVTags m @ line = CHR '' '' # drop 1 (KVTags m @ line)"
    using l by (simp add: KVTags_def)
  obtain s3 s4 where s3: "parse_timestamp env ?m0 s2 = Some (?m1, s3)"
    and s4: "parse_session ?m1 s3 = Some (?m2, s4)" "loaded s4 (drop 1 (KVTags m @ line))" "kv_setup s4"
  proof (cases "SessionId m")
    case None
    have "loaded s2 (CHR ''@'' # label @ CHR '' '' # drop 1 (KVTags m @ line))"
      using s2(1) None tl by simp
    from parse_timestamp_loaded [OF this s2(2) lab] obtain s3 where s3:
      "parse_timestamp env ?m0 s2 = Some (?m1, s3)" "loaded s3 (drop 1 (KVTags m @ line))" "kv_setup s3"
      by blast
    moreover have "?m2 = ?m1" using None by (simp add: Log_def zero_message_def)
    moreover obtain d ds where "drop 1 (KVTags m @ line) = d # ds" "d \<noteq> backslash"
      using kv_pairs_readable [OF ok(5,6), of p] line ok(4) letter_not_backslash
      by (cases "Tags m = []") (auto simp: KVTags_def backslash_def [symmetric] bracket_not_backslash)
    ultimately have ps: "parse_session ?m1 s3 = Some (?m2, s3)"
      using Peek_on [OF s3(2)] by (simp add: parse_session_def)
    show ?thesis by (rule that [OF s3(1) ps s3(2,3)])
  next
    case (Some sid)
    then have sid: "CHR '' '' \<notin> set sid" using kr by (auto simp: kv_readable_def)
    have "loaded s2 (CHR ''@'' # label @ CHR '' '' # backslash # sid @ CHR '' '' # drop 1 (KVTags m @ line))"
      using s2(1) Some tl by simp
    from parse_timestamp_loaded [OF this s2(2) lab] obtain s3 where s3:
      "parse_timestamp env ?m0 s2 = Some (?m1, s3)"
      "loaded s3 (backslash # sid @ CHR '' '' # drop 1 (KVTags m @ line))" "kv_setup s3"
      by blast
    from parse_session_loaded [OF s3(2,3) sid] obtain s4 where
      s4: "parse_session ?m1 s3 = Some (?m1\<lparr>SessionId := Some sid\<rparr>, s4)"
      "loaded s4 (drop 1 (KVTags m @ line))" "kv_setup s4" by blast
    have "parse_session ?m1 s3 = Some (?m2, s4)" using s4(1) Some by simp
    from that [OF s3(1) this s4(2,3)] show ?thesis .
  qed
  have m2: "Version ?m2 = Version m" "Tags ?m2 = []" "Attributes ?m2 = []"
    using ok(1) by (simp_all add: Log_def zero_message_def)
  from parse_rest_loaded [OF s4(2,3) line ok(4,5,6,3) m2] obtain s5 s' where
    s5: "parse_tags (Uni env) ?m2 s4 = SecDone (?m2\<lparr>Tags := Tags m\<rparr>) s5"
    and s6: "pairs_loop env (?m2\<lparr>Tags := Tags m\<rparr>) s5 = SecDone (?m2\<lparr>Tags := Tags m, Attributes := Attributes m\<rparr>) s'"
    by blast
  have "?m2\<lparr>Tags := Tags m, Attributes := Attributes m\<rparr> = m"
    using ty(1) ts(1) ok(1,2) by (cases m) (simp add: Log_def zero_message_def)
  with f s3 s4(1) s5 s6 show ?thesis
    by (intro that [of s']) (simp add: parse_body_def TokEOF_def)
qed

section \<open>Properties\<close>

text \<open>
  C6: the KV format round trip. A message of the current version with a timestamp whose label
  tai64n reads back, any of the five types, an optional session id, tags and at least one
  attribute (numbers that are not negative and strings without quotes, backslashes or newlines,
  under identifiers; no valueless tag in front of one with a value) is written by KVString
  as a line that ParseKV turns into the same message.
\<close>

theorem kv_roundtrip:
  assumes "kv_readable p env m"
  shows "\<exists>line s. KVString p m = Inr line \<and> ParseKV env line = KvMessage m s"
proof -
  from assms obtain ts label where ts: "Timestamp m = Some ts" "Label p (Some ts) = CHR ''@'' # label"
    and lab: "list_all ascii label" by (auto simp: kv_readable_def)
  from assms have kn: "known_version m" "\<forall>a\<in>set (Attributes m). attr_readable m a"
    by (auto simp: kv_readable_def known_version_def DEFAULT_VERSION_def)
  from kv_pairs_readable [OF kn(2,1), of p] obtain line where
    line: "kv_pairs p m (Attributes m) = Inr line" "list_all ascii line" by blast
  let ?body = "type_prefix m @ CHR ''@'' # label @
     (case SessionId m of None \<Rightarrow> '''' | Some sid \<Rightarrow> CHR '' '' # backslash # sid) @ KVTags m @ line"
  have kv: "KVString p m = Inr (CHR ''>'' # ?body)"
    by (rule KVString_line [OF assms ts line(1)])
  have "list_all ascii (KVTags m)"
    using assms kv_tags_ascii [of "Tags m"] by (auto simp: KVTags_def kv_readable_def)
  moreover have "list_all ascii (type_prefix m)" by (simp add: type_prefix_def)
  moreover have "list_all ascii (case SessionId m of None \<Rightarrow> '''' | Some sid \<Rightarrow> CHR '' '' # backslash # sid)"
    using assms by (auto simp: kv_readable_def split: option.split)
  ultimately have asc: "list_all ascii (CHR ''>'' # ?body)" using lab line(2) by simp
  obtain s where s: "sc_Peek (KScan (NewKVParser (str_bytes (CHR ''>'' # ?body)))) = (rune CHR ''>'', s)"
    "loaded s (CHR ''>'' # ?body)" "kv_setup s"
    by (rule NewKVParser_loaded [OF asc refl])
  from s(2,3) obtain s1 where s1: "sc_Next s = (rune CHR ''>'', s1)" "loaded s1 ?body" "kv_setup s1"
    by (rule Next_loaded)
  from parse_body_loaded [OF assms ts line(1) s1(2,3)] obtain s' where
    "parse_body env s1 = Stop (KvMessage m s')" .
  then have "ParseKV env (CHR ''>'' # ?body) = KvMessage m s'"
    using s(1) s1(1)
    by (simp add: ParseKV_def KV_Generate_def generate.simps [of env] parse_start_def TokEOF_def)
  with kv show ?thesis by blast
qed

theorem kv_roundtrip_witness:
  "\<exists>line s. KVString plain_printers ((Log 4)\<lparr>Attributes := [zero_attribute\<lparr>Key := 8, Ival := Some 7\<rparr>],
       Tags := [zero_tag\<lparr>TName := ''b'', TValue := Some ''x''\<rparr>]\<rparr>) = Inr line \<and>
     ParseKV (plain_env\<lparr>ParseLabel := (\<lambda>b. Some 4)\<rparr>) line =
       KvMessage ((Log 4)\<lparr>Attributes := [zero_attribute\<lparr>Key := 8, Ival := Some 7\<rparr>],
         Tags := [zero_tag\<lparr>TName := ''b'', TValue := Some ''x''\<rparr>]\<rparr>) s"
proof -
  let ?m = "(Log 4 :: nat message)\<lparr>Attributes := [zero_attribute\<lparr>Key := 8, Ival := Some 7\<rparr>],
       Tags := [zero_tag\<lparr>TName := ''b'', TValue := Some ''x''\<rparr>]\<rparr>"
  have "SetKey ?m zero_attribute ''pid'' = Inr (zero_attribute\<lparr>Key := 8\<rparr>)" by code_simp
  then have "attr_readable ?m (zero_attribute\<lparr>Key := 8, Ival := Some 7\<rparr>)"
    unfolding attr_readable_def
    by (intro exI [of _ "''pid''"] exI [of _ "zero_attribute\<lparr>Key := 8\<rparr>"] conjI disjI1 exI [of _ 7])
      (simp_all add: ident_name_def letter_def ascii_def rune_def)
  then have "kv_readable plain_printers (plain_env\<lparr>ParseLabel := (\<lambda>b. Some 4)\<rparr>) ?m"
    by (simp add: kv_readable_def Log_def zero_message_def plain_printers_def nat_dec.simps
        digit_char_def ascii_def char_of_def bit_simps zero_tag_def ident_name_def letter_def rune_def clean_def
        dq_def backslash_def)
  then show ?thesis by (rule kv_roundtrip)
qed

end
