(* ===== verification/Base64.thy ===== *)
theory Base64
  imports Decimal
begin

text \<open>
  The standard base64 encoding that json.go uses for byte attributes (encoding/base64,
  StdEncoding): three bytes are four letters, a last group of one or two bytes is padded with
  equals signs, and carriage returns and newlines are ignored on reading.
\<close>

definition b64_char :: "nat \<Rightarrow> char" where
  "b64_char n =
     (if n < 26 then char_of (n + 65) else if n < 52 then char_of (n + 71)
      else if n < 62 then char_of (n - 4) else if n = 62 then CHR ''+'' else CHR ''/'')"

definition b64_val :: "char \<Rightarrow> nat option" where
  "b64_val c =
     (let n = of_char c :: nat in
      if 65 \<le> n \<and> n \<le> 90 then Some (n - 65)
      else if 97 \<le> n \<and> n \<le> 122 then Some (n - 71)
      else if 48 \<le> n \<and> n \<le> 57 then Some (n + 4)
      else if n = 43 then Some 62 else if n = 47 then Some 63 else None)"

fun b64_encode :: "bytes \<Rightarrow> string" where
  "b64_encode [] = ''''"
| "b64_encode [a] =
     [b64_char (unat a div 4), b64_char (unat a mod 4 * 16), CHR ''='', CHR ''='']"
| "b64_encode [a, b] =
     [b64_char (unat a div 4), b64_char (unat a mod 4 * 16 + unat b div 16),
      b64_char (unat b mod 16 * 4), CHR ''='']"
| "b64_encode (a # b # c # bs) =
     b64_char (unat a div 4) # b64_char (unat a mod 4 * 16 + unat b div 16) #
     b64_char (unat b mod 16 * 4 + unat c div 64) # b64_char (unat c mod 64) # b64_encode bs"

text \<open>A group of four letters, with the bits that a padded group drops.\<close>

fun b64_groups :: "string \<Rightarrow> bytes option" where
  "b64_groups [] = Some []"
| "b64_groups (a # b # c # d # s) =
     (case (b64_val a, b64_val b) of
        (Some x, Some y) \<Rightarrow>
          let first = word_of_nat (x * 4 + y div 16) in
          if c = CHR ''='' then (if d = CHR ''='' \<and> s = [] then Some [first] else None)
          else (case b64_val c of
              None \<Rightarrow> None
            | Some z \<Rightarrow>
                let second = word_of_nat (y mod 16 * 16 + z div 4) in
                if d = CHR ''='' then (if s = [] then Some [first, second] else None)
                else (case (b64_val d, b64_groups s) of
                    (Some w, Some bs) \<Rightarrow> Some (first # second # word_of_nat (z mod 4 * 64 + w) # bs)
                  | _ \<Rightarrow> None))
      | _ \<Rightarrow> None)"
| "b64_groups _ = None"

definition b64_decode :: "string \<Rightarrow> bytes option" where
  "b64_decode s = b64_groups (filter (\<lambda>c. c \<noteq> CHR 0x0A \<and> c \<noteq> CHR 0x0D) s)"

lemma of_char_char_of_small: "n < 256 \<Longrightarrow> (of_char (char_of n :: char) :: nat) = n"
  by simp

lemma b64_val_char [simp]: "n < 64 \<Longrightarrow> b64_val (b64_char n) = Some n"
proof -
  assume n: "n < 64"
  consider "n < 26" | "26 \<le> n" "n < 52" | k where "n = k + 52" "k < 10" | "n = 62" | "n = 63"
  proof (cases "52 \<le> n \<and> n < 62")
    case True
    then have "n = (n - 52) + 52" "n - 52 < 10" by auto
    then show ?thesis using that(3) by blast
  qed (use n that in linarith)
  then show ?thesis
    by cases (simp_all add: b64_char_def b64_val_def Let_def)
qed

lemma b64_char_letter: "n < 64 \<Longrightarrow> b64_char n \<notin> {CHR ''='', CHR 0x0A, CHR 0x0D}"
proof -
  assume "n < 64"
  then have "b64_val (b64_char n) = Some n" by simp
  moreover have "b64_val CHR ''='' = None" "b64_val CHR 0x0A = None" "b64_val CHR 0x0D = None"
    by code_simp+
  ultimately show ?thesis by fastforce
qed

lemma byte_parts:
  fixes a :: byte
  shows "unat a div 4 < 64" "unat a mod 4 * 16 < 64" "unat a mod 16 * 4 < 64" "unat a mod 64 < 64"
    "unat a div 16 < 16" "unat a div 64 < 4"
  using unsigned_less [of a, where 'a = nat] by auto

lemma byte_pair:
  fixes a b :: byte
  shows "unat a mod 4 * 16 + unat b div 16 < 64" "unat a mod 16 * 4 + unat b div 64 < 64"
  using byte_parts(5,6) [of b] pos_mod_bound [of 4 "int (unat a)"] 
    mod_less_divisor [of 4 "unat a"] mod_less_divisor [of 16 "unat a"] by linarith+

lemma b64_groups_encode: "b64_groups (b64_encode bs) = Some bs"
proof (induction bs rule: b64_encode.induct)
  case (4 a b c bs)
  have "b64_char (unat c mod 64) \<noteq> CHR ''=''" "b64_char (unat b mod 16 * 4 + unat c div 64) \<noteq> CHR ''=''"
    using b64_char_letter [of "unat c mod 64"] b64_char_letter [OF byte_pair(2)] by auto
  moreover have "(unat a mod 4 * 16 + unat b div 16) div 16 = unat a mod 4"
    "(unat a mod 4 * 16 + unat b div 16) mod 16 = unat b div 16"
    "(unat b mod 16 * 4 + unat c div 64) div 4 = unat b mod 16"
    "(unat b mod 16 * 4 + unat c div 64) mod 4 = unat c div 64"
    using byte_parts [of b] byte_parts [of c] by auto
  ultimately show ?case
    using 4 byte_pair [of a b] byte_pair [of b c] by (simp add: byte_parts Let_def)
next
  case (2 a)
  have "unat a mod 4 * 16 div 16 = unat a mod 4" by simp
  then show ?case using byte_parts [of a] by (simp add: Let_def)
next
  case (3 a b)
  have "b64_char (unat b mod 16 * 4) \<noteq> CHR ''=''"
    using b64_char_letter [OF byte_parts(3)] by auto
  moreover have "(unat a mod 4 * 16 + unat b div 16) div 16 = unat a mod 4"
    "(unat a mod 4 * 16 + unat b div 16) mod 16 = unat b div 16"
    using byte_parts [of b] by auto
  ultimately show ?case
    using byte_pair [of a b] by (simp add: byte_parts Let_def)
qed simp

lemma b64_letters: "list_all (\<lambda>c. c \<noteq> CHR 0x0A \<and> c \<noteq> CHR 0x0D) (b64_encode bs)"
  by (induction bs rule: b64_encode.induct)
    (use b64_char_letter byte_parts byte_pair in \<open>fastforce simp: insert_iff\<close>)+

lemma b64_decode_encode [simp]: "b64_decode (b64_encode bs) = Some bs"
  using b64_letters [of bs] by (simp add: b64_decode_def filter_id_conv list_all_iff b64_groups_encode)

lemma b64_ascii: "list_all (\<lambda>c. (of_char c :: nat) < 128) (b64_encode bs)"
proof -
  have char: "(of_char (b64_char n) :: nat) < 128" for n
    by (auto simp: b64_char_def)
  show ?thesis
    by (induction bs rule: b64_encode.induct) (simp_all add: char)
qed

end
