(* ===== verification/JsonText.thy ===== *)
theory JsonText
  imports Scanner Base64 "HOL-Library.AList" "HOL-Library.Multiset" "HOL-Library.List_Lexorder" "HOL-Library.Char_ord"
begin

text \<open>
  The JSON text that json.go reads and writes with encoding/json: the values a decoder with
  UseNumber builds (a number is its literal), the reader of one value of a stream, and the
  writer, which sorts the keys of objects and escapes strings for HTML. The depth of the reader
  is bounded by fuel; twice the length of the text is always enough (parse_enough). The end of this
  theory shows that the reader undoes the writer.
\<close>

datatype json =
    JNull
  | JBool bool
  | JNum string
  | JStr string
  | JArr "json list"
  | JObj "(string \<times> json) list"

section \<open>Writing\<close>

definition hex_digit :: "nat \<Rightarrow> char" where
  "hex_digit n = char_of (if n < 10 then n + 48 else n + 87)"

definition json_escape :: "char \<Rightarrow> string" where
  "json_escape c =
     (let n = of_char c :: nat in
      if n = 34 \<or> n = 92 then [CHR 0x5C, c]
      else if n = 10 then CHR 0x5C # ''n''
      else if n = 13 then CHR 0x5C # ''r''
      else if n = 9 then CHR 0x5C # ''t''
      else if n < 32 \<or> n = 60 \<or> n = 62 \<or> n = 38
        then CHR 0x5C # ''u00'' @ [hex_digit (n div 16), hex_digit (n mod 16)]
      else [c])"

text \<open>
  A byte that is no ASCII is part of a UTF-8 sequence, which is copied; the replacement
  character stands for what is no UTF-8, and the two line separators are escaped.
\<close>

function json_chars :: "string \<Rightarrow> string" where
  "json_chars [] = []"
| "json_chars (c # cs) =
     (if (of_char c :: nat) < 128 then json_escape c @ json_chars cs
      else case decode_rune (str_bytes (c # cs)) of (r, w) \<Rightarrow>
        (if r = RuneError \<and> w = 1 then CHR 0x5C # ''ufffd''
         else if r = 0x2028 then CHR 0x5C # ''u2028''
         else if r = 0x2029 then CHR 0x5C # ''u2029''
         else take w (c # cs)) @ json_chars (drop (w - 1) cs))"
  by pat_completeness auto
termination json_chars by (relation "measure length") auto

definition json_string :: "string \<Rightarrow> string" where
  "json_string s = CHR 0x22 # json_chars s @ [CHR 0x22]"

fun join_comma :: "string list \<Rightarrow> string" where
  "join_comma [] = ''''"
| "join_comma [x] = x"
| "join_comma (x # xs) = x @ CHR '','' # join_comma xs"

fun json_text :: "json \<Rightarrow> string" where
  "json_text JNull = ''null''"
| "json_text (JBool b) = (if b then ''true'' else ''false'')"
| "json_text (JNum s) = s"
| "json_text (JStr s) = json_string s"
| "json_text (JArr xs) = CHR ''['' # join_comma (map json_text xs) @ '']''"
| "json_text (JObj ps) =
     CHR ''{'' # join_comma (map (\<lambda>(k, v). json_string k @ CHR '':'' # json_text v) ps) @ ''}''"

text \<open>Marshal ranges over the keys of a map in ascending order.\<close>

fun sort_objects :: "json \<Rightarrow> json" where
  "sort_objects (JArr xs) = JArr (map sort_objects xs)"
| "sort_objects (JObj ps) = JObj (sort_key fst (map (\<lambda>(k, v). (k, sort_objects v)) ps))"
| "sort_objects j = j"

definition json_marshal :: "json \<Rightarrow> string" where
  "json_marshal j = json_text (sort_objects j)"

section \<open>Reading\<close>

definition json_space :: "char \<Rightarrow> bool" where
  "json_space c \<longleftrightarrow> (of_char c :: nat) \<in> {9, 10, 13, 32}"

definition skip_ws :: "string \<Rightarrow> string" where
  "skip_ws s = dropWhile json_space s"

definition short :: "string \<Rightarrow> 'a result" where
  "short s = Inl (Err (if s = [] then UnexpectedEOF else ErrSyntax))"

definition expect :: "char \<Rightarrow> string \<Rightarrow> string result" where
  "expect c s = (case s of d # r \<Rightarrow> if d = c then Inr r else short s | [] \<Rightarrow> short [])"

fun expect_word :: "string \<Rightarrow> string \<Rightarrow> string result" where
  "expect_word [] s = Inr s"
| "expect_word (c # cs) s = bindR (expect c s) (expect_word cs)"

definition hex_of :: "char \<Rightarrow> nat option" where
  "hex_of c =
     (let n = of_char c :: nat in
      if 48 \<le> n \<and> n \<le> 57 then Some (n - 48)
      else if 97 \<le> n \<and> n \<le> 102 then Some (n - 87)
      else if 65 \<le> n \<and> n \<le> 70 then Some (n - 55) else None)"

fun hex_word :: "nat \<Rightarrow> string \<Rightarrow> (nat \<times> string) result" where
  "hex_word 0 s = Inr (0, s)"
| "hex_word (Suc n) [] = short []"
| "hex_word (Suc n) (c # s) =
     (case hex_of c of None \<Rightarrow> short [c]
      | Some d \<Rightarrow> map_sum id (\<lambda>(v, r). (d * 16 ^ n + v, r)) (hex_word n s))"

text \<open>
  A four digit escape; a pair of surrogates is one character, a lone surrogate is the
  replacement character.
\<close>

definition unicode_escape :: "string \<Rightarrow> (string \<times> string) result" where
  "unicode_escape s =
     bindR (hex_word 4 s) (\<lambda>(u, r).
       if 0xD800 \<le> u \<and> u < 0xE000 then
         (case r of
            b # c # r' \<Rightarrow>
              if b = CHR 0x5C \<and> c = CHR ''u'' then
                (case hex_word 4 r' of
                   Inr (v, r'') \<Rightarrow>
                     if u < 0xDC00 \<and> 0xDC00 \<le> v \<and> v < 0xE000
                     then Inr (bytes_str (rune_bytes (int ((u - 0xD800) * 1024 + (v - 0xDC00) + 0x10000))), r'')
                     else Inr (bytes_str (rune_bytes RuneError), r)
                 | Inl _ \<Rightarrow> Inr (bytes_str (rune_bytes RuneError), r))
              else Inr (bytes_str (rune_bytes RuneError), r)
          | _ \<Rightarrow> Inr (bytes_str (rune_bytes RuneError), r))
       else Inr (bytes_str (rune_bytes (int u)), r))"

definition simple_escape :: "char \<Rightarrow> char option" where
  "simple_escape c =
     (if c = CHR 0x22 \<or> c = CHR 0x5C \<or> c = CHR ''/'' then Some c
      else if c = CHR ''b'' then Some (CHR 0x08) else if c = CHR ''f'' then Some (CHR 0x0C)
      else if c = CHR ''n'' then Some (CHR 0x0A) else if c = CHR ''r'' then Some (CHR 0x0D)
      else if c = CHR ''t'' then Some (CHR 0x09) else None)"

text \<open>One character or escape of a string, after its opening quote; None is the closing quote.\<close>

definition string_item :: "string \<Rightarrow> (string option \<times> string) result" where
  "string_item s =
     (case s of
        [] \<Rightarrow> short []
      | c # r \<Rightarrow>
          if c = CHR 0x22 then Inr (None, r)
          else if c = CHR 0x5C then
            (case r of
               [] \<Rightarrow> short []
             | e # r' \<Rightarrow>
                 if e = CHR ''u'' then map_sum id (apfst Some) (unicode_escape r')
                 else (case simple_escape e of Some x \<Rightarrow> Inr (Some [x], r') | None \<Rightarrow> short r))
          else if (of_char c :: nat) < 32 then short s
          else if (of_char c :: nat) < 128 then Inr (Some [c], r)
          else (case decode_rune (str_bytes s) of (x, w) \<Rightarrow> Inr (Some (bytes_str (rune_bytes x)), drop (w - 1) r)))"

lemma map_sum_Inr [simp, go_simps]:
  "map_sum id f r = Inr y \<longleftrightarrow> (\<exists>x. r = Inr x \<and> y = f x)"
  "map_sum id f r = Inl e \<longleftrightarrow> r = Inl e"
  by (cases r; auto)+

lemma hex_word_length: "hex_word n s = Inr (v, r) \<Longrightarrow> length r \<le> length s"
proof (induction n s arbitrary: v r rule: hex_word.induct)
  case (3 n c s)
  then show ?case
    by (cases "hex_word n s") (fastforce simp: short_def split: option.splits)+
qed (auto simp: short_def)

lemma unicode_escape_length: "unicode_escape s = Inr (v, r) \<Longrightarrow> length r \<le> length s"
  unfolding unicode_escape_def bindR_eq_Inr_iff
  by (auto split: if_splits list.splits sum.splits dest!: hex_word_length)

lemma string_item_length: "string_item s = Inr (v, r) \<Longrightarrow> length r < length s"
  unfolding string_item_def
  by (auto simp: short_def less_Suc_eq_le le_diff_conv split: list.splits if_splits option.splits prod.splits
      dest!: unicode_escape_length)

function json_unquote :: "string \<Rightarrow> (string \<times> string) result" where
  "json_unquote s =
     (case string_item s of
        Inl e \<Rightarrow> Inl e
      | Inr (None, r) \<Rightarrow> Inr ([], r)
      | Inr (Some x, r) \<Rightarrow> map_sum id (apfst ((@) x)) (json_unquote r))"
  by pat_completeness auto
termination json_unquote by (relation "measure length") (auto dest: string_item_length)

declare json_unquote.simps [simp del]

text \<open>Numbers, by the grammar of JSON; the answer is the literal.\<close>

definition some_digits :: "string \<Rightarrow> (string \<times> string) result" where
  "some_digits s =
     (if s \<noteq> [] \<and> is_digit (hd s) then Inr (takeWhile is_digit s, dropWhile is_digit s) else short s)"

definition number_int :: "string \<Rightarrow> (string \<times> string) result" where
  "number_int s =
     (case s of c # r \<Rightarrow> if c = CHR ''0'' then Inr (''0'', r) else some_digits s | [] \<Rightarrow> short [])"

definition number_frac :: "string \<Rightarrow> (string \<times> string) result" where
  "number_frac s =
     (case s of c # r \<Rightarrow> if c = CHR ''.'' then map_sum id (apfst (Cons c)) (some_digits r) else Inr ('''', s)
      | [] \<Rightarrow> Inr ('''', s))"

definition number_exp :: "string \<Rightarrow> (string \<times> string) result" where
  "number_exp s =
     (case s of
        c # r \<Rightarrow>
          if c = CHR ''e'' \<or> c = CHR ''E'' then
            (case r of
               d # r' \<Rightarrow> if d = CHR ''+'' \<or> d = CHR ''-'' then map_sum id (apfst (\<lambda>x. c # d # x)) (some_digits r')
                           else map_sum id (apfst (Cons c)) (some_digits r)
             | [] \<Rightarrow> short [])
          else Inr ('''', s)
      | [] \<Rightarrow> Inr ('''', s))"

definition number_body :: "string \<Rightarrow> string \<Rightarrow> (string \<times> string) result" where
  "number_body sign s =
     bindR (number_int s) (\<lambda>(i, s1). bindR (number_frac s1) (\<lambda>(f, s2).
       bindR (number_exp s2) (\<lambda>(e, s3). Inr (sign @ i @ f @ e, s3))))"

definition parse_number :: "string \<Rightarrow> (string \<times> string) result" where
  "parse_number s =
     (case s of
        c # r \<Rightarrow> if c = CHR ''-'' then number_body [c] r else number_body '''' s
      | [] \<Rightarrow> short [])"

text \<open>The last of several entries with one key is the one that counts.\<close>

definition dedupe :: "(string \<times> json) list \<Rightarrow> (string \<times> json) list" where
  "dedupe ps = foldl (\<lambda>acc (k, v). AList.update k v acc) [] ps"

fun read_value :: "nat \<Rightarrow> string \<Rightarrow> (json \<times> string) result"
  and read_elems :: "nat \<Rightarrow> string \<Rightarrow> (json list \<times> string) result"
  and read_members :: "nat \<Rightarrow> string \<Rightarrow> ((string \<times> json) list \<times> string) result" where
  "read_value 0 s = short []"
| "read_value (Suc n) s =
     (case skip_ws s of
        [] \<Rightarrow> short []
      | c # r \<Rightarrow>
          if c = CHR ''{'' then
            (case skip_ws r of
               d # r' \<Rightarrow> if d = CHR ''}'' then Inr (JObj [], r')
                           else map_sum id (apfst (\<lambda>ps. JObj (dedupe ps))) (read_members n (d # r'))
             | [] \<Rightarrow> short [])
          else if c = CHR ''['' then
            (case skip_ws r of
               d # r' \<Rightarrow> if d = CHR '']'' then Inr (JArr [], r')
                           else map_sum id (apfst JArr) (read_elems n (d # r'))
             | [] \<Rightarrow> short [])
          else if c = CHR 0x22 then map_sum id (apfst JStr) (json_unquote r)
          else if c = CHR ''n'' then map_sum id (Pair JNull) (expect_word ''ull'' r)
          else if c = CHR ''t'' then map_sum id (Pair (JBool True)) (expect_word ''rue'' r)
          else if c = CHR ''f'' then map_sum id (Pair (JBool False)) (expect_word ''alse'' r)
          else map_sum id (apfst JNum) (parse_number (c # r)))"
| "read_elems 0 s = short []"
| "read_elems (Suc n) s =
     bindR (read_value n s) (\<lambda>(v, r).
       case skip_ws r of
         [] \<Rightarrow> short []
       | c # r' \<Rightarrow>
           if c = CHR '','' then map_sum id (apfst (Cons v)) (read_elems n r')
           else if c = CHR '']'' then Inr ([v], r') else short (c # r'))"
| "read_members 0 s = short []"
| "read_members (Suc n) s =
     bindR (expect (CHR 0x22) (skip_ws s)) (\<lambda>r0.
     bindR (json_unquote r0) (\<lambda>(k, r1).
     bindR (expect (CHR '':'') (skip_ws r1)) (\<lambda>r2.
     bindR (read_value n r2) (\<lambda>(v, r).
       case skip_ws r of
         [] \<Rightarrow> short []
       | c # r' \<Rightarrow>
           if c = CHR '','' then map_sum id (apfst (Cons (k, v))) (read_members n r')
           else if c = CHR ''}'' then Inr ([(k, v)], r') else short (c # r')))))"

declare read_value.simps [simp del] read_elems.simps [simp del] read_members.simps [simp del]

text \<open>
  Decode: the next value of a stream and what is left of it. A literal that is not inside an
  object or an array must end at the end of the text or at white space.
\<close>

definition json_decode :: "string \<Rightarrow> (json \<times> string) result" where
  "json_decode s =
     (if skip_ws s = [] then Inl (Err EOF)
      else bindR (read_value (Suc (2 * length s)) s) (\<lambda>(v, r).
        case v of
          JObj _ \<Rightarrow> Inr (v, r)
        | JArr _ \<Rightarrow> Inr (v, r)
        | JStr _ \<Rightarrow> Inr (v, r)
        | _ \<Rightarrow> if r = [] \<or> json_space (hd r) then Inr (v, r) else short r))"

section \<open>The fuel is enough\<close>

lemma skip_ws_length: "length (skip_ws s) \<le> length s"
  by (simp add: skip_ws_def length_dropWhile_le)

lemma skip_ws_Cons: "skip_ws s = c # r \<Longrightarrow> length r < length s"
  using skip_ws_length [of s] by simp

lemma expect_length: "expect c s = Inr r \<Longrightarrow> Suc (length r) = length s"
  by (auto simp: expect_def short_def split: list.splits if_splits)

lemma expect_word_length: "expect_word w s = Inr r \<Longrightarrow> length r \<le> length s"
  by (induction w s rule: expect_word.induct) (fastforce simp: bindR_eq_Inr_iff dest: expect_length)+

lemma json_unquote_length: "json_unquote s = Inr (v, r) \<Longrightarrow> length r < length s"
proof (induction s arbitrary: v r rule: json_unquote.induct)
  case (1 s)
  then show ?case
    by (subst (asm) (2) json_unquote.simps)
      (fastforce split: sum.splits prod.splits option.splits dest: string_item_length)
qed

lemma some_digits_length: "some_digits s = Inr (v, r) \<Longrightarrow> length r < length s"
  by (cases s) (auto simp: some_digits_def short_def less_Suc_eq_le length_dropWhile_le split: if_splits)

lemma number_int_length: "number_int s = Inr (v, r) \<Longrightarrow> length r < length s"
  by (auto simp: number_int_def short_def split: list.splits if_splits dest: some_digits_length)

lemma number_frac_length: "number_frac s = Inr (v, r) \<Longrightarrow> length r \<le> length s"
  by (auto simp: number_frac_def short_def split: list.splits if_splits dest!: some_digits_length)

lemma number_exp_length: "number_exp s = Inr (v, r) \<Longrightarrow> length r \<le> length s"
  by (auto simp: number_exp_def short_def split: list.splits if_splits dest!: some_digits_length)

lemma parse_number_length: "parse_number s = Inr (v, r) \<Longrightarrow> length r < length s"
  unfolding parse_number_def number_body_def
  by (fastforce simp: bindR_eq_Inr_iff short_def split: list.splits if_splits
      dest!: number_int_length number_frac_length number_exp_length)

lemma read_elems_step:
  "read_elems (Suc n) s = Inr (vs, r) \<longleftrightarrow>
     (\<exists>v r1 c r'. read_value n s = Inr (v, r1) \<and> skip_ws r1 = c # r' \<and>
       (c = CHR '','' \<and> (\<exists>vs'. read_elems n r' = Inr (vs', r) \<and> vs = v # vs') \<or>
        c = CHR '']'' \<and> vs = [v] \<and> r = r'))"
  by (cases "read_value n s") (auto simp: read_elems.simps short_def split: list.splits if_splits)

lemma read_members_step:
  "read_members (Suc n) s = Inr (ps, r) \<longleftrightarrow>
     (\<exists>r0 k r1 r2 v r3 c r'. expect (CHR 0x22) (skip_ws s) = Inr r0 \<and> json_unquote r0 = Inr (k, r1) \<and>
       expect (CHR '':'') (skip_ws r1) = Inr r2 \<and> read_value n r2 = Inr (v, r3) \<and> skip_ws r3 = c # r' \<and>
       (c = CHR '','' \<and> (\<exists>ps'. read_members n r' = Inr (ps', r) \<and> ps = (k, v) # ps') \<or>
        c = CHR ''}'' \<and> ps = [(k, v)] \<and> r = r'))"
proof -
  have tail: "(case w of [] \<Rightarrow> short [] | c # r' \<Rightarrow>
        if c = CHR '','' then map_sum id (apfst (Cons (k, v))) (read_members n r')
        else if c = CHR ''}'' then Inr ([(k, v)], r') else short (c # r')) = Inr (ps, r) \<longleftrightarrow>
      (\<exists>c r'. w = c # r' \<and>
         (c = CHR '','' \<and> (\<exists>ps'. read_members n r' = Inr (ps', r) \<and> ps = (k, v) # ps') \<or>
          c = CHR ''}'' \<and> ps = [(k, v)] \<and> r = r'))" for w k v
    by (cases w) (auto simp: short_def)
  show ?thesis
    unfolding read_members.simps bindR_eq_Inr_iff split_paired_Ex prod.case tail by blast
qed

lemma parse_length:
  "\<And>s v r. read_value n s = Inr (v, r) \<Longrightarrow> length r < length s"
  "\<And>s vs r. read_elems n s = Inr (vs, r) \<Longrightarrow> length r < length s"
  "\<And>s ps r. read_members n s = Inr (ps, r) \<Longrightarrow> length r < length s"
proof (induction n)
  case 0
  {
    case 1 then show ?case by (simp add: read_value.simps short_def)
  next
    case 2 then show ?case by (simp add: read_elems.simps short_def)
  next
    case 3 then show ?case by (simp add: read_members.simps short_def)
  }
next
  case (Suc n)
  {
    case (1 s v r)
    then show ?case
      by (auto simp: read_value.simps short_def simp del: expect_word.simps split: list.splits if_splits
          dest!: skip_ws_Cons json_unquote_length expect_word_length parse_number_length Suc.IH(2,3))
  next
    case (2 s vs r)
    then show ?case
      unfolding read_elems_step using Suc.IH(1,2) skip_ws_Cons
      by (metis less_trans)
  next
    case (3 s ps r)
    then obtain r0 k r1 r2 v r3 c r' where
      len: "expect (CHR 0x22) (skip_ws s) = Inr r0" "json_unquote r0 = Inr (k, r1)"
      "expect (CHR '':'') (skip_ws r1) = Inr r2" "read_value n r2 = Inr (v, r3)" "skip_ws r3 = c # r'"
      and "(\<exists>ps'. read_members n r' = Inr (ps', r)) \<or> r = r'"
      unfolding read_members_step by blast
    then have "length r \<le> length r'" using Suc.IH(3) less_imp_le by blast
    with len(1,3) [THEN expect_length] len(2) [THEN json_unquote_length] len(4) [THEN Suc.IH(1)]
      len(5) [THEN skip_ws_Cons] skip_ws_length [of s] skip_ws_length [of r1]
    show ?case by linarith
  }
qed

lemma parse_enough:
  "\<And>s m. 2 * length s < n \<Longrightarrow> n \<le> m \<Longrightarrow> read_value m s = read_value n s"
  "\<And>s m. 2 * length s + 1 < n \<Longrightarrow> n \<le> m \<Longrightarrow> read_elems m s = read_elems n s"
  "\<And>s m. 2 * length s + 1 < n \<Longrightarrow> n \<le> m \<Longrightarrow> read_members m s = read_members n s"
proof (induction n)
  case (Suc n)
  {
    case (1 s m)
    then obtain m' where m: "m = Suc m'" "n \<le> m'" by (cases m) auto
    have "read_members m' (d # r) = read_members n (d # r) \<and> read_elems m' (d # r) = read_elems n (d # r)"
      if "skip_ws s = c # q" "skip_ws q = d # r" for c d q r
      using Suc.IH(2,3) [of "d # r" m'] skip_ws_Cons [OF that(1)] skip_ws_Cons [OF that(2)] 1 m(2) by simp
    then show ?case
      by (simp add: m(1) read_value.simps cong: if_cong split: list.split)
  next
    case (2 s m)
    then obtain m' where m: "m = Suc m'" "n \<le> m'" by (cases m) auto
    have v: "read_value m' s = read_value n s" using Suc.IH(1) [of s m'] 2 m(2) by simp
    have "read_elems m' r' = read_elems n r'" if "read_value n s = Inr (x, r)" "skip_ws r = c # r'" for x r c r'
      using Suc.IH(2) [of r' m'] parse_length(1) [OF that(1)] skip_ws_Cons [OF that(2)] 2 m(2) by simp
    then show ?case
      unfolding m(1) read_elems.simps v
      by (intro bindR_cong) (auto split: list.split)
  next
    case (3 s m)
    then obtain m' where m: "m = Suc m'" "n \<le> m'" by (cases m) auto
    have v: "read_value m' r2 = read_value n r2" if "length r2 \<le> length s" for r2
      using Suc.IH(1) [of r2 m'] 3 m(2) that by simp
    have rest: "read_members m' r' = read_members n r'" if "length r' < length s" for r'
      using Suc.IH(3) [of r' m'] 3 m(2) that by simp
    have len: "length r2 < length s" if "expect (CHR 0x22) (skip_ws s) = Inr r0"
      "json_unquote r0 = Inr (k, r1)" "expect (CHR '':'') (skip_ws r1) = Inr r2" for r0 k r1 r2
      using that(1,3) [THEN expect_length] json_unquote_length [OF that(2)] skip_ws_length [of s]
        skip_ws_length [of r1] by linarith
    have tail: "length r' < length r2" if "read_value n r2 = Inr (x, r)" "skip_ws r = c # r'" for r2 x r c r'
      using parse_length(1) [OF that(1)] skip_ws_Cons [OF that(2)] by linarith
    show ?case
      unfolding m(1) read_members.simps
    proof (intro bindR_cong refl, clarify, intro bindR_cong refl)
      fix r0 k r1 r2
      assume *: "expect (CHR 0x22) (skip_ws s) = Inr r0" "json_unquote r0 = Inr (k, r1)"
        "expect (CHR '':'') (skip_ws r1) = Inr r2"
      then show "read_value m' r2 = read_value n r2" using len v by (meson less_imp_le)
      fix y
      assume "read_value n r2 = Inr y"
      then obtain x r where y: "y = (x, r)" "read_value n r2 = Inr (x, r)" by (cases y) auto
      have "read_members m' r' = read_members n r'" if "skip_ws r = c # r'" for c r'
        using rest len [OF *] tail [OF y(2) that] by (meson less_trans)
      then show "(case y of (v, r) \<Rightarrow>
            case skip_ws r of [] \<Rightarrow> short []
            | c # r' \<Rightarrow> if c = CHR '','' then map_sum id (apfst ((#) (k, v))) (read_members m' r')
                else if c = CHR ''}'' then Inr ([(k, v)], r') else short (c # r')) =
          (case y of (v, r) \<Rightarrow>
            case skip_ws r of [] \<Rightarrow> short []
            | c # r' \<Rightarrow> if c = CHR '','' then map_sum id (apfst ((#) (k, v))) (read_members n r')
                else if c = CHR ''}'' then Inr ([(k, v)], r') else short (c # r'))"
        by (auto simp: y(1) split: list.split)
    qed
  }
qed simp_all

section \<open>Reading back\<close>

definition is_ascii :: "char \<Rightarrow> bool" where
  "is_ascii c \<longleftrightarrow> (of_char c :: nat) < 128"

lemma b64_is_ascii: "list_all is_ascii (b64_encode bs)"
  using b64_ascii [of bs] by (simp add: is_ascii_def [abs_def])

lemma hex_of_digit: "n < 16 \<Longrightarrow> hex_of (hex_digit n) = Some n"
  by (cases "n < 10") (simp_all add: hex_of_def hex_digit_def Let_def)

lemma hex_of_zero: "hex_of (CHR ''0'') = Some 0"
  by (simp add: hex_of_def)

lemma hex_word_4: "hex_word 4 = hex_word (Suc (Suc (Suc (Suc 0))))"
  by (simp add: numeral_eq_Suc)

lemma rune_bytes_small: "n < 128 \<Longrightarrow> rune_bytes (int n) = [word_of_int (int n)]"
  by (simp add: rune_bytes_def Let_def)

lemma string_item_escape:
  assumes "is_ascii c"
  shows "string_item (json_escape c @ r) = Inr (Some [c], r)"
proof -
  define n :: nat where "n = of_char c"
  have n: "n < 128" using assms by (simp add: n_def is_ascii_def)
  have eq: "c = d \<longleftrightarrow> n = of_char d" for d by (simp add: n_def)
  consider "n \<in> {34, 92, 10, 13, 9}" | "n < 32 \<or> n \<in> {60, 62, 38}" "n \<notin> {34, 92, 10, 13, 9}"
    | "32 \<le> n" "n \<notin> {60, 62, 38, 34, 92, 10, 13, 9}"
    by (metis insert_iff not_less)
  then show ?thesis
  proof cases
    case 1
    then have "c \<in> {CHR 0x22, CHR 0x5C, CHR 0x0A, CHR 0x0D, CHR 0x09}"
      unfolding insert_iff eq by simp
    then show ?thesis
      by (elim insertE emptyE) (simp_all add: json_escape_def string_item_def simple_escape_def)
  next
    case 2
    have "hex_word 4 (CHR ''0'' # CHR ''0'' # hex_digit (n div 16) # hex_digit (n mod 16) # r) = Inr (n, r)"
      unfolding hex_word_4 using n hex_of_digit [of "n div 16"] hex_of_digit [of "n mod 16"]
      by (simp add: hex_of_zero)
    then have "unicode_escape (CHR ''0'' # CHR ''0'' # hex_digit (n div 16) # hex_digit (n mod 16) # r)
        = Inr (bytes_str (rune_bytes (int n)), r)"
      using n by (simp add: unicode_escape_def)
    moreover have "bytes_str (rune_bytes (int n)) = [c]"
      using n by (simp add: rune_bytes_small bytes_str_def unat_of_nat) (simp add: n_def)
    moreover have "json_escape c = CHR 0x5C # ''u00'' @ [hex_digit (n div 16), hex_digit (n mod 16)]"
      using 2 unfolding json_escape_def n_def [symmetric] Let_def by (simp cong: if_cong)
    ultimately show ?thesis by (simp add: string_item_def)
  next
    case 3
    have "c \<noteq> CHR 0x22" "c \<noteq> CHR 0x5C" using 3 unfolding eq by auto
    then show ?thesis
      using 3 n by (simp add: json_escape_def string_item_def n_def [symmetric] Let_def)
  qed
qed

lemma json_unquote_chars:
  "list_all is_ascii s \<Longrightarrow> json_unquote (json_chars s @ CHR 0x22 # r) = Inr (s, r)"
proof (induction s)
  case Nil
  then show ?case by (simp add: json_unquote.simps string_item_def)
next
  case (Cons c s)
  then have "json_chars (c # s) = json_escape c @ json_chars s" by (simp add: is_ascii_def)
  with Cons show ?case
    by (subst json_unquote.simps) (simp add: string_item_escape)
qed

definition num_end :: "string \<Rightarrow> bool" where
  "num_end r \<longleftrightarrow> (case r of [] \<Rightarrow> True | c # _ \<Rightarrow> \<not> is_digit c \<and> c \<notin> {CHR ''.'', CHR ''e'', CHR ''E''})"

definition number_text :: "string \<Rightarrow> bool" where
  "number_text s \<longleftrightarrow> parse_number s = Inr (s, '''')"

lemma num_end_simps [simp]:
  "num_end []"
  "num_end (c # r) \<longleftrightarrow> \<not> is_digit c \<and> c \<noteq> CHR ''.'' \<and> c \<noteq> CHR ''e'' \<and> c \<noteq> CHR ''E''"
  by (simp_all add: num_end_def)

lemma takeWhile_num_end:
  "num_end r \<Longrightarrow> takeWhile is_digit (s @ r) = takeWhile is_digit s"
  "num_end r \<Longrightarrow> dropWhile is_digit (s @ r) = dropWhile is_digit s @ r"
  by (induction s) (auto simp: num_end_def split: list.splits)

declare num_end_simps [simp del]

lemma some_digits_append:
  "some_digits s = Inr (v, t) \<Longrightarrow> num_end r \<Longrightarrow> some_digits (s @ r) = Inr (v, t @ r)"
  by (cases s) (auto simp: some_digits_def short_def takeWhile_num_end split: if_splits)

lemma number_int_append:
  "number_int s = Inr (v, t) \<Longrightarrow> num_end r \<Longrightarrow> number_int (s @ r) = Inr (v, t @ r)"
  using some_digits_append [of s v t r]
  by (cases s) (auto simp: number_int_def short_def split: if_splits)

lemma number_frac_append:
  "number_frac s = Inr (v, t) \<Longrightarrow> num_end r \<Longrightarrow> number_frac (s @ r) = Inr (v, t @ r)"
  by (cases s; cases r) (auto simp: number_frac_def num_end_simps some_digits_append split: if_splits)

lemma number_exp_append:
  "number_exp s = Inr (v, t) \<Longrightarrow> num_end r \<Longrightarrow> number_exp (s @ r) = Inr (v, t @ r)"
proof (cases s)
  case Nil
  then show "number_exp s = Inr (v, t) \<Longrightarrow> num_end r \<Longrightarrow> ?thesis"
    by (cases r) (auto simp: number_exp_def num_end_simps)
next
  case (Cons c s')
  then show "number_exp s = Inr (v, t) \<Longrightarrow> num_end r \<Longrightarrow> ?thesis"
    by (cases s') (auto simp: number_exp_def short_def some_digits_append
        some_digits_append [where s = "_ # _", simplified] split: if_splits)
qed

lemma number_body_append:
  "number_body sign s = Inr (v, t) \<Longrightarrow> num_end r \<Longrightarrow> number_body sign (s @ r) = Inr (v, t @ r)"
  by (auto simp: number_body_def bindR_eq_Inr_iff)
    (use number_int_append number_frac_append number_exp_append in blast)

lemma number_text_append: "number_text s \<Longrightarrow> num_end r \<Longrightarrow> parse_number (s @ r) = Inr (s, r)"
  using number_body_append [of "''''" s s "[]" r] number_body_append [of "[hd s]" "tl s" s "[]" r]
  by (cases s) (auto simp: number_text_def parse_number_def short_def split: if_splits)

lemma number_text_first: "number_text s \<Longrightarrow> \<exists>c q. s = c # q \<and> (is_digit c \<or> c = CHR ''-'')"
  by (cases s) (auto simp: number_text_def parse_number_def number_body_def number_int_def some_digits_def
      short_def is_digit_def bindR_eq_Inr_iff split: if_splits)

fun json_ok :: "json \<Rightarrow> bool" where
  "json_ok (JNum s) = number_text s"
| "json_ok (JStr s) = list_all is_ascii s"
| "json_ok (JArr xs) = list_all json_ok xs"
| "json_ok (JObj ps) = (distinct (map fst ps) \<and> list_all (\<lambda>(k, v). list_all is_ascii k \<and> json_ok v) ps)"
| "json_ok _ = True"

lemma json_ok_first:
  "json_ok j \<Longrightarrow> \<exists>c s. json_text j = c # s \<and> \<not> json_space c \<and> c \<noteq> CHR '']'' \<and> c \<noteq> CHR ''}''"
proof (cases j)
  case (JNum s)
  moreover assume "json_ok j"
  ultimately obtain c q where "s = c # q" "is_digit c \<or> c = CHR ''-''"
    using number_text_first by fastforce
  then have "s = c # q \<and> \<not> json_space c \<and> c \<noteq> CHR '']'' \<and> c \<noteq> CHR ''}''"
    by (auto simp: is_digit_def json_space_def)
  with JNum show ?thesis by auto
qed (simp_all add: json_space_def json_string_def)

lemma skip_ws_text: "json_ok j \<Longrightarrow> skip_ws (json_text j @ r) = json_text j @ r"
  using json_ok_first [of j] by (auto simp: skip_ws_def)

lemma skip_ws_char [simp]: "\<not> json_space c \<Longrightarrow> skip_ws (c # r) = c # r"
  by (simp add: skip_ws_def)

lemma json_punctuation [simp]:
  "\<not> json_space (CHR 0x22)" "\<not> json_space (CHR '','')" "\<not> json_space (CHR '']'')"
  "\<not> json_space (CHR ''}'')" "\<not> json_space (CHR '':'')" "\<not> json_space (CHR ''['')" "\<not> json_space (CHR ''{'')"
  by (simp_all add: json_space_def)

lemma num_end_punctuation [simp]:
  "num_end (CHR '','' # r)" "num_end (CHR '']'' # r)" "num_end (CHR ''}'' # r)"
  by (simp_all add: num_end_def is_digit_def)

lemma update_fresh: "k \<notin> fst ` set al \<Longrightarrow> AList.update k v al = al @ [(k, v)]"
  by (induction al) auto

lemma dedupe_distinct: "distinct (map fst ps) \<Longrightarrow> dedupe ps = ps"
proof -
  have "distinct (map fst (acc @ ps)) \<Longrightarrow> foldl (\<lambda>acc (k, v). AList.update k v acc) acc ps = acc @ ps" for acc
  proof (induction ps arbitrary: acc)
    case (Cons p ps)
    then show ?case by (cases p) (auto simp: update_fresh)
  qed simp
  from this [of "[]"] show "distinct (map fst ps) \<Longrightarrow> dedupe ps = ps" by (simp add: dedupe_def)
qed

definition reads_back :: "json \<Rightarrow> bool" where
  "reads_back j \<longleftrightarrow> (\<forall>n r. (case j of JNum _ \<Rightarrow> num_end r | _ \<Rightarrow> True) \<longrightarrow>
     2 * length (json_text j @ r) < n \<longrightarrow> read_value n (json_text j @ r) = Inr (j, r))"

lemma reads_backD:
  "reads_back j \<Longrightarrow> num_end r \<Longrightarrow> 2 * length (json_text j @ r) < n \<Longrightarrow>
   read_value n (json_text j @ r) = Inr (j, r)"
  by (simp add: reads_back_def split: json.split)

lemma elems_read_back:
  "xs \<noteq> [] \<Longrightarrow> list_all reads_back xs \<Longrightarrow>
   2 * length (join_comma (map json_text xs) @ CHR '']'' # r) + 1 < n \<Longrightarrow>
   read_elems n (join_comma (map json_text xs) @ CHR '']'' # r) = Inr (xs, r)"
proof (induction xs arbitrary: n rule: list_nonempty_induct)
  case (single x)
  then obtain n' where n: "n = Suc n'" by (cases n) auto
  have "read_value n' (json_text x @ CHR '']'' # r) = Inr (x, CHR '']'' # r)"
    using single by (intro reads_backD) (simp_all add: n)
  then show ?case by (simp add: n read_elems_step)
next
  case (cons x xs)
  then have join: "join_comma (map json_text (x # xs)) = json_text x @ CHR '','' # join_comma (map json_text xs)"
    by (cases xs) auto
  from cons obtain n' where n: "n = Suc n'" by (cases n) auto
  let ?t = "join_comma (map json_text xs) @ CHR '']'' # r"
  have "read_value n' (json_text x @ CHR '','' # ?t) = Inr (x, CHR '','' # ?t)"
    using cons.prems unfolding join by (intro reads_backD) (simp_all add: n)
  moreover have "read_elems n' ?t = Inr (xs, r)"
    using cons.prems unfolding join by (intro cons.IH) (simp_all add: n)
  ultimately show ?case unfolding join by (simp add: n read_elems_step)
qed

abbreviation member_text :: "string \<times> json \<Rightarrow> string" where
  "member_text \<equiv> \<lambda>(k, v). json_string k @ CHR '':'' # json_text v"

lemma members_read_back:
  "ps \<noteq> [] \<Longrightarrow> list_all (\<lambda>(k, v). list_all is_ascii k \<and> reads_back v) ps \<Longrightarrow>
   2 * length (join_comma (map member_text ps) @ CHR ''}'' # r) + 1 < n \<Longrightarrow>
   read_members n (join_comma (map member_text ps) @ CHR ''}'' # r) = Inr (ps, r)"
proof (induction ps arbitrary: n rule: list_nonempty_induct)
  case (single p)
  then obtain n' k v where n: "n = Suc n'" "p = (k, v)" by (cases n; cases p) auto
  have "read_value n' (json_text v @ CHR ''}'' # r) = Inr (v, CHR ''}'' # r)"
    using single by (intro reads_backD) (simp_all add: n)
  then show ?case
    using single by (simp add: n read_members_step json_string_def expect_def json_unquote_chars)
next
  case (cons p ps)
  then have join: "join_comma (map member_text (p # ps)) = member_text p @ CHR '','' # join_comma (map member_text ps)"
    by (cases ps) auto
  from cons obtain n' k v where n: "n = Suc n'" "p = (k, v)" by (cases n; cases p) auto
  let ?t = "join_comma (map member_text ps) @ CHR ''}'' # r"
  have "read_value n' (json_text v @ CHR '','' # ?t) = Inr (v, CHR '','' # ?t)"
    using cons.prems unfolding join by (intro reads_backD) (simp_all add: n)
  moreover have "read_members n' ?t = Inr (ps, r)"
    using cons.prems unfolding join by (intro cons.IH) (simp_all add: n)
  ultimately show ?case
    using cons.prems unfolding join
    by (simp add: n read_members_step json_string_def expect_def json_unquote_chars)
qed

lemma word_text [simp]:
  "expect_word ''ull'' (CHR ''u'' # CHR ''l'' # CHR ''l'' # r) = Inr r"
  "expect_word ''rue'' (CHR ''r'' # CHR ''u'' # CHR ''e'' # r) = Inr r"
  "expect_word ''alse'' (CHR ''a'' # CHR ''l'' # CHR ''s'' # CHR ''e'' # r) = Inr r"
  by (simp_all add: expect_def)

lemma text_reads_back: "json_ok j \<Longrightarrow> reads_back j"
proof (induction j)
  case (JNum s)
  {
    fix n r
    assume r: "num_end r" "2 * length (s @ r) < n"
    from JNum obtain c q where cq: "s = c # q" "is_digit c \<or> c = CHR ''-''"
      using number_text_first by fastforce
    have "\<not> json_space c" "c \<noteq> CHR ''{''" "c \<noteq> CHR ''[''" "c \<noteq> CHR 0x22" "c \<noteq> CHR ''n''"
      "c \<noteq> CHR ''t''" "c \<noteq> CHR ''f''"
      using cq(2) by (auto simp: is_digit_def json_space_def)
    moreover obtain n' where "n = Suc n'" using r by (cases n) auto
    moreover have "parse_number (c # q @ r) = Inr (c # q, r)"
      using number_text_append [of s r] JNum r(1) cq(1) by simp
    ultimately have "read_value n (s @ r) = Inr (JNum s, r)"
      by (simp add: read_value.simps cq(1))
  }
  then show ?case by (simp add: reads_back_def)
next
  case (JArr xs)
  {
    fix n :: nat and r :: string
    assume "2 * length (json_text (JArr xs) @ r) < n"
    moreover from this obtain n' where n: "n = Suc n'" by (cases n) auto
    moreover have "list_all reads_back xs" using JArr by (auto simp: list_all_iff)
    moreover have "xs \<noteq> [] \<Longrightarrow> \<exists>c s. join_comma (map json_text xs) @ CHR '']'' # r = c # s \<and> \<not> json_space c \<and> c \<noteq> CHR '']''"
      using JArr json_ok_first [of "hd xs"] by (cases xs; cases "tl xs") auto
    ultimately have "read_value n (json_text (JArr xs) @ r) = Inr (JArr xs, r)"
      using elems_read_back [of xs r n'] by (cases "xs = []") (auto simp: read_value.simps)
  }
  then show ?case by (simp add: reads_back_def)
next
  case (JObj ps)
  {
    fix n :: nat and r :: string
    assume "2 * length (json_text (JObj ps) @ r) < n"
    moreover from this obtain n' where n: "n = Suc n'" by (cases n) auto
    moreover have "list_all (\<lambda>(k, v). list_all is_ascii k \<and> reads_back v) ps"
      using JObj by (fastforce simp: list_all_iff)
    moreover have "ps \<noteq> [] \<Longrightarrow> \<exists>s. join_comma (map member_text ps) @ CHR ''}'' # r = CHR 0x22 # s"
      by (cases ps; cases "tl ps") (auto simp: json_string_def)
    ultimately have "read_value n (json_text (JObj ps) @ r) = Inr (JObj ps, r)"
      using members_read_back [of ps r n'] dedupe_distinct [of ps] JObj.prems
      by (cases "ps = []") (auto simp: read_value.simps)
  }
  then show ?case by (simp add: reads_back_def)
next
  case JNull
  have "read_value n (''null'' @ r) = Inr (JNull, r)" if "8 < n" for n r
    using that by (cases n) (simp_all add: read_value.simps json_space_def del: expect_word.simps)
  then show ?case by (simp add: reads_back_def)
next
  case (JBool b)
  have "read_value n ((if b then ''true'' else ''false'') @ r) = Inr (JBool b, r)" if "8 < n" for n r
    using that by (cases n) (simp_all add: read_value.simps json_space_def del: expect_word.simps)
  then show ?case by (cases b) (simp_all add: reads_back_def)
next
  case (JStr s)
  have "read_value n (json_string s @ r) = Inr (JStr s, r)" if "0 < n" for n r
    using that JStr by (cases n) (simp_all add: read_value.simps json_string_def json_unquote_chars)
  then show ?case by (simp add: reads_back_def)
qed

lemma json_decode_text:
  assumes "json_ok (JObj ps)"
  shows "json_decode (json_text (JObj ps) @ r) = Inr (JObj ps, r)"
proof -
  let ?s = "json_text (JObj ps) @ r"
  have "2 * length ?s < Suc (2 * length ?s)" by simp
  with text_reads_back [OF assms] have "read_value (Suc (2 * length ?s)) ?s = Inr (JObj ps, r)"
    unfolding reads_back_def json.case by blast
  moreover have "skip_ws ?s \<noteq> []" by simp
  ultimately show ?thesis unfolding json_decode_def by (simp del: json_text.simps)
qed

lemma number_text_nat_dec: "number_text (nat_dec n)"
proof -
  obtain c q where cq: "nat_dec n = c # q" by (cases "nat_dec n") auto
  have d: "list_all is_digit (c # q)" using nat_dec_digits [of n] by (simp add: cq)
  have "number_int (c # q) = Inr (c # q, [])"
  proof (cases "c = CHR ''0''")
    case True
    then show ?thesis using nat_dec_hd_zero [of n] by (simp add: number_int_def cq)
  next
    case False
    then show ?thesis using d by (simp add: number_int_def some_digits_def list_all_iff)
  qed
  moreover have "c \<noteq> CHR ''-''" using d by (auto simp: is_digit_def)
  ultimately show ?thesis
    by (simp add: number_text_def parse_number_def number_body_def cq number_frac_def number_exp_def)
qed

lemma number_text_int_dec: "number_text (int_dec i)"
proof (cases "i < 0")
  case True
  obtain c q where cq: "nat_dec (nat (- i)) = c # q" by (cases "nat_dec (nat (- i))") auto
  then have "c \<noteq> CHR ''-''" using nat_dec_hd [of "nat (- i)"] by simp
  then show ?thesis
    using True cq number_text_nat_dec [of "nat (- i)"]
    by (auto simp: int_dec_def number_text_def parse_number_def number_body_def bindR_eq_Inr_iff)
qed (simp add: int_dec_def number_text_nat_dec)

lemma sort_objects_ok: "json_ok j \<Longrightarrow> json_ok (sort_objects j)"
proof (induction j rule: sort_objects.induct)
  case (2 ps)
  have keys: "map fst (map (\<lambda>(k, v). (k, sort_objects v)) ps) = map fst ps" by auto
  from 2 have "distinct (map fst (map (\<lambda>(k, v). (k, sort_objects v)) ps))" unfolding keys by simp
  then have "distinct (map fst (sort_key fst (map (\<lambda>(k, v). (k, sort_objects v)) ps)))"
    by (metis mset_map mset_sort mset_eq_imp_distinct_iff)
  moreover have "list_all (\<lambda>(k, v). list_all is_ascii k \<and> json_ok v) (sort_key fst (map (\<lambda>(k, v). (k, sort_objects v)) ps))"
    using 2 by (fastforce simp: list_all_iff)
  ultimately show ?case by simp
qed (auto simp: list_all_iff)

text \<open>The order of the keys aside, reading the text of an object gives the object back.\<close>

lemma json_decode_marshal:
  assumes "json_ok (JObj ps)"
  shows "json_decode (json_marshal (JObj ps) @ r) = Inr (sort_objects (JObj ps), r)"
proof -
  have "json_ok (JObj (sort_key fst (map (\<lambda>(k, v). (k, sort_objects v)) ps)))"
    using sort_objects_ok [OF assms] by simp
  from json_decode_text [OF this] show ?thesis by (simp add: json_marshal_def)
qed

end
