(* ===== verification/Json.thy ===== *)
theory Json
  imports JsonText Values
begin

text \<open>
  json.go: the simple JSON map of a message (SimpleJSONMap with findTarget), MarshalJSON,
  ParseSimpleJSON and UnmarshalJSON. What the code takes from outside is a parameter: the clock,
  the printing and parsing of a timestamp (tai64n and RFC 3339), the text of a float64 in JSON
  and back, and the order in which ranging over a Go map visits it.
\<close>

record 'ts json_env =
  JsonNow :: 'ts
  FormatTime :: "'ts \<Rightarrow> string"
  ParseTime :: "string \<Rightarrow> 'ts result"
  FloatText :: "float64 \<Rightarrow> string option"
  FloatOf :: "string \<Rightarrow> float64 option"
  MapOrder :: "(string \<times> json) list \<Rightarrow> (string \<times> json) list"

section \<open>From a message\<close>

text \<open>
  The values of a simple map: the scalars, the map[string][]byte of a byte attribute, the
  map[string]uint64 of an interval, the map[string]string of the tags, and the nested maps
  that dotted keys make.
\<close>

datatype jtree =
    JtInt u64
  | JtFloat float64
  | JtBool bool
  | JtString string
  | JtBytes bytes
  | JtInterval u64 u32
  | JtTags "(string \<times> string) list"
  | JtMap "(string \<times> jtree) list"

text \<open>
  findTarget and the assignment to what it returns. The walk makes maps that are missing and
  stops at a value that is no map, so that the last part of the key lands there.
\<close>

fun put_at :: "string list \<Rightarrow> string \<Rightarrow> jtree \<Rightarrow> (string \<times> jtree) list \<Rightarrow> (string \<times> jtree) list" where
  "put_at [] key v p = AList.update key v p"
| "put_at (part # parts) key v p =
     (case map_of p part of
        None \<Rightarrow> AList.update part (JtMap (put_at parts key v [])) p
      | Some (JtMap q) \<Rightarrow> AList.update part (JtMap (put_at parts key v q)) p
      | Some _ \<Rightarrow> AList.update key v p)"

definition put_key :: "string \<Rightarrow> jtree \<Rightarrow> (string \<times> jtree) list \<Rightarrow> (string \<times> jtree) list" where
  "put_key key v p =
     (if ContainsByte key (CHR ''.'')
      then put_at (butlast (SplitByte (CHR ''.'') key)) (last (SplitByte (CHR ''.'') key)) v p
      else AList.update key v p)"

definition attr_tree :: "attribute \<Rightarrow> jtree" where
  "attr_tree a =
     (case Ival a of Some i \<Rightarrow> JtInt i | None \<Rightarrow>
      case Fval a of Some f \<Rightarrow> JtFloat f | None \<Rightarrow>
      case Boolval a of Some b \<Rightarrow> JtBool b | None \<Rightarrow>
      case Sval a of Some s \<Rightarrow> JtString s | None \<Rightarrow>
      case Bval a of Some bs \<Rightarrow> JtBytes bs | None \<Rightarrow>
      case Tval a of Some iv \<Rightarrow> JtInterval (Seconds iv) (Nanoseconds iv) | None \<Rightarrow> JtBool True)"

definition tag_pairs :: "tag list \<Rightarrow> (string \<times> string) list" where
  "tag_pairs ts =
     foldl (\<lambda>acc t. AList.update (TName t) (case TValue t of None \<Rightarrow> ''true'' | Some v \<Rightarrow> v) acc) [] ts"

fun put_attrs :: "'ts message \<Rightarrow> attribute list \<Rightarrow> (string \<times> jtree) list \<Rightarrow> (string \<times> jtree) list result" where
  "put_attrs m [] p = Inr p"
| "put_attrs m (a # as) p = bindR (StringKey m a) (\<lambda>key. put_attrs m as (put_key key (attr_tree a) p))"

definition SimpleJSONMap :: "'ts json_env \<Rightarrow> 'ts message \<Rightarrow> (string \<times> jtree) list result" where
  "SimpleJSONMap env m =
     (case Timestamp m of
        None \<Rightarrow> Inl (Panic ''nil pointer dereference'')
      | Some ts \<Rightarrow>
          let p = [(''@timestamp'', JtString (FormatTime env ts)), (''@type'', JtString (StringType m)),
                   (''@version'', JtString ''1'')]
          in put_attrs m (Attributes m)
               (if Tags m \<noteq> [] then AList.update ''@tags'' (JtTags (tag_pairs (Tags m))) p else p))"

text \<open>What json.Marshal makes of the map; a float64 that JSON cannot write is an error.\<close>

definition nat_json :: "nat \<Rightarrow> json" where
  "nat_json n = JNum (nat_dec n)"

fun to_json :: "'ts json_env \<Rightarrow> jtree \<Rightarrow> json option"
  and to_members :: "'ts json_env \<Rightarrow> (string \<times> jtree) list \<Rightarrow> (string \<times> json) list option" where
  "to_json env (JtInt i) = Some (JNum (FormatInt i))"
| "to_json env (JtFloat f) = map_option JNum (FloatText env f)"
| "to_json env (JtBool b) = Some (JBool b)"
| "to_json env (JtString s) = Some (JStr s)"
| "to_json env (JtBytes bs) = Some (JObj [(''bytes'', JStr (b64_encode bs))])"
| "to_json env (JtInterval s n) =
     Some (JObj [(''seconds'', nat_json (unat s)), (''nanoseconds'', nat_json (unat n))])"
| "to_json env (JtTags ts) = Some (JObj (map (\<lambda>(k, v). (k, JStr v)) ts))"
| "to_json env (JtMap ps) = map_option JObj (to_members env ps)"
| "to_members env [] = Some []"
| "to_members env ((k, v) # ps) =
     (case (to_json env v, to_members env ps) of (Some j, Some js) \<Rightarrow> Some ((k, j) # js) | _ \<Rightarrow> None)"

definition MarshalJSON :: "'ts json_env \<Rightarrow> 'ts message \<Rightarrow> bytes result" where
  "MarshalJSON env m =
     bindR (SimpleJSONMap env m) (\<lambda>p.
       case to_json env (JtMap p) of
         None \<Rightarrow> Inl (Err (OtherErr ''json: unsupported value''))
       | Some j \<Rightarrow> Inr (str_bytes (json_marshal j)))"

section \<open>To a message\<close>

text \<open>The Go value that a decoded JSON value is; a json.Number is a Stringer.\<close>

fun json_val :: "json \<Rightarrow> goval" where
  "json_val JNull = VNil"
| "json_val (JBool b) = VBool b"
| "json_val (JNum s) = VStringer s"
| "json_val (JStr s) = VString s"
| "json_val (JArr xs) = VSlice (map json_val xs)"
| "json_val (JObj ps) = VMap (map (\<lambda>(k, v). (k, json_val v)) ps)"

definition named_type :: "string \<Rightarrow> u32 option" where
  "named_type str =
     (if str = ''metric'' then Some METRIC else if str = ''trace'' then Some TRACE
      else if str = ''audit'' then Some AUDIT else if str = ''heartbeat'' then Some HEARTBEAT
      else None)"

definition json_tag :: "string \<times> json \<Rightarrow> tag list" where
  "json_tag p =
     (case p of (k, JStr v) \<Rightarrow>
        if v = ''true'' then [zero_tag\<lparr>TName := k\<rparr>] else [zero_tag\<lparr>TName := k, TValue := Some v\<rparr>]
      | _ \<Rightarrow> [])"

definition add_number :: "'ts json_env \<Rightarrow> 'ts message \<Rightarrow> string \<Rightarrow> string \<Rightarrow> 'ts message result" where
  "add_number env m key num =
     (case ParseInt10 64 num of
        Parsed i \<Rightarrow> AddInt m key (word_of_int i)
      | _ \<Rightarrow> (case FloatOf env num of Some f \<Rightarrow> AddFloat m key f | None \<Rightarrow> Inl (Err ErrSyntax)))"

definition int64_or_invalid :: "string \<Rightarrow> int result" where
  "int64_or_invalid s = (case ParseInt10 64 s of Parsed i \<Rightarrow> Inr i | _ \<Rightarrow> Inl (Err ErrInvalidMessage))"

definition add_object :: "'ts message \<Rightarrow> string \<Rightarrow> (string \<times> json) list \<Rightarrow> 'ts message result" where
  "add_object m key imap =
     (case (map_of imap ''seconds'', map_of imap ''nanoseconds'') of
        (Some (JNum fsec), Some (JNum nsec)) \<Rightarrow>
          bindR (int64_or_invalid fsec) (\<lambda>s. bindR (int64_or_invalid nsec) (\<lambda>n.
            AddInterval m key (word_of_int s) (word_of_int n)))
      | _ \<Rightarrow>
        (case map_of imap ''bytes'' of
           Some (JStr sval) \<Rightarrow>
             (case b64_decode sval of
                None \<Rightarrow> Inl (Err ErrInvalidMessage)
              | Some bs \<Rightarrow> AddBytes m key (Some bs))
         | _ \<Rightarrow> bindR (Add m key (json_val (JObj imap))) (\<lambda>(m', e).
                  case e of Some e \<Rightarrow> Inl (Err e) | None \<Rightarrow> Inr m')))"

definition parse_entry :: "'ts json_env \<Rightarrow> string \<times> json \<Rightarrow> 'ts message \<Rightarrow> 'ts message result" where
  "parse_entry env kv m =
     (case kv of (key, val) \<Rightarrow>
      if key = ''@version'' then Inr m
      else if key = ''@type'' then
        (case val of
           JStr str \<Rightarrow> Inr (case named_type str of Some t \<Rightarrow> m\<lparr>MType := Some t\<rparr> | None \<Rightarrow> m)
         | _ \<Rightarrow> Inr m)
      else if key = ''@timestamp'' then
        (case val of JStr str \<Rightarrow> bindR (ParseTime env str) (\<lambda>ts. Inr (m\<lparr>Timestamp := Some ts\<rparr>)) | _ \<Rightarrow> Inr m)
      else if key = ''@tags'' then
        (case val of JObj tm \<Rightarrow> Inr (m\<lparr>Tags := Tags m @ concat (map json_tag (MapOrder env tm))\<rparr>) | _ \<Rightarrow> Inr m)
      else
        (case val of
           JNum num \<Rightarrow> add_number env m key num
         | JObj imap \<Rightarrow> add_object m key imap
         | _ \<Rightarrow> map_sum id fst (Add m key (json_val val))))"

fun parse_entries :: "'ts json_env \<Rightarrow> (string \<times> json) list \<Rightarrow> 'ts message \<Rightarrow> 'ts message result" where
  "parse_entries env [] m = Inr m"
| "parse_entries env (e # es) m = bindR (parse_entry env e m) (parse_entries env es)"

definition complete_message :: "'ts json_env \<Rightarrow> 'ts message \<Rightarrow> 'ts message" where
  "complete_message env m =
     (let m1 = (if MType m = None then m\<lparr>MType := Some LOG\<rparr> else m)
      in if Timestamp m1 = None then m1\<lparr>Timestamp := Some (JsonNow env)\<rparr> else m1)"

definition ParseSimpleJSON :: "'ts json_env \<Rightarrow> bytes \<Rightarrow> 'ts message result" where
  "ParseSimpleJSON env data =
     bindR (json_decode (bytes_str data)) (\<lambda>(v, _).
       bindR (case v of
           JObj p \<Rightarrow> parse_entries env (MapOrder env p) (zero_message\<lparr>Version := DEFAULT_VERSION\<rparr>)
         | JNull \<Rightarrow> Inr (zero_message\<lparr>Version := DEFAULT_VERSION\<rparr>)
         | _ \<Rightarrow> Inl (Err (OtherErr ''json: cannot unmarshal'')))
       (\<lambda>m. Inr (complete_message env m)))"

text \<open>UnmarshalJSON overwrites the message with the parsed one.\<close>

definition UnmarshalJSON :: "'ts json_env \<Rightarrow> 'ts message \<Rightarrow> bytes \<Rightarrow> 'ts message result" where
  "UnmarshalJSON env m data = bindR (ParseSimpleJSON env data) (\<lambda>m2. Inr m2)"

section \<open>The round trip\<close>

definition reserved :: "string set" where
  "reserved = {''@version'', ''@type'', ''@timestamp'', ''@tags''}"

text \<open>Attributes that JSON keeps, with the name they are written under.\<close>

definition json_attr :: "'ts json_env \<Rightarrow> 'ts message \<Rightarrow> string \<Rightarrow> attribute \<Rightarrow> bool" where
  "json_attr env m name a \<longleftrightarrow>
     (\<exists>a0. SetKey m zero_attribute name = Inr a0 \<and>
       ((\<exists>i. a = a0\<lparr>Ival := Some i\<rparr>) \<or> (\<exists>b. a = a0\<lparr>Boolval := Some b\<rparr>) \<or>
        (\<exists>s. a = a0\<lparr>Sval := Some s\<rparr> \<and> list_all is_ascii s) \<or> (\<exists>bs. a = a0\<lparr>Bval := Some bs\<rparr>) \<or>
        (\<exists>f s. a = a0\<lparr>Fval := Some f\<rparr> \<and> FloatText env f = Some s \<and> number_text s \<and>
           (\<forall>i. ParseInt10 64 s \<noteq> Parsed i) \<and> FloatOf env s = Some f) \<or>
        (\<exists>s n. a = a0\<lparr>Tval := Some (zero_interval\<lparr>Seconds := s, Nanoseconds := n\<rparr>)\<rparr> \<and> unat s < 2 ^ 63)))"

lemma SetKey_fields:
  "SetKey m zero_attribute key = Inr a \<Longrightarrow> known_version m \<Longrightarrow>
   \<exists>k sk. a = zero_attribute\<lparr>Key := k, Skey := sk\<rparr> \<and> StringKey m a = Inr key"
  using StringKey_SetKey [of m zero_attribute key] by (auto simp: zero_attribute_def)

lemma ParseInt10_nat_dec: "n < 2 ^ 63 \<Longrightarrow> ParseInt10 64 (nat_dec n) = Parsed (int n)"
proof -
  assume "n < 2 ^ 63"
  then have "int n < 2 ^ 63" by (metis of_nat_less_iff of_nat_numeral of_nat_power)
  with ParseInt10_int_dec [of 64 "int n"] show ?thesis by (simp add: int_dec_def)
qed

lemma map_of_sort: "distinct (map fst ps) \<Longrightarrow> map_of (sort_key fst ps) = map_of ps"
proof -
  assume d: "distinct (map fst ps)"
  then have "distinct (map fst (sort_key fst ps))"
    by (metis mset_map mset_sort mset_eq_imp_distinct_iff)
  with d show ?thesis by (intro map_of_inject_set [THEN iffD2]) simp_all
qed

lemma add_object_cong:
  assumes "map_of ps = map_of qs" and "map_of qs ''bytes'' = Some (JStr s) \<or>
    (\<exists>a b. map_of qs ''seconds'' = Some (JNum a) \<and> map_of qs ''nanoseconds'' = Some (JNum b))"
  shows "add_object m key ps = add_object m key qs"
  using assms(2) unfolding add_object_def assms(1) by (auto split: option.split json.split)

lemma add_scalar:
  "scalar_attr v = scalar_attr w \<Longrightarrow> scalar_attr w a0 = Some a \<Longrightarrow> SetKey m zero_attribute key = Inr a0 \<Longrightarrow>
   map_sum id fst (Add m key v) = Inr (append_attr m a)"
  by (subst Add.simps) simp

lemma attr_entry:
  assumes "json_attr env m name a" and "known_version m" and "name \<notin> reserved"
  obtains j where "StringKey m a = Inr name" "to_json env (attr_tree a) = Some j" "json_ok j"
    "\<And>m'. Version m' = Version m \<Longrightarrow> parse_entry env (name, sort_objects j) m' = Inr (append_attr m' a)"
proof -
  from assms(1) obtain a0 where a0: "SetKey m zero_attribute name = Inr a0" and
    a: "(\<exists>i. a = a0\<lparr>Ival := Some i\<rparr>) \<or> (\<exists>b. a = a0\<lparr>Boolval := Some b\<rparr>) \<or>
        (\<exists>s. a = a0\<lparr>Sval := Some s\<rparr> \<and> list_all is_ascii s) \<or> (\<exists>bs. a = a0\<lparr>Bval := Some bs\<rparr>) \<or>
        (\<exists>f s. a = a0\<lparr>Fval := Some f\<rparr> \<and> FloatText env f = Some s \<and> number_text s \<and>
           (\<forall>i. ParseInt10 64 s \<noteq> Parsed i) \<and> FloatOf env s = Some f) \<or>
        (\<exists>s n. a = a0\<lparr>Tval := Some (zero_interval\<lparr>Seconds := s, Nanoseconds := n\<rparr>)\<rparr> \<and> unat s < 2 ^ 63)"
    unfolding json_attr_def by blast
  from SetKey_fields [OF a0 assms(2)] obtain k sk where
    shape: "a0 = zero_attribute\<lparr>Key := k, Skey := sk\<rparr>" and sk: "StringKey m a0 = Inr name" by blast
  have key: "StringKey m a = Inr name"
    using a sk StringKey_keys [of a a0 m] by auto
  have set: "SetKey m' zero_attribute name = Inr a0" if "Version m' = Version m" for m'
    using SetKey_version [OF that] a0 by simp
  have tree: "attr_tree a = t" if "attr_tree a = t" for t using that .
  note free = shape zero_attribute_def
  have pe: "parse_entry env (name, v) m' = (case v of
           JNum num \<Rightarrow> add_number env m' name num
         | JObj imap \<Rightarrow> add_object m' name imap
         | _ \<Rightarrow> map_sum id fst (Add m' name (json_val v)))" for v m'
    using assms(3) by (simp add: parse_entry_def reserved_def split: json.split)
  from a show thesis
  proof (elim disjE exE conjE)
    fix i assume a: "a = a0\<lparr>Ival := Some i\<rparr>"
    show thesis
    proof (rule that [OF key])
      show "to_json env (attr_tree a) = Some (JNum (FormatInt i))" by (simp add: a attr_tree_def)
      show "json_ok (JNum (FormatInt i))" by (simp add: FormatInt_def number_text_int_dec)
      show "Version m' = Version m \<Longrightarrow>
          parse_entry env (name, sort_objects (JNum (FormatInt i))) m' = Inr (append_attr m' a)" for m'
        using set [of m'] by (simp add: pe add_number_def AddInt_def a)
    qed
  next
    fix b assume a: "a = a0\<lparr>Boolval := Some b\<rparr>"
    show thesis
    proof (rule that [OF key])
      show "to_json env (attr_tree a) = Some (JBool b)" by (simp add: a attr_tree_def free)
      show "json_ok (JBool b)" by simp
      show "Version m' = Version m \<Longrightarrow>
          parse_entry env (name, sort_objects (JBool b)) m' = Inr (append_attr m' a)" for m'
        using set [of m'] by (simp add: pe add_scalar [of _ "VBool b"] scalar_attr_def a)
    qed
  next
    fix s assume a: "a = a0\<lparr>Sval := Some s\<rparr>" and "list_all is_ascii s"
    show thesis
    proof (rule that [OF key])
      show "to_json env (attr_tree a) = Some (JStr s)" by (simp add: a attr_tree_def free)
      show "json_ok (JStr s)" using \<open>list_all is_ascii s\<close> by simp
      show "Version m' = Version m \<Longrightarrow>
          parse_entry env (name, sort_objects (JStr s)) m' = Inr (append_attr m' a)" for m'
        using set [of m'] by (simp add: pe add_scalar [of _ "VString s"] scalar_attr_def a)
    qed
  next
    fix bs assume a: "a = a0\<lparr>Bval := Some bs\<rparr>"
    show thesis
    proof (rule that [OF key])
      show "to_json env (attr_tree a) = Some (JObj [(''bytes'', JStr (b64_encode bs))])"
        by (simp add: a attr_tree_def free)
      show "json_ok (JObj [(''bytes'', JStr (b64_encode bs))])"
        by (simp add: b64_is_ascii) (simp add: is_ascii_def)
      show "Version m' = Version m \<Longrightarrow>
          parse_entry env (name, sort_objects (JObj [(''bytes'', JStr (b64_encode bs))])) m' = Inr (append_attr m' a)" for m'
        using set [of m'] by (simp add: pe add_object_def AddBytes_def a)
    qed
  next
    fix f s assume a: "a = a0\<lparr>Fval := Some f\<rparr>" and f: "FloatText env f = Some s" "number_text s"
      "\<forall>i. ParseInt10 64 s \<noteq> Parsed i" "FloatOf env s = Some f"
    show thesis
    proof (rule that [OF key])
      show "to_json env (attr_tree a) = Some (JNum s)" using f(1) by (simp add: a attr_tree_def free)
      show "json_ok (JNum s)" using f(2) by simp
      show "Version m' = Version m \<Longrightarrow>
          parse_entry env (name, sort_objects (JNum s)) m' = Inr (append_attr m' a)" for m'
        using set [of m'] f(3,4) by (cases "ParseInt10 64 s") (auto simp: pe add_number_def AddFloat_def a)
    qed
  next
    fix s n assume a: "a = a0\<lparr>Tval := Some (zero_interval\<lparr>Seconds := s, Nanoseconds := n\<rparr>)\<rparr>" and s: "unat s < 2 ^ 63"
    let ?ps = "[(''seconds'', nat_json (unat s)), (''nanoseconds'', nat_json (unat n))]"
    show thesis
    proof (rule that [OF key])
      show "to_json env (attr_tree a) = Some (JObj ?ps)"
        by (simp add: a attr_tree_def free zero_interval_def)
      show "json_ok (JObj ?ps)"
        by (simp add: nat_json_def number_text_nat_dec) (simp add: is_ascii_def)
      fix m' :: "'a message"
      assume "Version m' = Version m"
      have n: "unat n < 2 ^ 63" using unsigned_less [of n, where 'a = nat] by simp
      have "sort_objects (JObj ?ps) = JObj (sort_key fst ?ps)" by (simp add: nat_json_def)
      moreover have "add_object m' name (sort_key fst ?ps) = add_object m' name ?ps"
        by (rule add_object_cong [OF map_of_sort]) (simp_all add: nat_json_def)
      ultimately show "parse_entry env (name, sort_objects (JObj ?ps)) m' = Inr (append_attr m' a)"
        using set [OF \<open>Version m' = Version m\<close>] ParseInt10_nat_dec [OF s] ParseInt10_nat_dec [OF n]
        by (simp add: pe add_object_def nat_json_def int64_or_invalid_def AddInterval_def a zero_interval_def)
    qed
  qed
qed

definition plain_tag :: "tag \<Rightarrow> bool" where
  "plain_tag t \<longleftrightarrow> TUnrecognized t = [] \<and> list_all is_ascii (TName t) \<and>
     (case TValue t of None \<Rightarrow> True | Some v \<Rightarrow> v \<noteq> ''true'' \<and> list_all is_ascii v)"

text \<open>The messages that JSON keeps, under the documented behaviour of the parameters.\<close>

definition json_readable :: "'ts json_env \<Rightarrow> 'ts message \<Rightarrow> bool" where
  "json_readable env m \<longleftrightarrow>
     Version m = DEFAULT_VERSION \<and> SessionId m = None \<and> MUnrecognized m = [] \<and>
     (\<exists>t. MType m = Some t \<and> t \<in> {LOG, METRIC, TRACE, AUDIT, HEARTBEAT}) \<and>
     (\<exists>ts. Timestamp m = Some ts \<and> ParseTime env (FormatTime env ts) = Inr ts \<and>
        list_all is_ascii (FormatTime env ts)) \<and>
     list_all plain_tag (Tags m) \<and> distinct (map TName (Tags m)) \<and>
     (\<exists>names. list_all2 (json_attr env m) names (Attributes m) \<and> distinct names \<and>
        (\<forall>n\<in>set names. CHR ''.'' \<notin> set n \<and> n \<notin> reserved \<and> list_all is_ascii n))"

definition map_order_ok :: "'ts json_env \<Rightarrow> bool" where
  "map_order_ok env \<longleftrightarrow> (\<forall>xs. mset (MapOrder env xs) = mset xs)"

lemma put_attrs_fresh:
  assumes "\<And>name a. (name, a) \<in> set (zip names as) \<Longrightarrow> StringKey m a = Inr name \<and> CHR ''.'' \<notin> set name"
    and "length names = length as" and "distinct (map fst p @ names)"
  shows "put_attrs m as p = Inr (p @ zip names (map attr_tree as))"
  using assms
proof (induction as arbitrary: names p)
  case (Cons a as)
  then obtain name ns where n: "names = name # ns" by (cases names) auto
  with Cons have "StringKey m a = Inr name" "put_key name (attr_tree a) p = p @ [(name, attr_tree a)]"
    by (auto simp: put_key_def ContainsByte_def update_fresh)
  moreover have "put_attrs m as (p @ [(name, attr_tree a)]) = Inr ((p @ [(name, attr_tree a)]) @ zip ns (map attr_tree as))"
    using Cons.prems n by (intro Cons.IH) auto
  ultimately show ?case by (simp add: n)
qed simp

lemma tag_pairs_distinct:
  assumes "distinct (map TName ts)"
  shows "tag_pairs ts = map (\<lambda>t. (TName t, case TValue t of None \<Rightarrow> ''true'' | Some v \<Rightarrow> v)) ts"
proof -
  have "distinct (map fst acc @ map TName ts) \<Longrightarrow>
    foldl (\<lambda>acc t. AList.update (TName t) (case TValue t of None \<Rightarrow> ''true'' | Some v \<Rightarrow> v) acc) acc ts
      = acc @ map (\<lambda>t. (TName t, case TValue t of None \<Rightarrow> ''true'' | Some v \<Rightarrow> v)) ts" for acc
  proof (induction ts arbitrary: acc)
    case (Cons t ts)
    then show ?case by (simp add: update_fresh)
  qed simp
  from this [of "[]"] assms show ?thesis by (simp add: tag_pairs_def)
qed

lemma to_members_append:
  "to_members env ps = Some js \<Longrightarrow> to_members env qs = Some ks \<Longrightarrow> to_members env (ps @ qs) = Some (js @ ks)"
  by (induction ps arbitrary: js) (auto split: option.splits)

lemma to_members_zip:
  "list_all2 (\<lambda>t j. to_json env t = Some j) ts js \<Longrightarrow> length names = length ts \<Longrightarrow>
   to_members env (zip names ts) = Some (zip names js)"
  by (induction ts js arbitrary: names rule: list_all2_induct) (auto simp: length_Suc_conv)

text \<open>What one entry of the object does to the message.\<close>

definition effect ::
  "(string \<Rightarrow> attribute) \<Rightarrow> u32 option \<Rightarrow> 'ts \<Rightarrow> tag list \<Rightarrow> string \<Rightarrow> 'ts message \<Rightarrow> 'ts message" where
  "effect A ty ts F key m =
     (if key = ''@version'' then m
      else if key = ''@type'' then (case ty of Some t \<Rightarrow> m\<lparr>MType := Some t\<rparr> | None \<Rightarrow> m)
      else if key = ''@timestamp'' then m\<lparr>Timestamp := Some ts\<rparr>
      else if key = ''@tags'' then m\<lparr>Tags := Tags m @ F\<rparr>
      else append_attr m (A key))"

lemma Version_effect [simp]: "Version (effect A ty ts F key m) = Version m"
  by (simp add: effect_def append_attr_def split: option.split)

lemma parse_entries_effect:
  assumes "\<And>k v m'. (k, v) \<in> set es \<Longrightarrow> Version m' = Version m \<Longrightarrow>
     parse_entry env (k, v) m' = Inr (effect A ty ts F k m')"
  shows "parse_entries env es m = Inr (fold (effect A ty ts F) (map fst es) m)"
  using assms by (induction es arbitrary: m) auto

lemma fold_effect:
  fixes f :: "string list \<Rightarrow> 'ts message \<Rightarrow> 'ts message"
  assumes f_def: "f = fold (effect A ty ts F)"
  shows "Version (f ks m) = Version m" "SessionId (f ks m) = SessionId m"
    "MUnrecognized (f ks m) = MUnrecognized m"
    "Attributes (f ks m) = Attributes m @ map A (filter (\<lambda>k. k \<notin> reserved) ks)"
    "Tags (f ks m) = Tags m @ concat (replicate (count_list ks ''@tags'') F)"
    "MType (f ks m) = (if ''@type'' \<in> set ks \<and> ty \<noteq> None then ty else MType m)"
    "Timestamp (f ks m) = (if ''@timestamp'' \<in> set ks then Some ts else Timestamp m)"
  unfolding f_def
  by (induction ks arbitrary: m) (auto simp: effect_def reserved_def append_attr_def split: option.split)

definition tag_json :: "tag \<Rightarrow> string \<times> json" where
  "tag_json t = (TName t, JStr (case TValue t of None \<Rightarrow> ''true'' | Some v \<Rightarrow> v))"

lemma tags_read:
  assumes "list_all plain_tag ts" and "mset ps = mset (map tag_json ts)"
  shows "mset (concat (map json_tag ps)) = mset ts"
proof -
  have one: "json_tag p = [hd (json_tag p)]" if "p \<in> set ps" for p
    using that assms(2) [THEN mset_eq_setD] by (auto simp: tag_json_def json_tag_def)
  have "concat (map json_tag ps) = concat (map (\<lambda>p. [hd (json_tag p)]) ps)"
    using one by (metis (no_types, lifting) map_cong)
  also have "\<dots> = map (\<lambda>p. hd (json_tag p)) ps" by (induction ps) auto
  finally have "mset (concat (map json_tag ps)) = image_mset (\<lambda>p. hd (json_tag p)) (mset (map tag_json ts))"
    using assms(2) by (metis mset_map)
  also have "\<dots> = image_mset (\<lambda>t. hd (json_tag (tag_json t))) (mset ts)"
    by (simp add: image_mset.compositionality comp_def)
  also have "\<dots> = image_mset id (mset ts)"
  proof (rule image_mset_cong)
    fix t assume "t \<in># mset ts"
    then have "plain_tag t" using assms(1) by (simp add: list_all_iff)
    then show "hd (json_tag (tag_json t)) = id t"
      by (auto simp: plain_tag_def tag_json_def json_tag_def zero_tag_def split: option.splits)
  qed
  finally show ?thesis by simp
qed

lemma StringType_named:
  "GetType m = t \<Longrightarrow> t \<in> {LOG, METRIC, TRACE, AUDIT, HEARTBEAT} \<Longrightarrow>
   named_type (StringType m) = (if t = LOG then None else Some t) \<and> list_all is_ascii (StringType m)"
  by (auto simp: named_type_def StringType_def type_codes is_ascii_def)

definition json_entries :: "'ts json_env \<Rightarrow> 'ts message \<Rightarrow> 'ts \<Rightarrow> (string \<times> json) list \<Rightarrow> (string \<times> json) list" where
  "json_entries env m ts as =
     [(''@timestamp'', JStr (FormatTime env ts)), (''@type'', JStr (StringType m)), (''@version'', JStr ''1'')]
     @ (if Tags m = [] then [] else [(''@tags'', JObj (map tag_json (Tags m)))]) @ as"

lemma reserved_names [simp]:
  "''@timestamp'' \<in> reserved" "''@type'' \<in> reserved" "''@version'' \<in> reserved" "''@tags'' \<in> reserved"
  by (simp_all add: reserved_def)

lemma MarshalJSON_entries:
  assumes "Timestamp m = Some ts" and "distinct (map TName (Tags m))" and "distinct names"
    and "\<And>name a. (name, a) \<in> set (zip names (Attributes m)) \<Longrightarrow> StringKey m a = Inr name"
    and "\<And>name. name \<in> set names \<Longrightarrow> CHR ''.'' \<notin> set name \<and> name \<notin> reserved"
    and "list_all2 (\<lambda>t j. to_json env t = Some j) (map attr_tree (Attributes m)) js"
    and "length names = length (Attributes m)"
  shows "MarshalJSON env m = Inr (str_bytes (json_marshal (JObj (json_entries env m ts (zip names js)))))"
proof -
  let ?base = "[(''@timestamp'', JtString (FormatTime env ts)), (''@type'', JtString (StringType m)),
                   (''@version'', JtString ''1'')]"
  let ?tags = "if Tags m = [] then [] else [(''@tags'', JtTags (tag_pairs (Tags m)))]"
  have upd: "(if Tags m \<noteq> [] then AList.update ''@tags'' (JtTags (tag_pairs (Tags m))) ?base else ?base) = ?base @ ?tags"
    by (simp add: update_fresh)
  have "distinct (map fst (?base @ ?tags) @ names)"
    using assms(3,5) by (auto simp: reserved_def)
  then have "put_attrs m (Attributes m) (?base @ ?tags) = Inr ((?base @ ?tags) @ zip names (map attr_tree (Attributes m)))"
    by (intro put_attrs_fresh) (use assms(4,5,7) in \<open>auto dest: set_zip_leftD\<close>)
  then have map: "SimpleJSONMap env m = Inr ((?base @ ?tags) @ zip names (map attr_tree (Attributes m)))"
    unfolding SimpleJSONMap_def assms(1) option.case Let_def upd .
  have "to_members env (?base @ ?tags) = Some ([(''@timestamp'', JStr (FormatTime env ts)),
      (''@type'', JStr (StringType m)), (''@version'', JStr ''1'')]
     @ (if Tags m = [] then [] else [(''@tags'', JObj (map tag_json (Tags m)))]))"
    using tag_pairs_distinct [OF assms(2)] by (simp add: tag_json_def comp_def)
  from to_members_append [OF this to_members_zip [OF assms(6)], of names] assms(7)
  have "to_members env ((?base @ ?tags) @ zip names (map attr_tree (Attributes m))) = Some (json_entries env m ts (zip names js))"
    by (simp add: json_entries_def)
  with map show ?thesis by (simp add: MarshalJSON_def)
qed

lemma json_entries_keys:
  "length names = length js \<Longrightarrow> map fst (json_entries env m ts (zip names js)) =
     [''@timestamp'', ''@type'', ''@version''] @ (if Tags m = [] then [] else [''@tags'']) @ names"
  by (simp add: json_entries_def)

lemma ParseSimpleJSON_entries:
  assumes "json_ok (JObj es)" and "map_order_ok env"
    and "\<And>k v m'. (k, v) \<in> set es \<Longrightarrow> Version m' = DEFAULT_VERSION \<Longrightarrow>
      parse_entry env (k, sort_objects v) m' = Inr (effect A ty ts F k m')"
  obtains ks where "mset ks = mset (map fst es)"
    "ParseSimpleJSON env (str_bytes (json_marshal (JObj es))) =
       Inr (complete_message env (fold (effect A ty ts F) ks (zero_message\<lparr>Version := DEFAULT_VERSION\<rparr>)))"
proof -
  let ?ps = "MapOrder env (sort_key fst (map (\<lambda>(k, v). (k, sort_objects v)) es))"
  have ms: "mset ?ps = mset (map (\<lambda>(k, v). (k, sort_objects v)) es)"
    using assms(2) by (simp add: map_order_ok_def)
  have "mset (map fst ?ps) = image_mset fst (mset (map (\<lambda>(k, v). (k, sort_objects v)) es))"
    by (simp only: mset_map [of fst ?ps] ms)
  also have "\<dots> = mset (map fst es)"
    by (simp add: image_mset.compositionality comp_def case_prod_beta)
  finally have keys: "mset (map fst ?ps) = mset (map fst es)" .
  have "parse_entries env ?ps (zero_message\<lparr>Version := DEFAULT_VERSION\<rparr>)
      = Inr (fold (effect A ty ts F) (map fst ?ps) (zero_message\<lparr>Version := DEFAULT_VERSION\<rparr>))"
  proof (rule parse_entries_effect)
    fix k v and m' :: "'a message"
    assume "(k, v) \<in> set ?ps"
    then have "(k, v) \<in> set (map (\<lambda>(k, v). (k, sort_objects v)) es)"
      using ms by (metis set_mset_mset)
    moreover assume "Version m' = Version (zero_message\<lparr>Version := DEFAULT_VERSION\<rparr> :: 'a message)"
    ultimately show "parse_entry env (k, v) m' = Inr (effect A ty ts F k m')"
      using assms(3) by auto
  qed
  with json_decode_marshal [OF assms(1), of "[]"] that [OF keys] show thesis
    by (simp add: ParseSimpleJSON_def)
qed

lemma json_attrs:
  assumes "list_all2 (json_attr env m) names (Attributes m)" and "distinct names"
    and "\<forall>n\<in>set names. n \<notin> reserved" and "known_version m"
  obtains js A where "list_all2 (\<lambda>t j. to_json env t = Some j) (map attr_tree (Attributes m)) js"
    "length names = length js" "map A names = Attributes m"
    "\<And>n a. (n, a) \<in> set (zip names (Attributes m)) \<Longrightarrow> StringKey m a = Inr n"
    "\<And>n j. (n, j) \<in> set (zip names js) \<Longrightarrow> json_ok j"
    "\<And>n j m'. (n, j) \<in> set (zip names js) \<Longrightarrow> Version m' = Version m \<Longrightarrow>
       parse_entry env (n, sort_objects j) m' = Inr (append_attr m' (A n))"
proof -
  have len: "length names = length (Attributes m)" using assms(1) by (rule list_all2_lengthD)
  define J where "J = (\<lambda>a. the (to_json env (attr_tree a)))"
  define A where "A = (\<lambda>n. the (map_of (zip names (Attributes m)) n))"
  have A: "A n = a" if "(n, a) \<in> set (zip names (Attributes m))" for n a
    using that assms(2) len by (simp add: A_def map_of_eq_Some_iff [THEN iffD2])
  have attr: "StringKey m a = Inr n \<and> to_json env (attr_tree a) = Some (J a) \<and> json_ok (J a) \<and>
      (\<forall>m'. Version m' = Version m \<longrightarrow> parse_entry env (n, sort_objects (J a)) m' = Inr (append_attr m' a))"
    if na: "(n, a) \<in> set (zip names (Attributes m))" for n a
  proof -
    have "json_attr env m n a" "n \<notin> reserved"
      using na assms(1,3) by (auto simp: list_all2_iff dest: set_zip_leftD)
    then obtain j where "StringKey m a = Inr n" "to_json env (attr_tree a) = Some j" "json_ok j"
      "\<And>m'. Version m' = Version m \<Longrightarrow> parse_entry env (n, sort_objects j) m' = Inr (append_attr m' a)"
      using assms(4) by (metis attr_entry)
    then show ?thesis by (simp add: J_def)
  qed
  have zip: "\<exists>a. (n, a) \<in> set (zip names (Attributes m)) \<and> j = J a" if "(n, j) \<in> set (zip names (map J (Attributes m)))" for n j
    using that by (auto simp: zip_map2)
  show thesis
  proof (rule that [of "map J (Attributes m)" A])
    show "list_all2 (\<lambda>t j. to_json env t = Some j) (map attr_tree (Attributes m)) (map J (Attributes m))"
      using attr len by (fastforce simp: list_all2_conv_all_nth set_zip)
    show "map A names = Attributes m"
      using A len by (intro nth_equalityI) (auto simp: set_zip)
    show "json_ok j" if "(n, j) \<in> set (zip names (map J (Attributes m)))" for n j
      using zip [OF that] attr by blast
    show "parse_entry env (n, sort_objects j) m' = Inr (append_attr m' (A n))"
      if "(n, j) \<in> set (zip names (map J (Attributes m)))" "Version m' = Version m" for n j m'
      using zip [OF that(1)] attr A that(2) by blast
  qed (use attr len in auto)
qed

lemma json_entries_cases:
  "(k, v) \<in> set (json_entries env m ts as) \<Longrightarrow>
   (k = ''@timestamp'' \<and> v = JStr (FormatTime env ts)) \<or> (k = ''@type'' \<and> v = JStr (StringType m)) \<or>
   k = ''@version'' \<or> (k = ''@tags'' \<and> v = JObj (map tag_json (Tags m))) \<or> (k, v) \<in> set as"
  by (simp add: json_entries_def split: if_splits) blast+

lemma filter_mset_names:
  "\<forall>n\<in>set names. n \<notin> R \<Longrightarrow> filter_mset (\<lambda>k. k \<notin> R) (mset names) = mset names"
  by (metis filter_mset_cong filter_mset_True set_mset_mset)

lemma json_entries_ok:
  assumes "list_all plain_tag (Tags m)" and "distinct (map TName (Tags m))"
    and "list_all is_ascii (FormatTime env ts)" and "list_all is_ascii (StringType m)"
    and "\<forall>n\<in>set names. n \<notin> reserved \<and> list_all is_ascii n" and "distinct names"
    and "\<And>n j. (n, j) \<in> set (zip names js) \<Longrightarrow> json_ok j" and "length names = length js"
  shows "json_ok (JObj (json_entries env m ts (zip names js)))"
proof -
  have "distinct (map fst (json_entries env m ts (zip names js)))"
    unfolding json_entries_keys [OF assms(8)] using assms(5,6) by (auto simp: reserved_def)
  moreover have "json_ok (JObj (map tag_json (Tags m)))"
    using assms(1,2) by (auto simp: list_all_iff tag_json_def comp_def plain_tag_def is_ascii_def split: option.splits)
  moreover have "list_all (\<lambda>(k, v). list_all is_ascii k \<and> json_ok v) (zip names js)"
    using assms(5,7) by (auto simp: list_all_iff dest: set_zip_leftD)
  ultimately show ?thesis
    using assms(3,4) by (simp add: json_entries_def) (simp add: is_ascii_def)
qed

lemma json_entry_effect:
  assumes "(k, v) \<in> set (json_entries env m ts (zip names js))"
    and "ParseTime env (FormatTime env ts) = Inr ts"
    and "\<forall>n\<in>set names. n \<notin> reserved"
    and "\<And>n j. (n, j) \<in> set (zip names js) \<Longrightarrow> parse_entry env (n, sort_objects j) m' = Inr (append_attr m' (A n))"
  shows "parse_entry env (k, sort_objects v) m' = Inr (effect A (named_type (StringType m)) ts
     (concat (map json_tag (MapOrder env (sort_key fst (map tag_json (Tags m)))))) k m')"
proof -
  have sort_tags: "sort_objects (JObj (map tag_json (Tags m))) = JObj (sort_key fst (map tag_json (Tags m)))"
    by (simp add: tag_json_def [abs_def] comp_def case_prod_beta)
  consider "k = ''@timestamp''" "v = JStr (FormatTime env ts)" | "k = ''@type''" "v = JStr (StringType m)"
    | "k = ''@version''" | "k = ''@tags''" "v = JObj (map tag_json (Tags m))" | "(k, v) \<in> set (zip names js)"
    using json_entries_cases [OF assms(1)] by blast
  then show ?thesis
  proof cases
    case 5
    then have "k \<notin> reserved" using assms(3) by (auto dest: set_zip_leftD)
    then show ?thesis using assms(4) [OF 5] by (simp add: effect_def reserved_def)
  qed (simp_all add: parse_entry_def effect_def assms(2) sort_tags del: sort_objects.simps(2) split: option.split)
qed

text \<open>
  C7: the JSON round trip. MarshalJSON writes every message of the current version that has a
  timestamp RFC 3339 keeps, one of the five types, no session id, ASCII strings, distinct tag
  names and distinct attribute names without dots or reserved names, whose intervals fit an
  int64 and whose floats do not print as integers; ParseSimpleJSON reads the text back as the
  same message, up to the order of attributes and tags, in whatever order Go ranges over maps.
\<close>

theorem json_roundtrip:
  assumes "json_readable env m" and "map_order_ok env"
  shows "\<exists>data as' ts'. MarshalJSON env m = Inr data \<and>
     ParseSimpleJSON env data = Inr (m\<lparr>Attributes := as', Tags := ts'\<rparr>) \<and>
     mset as' = mset (Attributes m) \<and> mset ts' = mset (Tags m)"
proof -
  from assms(1) obtain t ts names where
    ver: "Version m = DEFAULT_VERSION" and rest: "SessionId m = None" "MUnrecognized m = []"
    and t: "MType m = Some t" "t \<in> {LOG, METRIC, TRACE, AUDIT, HEARTBEAT}"
    and ts: "Timestamp m = Some ts" "ParseTime env (FormatTime env ts) = Inr ts" "list_all is_ascii (FormatTime env ts)"
    and tags: "list_all plain_tag (Tags m)" "distinct (map TName (Tags m))"
    and names: "list_all2 (json_attr env m) names (Attributes m)" "distinct names"
      "\<forall>n\<in>set names. CHR ''.'' \<notin> set n \<and> n \<notin> reserved \<and> list_all is_ascii n"
    unfolding json_readable_def by blast
  have kn: "known_version m" by (simp add: known_version_def ver DEFAULT_VERSION_def)
  obtain js A where js: "list_all2 (\<lambda>t j. to_json env t = Some j) (map attr_tree (Attributes m)) js"
      "length names = length js" "map A names = Attributes m"
      "\<And>n a. (n, a) \<in> set (zip names (Attributes m)) \<Longrightarrow> StringKey m a = Inr n"
    and entry: "\<And>n j. (n, j) \<in> set (zip names js) \<Longrightarrow> json_ok j"
      "\<And>n j m'. (n, j) \<in> set (zip names js) \<Longrightarrow> Version m' = Version m \<Longrightarrow>
         parse_entry env (n, sort_objects j) m' = Inr (append_attr m' (A n))"
    by (rule json_attrs [OF names(1,2) _ kn]) (use names(3) in auto)
  let ?es = "json_entries env m ts (zip names js)"
  define F where "F = concat (map json_tag (MapOrder env (sort_key fst (map tag_json (Tags m)))))"
  have F: "mset F = mset (Tags m)"
    unfolding F_def using assms(2) tags(1) by (intro tags_read) (simp_all add: map_order_ok_def)
  note ty = StringType_named [of m t]
  have type: "GetType m = t" by (simp add: GetType_def t(1))
  have ok: "json_ok (JObj ?es)"
    by (rule json_entries_ok [OF tags ts(3) _ _ names(2) entry(1) js(2)]) (use ty [OF type t(2)] names(3) in blast)+
  have "parse_entry env (k, sort_objects v) m' = Inr (effect A (named_type (StringType m)) ts F k m')"
    if "(k, v) \<in> set ?es" "Version m' = DEFAULT_VERSION" for k v m'
    using json_entry_effect [OF that(1) ts(2), of m' A] entry(2) names(3) ver that(2)
    unfolding F_def by simp
  then obtain ks where ks: "mset ks = mset (map fst ?es)" and
    read: "ParseSimpleJSON env (str_bytes (json_marshal (JObj ?es))) =
       Inr (complete_message env (fold (effect A (named_type (StringType m)) ts F) ks (zero_message\<lparr>Version := DEFAULT_VERSION\<rparr>)))"
    using ParseSimpleJSON_entries [OF ok assms(2), of A "named_type (StringType m)" ts F] by blast
  note keys = ks [unfolded json_entries_keys [OF js(2)]]
  define as' where "as' = map A (filter (\<lambda>k. k \<notin> reserved) ks)"
  define ts' where "ts' = concat (replicate (count_list ks ''@tags'') F)"
  have "mset as' = image_mset A (filter_mset (\<lambda>k. k \<notin> reserved) (mset ks))"
    by (simp add: as'_def)
  also have "\<dots> = mset (map A names)"
    using names(3) unfolding keys by (simp add: filter_mset_names)
  finally have "mset as' = mset (Attributes m)" by (simp only: js(3))
  moreover have "mset ts' = mset (Tags m)"
  proof -
    have "count_list ks ''@tags'' = count (mset ks) ''@tags''" by (simp add: count_mset)
    also have "\<dots> = (if Tags m = [] then 0 else 1)"
      using names(3) unfolding keys by (auto simp: count_mset count_list_0_iff)
    finally show ?thesis using F by (simp add: ts'_def)
  qed
  moreover have "complete_message env (fold (effect A (named_type (StringType m)) ts F) ks
      (zero_message\<lparr>Version := DEFAULT_VERSION\<rparr>)) = m\<lparr>Attributes := as', Tags := ts'\<rparr>"
  proof -
    have "''@type'' \<in># mset ks" "''@timestamp'' \<in># mset ks" unfolding keys by simp_all
    then show ?thesis
      using ty [OF type t(2)] ver rest t ts(1)
      by (intro message.equality)
        (auto simp: complete_message_def fold_effect [OF refl] as'_def ts'_def zero_message_def Let_def)
  qed
  moreover have "MarshalJSON env m = Inr (str_bytes (json_marshal (JObj ?es)))"
    using names(3) by (intro MarshalJSON_entries [OF ts(1) tags(2) names(2) js(4) _ js(1)])
      (auto simp: list_all2_lengthD [OF names(1)])
  ultimately show ?thesis using read by metis
qed

text \<open>Parameters for the witnesses: a timestamp is written in decimal, and maps are ranged over backwards.\<close>

definition plain_json :: "nat json_env" where
  "plain_json = \<lparr>JsonNow = 0, FormatTime = nat_dec, ParseTime = (\<lambda>s. Inr (digits_val s)),
     FloatText = (\<lambda>_. None), FloatOf = (\<lambda>_. None), MapOrder = rev\<rparr>"

theorem json_roundtrip_witness:
  "\<exists>data as' ts'. MarshalJSON plain_json ((Log 7)\<lparr>Attributes := [zero_attribute\<lparr>Key := 8, Ival := Some 7\<rparr>],
       Tags := [zero_tag\<lparr>TName := ''b''\<rparr>]\<rparr>) = Inr data \<and>
     ParseSimpleJSON plain_json data = Inr ((Log 7)\<lparr>Attributes := as', Tags := ts'\<rparr>) \<and>
     mset as' = {#zero_attribute\<lparr>Key := 8, Ival := Some 7\<rparr>#} \<and> mset ts' = {#zero_tag\<lparr>TName := ''b''\<rparr>#}"
proof -
  let ?m = "(Log 7 :: nat message)\<lparr>Attributes := [zero_attribute\<lparr>Key := 8, Ival := Some 7\<rparr>],
       Tags := [zero_tag\<lparr>TName := ''b''\<rparr>]\<rparr>"
  have "SetKey ?m zero_attribute ''pid'' = Inr (zero_attribute\<lparr>Key := 8\<rparr>)" by code_simp
  then have "json_attr plain_json ?m ''pid'' (zero_attribute\<lparr>Key := 8, Ival := Some 7\<rparr>)"
    unfolding json_attr_def by (intro exI [of _ "zero_attribute\<lparr>Key := 8\<rparr>"] conjI disjI1 exI [of _ 7]) simp_all
  then have "\<exists>names. list_all2 (json_attr plain_json ?m) names (Attributes ?m) \<and> distinct names \<and>
      (\<forall>n\<in>set names. CHR ''.'' \<notin> set n \<and> n \<notin> reserved \<and> list_all is_ascii n)"
    by (intro exI [of _ "[''pid'']"]) (simp add: reserved_def is_ascii_def)
  moreover have "list_all is_ascii (nat_dec 7)" by (simp add: nat_dec.simps digit_char_def is_ascii_def)
  ultimately have "json_readable plain_json ?m"
    unfolding json_readable_def by (simp add: Log_def zero_message_def plain_json_def plain_tag_def zero_tag_def is_ascii_def)
  moreover have "map_order_ok plain_json" by (simp add: map_order_ok_def plain_json_def)
  ultimately show ?thesis using json_roundtrip [of plain_json ?m] by simp
qed

text \<open>
  what JSON does not keep. A null value panics (reflection on a nil), a number inside a
  nested object comes back as a string, a dotted name lands beside the scalar that is in its
  way, a session id is not written, and an interval of 2 to the 63 seconds or more is written
  but cannot be read.
\<close>

lemma json_losses:
  "ParseSimpleJSON plain_json (str_bytes (json_text (JObj [(''k'', JNull)])))
     = Inl (Panic ''reflect: call of Value.Type on zero Value'') \<and>
   ParseSimpleJSON plain_json (str_bytes (json_text (JObj [(''geo'', JObj [(''lat'', JNum ''38'')])])))
     = Inr ((Log 0)\<lparr>Attributes := [zero_attribute\<lparr>Skey := Some ''geo.lat'', Sval := Some ''38''\<rparr>]\<rparr>) \<and>
   put_key ''a.b'' (JtInt 2) (put_key ''a'' (JtInt 1) []) = [(''a'', JtInt 1), (''b'', JtInt 2)] \<and>
   SimpleJSONMap env (m\<lparr>SessionId := s\<rparr>) = SimpleJSONMap env m \<and>
   (let iv = zero_interval\<lparr>Seconds := 0x8000000000000000\<rparr>
    in \<exists>j. to_json env (attr_tree (zero_attribute\<lparr>Key := 8, Tval := Some iv\<rparr>)) = Some j \<and>
         parse_entry env (''pid'', j) m = Inl (Err ErrInvalidMessage))"
proof (intro conjI)
  have "put_attrs (m\<lparr>SessionId := s\<rparr>) as p = put_attrs m as p" for as p
    by (induction as arbitrary: p) (auto simp: StringKey_version [of "m\<lparr>SessionId := s\<rparr>" m] intro!: bindR_cong)
  moreover have "StringType (m\<lparr>SessionId := s\<rparr>) = StringType m"
    unfolding StringType_def GetType_def by simp
  ultimately show "SimpleJSONMap env (m\<lparr>SessionId := s\<rparr>) = SimpleJSONMap env m"
    by (cases "Timestamp m") (simp_all add: SimpleJSONMap_def Let_def)
next
  have "ParseInt10 64 (nat_dec (2 ^ 63)) = OutOfRange (2 ^ 63 - 1)"
  proof -
    obtain c q where cq: "nat_dec (2 ^ 63) = c # q" by (cases "nat_dec (2 ^ 63)") auto
    note digits = nat_dec_hd [of "2 ^ 63", unfolded cq list.sel] nat_dec_digits [of "2 ^ 63", unfolded cq]
      digits_val_nat_dec [of "2 ^ 63", unfolded cq]
    show ?thesis unfolding cq using digits by (simp add: ParseInt10_def)
  qed
  then show "let iv = zero_interval\<lparr>Seconds := 0x8000000000000000\<rparr>
    in \<exists>j. to_json env (attr_tree (zero_attribute\<lparr>Key := 8, Tval := Some iv\<rparr>)) = Some j \<and>
         parse_entry env (''pid'', j) m = Inl (Err ErrInvalidMessage)"
    by (simp add: attr_tree_def zero_attribute_def parse_entry_def add_object_def nat_json_def int64_or_invalid_def)
qed code_simp+

end
