(* ===== verification/Streams.thy ===== *)
theory Streams
  imports KVParse Json Wire
begin

text \<open>
  Streams of messages: compress.go, probe.go, peek.go, header.go, encoder.go, decoder.go,
  stream_encoder.go, stream_decoder.go and recv.go. A reader is what it still delivers and the
  error it ends with; a writer below the program is what has been written to it and the number
  of writes it still takes. Snappy and zlib are parameters: what a write adds to their output,
  and what a reader makes of compressed bytes. The buffers of pbBufPool hold 128 bytes or more.
\<close>

section \<open>Readers and writers\<close>

record source =
  Data :: bytes
  AtEnd :: go_err

record sink =
  Out :: bytes
  Quota :: nat

definition w_write :: "sink \<Rightarrow> bytes \<Rightarrow> sink \<times> go_err option" where
  "w_write w d =
     (if Quota w = 0 then (w, Some (OtherErr ''write'')) else (w\<lparr>Out := Out w @ d, Quota := Quota w - 1\<rparr>, None))"

text \<open>io.ReadFull, and one byte read with Read.\<close>

definition read_full :: "nat \<Rightarrow> source \<Rightarrow> bytes result \<times> source" where
  "read_full n r =
     (if n \<le> length (Data r) then (Inr (take n (Data r)), r\<lparr>Data := drop n (Data r)\<rparr>)
      else (Inl (Err (if Data r \<noteq> [] \<and> AtEnd r = EOF then UnexpectedEOF else AtEnd r)), r\<lparr>Data := []\<rparr>))"

definition read_byte :: "source \<Rightarrow> byte result \<times> source" where
  "read_byte r = (case Data r of [] \<Rightarrow> (Inl (Err (AtEnd r)), r) | b # bs \<Rightarrow> (Inr b, r\<lparr>Data := bs\<rparr>))"

text \<open>A varint from a reader; after an error, what is left behind the bytes that were looked at.\<close>

definition source_uvarint :: "source \<Rightarrow> u64 result \<times> source" where
  "source_uvarint r =
     (case ReadUvarint (Data r) of
        Inr (x, rest) \<Rightarrow> (Inr x, r\<lparr>Data := rest\<rparr>)
      | Inl e \<Rightarrow> (Inl (if e = Err EOF then Err (AtEnd r) else e),
                  r\<lparr>Data := drop 1 (dropWhile (\<lambda>b. \<not> b < 0x80) (Data r))\<rparr>))"

section \<open>compress.go\<close>

record 'z codecs =
  SnappyNew :: 'z
  SnappyWrite :: "'z \<Rightarrow> bytes \<Rightarrow> 'z \<times> bytes"
  SnappyRead :: "source \<Rightarrow> source"
  ZlibNew :: 'z
  ZlibWrite :: "'z \<Rightarrow> bytes \<Rightarrow> 'z \<times> bytes"
  ZlibFlush :: "'z \<Rightarrow> 'z \<times> bytes"
  ZlibClose :: "'z \<Rightarrow> bytes"
  ZlibRead :: "source \<Rightarrow> source result"

text \<open>
  The three writers that WriteCompressed returns: bufWriter over a bufio.Writer (its buffer and
  its sticky error), snappyWriter (its own buffer) and zlib (with its sticky error).
\<close>

datatype 'z cwriter =
    BufW bytes "go_err option"
  | SnappyW bytes 'z
  | ZlibW 'z "go_err option"

definition bufio_size :: nat where "bufio_size = 4096"
definition defaultSnappyChunkBuffer :: nat where "defaultSnappyChunkBuffer = 1024 * 10"

definition WriteCompressed :: "'z codecs \<Rightarrow> u32 \<Rightarrow> 'z cwriter result" where
  "WriteCompressed cd cmp =
     (if cmp = StreamHeader_NONE then Inr (BufW [] None)
      else if cmp = StreamHeader_SNAPPY then Inr (SnappyW [] (SnappyNew cd))
      else if cmp = StreamHeader_ZLIB then Inr (ZlibW (ZlibNew cd) None)
      else Inl (Panic ''unknown compression requested''))"

definition ReadCompressed :: "'z codecs \<Rightarrow> source \<Rightarrow> u32 \<Rightarrow> source result" where
  "ReadCompressed cd r cmp =
     (if cmp = StreamHeader_NONE then Inr r
      else if cmp = StreamHeader_SNAPPY then Inr (SnappyRead cd r)
      else if cmp = StreamHeader_ZLIB then
        (case ZlibRead cd r of Inl (Err e) \<Rightarrow> Inl (Panic ''zlib'') | x \<Rightarrow> x)
      else Inl (Panic ''unknown compression requested''))"

text \<open>
  bufio.Writer.Write: what does not fit into the buffer fills it and flushes it; with an empty
  buffer it goes straight to the writer below. An error stays.
\<close>

definition bufio_put :: "bytes \<Rightarrow> bytes \<Rightarrow> sink \<Rightarrow> (bytes \<times> sink) \<times> go_err option" where
  "bufio_put buf d w =
     (if length d \<le> bufio_size - length buf then ((buf @ d, w), None)
      else if buf = [] then (case w_write w d of (w', e) \<Rightarrow> (([], w'), e))
      else
        (let n = bufio_size - length buf in
         case w_write w (buf @ take n d) of
           (w', Some e) \<Rightarrow> ((buf @ take n d, w'), Some e)
         | (w', None) \<Rightarrow>
             if length (drop n d) \<le> bufio_size then ((drop n d, w'), None)
             else (case w_write w' (drop n d) of (w'', e) \<Rightarrow> (([], w''), e))))"

text \<open>The bytes a compressor emits reach the writer below in one write, if there are any.\<close>

definition emit :: "sink \<Rightarrow> bytes \<Rightarrow> sink \<times> go_err option" where
  "emit w d = (if d = [] then (w, None) else w_write w d)"

definition snappyWriter_Flush :: "'z codecs \<Rightarrow> bytes \<Rightarrow> 'z \<Rightarrow> sink \<Rightarrow> ('z cwriter \<times> sink) \<times> go_err option" where
  "snappyWriter_Flush cd buf z w =
     (if buf \<noteq> [] then
        (case SnappyWrite cd z buf of (z', out) \<Rightarrow> case emit w out of (w', e) \<Rightarrow> ((SnappyW [] z', w'), e))
      else ((SnappyW buf z, w), None))"

definition snappyWriter_Write ::
  "'z codecs \<Rightarrow> bytes \<Rightarrow> 'z \<Rightarrow> sink \<Rightarrow> bytes \<Rightarrow> ('z cwriter \<times> sink) \<times> go_err option" where
  "snappyWriter_Write cd buf z w d =
     (if length (buf @ d) < defaultSnappyChunkBuffer then ((SnappyW (buf @ d) z, w), None)
      else (case SnappyWrite cd z (buf @ d) of (z', out) \<Rightarrow>
        case emit w out of
          (w', Some e) \<Rightarrow> ((SnappyW (buf @ d) z', w'), Some e)
        | (w', None) \<Rightarrow> ((SnappyW [] z', w'), None)))"

definition cw_write :: "'z codecs \<Rightarrow> 'z cwriter \<times> sink \<Rightarrow> bytes \<Rightarrow> ('z cwriter \<times> sink) \<times> go_err option" where
  "cw_write cd cw d =
     (case cw of
        (BufW buf (Some e), w) \<Rightarrow> ((BufW buf (Some e), w), Some e)
      | (BufW buf None, w) \<Rightarrow> (case bufio_put buf d w of ((buf', w'), e) \<Rightarrow> ((BufW buf' e, w'), e))
      | (SnappyW buf z, w) \<Rightarrow> snappyWriter_Write cd buf z w d
      | (ZlibW z (Some e), w) \<Rightarrow> ((ZlibW z (Some e), w), Some e)
      | (ZlibW z None, w) \<Rightarrow>
          (case ZlibWrite cd z d of (z', out) \<Rightarrow> case emit w out of (w', e) \<Rightarrow> ((ZlibW z' e, w'), e)))"

definition cw_flush :: "'z codecs \<Rightarrow> 'z cwriter \<times> sink \<Rightarrow> ('z cwriter \<times> sink) \<times> go_err option" where
  "cw_flush cd cw =
     (case cw of
        (BufW buf (Some e), w) \<Rightarrow> ((BufW buf (Some e), w), Some e)
      | (BufW buf None, w) \<Rightarrow>
          if buf = [] then ((BufW [] None, w), None)
          else (case w_write w buf of
              (w', None) \<Rightarrow> ((BufW [] None, w'), None) | (w', Some e) \<Rightarrow> ((BufW buf (Some e), w'), Some e))
      | (SnappyW buf z, w) \<Rightarrow> snappyWriter_Flush cd buf z w
      | (ZlibW z (Some e), w) \<Rightarrow> ((ZlibW z (Some e), w), Some e)
      | (ZlibW z None, w) \<Rightarrow>
          (case ZlibFlush cd z of (z', out) \<Rightarrow> case emit w out of (w', e) \<Rightarrow> ((ZlibW z' e, w'), e)))"

text \<open>Close: bufWriter and snappyWriter flush; zlib finishes its stream.\<close>

definition cw_close :: "'z codecs \<Rightarrow> 'z cwriter \<times> sink \<Rightarrow> ('z cwriter \<times> sink) \<times> go_err option" where
  "cw_close cd cw =
     (case cw of
        (ZlibW z None, w) \<Rightarrow> (case emit w (ZlibClose cd z) of (w', e) \<Rightarrow> ((ZlibW z e, w'), e))
      | _ \<Rightarrow> cw_flush cd cw)"

section \<open>header.go and probe.go\<close>

record 'ts stream_env =
  Ops :: "'ts ts_ops"
  Kv :: "'ts kv_env"
  Js :: "'ts json_env"
  MaxAlloc :: nat

definition pool_buffer :: nat where "pool_buffer = 128"

text \<open>A byte slice of n bytes, from the pool or made; beyond what the run-time gives, make panics.\<close>

definition make_bytes :: "'ts stream_env \<Rightarrow> nat \<Rightarrow> unit result" where
  "make_bytes env n =
     (if n \<le> pool_buffer \<or> n \<le> MaxAlloc env then Inr () else Inl (Panic ''makeslice: len out of range''))"

text \<open>
  UnmarshalFrom: a size of 2 to the 63 or more is a negative int, so that no buffer is made for
  it and the slice expression panics.
\<close>

definition StreamHeader_UnmarshalFrom ::
  "'ts stream_env \<Rightarrow> stream_header \<Rightarrow> source \<Rightarrow> stream_header result option \<times> source" where
  "StreamHeader_UnmarshalFrom env h r =
     (case source_uvarint r of
        (Inl e, r1) \<Rightarrow> (Some (Inl e), r1)
      | (Inr sz, r1) \<Rightarrow>
          if sint sz < 0 then (Some (Inl (Panic ''slice bounds out of range'')), r1)
          else (case make_bytes env (unat sz) of
            Inl e \<Rightarrow> (Some (Inl e), r1)
          | Inr _ \<Rightarrow>
              (case read_full (unat sz) r1 of
                 (Inl e, r2) \<Rightarrow> (Some (Inl e), r2)
               | (Inr buf, r2) \<Rightarrow> (StreamHeader_Unmarshal h buf, r2))))"

text \<open>
  Probe: the first byte is the mark of a header, or it is put back in front of the stream
  (bytePeekReader). The answer has the header and the stream behind it.
\<close>

definition Probe_Probe ::
  "'ts stream_env \<Rightarrow> source \<Rightarrow> stream_header result option \<times> source" where
  "Probe_Probe env r =
     (case read_byte r of
        (Inl e, r1) \<Rightarrow> (Some (Inl e), r1)
      | (Inr b, r1) \<Rightarrow>
          if b \<noteq> of_char CHR ''-'' then (Some (Inr zero_header), r)
          else StreamHeader_UnmarshalFrom env zero_header r1)"

definition Probe_Reader :: "'z codecs \<Rightarrow> stream_header \<Rightarrow> source \<Rightarrow> source result" where
  "Probe_Reader cd h r = ReadCompressed cd r (GetCompression h)"

definition Probe_Writer :: "'z codecs \<Rightarrow> stream_header \<Rightarrow> 'z cwriter result" where
  "Probe_Writer cd h = WriteCompressed cd (GetCompression h)"

section \<open>encoder.go\<close>

text \<open>
  Encode over any writer: the mark and the size, then the body. A message that cannot be
  marshalled leaves the first part behind.
\<close>

definition Encoder_Encode ::
  "('w \<Rightarrow> bytes \<Rightarrow> 'w \<times> go_err option) \<Rightarrow> 'ts ts_ops \<Rightarrow> 'w \<Rightarrow> 'ts message \<Rightarrow> 'w \<times> u64 result" where
  "Encoder_Encode write ops w m =
     (let sz = Message_Size ops m in
      case write w (of_char CHR ''+'' # PutUvarint (of_nat sz)) of
        (w1, Some e) \<Rightarrow> (w1, Inl (Err e))
      | (w1, None) \<Rightarrow>
          (case bindR (Message_MarshalTo ops m) (into_buffer (max pool_buffer sz)) of
             Inl e \<Rightarrow> (w1, Inl e)
           | Inr body \<Rightarrow>
               (case write w1 body of
                  (w2, Some e) \<Rightarrow> (w2, Inl (Err e))
                | (w2, None) \<Rightarrow> (w2, Inr (of_nat sz + 5)))))"

definition KVEncoder_Encode ::
  "('w \<Rightarrow> bytes \<Rightarrow> 'w \<times> go_err option) \<Rightarrow> 'ts printers \<Rightarrow> 'w \<Rightarrow> 'ts message \<Rightarrow> 'w \<times> u64 result" where
  "KVEncoder_Encode write p w m =
     (case KVString p m of
        Inl e \<Rightarrow> (w, Inl e)
      | Inr str \<Rightarrow>
          (fst (write (fst (write w (str_bytes str))) [0x0A]), Inr (of_nat (length str + 1))))"

section \<open>decoder.go\<close>

datatype decoder_kind = Unprobed | Native | KeyValue kvparser | JSON "go_err option" | BareLines

record decoder =
  DSrc :: source
  DKind :: decoder_kind

definition NewDecoder :: "source \<Rightarrow> decoder" where
  "NewDecoder r = \<lparr>DSrc = r, DKind = Unprobed\<rparr>"

definition Decoder_probe :: "decoder \<Rightarrow> decoder result" where
  "Decoder_probe d =
     (case Data (DSrc d) of
        [] \<Rightarrow> Inl (Err (AtEnd (DSrc d)))
      | b # _ \<Rightarrow>
          Inr (d\<lparr>DKind :=
            (if b = of_char CHR ''+'' then Native
             else if b = of_char CHR ''>'' then KeyValue (NewKVParser (Data (DSrc d)))
             else if b = of_char CHR ''{'' then JSON None
             else BareLines)\<rparr>))"

definition decodeNative :: "'ts stream_env \<Rightarrow> source \<Rightarrow> 'ts message result option \<times> source" where
  "decodeNative env r =
     (case read_byte r of
        (Inl e, r0) \<Rightarrow> (Some (Inl e), r0)
      | (Inr b, r0) \<Rightarrow>
          if b \<noteq> of_char CHR ''+'' then (Some (Inl (Err ErrUnknownStreamType)), r0)
          else (case source_uvarint r0 of
              (Inl e, r1) \<Rightarrow> (Some (Inl e), r1)
            | (Inr dataLen, r1) \<Rightarrow>
                (case make_bytes env (unat dataLen) of
                   Inl e \<Rightarrow> (Some (Inl e), r1)
                 | Inr _ \<Rightarrow>
                     (case read_full (unat dataLen) r1 of
                        (Inl e, r2) \<Rightarrow> (Some (Inl e), r2)
                      | (Inr sbuf, r2) \<Rightarrow>
                          (Message_Unmarshal (Ops env) (zero_message\<lparr>Version := DEFAULT_VERSION\<rparr>) sbuf, r2)))))"

definition decodeKV :: "'ts stream_env \<Rightarrow> kvparser \<Rightarrow> 'ts message result option \<times> kvparser" where
  "decodeKV env kv =
     (case KV_Generate (Kv env) kv of
        KvMessage m s \<Rightarrow> (Some (Inr m), kv\<lparr>KScan := s\<rparr>)
      | KvErr e s \<Rightarrow> (Some (Inl (Err e)), kv\<lparr>KScan := s\<rparr>)
      | KvPanic f \<Rightarrow> (Some (Inl f), kv)
      | Hang \<Rightarrow> (None, kv))"

text \<open>
  The json.Decoder keeps an error of the text it reads; an error of UnmarshalJSON is not one.
\<close>

definition decodeJSON ::
  "'ts stream_env \<Rightarrow> source \<Rightarrow> go_err option \<Rightarrow> 'ts message result \<times> source \<times> go_err option" where
  "decodeJSON env r sticky =
     (case sticky of
        Some e \<Rightarrow> (Inl (Err e), r, sticky)
      | None \<Rightarrow>
          (case json_decode (bytes_str (Data r)) of
             Inl (Err e) \<Rightarrow>
               let e' = (if AtEnd r \<noteq> EOF \<and> (e = EOF \<or> e = UnexpectedEOF) then AtEnd r else e)
               in (Inl (Err e'), r, Some e')
           | Inl f \<Rightarrow> (Inl f, r, sticky)
           | Inr (_, rest) \<Rightarrow>
               (bindR (UnmarshalJSON (Js env) zero_message (Data r)) (\<lambda>m. Inr (m\<lparr>Version := DEFAULT_VERSION\<rparr>)),
                r\<lparr>Data := drop (length (Data r) - length rest) (Data r)\<rparr>, sticky)))"

definition decodeBare :: "'ts stream_env \<Rightarrow> source \<Rightarrow> 'ts message result \<times> source" where
  "decodeBare env r =
     (if (0x0A :: byte) \<in> set (Data r) then
        (let line = bytes_str (takeWhile (\<lambda>b. b \<noteq> 0x0A) (Data r))
         in (map_sum id fst (Add (Log (Now (Kv env))) ''message''
               (VString (TrimRightIf (\<lambda>c. c \<in> {CHR '' '', CHR 0x09, CHR 0x0A}) (line @ [CHR 0x0A])))),
             r\<lparr>Data := drop 1 (dropWhile (\<lambda>b. b \<noteq> 0x0A) (Data r))\<rparr>))
      else (Inl (Err (AtEnd r)), r\<lparr>Data := []\<rparr>))"

definition Decoder_run :: "'ts stream_env \<Rightarrow> decoder \<Rightarrow> 'ts message result option \<times> decoder" where
  "Decoder_run env d =
     (case DKind d of
        KeyValue kv \<Rightarrow> (case decodeKV env kv of (x, kv') \<Rightarrow> (x, d\<lparr>DKind := KeyValue kv'\<rparr>))
      | JSON e \<Rightarrow> (case decodeJSON env (DSrc d) e of (x, r, e') \<Rightarrow> (Some x, d\<lparr>DSrc := r, DKind := JSON e'\<rparr>))
      | BareLines \<Rightarrow> (case decodeBare env (DSrc d) of (x, r) \<Rightarrow> (Some x, d\<lparr>DSrc := r\<rparr>))
      | _ \<Rightarrow> (case decodeNative env (DSrc d) of (x, r) \<Rightarrow> (x, d\<lparr>DSrc := r\<rparr>)))"

definition Decoder_Decode :: "'ts stream_env \<Rightarrow> decoder \<Rightarrow> 'ts message result option \<times> decoder" where
  "Decoder_Decode env d =
     (if DKind d = Unprobed then
        (case Decoder_probe d of Inl e \<Rightarrow> (Some (Inl e), d) | Inr d' \<Rightarrow> Decoder_run env d')
      else Decoder_run env d)"

section \<open>stream_encoder.go\<close>

text \<open>
  The encoder in use: native or KV text straight to the writer, or native to the writer that
  compresses. A writer that compresses is always one that can be flushed.
\<close>

datatype enc_kind = RawNative | RawKV | Wrapped

record 'z stream_encoder =
  SE_W :: sink
  SE_EW :: "'z cwriter option"
  SE_Enc :: enc_kind
  SE_Encoded :: u64

definition NewStreamEncoder :: "bool \<Rightarrow> sink \<Rightarrow> 'z stream_encoder" where
  "NewStreamEncoder stdout_tty w =
     \<lparr>SE_W = w, SE_EW = None, SE_Enc = (if stdout_tty then RawKV else RawNative), SE_Encoded = 0\<rparr>"

definition wrap_writer :: "'z codecs \<Rightarrow> u32 \<Rightarrow> 'z stream_encoder \<Rightarrow> 'z stream_encoder \<times> unit result" where
  "wrap_writer cd c s =
     (case WriteCompressed cd c of
        Inl e \<Rightarrow> (s, Inl e)
      | Inr ew \<Rightarrow> (s\<lparr>SE_EW := Some ew, SE_Enc := Wrapped\<rparr>, Inr ()))"

definition header_mark :: bytes where "header_mark = [of_char CHR ''-'']"

definition WriteCustomHeader ::
  "'z codecs \<Rightarrow> stream_header \<Rightarrow> 'z stream_encoder \<Rightarrow> 'z stream_encoder \<times> unit result" where
  "WriteCustomHeader cd hdr s =
     (case w_write (SE_W s) header_mark of
        (w1, Some e) \<Rightarrow> (s\<lparr>SE_W := w1\<rparr>, Inl (Err e))
      | (w1, None) \<Rightarrow>
          (case StreamHeader_Marshal hdr of
             Inl e \<Rightarrow> (s\<lparr>SE_W := w1\<rparr>, Inl e)
           | Inr data \<Rightarrow>
               (case w_write w1 (PutUvarint (of_nat (length data))) of
                  (w2, Some e) \<Rightarrow> (s\<lparr>SE_W := w2\<rparr>, Inl (Err e))
                | (w2, None) \<Rightarrow>
                    (case w_write w2 data of
                       (w3, Some e) \<Rightarrow> (s\<lparr>SE_W := w3\<rparr>, Inl (Err e))
                     | (w3, None) \<Rightarrow> wrap_writer cd (GetCompression hdr) (s\<lparr>SE_W := w3\<rparr>)))))"

definition StreamEncoder_Init :: "'z codecs \<Rightarrow> u32 \<Rightarrow> 'z stream_encoder \<Rightarrow> 'z stream_encoder \<times> unit result" where
  "StreamEncoder_Init cd c s = WriteCustomHeader cd (zero_header\<lparr>Compression := Some c\<rparr>) s"

text \<open>OpenFile: the file is probed from its start, and then left at its end.\<close>

definition OpenFile ::
  "'ts stream_env \<Rightarrow> 'z codecs \<Rightarrow> bytes \<Rightarrow> 'z stream_encoder \<Rightarrow> 'z stream_encoder \<times> unit result option" where
  "OpenFile env cd content s =
     (case fst (Probe_Probe env \<lparr>Data = content, AtEnd = EOF\<rparr>) of
        None \<Rightarrow> (s, None)
      | Some (Inl e) \<Rightarrow> (s, Some (Inl e))
      | Some (Inr h) \<Rightarrow> map_prod id Some (wrap_writer cd (GetCompression h) s))"

definition StreamEncoder_Receive ::
  "'z codecs \<Rightarrow> 'ts ts_ops \<Rightarrow> 'ts printers \<Rightarrow> 'z stream_encoder \<Rightarrow> 'ts message \<Rightarrow> 'z stream_encoder \<times> unit result" where
  "StreamEncoder_Receive cd ops p s m =
     (let (s1, cnt) =
        (case (SE_Enc s, SE_EW s) of
           (Wrapped, Some ew) \<Rightarrow>
             (case Encoder_Encode (cw_write cd) ops (ew, SE_W s) m of
                ((ew', w), cnt) \<Rightarrow> (s\<lparr>SE_EW := Some ew', SE_W := w\<rparr>, cnt))
         | (RawKV, _) \<Rightarrow>
             (case KVEncoder_Encode w_write p (SE_W s) m of (w, cnt) \<Rightarrow> (s\<lparr>SE_W := w\<rparr>, cnt))
         | _ \<Rightarrow> (case Encoder_Encode w_write ops (SE_W s) m of (w, cnt) \<Rightarrow> (s\<lparr>SE_W := w\<rparr>, cnt)))
      in case cnt of
           Inl e \<Rightarrow> (s1, Inl e)
         | Inr n \<Rightarrow> (s1\<lparr>SE_Encoded := SE_Encoded s1 + n\<rparr>, Inr ()))"

definition fault_of :: "go_err option \<Rightarrow> unit result" where
  "fault_of e = (case e of None \<Rightarrow> Inr () | Some e \<Rightarrow> Inl (Err e))"

text \<open>Close without a header is a call on a nil writer.\<close>

definition StreamEncoder_Close :: "'z codecs \<Rightarrow> 'z stream_encoder \<Rightarrow> 'z stream_encoder \<times> unit result" where
  "StreamEncoder_Close cd s =
     (case SE_EW s of
        None \<Rightarrow> (s, Inl (Panic ''nil pointer dereference''))
      | Some ew \<Rightarrow> (case cw_close cd (ew, SE_W s) of ((ew', w), e) \<Rightarrow> (s\<lparr>SE_EW := Some ew', SE_W := w\<rparr>, fault_of e)))"

definition StreamEncoder_Flush :: "'z codecs \<Rightarrow> 'z stream_encoder \<Rightarrow> 'z stream_encoder \<times> unit result" where
  "StreamEncoder_Flush cd s =
     (case SE_EW s of
        None \<Rightarrow> (s, Inr ())
      | Some ew \<Rightarrow> (case cw_flush cd (ew, SE_W s) of ((ew', w), e) \<Rightarrow> (s\<lparr>SE_EW := Some ew', SE_W := w\<rparr>, fault_of e)))"

text \<open>A tick of flushTimer, every five seconds: a flush whose error is dropped.\<close>

definition flushTimer :: "'z codecs \<Rightarrow> 'z stream_encoder \<Rightarrow> 'z stream_encoder" where
  "flushTimer cd s = fst (StreamEncoder_Flush cd s)"

section \<open>stream_decoder.go and recv.go\<close>

record stream_decoder =
  SD_R :: source
  SD_Init :: bool
  SD_Dec :: decoder
  SD_Header :: "stream_header option"

definition NewStreamDecoder :: "source \<Rightarrow> stream_decoder" where
  "NewStreamDecoder r = \<lparr>SD_R = r, SD_Init = False, SD_Dec = NewDecoder r, SD_Header = None\<rparr>"

text \<open>After a failed probe the decoder stays the one over the rest of the raw reader.\<close>

definition StreamDecoder_Probe ::
  "'ts stream_env \<Rightarrow> 'z codecs \<Rightarrow> stream_decoder \<Rightarrow> unit result option \<times> stream_decoder" where
  "StreamDecoder_Probe env cd s =
     (case Probe_Probe env (SD_R s) of
        (None, r) \<Rightarrow> (None, s\<lparr>SD_Init := True\<rparr>)
      | (Some (Inl e), r) \<Rightarrow> (Some (Inl e), s\<lparr>SD_Init := True, SD_R := r, SD_Dec := NewDecoder r\<rparr>)
      | (Some (Inr h), r) \<Rightarrow>
          (case Probe_Reader cd h r of
             Inl e \<Rightarrow> (Some (Inl e), s\<lparr>SD_Init := True, SD_R := r, SD_Header := Some h\<rparr>)
           | Inr r' \<Rightarrow> (Some (Inr ()), s\<lparr>SD_Init := True, SD_R := r, SD_Header := Some h, SD_Dec := NewDecoder r'\<rparr>)))"

definition StreamDecoder_Generate ::
  "'ts stream_env \<Rightarrow> 'z codecs \<Rightarrow> stream_decoder \<Rightarrow> 'ts message result option \<times> stream_decoder" where
  "StreamDecoder_Generate env cd s =
     (case (if SD_Init s then (Some (Inr ()), s) else StreamDecoder_Probe env cd s) of
        (None, s') \<Rightarrow> (None, s')
      | (Some (Inl e), s') \<Rightarrow> (Some (Inl e), s')
      | (Some (Inr _), s') \<Rightarrow>
          (case Decoder_Decode env (SD_Dec s') of (x, d) \<Rightarrow> (x, s'\<lparr>SD_Dec := d\<rparr>)))"

record recv =
  RDec :: stream_decoder
  RW :: sink

definition NewRecv :: "source \<Rightarrow> sink \<Rightarrow> recv" where
  "NewRecv r w = \<lparr>RDec = NewStreamDecoder r, RW = w\<rparr>"

definition reliableAckBytes :: bytes where "reliableAckBytes = [of_char CHR ''k'']"

definition sendAck :: "sink \<Rightarrow> sink" where
  "sendAck w = fst (w_write w reliableAckBytes)"

text \<open>GetMode of no header at all is RAW; the error of the ack is dropped.\<close>

definition is_reliable :: "stream_decoder \<Rightarrow> bool" where
  "is_reliable d \<longleftrightarrow> (case SD_Header d of None \<Rightarrow> False | Some h \<Rightarrow> GetMode h = StreamHeader_RELIABLE)"

definition Recv_Generate ::
  "'ts stream_env \<Rightarrow> 'z codecs \<Rightarrow> recv \<Rightarrow> 'ts message result option \<times> recv" where
  "Recv_Generate env cd r =
     (case StreamDecoder_Generate env cd (RDec r) of
        (Some (Inr m), d) \<Rightarrow> (Some (Inr m), r\<lparr>RDec := d, RW := if is_reliable d then sendAck (RW r) else RW r\<rparr>)
      | (x, d) \<Rightarrow> (x, r\<lparr>RDec := d\<rparr>))"

end
