(* ===== verification/StreamRoundtrip.thy ===== *)
theory StreamRoundtrip
  imports Streams
begin

text \<open>
  What a writer of messages owes its reader, proved once for any byte writer (locale
  byte_writer: a write that succeeds appends) and used for the raw writer and for the three
  that WriteCompressed makes; and the round trip of whole streams through StreamEncoder and
  StreamDecoder.
\<close>

definition frame :: "bytes \<Rightarrow> bytes" where
  "frame body = of_char CHR ''+'' # PutUvarint (of_nat (length body)) @ body"

locale byte_writer =
  fixes wr :: "'w \<Rightarrow> bytes \<Rightarrow> 'w \<times> go_err option"
    and holds :: "'w \<Rightarrow> bytes \<Rightarrow> bool"
  assumes write_holds: "wr w d = (w', None) \<Longrightarrow> holds w p \<Longrightarrow> holds w' (p @ d)"
begin

lemma Encode_frame:
  assumes "Encoder_Encode wr ops w m = (w', Inr n)" and "holds w p" and "ts_laws ops"
  obtains body where "Message_MarshalTo ops m = Inr body" "holds w' (p @ frame body)"
proof -
  from assms(1) obtain w1 body where
    w1: "wr w (of_char CHR ''+'' # PutUvarint (of_nat (Message_Size ops m))) = (w1, None)"
    and body: "Message_MarshalTo ops m = Inr body" and w2: "wr w1 body = (w', None)"
    by (auto simp: Encoder_Encode_def Let_def into_buffer_def bindR_eq_Inr_iff
        split: prod.splits option.splits sum.splits if_splits)
  have "Message_Size ops m = length body" using Message_Size_MarshalTo [OF assms(3) body] by simp
  with write_holds [OF w2 write_holds [OF w1 assms(2)]] have "holds w' (p @ frame body)"
    by (simp add: frame_def)
  with body show thesis by (rule that)
qed

end

interpretation raw: byte_writer w_write "\<lambda>w p. Out w = p"
  by unfold_locales (auto simp: w_write_def split: if_splits)

section \<open>What the compressing writers hold\<close>

fun run_codec :: "('z \<Rightarrow> 'd \<Rightarrow> 'z \<times> bytes) \<Rightarrow> 'z \<Rightarrow> 'd list \<Rightarrow> 'z \<times> bytes" where
  "run_codec f z [] = (z, [])"
| "run_codec f z (d # ds) =
     (case f z d of (z1, o1) \<Rightarrow> case run_codec f z1 ds of (z2, o2) \<Rightarrow> (z2, o1 @ o2))"

lemma run_codec_snoc:
  "run_codec f z ds = (z1, o1) \<Longrightarrow> f z1 d = (z2, o2) \<Longrightarrow> run_codec f z (ds @ [d]) = (z2, o1 @ o2)"
  by (induction ds arbitrary: z o1) (auto split: prod.splits)

text \<open>A write (Some) or a flush (None) of zlib.\<close>

definition zlib_step :: "'z codecs \<Rightarrow> 'z \<Rightarrow> bytes option \<Rightarrow> 'z \<times> bytes" where
  "zlib_step cd z d = (case d of Some x \<Rightarrow> ZlibWrite cd z x | None \<Rightarrow> ZlibFlush cd z)"

definition zlib_plain :: "bytes option list \<Rightarrow> bytes" where
  "zlib_plain ds = concat (map (\<lambda>d. case d of Some x \<Rightarrow> x | None \<Rightarrow> []) ds)"

text \<open>The documented behaviour of snappy and zlib: a reader gives back what was written.\<close>

definition codec_laws :: "'z codecs \<Rightarrow> bool" where
  "codec_laws cd \<longleftrightarrow>
     (\<forall>ds z out. run_codec (SnappyWrite cd) (SnappyNew cd) ds = (z, out) \<longrightarrow>
        SnappyRead cd \<lparr>Data = out, AtEnd = EOF\<rparr> = \<lparr>Data = concat ds, AtEnd = EOF\<rparr>) \<and>
     (\<forall>ds z out. run_codec (zlib_step cd) (ZlibNew cd) ds = (z, out) \<longrightarrow>
        ZlibRead cd \<lparr>Data = out @ ZlibClose cd z, AtEnd = EOF\<rparr> = Inr \<lparr>Data = zlib_plain ds, AtEnd = EOF\<rparr>)"

fun cw_rel :: "'z codecs \<Rightarrow> 'z cwriter \<Rightarrow> bytes \<Rightarrow> bytes \<Rightarrow> bool" where
  "cw_rel cd (BufW buf e) out p = (p = out @ buf)"
| "cw_rel cd (SnappyW buf z) out p =
     (\<exists>ds. run_codec (SnappyWrite cd) (SnappyNew cd) ds = (z, out) \<and> p = concat ds @ buf)"
| "cw_rel cd (ZlibW z e) out p = (\<exists>ds. run_codec (zlib_step cd) (ZlibNew cd) ds = (z, out) \<and> p = zlib_plain ds)"

definition cw_holds :: "'z codecs \<Rightarrow> bytes \<Rightarrow> 'z cwriter \<times> sink \<Rightarrow> bytes \<Rightarrow> bool" where
  "cw_holds cd hdr cw p \<longleftrightarrow> (\<exists>out. Out (snd cw) = hdr @ out \<and> cw_rel cd (fst cw) out p)"

lemma w_write_ok: "w_write w d = (w', None) \<Longrightarrow> Out w' = Out w @ d"
  by (auto simp: w_write_def split: if_splits)

lemma emit_ok: "emit w d = (w', None) \<Longrightarrow> Out w' = Out w @ d"
  by (auto simp: emit_def dest: w_write_ok split: if_splits)

lemma bufio_put_ok:
  "bufio_put buf d w = ((buf', w'), None) \<Longrightarrow> \<exists>o'. Out w' = Out w @ o' \<and> o' @ buf' = buf @ d"
  by (auto simp: bufio_put_def Let_def split: if_splits prod.splits option.splits dest!: w_write_ok)

lemma snappy_step:
  assumes "run_codec (SnappyWrite cd) (SnappyNew cd) ds = (z, out)" and "SnappyWrite cd z d = (z', o')"
  shows "cw_rel cd (SnappyW [] z') (out @ o') (concat ds @ d)"
  using run_codec_snoc [OF assms] by (auto intro!: exI [of _ "ds @ [d]"])

lemma cw_write_holds:
  assumes "cw_write cd cw d = (cw', None)" and "cw_holds cd hdr cw p"
  shows "cw_holds cd hdr cw' (p @ d)"
proof -
  obtain c w c' w' where cw: "cw = (c, w)" "cw' = (c', w')" by (cases cw; cases cw')
  from assms(2) obtain out where out: "Out w = hdr @ out" "cw_rel cd c out p"
    by (auto simp: cw_holds_def cw)
  show ?thesis
  proof (cases c)
    case (BufW buf e)
    with assms(1) obtain buf' where c': "bufio_put buf d w = ((buf', w'), None)" "c' = BufW buf' None"
      by (auto simp: cw_write_def cw split: option.splits prod.splits)
    from bufio_put_ok [OF c'(1)] obtain o' where "Out w' = Out w @ o'" "o' @ buf' = buf @ d" by blast
    with out BufW c'(2) show ?thesis by (auto simp: cw_holds_def cw)
  next
    case (SnappyW buf z)
    from out(2) SnappyW obtain ds where ds: "run_codec (SnappyWrite cd) (SnappyNew cd) ds = (z, out)"
      "p = concat ds @ buf" by auto
    obtain z' o' where s: "SnappyWrite cd z (buf @ d) = (z', o')" by (cases "SnappyWrite cd z (buf @ d)")
    show ?thesis
    proof (cases "length (buf @ d) < defaultSnappyChunkBuffer")
      case True
      with assms(1) SnappyW have "c' = SnappyW (buf @ d) z" "w' = w"
        by (auto simp: cw_write_def cw snappyWriter_Write_def)
      with ds out(1) show ?thesis by (auto simp: cw_holds_def cw)
    next
      case False
      with assms(1) SnappyW s have "c' = SnappyW [] z'" "emit w o' = (w', None)"
        by (auto simp: cw_write_def cw snappyWriter_Write_def split: prod.splits option.splits)
      with snappy_step [OF ds(1) s] out(1) ds(2) emit_ok show ?thesis
        by (auto simp: cw_holds_def cw simp del: cw_rel.simps)
    qed
  next
    case (ZlibW z e)
    from out(2) ZlibW obtain ds where ds: "run_codec (zlib_step cd) (ZlibNew cd) ds = (z, out)" "p = zlib_plain ds"
      by auto
    obtain z' o' where s: "ZlibWrite cd z d = (z', o')" by (cases "ZlibWrite cd z d")
    from run_codec_snoc [OF ds(1), of "Some d"] s
    have "run_codec (zlib_step cd) (ZlibNew cd) (ds @ [Some d]) = (z', out @ o')" by (simp add: zlib_step_def)
    moreover have "c' = ZlibW z' None" "emit w o' = (w', None)"
      using assms(1) ZlibW s by (auto simp: cw_write_def cw split: option.splits prod.splits)
    ultimately show ?thesis
      using ds(2) out(1) emit_ok by (fastforce simp: cw_holds_def cw zlib_plain_def intro: exI [of _ "ds @ [Some d]"])
  qed
qed

interpretation cw: byte_writer "cw_write cd" "cw_holds cd hdr" for cd hdr
  by unfold_locales (rule cw_write_holds)

lemma cw_flush_holds:
  assumes "cw_flush cd cw = (cw', None)" and "cw_holds cd hdr cw p"
  shows "cw_holds cd hdr cw' p"
proof -
  obtain c w c' w' where cw: "cw = (c, w)" "cw' = (c', w')" by (cases cw; cases cw')
  from assms(2) obtain out where out: "Out w = hdr @ out" "cw_rel cd c out p"
    by (auto simp: cw_holds_def cw)
  show ?thesis
  proof (cases c)
    case (BufW buf e)
    with assms(1) out show ?thesis
      by (auto simp: cw_flush_def cw cw_holds_def split: option.splits prod.splits if_splits dest!: w_write_ok)
  next
    case (SnappyW buf z)
    from out(2) SnappyW obtain ds where ds: "run_codec (SnappyWrite cd) (SnappyNew cd) ds = (z, out)"
      "p = concat ds @ buf" by auto
    obtain z' o' where s: "SnappyWrite cd z buf = (z', o')" by (cases "SnappyWrite cd z buf")
    show ?thesis
    proof (cases "buf = []")
      case True
      with assms(1) SnappyW have "c' = c" "w' = w"
        by (auto simp: cw_flush_def cw snappyWriter_Flush_def)
      with assms(2) show ?thesis by (simp add: cw)
    next
      case False
      with assms(1) SnappyW s have "c' = SnappyW [] z'" "emit w o' = (w', None)"
        by (auto simp: cw_flush_def cw snappyWriter_Flush_def split: prod.splits)
      with snappy_step [OF ds(1) s] out(1) ds(2) emit_ok show ?thesis
        by (auto simp: cw_holds_def cw simp del: cw_rel.simps)
    qed
  next
    case (ZlibW z e)
    from out(2) ZlibW obtain ds where ds: "run_codec (zlib_step cd) (ZlibNew cd) ds = (z, out)" "p = zlib_plain ds"
      by auto
    obtain z' o' where s: "ZlibFlush cd z = (z', o')" by (cases "ZlibFlush cd z")
    from run_codec_snoc [OF ds(1), of None] s
    have "run_codec (zlib_step cd) (ZlibNew cd) (ds @ [None]) = (z', out @ o')" by (simp add: zlib_step_def)
    moreover have "c' = ZlibW z' None" "emit w o' = (w', None)"
      using assms(1) ZlibW s by (auto simp: cw_flush_def cw split: option.splits prod.splits)
    ultimately show ?thesis
      using ds(2) out(1) emit_ok by (fastforce simp: cw_holds_def cw zlib_plain_def intro: exI [of _ "ds @ [None]"])
  qed
qed

fun kind_of :: "'z cwriter \<Rightarrow> u32" where
  "kind_of (BufW _ _) = StreamHeader_NONE"
| "kind_of (SnappyW _ _) = StreamHeader_SNAPPY"
| "kind_of (ZlibW _ _) = StreamHeader_ZLIB"

lemma kind_of_steps:
  "cw_write cd (c, w) d = ((c', w'), e) \<Longrightarrow> kind_of c' = kind_of c"
  "cw_flush cd (c, w) = ((c', w'), e) \<Longrightarrow> kind_of c' = kind_of c"
  by (cases c; force simp: cw_write_def snappyWriter_Write_def cw_flush_def snappyWriter_Flush_def
      split: option.splits prod.splits if_splits)+

text \<open>What is read after Close: everything that was written.\<close>

lemma cw_close_reads:
  assumes "codec_laws cd" and "cw_close cd (c, w) = ((c', w'), None)" and "cw_holds cd hdr (c, w) p"
  obtains out where "Out w' = hdr @ out"
    "ReadCompressed cd \<lparr>Data = out, AtEnd = EOF\<rparr> (kind_of c) = Inr \<lparr>Data = p, AtEnd = EOF\<rparr>"
proof (cases c)
  case (BufW buf e)
  with assms(2) have fl: "cw_flush cd (c, w) = ((c', w'), None)" by (simp add: cw_close_def)
  then have "cw_holds cd hdr (c', w') p" using assms(3) by (rule cw_flush_holds)
  moreover have "c' = BufW [] None"
    using fl BufW by (auto simp: cw_flush_def split: option.splits prod.splits if_splits)
  ultimately show thesis
    using that BufW by (auto simp: cw_holds_def ReadCompressed_def)
next
  case (SnappyW buf z)
  with assms(2) have fl: "cw_flush cd (c, w) = ((c', w'), None)" by (simp add: cw_close_def)
  then have "cw_holds cd hdr (c', w') p" using assms(3) by (rule cw_flush_holds)
  moreover obtain z' where "c' = SnappyW [] z'"
    using fl SnappyW by (auto simp: cw_flush_def snappyWriter_Flush_def split: prod.splits if_splits)
  ultimately obtain out ds where "Out w' = hdr @ out" "run_codec (SnappyWrite cd) (SnappyNew cd) ds = (z', out)"
    "p = concat ds" by (auto simp: cw_holds_def)
  with that SnappyW assms(1) show thesis
    by (auto simp: codec_laws_def ReadCompressed_def header_codes)
next
  case (ZlibW z e)
  with assms(2,3) obtain out ds where out: "Out w = hdr @ out" "run_codec (zlib_step cd) (ZlibNew cd) ds = (z, out)"
    "p = zlib_plain ds" and e: "emit w (ZlibClose cd z) = (w', None)"
    by (auto simp: cw_holds_def cw_close_def cw_flush_def split: option.splits prod.splits)
  from assms(1) out(2) have "ZlibRead cd \<lparr>Data = out @ ZlibClose cd z, AtEnd = EOF\<rparr> = Inr \<lparr>Data = zlib_plain ds, AtEnd = EOF\<rparr>"
    by (auto simp: codec_laws_def)
  with that [of "out @ ZlibClose cd z"] emit_ok [OF e] out ZlibW show thesis
    by (simp add: ReadCompressed_def header_codes)
qed

section \<open>Reading\<close>

lemma source_uvarint_put [simp]:
  "source_uvarint \<lparr>Data = PutUvarint x @ r, AtEnd = e\<rparr> = (Inr x, \<lparr>Data = r, AtEnd = e\<rparr>)"
  by (simp add: source_uvarint_def wire_simps)

lemma read_full_append [simp]:
  "read_full (length a) \<lparr>Data = a @ b, AtEnd = e\<rparr> = (Inr a, \<lparr>Data = b, AtEnd = e\<rparr>)"
  by (simp add: read_full_def)

text \<open>The messages a stream carries: they can be marshalled and fit the memory of the reader.\<close>

definition streamable :: "'ts stream_env \<Rightarrow> 'ts message \<Rightarrow> bool" where
  "streamable env m \<longleftrightarrow>
     message_ok m \<and> Version m = DEFAULT_VERSION \<and> Message_Size (Ops env) m < 2 ^ 63 \<and>
     Message_Size (Ops env) m \<le> MaxAlloc env"

lemma decode_frame:
  assumes "ts_laws (Ops env)" and "streamable env m" and "Message_MarshalTo (Ops env) m = Inr body"
    and "Data r = frame body @ rest" and "k = Native \<or> k = Unprobed"
  shows "Decoder_Decode env \<lparr>DSrc = r, DKind = k\<rparr> =
    (Some (Inr m), \<lparr>DSrc = r\<lparr>Data := rest\<rparr>, DKind = Native\<rparr>)"
proof -
  have len: "length body = Message_Size (Ops env) m" using assms(1,3) by (rule Message_Size_MarshalTo)
  then have small: "length body < 2 ^ 63" "length body \<le> MaxAlloc env" using assms(2) by (auto simp: streamable_def)
  have un: "unat (of_nat (length body) :: u64) = length body"
    using small(1) by (simp add: unat_of_nat)
  have "message_ok m" "Version m = DEFAULT_VERSION" using assms(2) by (auto simp: streamable_def)
  with Message_Unmarshal_MarshalTo [OF assms(1) _ assms(3) small(1), of DEFAULT_VERSION]
  have "Message_Unmarshal (Ops env) (zero_message\<lparr>Version := DEFAULT_VERSION\<rparr>) body = Some (Inr m)"
    by simp
  moreover obtain e where "r = \<lparr>Data = frame body @ rest, AtEnd = e\<rparr>" using assms(4) by (cases r) simp
  ultimately show ?thesis
    using assms(5) small(2)
    by (auto simp: Decoder_Decode_def Decoder_probe_def Decoder_run_def decodeNative_def read_byte_def
        frame_def make_bytes_def un)
qed

lemma probe_header:
  assumes "SHUnrecognized h = []"
  shows "Probe_Probe env \<lparr>Data = header_mark @ PutUvarint (of_nat (length (StreamHeader_MarshalTo h)))
      @ StreamHeader_MarshalTo h @ rest, AtEnd = e\<rparr> = (Some (Inr h), \<lparr>Data = rest, AtEnd = e\<rparr>)"
proof -
  have len: "length (StreamHeader_MarshalTo h) \<le> 22"
  proof -
    have "(case Compression h of None \<Rightarrow> 0 | Some c \<Rightarrow> 1 + sovLog (scast c)) \<le> 11"
      "(case Mode h of None \<Rightarrow> 0 | Some c \<Rightarrow> 1 + sovLog (scast c)) \<le> 11"
      using sovLog_le_10 by (auto split: option.split)
    then show ?thesis unfolding StreamHeader_Size_MarshalTo StreamHeader_Size_def assms by simp
  qed
  then have un: "unat (of_nat (length (StreamHeader_MarshalTo h)) :: u64) = length (StreamHeader_MarshalTo h)"
    by (simp add: unat_of_nat)
  then have "\<not> sint (of_nat (length (StreamHeader_MarshalTo h)) :: u64) < 0"
    using len by (simp add: sint_of_nat)
  then show ?thesis
    using len StreamHeader_Unmarshal_MarshalTo [OF assms]
    by (simp add: Probe_Probe_def read_byte_def header_mark_def StreamHeader_UnmarshalFrom_def un
        make_bytes_def pool_buffer_def)
qed

section \<open>Whole streams\<close>

datatype 'ts sending = Send "'ts message" | FlushNow

fun send_all :: "'z codecs \<Rightarrow> 'ts ts_ops \<Rightarrow> 'ts printers \<Rightarrow> 'ts sending list \<Rightarrow>
    'z stream_encoder \<Rightarrow> 'z stream_encoder \<times> unit result" where
  "send_all cd ops p [] s = (s, Inr ())"
| "send_all cd ops p (e # es) s =
     (case (case e of Send m \<Rightarrow> StreamEncoder_Receive cd ops p s m | FlushNow \<Rightarrow> StreamEncoder_Flush cd s) of
        (s', Inl f) \<Rightarrow> (s', Inl f)
      | (s', Inr _) \<Rightarrow> send_all cd ops p es s')"

definition sent :: "'ts sending list \<Rightarrow> 'ts message list" where
  "sent es = concat (map (\<lambda>e. case e of Send m \<Rightarrow> [m] | FlushNow \<Rightarrow> []) es)"

fun receive_all :: "'ts stream_env \<Rightarrow> 'z codecs \<Rightarrow> nat \<Rightarrow> stream_decoder \<Rightarrow>
    'ts message result option list \<times> stream_decoder" where
  "receive_all env cd 0 s = ([], s)"
| "receive_all env cd (Suc n) s =
     (case StreamDecoder_Generate env cd s of (x, s1) \<Rightarrow>
      case receive_all env cd n s1 of (xs, s2) \<Rightarrow> (x # xs, s2))"

definition holds_frames ::
  "'z codecs \<Rightarrow> 'ts ts_ops \<Rightarrow> bytes \<Rightarrow> u32 \<Rightarrow> 'z stream_encoder \<Rightarrow> 'ts message list \<Rightarrow> bool" where
  "holds_frames cd ops hdr k s ms \<longleftrightarrow>
     (\<exists>ew bodies. SE_EW s = Some ew \<and> SE_Enc s = Wrapped \<and> kind_of ew = k \<and>
        cw_holds cd hdr (ew, SE_W s) (concat (map frame bodies)) \<and>
        list_all2 (\<lambda>m b. Message_MarshalTo ops m = Inr b) ms bodies)"

lemma Receive_holds:
  assumes "StreamEncoder_Receive cd ops p s m = (s', Inr ())" and "holds_frames cd ops hdr k s ms" and "ts_laws ops"
  shows "holds_frames cd ops hdr k s' (ms @ [m])"
proof -
  from assms(2) obtain ew bodies where s: "SE_EW s = Some ew" "SE_Enc s = Wrapped" "kind_of ew = k"
    and h: "cw_holds cd hdr (ew, SE_W s) (concat (map frame bodies))"
    and b: "list_all2 (\<lambda>m b. Message_MarshalTo ops m = Inr b) ms bodies"
    by (auto simp: holds_frames_def)
  from assms(1) obtain ew' w' n where e: "Encoder_Encode (cw_write cd) ops (ew, SE_W s) m = ((ew', w'), Inr n)"
    and s': "s' = s\<lparr>SE_EW := Some ew', SE_W := w', SE_Encoded := SE_Encoded s + n\<rparr>"
    by (auto simp: StreamEncoder_Receive_def s split: prod.splits sum.splits)
  from cw.Encode_frame [OF e h assms(3)] obtain body where
    "Message_MarshalTo ops m = Inr body" "cw_holds cd hdr (ew', w') (concat (map frame bodies) @ frame body)" .
  moreover have "kind_of ew' = kind_of ew"
    using e by (auto simp: Encoder_Encode_def Let_def split: prod.splits option.splits sum.splits dest!: kind_of_steps(1))
  ultimately show ?thesis
    using s b by (auto simp: holds_frames_def s' intro!: exI [of _ "bodies @ [body]"] list_all2_appendI)
qed

lemma Flush_holds:
  assumes "StreamEncoder_Flush cd s = (s', Inr ())" and "holds_frames cd ops hdr k s ms"
  shows "holds_frames cd ops hdr k s' ms"
proof -
  from assms(2) obtain ew bodies where s: "SE_EW s = Some ew" "SE_Enc s = Wrapped" "kind_of ew = k"
    and h: "cw_holds cd hdr (ew, SE_W s) (concat (map frame bodies))"
    and b: "list_all2 (\<lambda>m b. Message_MarshalTo ops m = Inr b) ms bodies"
    by (auto simp: holds_frames_def)
  from assms(1) obtain ew' w' where e: "cw_flush cd (ew, SE_W s) = ((ew', w'), None)"
    and s': "s' = s\<lparr>SE_EW := Some ew', SE_W := w'\<rparr>"
    by (auto simp: StreamEncoder_Flush_def s fault_of_def split: prod.splits option.splits)
  from cw_flush_holds [OF e h] kind_of_steps(2) [OF e] s b show ?thesis
    by (auto simp: holds_frames_def s')
qed

lemma send_all_holds:
  assumes "send_all cd ops p es s = (s', Inr ())" and "holds_frames cd ops hdr k s ms" and "ts_laws ops"
  shows "holds_frames cd ops hdr k s' (ms @ sent es)"
  using assms
proof (induction es arbitrary: s ms)
  case (Cons e es)
  then show ?case
  proof (cases e)
    case (Send m)
    with Cons.prems obtain s1 where "StreamEncoder_Receive cd ops p s m = (s1, Inr ())"
      "send_all cd ops p es s1 = (s', Inr ())" by (auto split: prod.splits sum.splits)
    with Cons.IH [of s1 "ms @ [m]"] Receive_holds Cons.prems(2,3) Send show ?thesis
      by (fastforce simp: sent_def)
  next
    case FlushNow
    with Cons.prems obtain s1 where "StreamEncoder_Flush cd s = (s1, Inr ())"
      "send_all cd ops p es s1 = (s', Inr ())" by (auto split: prod.splits sum.splits)
    with Cons.IH [of s1 ms] Flush_holds Cons.prems(2,3) FlushNow show ?thesis
      by (fastforce simp: sent_def)
  qed
qed (simp add: sent_def)

lemma WriteCustomHeader_holds:
  assumes "WriteCustomHeader cd h (NewStreamEncoder tty \<lparr>Out = [], Quota = q\<rparr>) = (s, Inr ())"
  shows "holds_frames cd ops (header_mark @ PutUvarint (of_nat (length (StreamHeader_MarshalTo h)))
      @ StreamHeader_MarshalTo h) (GetCompression h) s []"
  using assms
  by (auto simp: WriteCustomHeader_def NewStreamEncoder_def StreamHeader_Marshal_def into_buffer_def
      wrap_writer_def WriteCompressed_def holds_frames_def cw_holds_def zlib_plain_def
      split: prod.splits option.splits sum.splits if_splits dest!: w_write_ok
      intro!: exI [of _ "[]"])

lemma decode_frames:
  assumes "ts_laws (Ops env)" and "list_all (streamable env) ms"
    and "list_all2 (\<lambda>m b. Message_MarshalTo (Ops env) m = Inr b) ms bodies"
    and "SD_Init s" "SD_Dec s = \<lparr>DSrc = \<lparr>Data = concat (map frame bodies), AtEnd = EOF\<rparr>, DKind = k\<rparr>"
    and "k = Native \<or> k = Unprobed"
  shows "fst (receive_all env cd (Suc (length ms)) s) = map (\<lambda>m. Some (Inr m)) ms @ [Some (Inl (Err EOF))]"
  using assms
proof (induction ms arbitrary: bodies s k)
  case Nil
  then show ?case
    by (auto simp: StreamDecoder_Generate_def Decoder_Decode_def Decoder_probe_def Decoder_run_def
        decodeNative_def read_byte_def split: prod.splits)
next
  case (Cons m ms)
  then obtain b bs where bodies: "bodies = b # bs" "Message_MarshalTo (Ops env) m = Inr b"
    "list_all2 (\<lambda>m b. Message_MarshalTo (Ops env) m = Inr b) ms bs" by (auto simp: list_all2_Cons1)
  let ?s1 = "s\<lparr>SD_Dec := \<lparr>DSrc = \<lparr>Data = concat (map frame bs), AtEnd = EOF\<rparr>, DKind = Native\<rparr>\<rparr>"
  have "StreamDecoder_Generate env cd s = (Some (Inr m), ?s1)"
    using decode_frame [OF Cons.prems(1) _ bodies(2), of "\<lparr>Data = concat (map frame bodies), AtEnd = EOF\<rparr>"
      "concat (map frame bs)" k] Cons.prems(2,4,5,6) bodies(1)
    by (simp add: StreamDecoder_Generate_def)
  moreover have "fst (receive_all env cd (Suc (length ms)) ?s1) = map (\<lambda>m. Some (Inr m)) ms @ [Some (Inl (Err EOF))]"
    using Cons.prems bodies by (intro Cons.IH [where k = Native and bodies = bs]) simp_all
  ultimately show ?case by (simp split: prod.splits)
qed

text \<open>What a stream written without an error is for its reader.\<close>

lemma frames_written:
  assumes "codec_laws cd" and "SHUnrecognized h = []"
    and "holds_frames cd ops (header_mark @ PutUvarint (of_nat (length (StreamHeader_MarshalTo h))) @ StreamHeader_MarshalTo h)
      (GetCompression h) s1 ms"
    and "StreamEncoder_Close cd s1 = (s2, Inr ())"
  obtains s' bodies where "list_all2 (\<lambda>m b. Message_MarshalTo ops m = Inr b) ms bodies"
    and "SD_Init s'" and "SD_Dec s' = \<lparr>DSrc = \<lparr>Data = concat (map frame bodies), AtEnd = EOF\<rparr>, DKind = Unprobed\<rparr>"
    and "StreamDecoder_Generate env cd (NewStreamDecoder \<lparr>Data = Out (SE_W s2), AtEnd = EOF\<rparr>) =
      StreamDecoder_Generate env cd s'"
proof -
  let ?h = "header_mark @ PutUvarint (of_nat (length (StreamHeader_MarshalTo h))) @ StreamHeader_MarshalTo h"
  from assms(3) obtain ew bodies where
    ew: "SE_EW s1 = Some ew" "kind_of ew = GetCompression h"
      "cw_holds cd ?h (ew, SE_W s1) (concat (map frame bodies))"
    and bodies: "list_all2 (\<lambda>m b. Message_MarshalTo ops m = Inr b) ms bodies"
    by (auto simp: holds_frames_def)
  from assms(4) obtain ew' w' where cl: "cw_close cd (ew, SE_W s1) = ((ew', w'), None)" and w': "SE_W s2 = w'"
    by (auto simp: StreamEncoder_Close_def ew(1) fault_of_def split: prod.splits option.splits)
  from cw_close_reads [OF assms(1) cl ew(3)] obtain out where
    out: "Out w' = ?h @ out"
      "ReadCompressed cd \<lparr>Data = out, AtEnd = EOF\<rparr> (kind_of ew) = Inr \<lparr>Data = concat (map frame bodies), AtEnd = EOF\<rparr>" .
  let ?s = "NewStreamDecoder \<lparr>Data = Out (SE_W s2), AtEnd = EOF\<rparr>"
  obtain s' where s': "StreamDecoder_Probe env cd ?s = (Some (Inr ()), s')" "SD_Init s'"
    "SD_Dec s' = \<lparr>DSrc = \<lparr>Data = concat (map frame bodies), AtEnd = EOF\<rparr>, DKind = Unprobed\<rparr>"
    using out ew(2) probe_header [OF assms(2), of env out EOF]
    by (simp add: StreamDecoder_Probe_def NewStreamDecoder_def w' Probe_Reader_def NewDecoder_def)
  have "StreamDecoder_Generate env cd ?s = StreamDecoder_Generate env cd s'"
    using s' by (simp add: StreamDecoder_Generate_def NewStreamDecoder_def)
  with bodies s'(2,3) that show thesis by blast
qed

lemma stream_written:
  assumes "ts_laws ops" and "codec_laws cd" and "SHUnrecognized h = []"
    and "WriteCustomHeader cd h (NewStreamEncoder tty \<lparr>Out = [], Quota = q\<rparr>) = (s0, Inr ())"
    and "send_all cd ops p es s0 = (s1, Inr ())"
    and "StreamEncoder_Close cd s1 = (s2, Inr ())"
  obtains s' bodies where "list_all2 (\<lambda>m b. Message_MarshalTo ops m = Inr b) (sent es) bodies"
    and "SD_Init s'" and "SD_Dec s' = \<lparr>DSrc = \<lparr>Data = concat (map frame bodies), AtEnd = EOF\<rparr>, DKind = Unprobed\<rparr>"
    and "StreamDecoder_Generate env cd (NewStreamDecoder \<lparr>Data = Out (SE_W s2), AtEnd = EOF\<rparr>) =
      StreamDecoder_Generate env cd s'"
proof -
  have "holds_frames cd ops (header_mark @ PutUvarint (of_nat (length (StreamHeader_MarshalTo h))) @ StreamHeader_MarshalTo h)
      (GetCompression h) s1 (sent es)"
    using send_all_holds [OF assms(5) WriteCustomHeader_holds [OF assms(4)] assms(1)] by simp
  from frames_written [OF assms(2,3) this assms(6), of env] that show thesis by blast
qed

section \<open>Instances for the witnesses\<close>

text \<open>Codecs that copy, and an environment with little memory.\<close>

definition plain_codecs :: "unit codecs" where
  "plain_codecs = \<lparr>SnappyNew = (), SnappyWrite = (\<lambda>z d. (z, d)), SnappyRead = (\<lambda>r. r), ZlibNew = (),
     ZlibWrite = (\<lambda>z d. (z, d)), ZlibFlush = (\<lambda>z. (z, [])), ZlibClose = (\<lambda>z. []), ZlibRead = Inr\<rparr>"

lemma plain_codec_laws: "codec_laws plain_codecs"
proof -
  have "snd (run_codec (SnappyWrite plain_codecs) z ds) = concat ds" for z ds
    by (induction ds arbitrary: z) (auto simp: plain_codecs_def split: prod.splits)
  moreover have "snd (run_codec (zlib_step plain_codecs) z ds) = zlib_plain ds" for z ds
    by (induction ds arbitrary: z)
      (auto simp: plain_codecs_def zlib_step_def zlib_plain_def split: prod.splits option.splits)
  ultimately show ?thesis
    unfolding codec_laws_def by (auto simp: plain_codecs_def) (metis snd_conv)+
qed

definition plain_stream :: "nat stream_env" where
  "plain_stream = \<lparr>Ops = unary_ts, Kv = plain_env, Js = plain_json, MaxAlloc = 1000\<rparr>"

text \<open>A short stream for them.\<close>

lemma example_stream:
  obtains s0 s1 s2 where "WriteCustomHeader plain_codecs (zero_header\<lparr>Mode := Some StreamHeader_RELIABLE\<rparr>)
       (NewStreamEncoder False \<lparr>Out = [], Quota = 9\<rparr>) = (s0, Inr ())"
    and "send_all plain_codecs unary_ts plain_printers [Send (Log 3), FlushNow] s0 = (s1, Inr ())"
    and "StreamEncoder_Close plain_codecs s1 = (s2, Inr ())"
proof -
  let ?h = "zero_header\<lparr>Mode := Some StreamHeader_RELIABLE\<rparr>"
  define s0 where "s0 = fst (WriteCustomHeader plain_codecs ?h (NewStreamEncoder False \<lparr>Out = [], Quota = 9\<rparr>))"
  define s1 where "s1 = fst (send_all plain_codecs unary_ts plain_printers [Send (Log 3), FlushNow] s0)"
  define s2 where "s2 = fst (StreamEncoder_Close plain_codecs s1)"
  have "WriteCustomHeader plain_codecs ?h (NewStreamEncoder False \<lparr>Out = [], Quota = 9\<rparr>) = (s0, Inr ())"
    unfolding s0_def by code_simp
  moreover have "send_all plain_codecs unary_ts plain_printers [Send (Log 3), FlushNow] s0 = (s1, Inr ())"
    unfolding s1_def s0_def by code_simp
  moreover have "StreamEncoder_Close plain_codecs s1 = (s2, Inr ())"
    unfolding s2_def s1_def s0_def by code_simp
  ultimately show thesis by (rule that)
qed

lemma example_sent: "sent [Send (Log 3), FlushNow] = [Log (3 :: nat)]"
  by (simp add: sent_def)

lemma example_ops: "Ops plain_stream = unary_ts"
  by (simp add: plain_stream_def)

lemma example_streamable: "list_all (streamable plain_stream) [Log 3]"
  by (simp add: streamable_def message_ok_def Log_def zero_message_def plain_stream_def Message_Size_def
      unary_ts_def DEFAULT_VERSION_def LOG_def delim_size_def sovLog_small)

section \<open>Properties\<close>

text \<open>
  C8: a stream reads back. Messages sent through a StreamEncoder after its header, with flushes
  anywhere between them and a Close at the end, all without an error of the writer below, come
  out of a StreamDecoder over the written bytes one by one and in order, followed by EOF,
  whatever compression the header names.
\<close>

theorem stream_roundtrip:
  assumes "ts_laws (Ops env)" and "codec_laws cd" and "SHUnrecognized h = []"
    and "WriteCustomHeader cd h (NewStreamEncoder tty \<lparr>Out = [], Quota = q\<rparr>) = (s0, Inr ())"
    and "send_all cd (Ops env) p es s0 = (s1, Inr ())"
    and "StreamEncoder_Close cd s1 = (s2, Inr ())"
    and "list_all (streamable env) (sent es)"
  shows "fst (receive_all env cd (Suc (length (sent es))) (NewStreamDecoder \<lparr>Data = Out (SE_W s2), AtEnd = EOF\<rparr>)) =
    map (\<lambda>m. Some (Inr m)) (sent es) @ [Some (Inl (Err EOF))]"
proof -
  let ?s = "NewStreamDecoder \<lparr>Data = Out (SE_W s2), AtEnd = EOF\<rparr>"
  from stream_written [OF assms(1-6), of env] obtain s' bodies where
    bodies: "list_all2 (\<lambda>m b. Message_MarshalTo (Ops env) m = Inr b) (sent es) bodies"
    and s': "SD_Init s'" "SD_Dec s' = \<lparr>DSrc = \<lparr>Data = concat (map frame bodies), AtEnd = EOF\<rparr>, DKind = Unprobed\<rparr>"
    and first: "StreamDecoder_Generate env cd ?s = StreamDecoder_Generate env cd s'" by blast
  from first have "receive_all env cd (Suc (length (sent es))) ?s = receive_all env cd (Suc (length (sent es))) s'" by simp
  with decode_frames [OF assms(1,7) bodies s'] show ?thesis by simp
qed

theorem stream_roundtrip_witness:
  "\<exists>s0 s1 s2. WriteCustomHeader plain_codecs (zero_header\<lparr>Mode := Some StreamHeader_RELIABLE\<rparr>)
       (NewStreamEncoder False \<lparr>Out = [], Quota = 9\<rparr>) = (s0, Inr ()) \<and>
     send_all plain_codecs unary_ts plain_printers [Send (Log 3), FlushNow] s0 = (s1, Inr ()) \<and>
     StreamEncoder_Close plain_codecs s1 = (s2, Inr ()) \<and>
     fst (receive_all plain_stream plain_codecs 2 (NewStreamDecoder \<lparr>Data = Out (SE_W s2), AtEnd = EOF\<rparr>)) =
       [Some (Inr (Log 3)), Some (Inl (Err EOF))]"
proof -
  obtain s0 s1 s2 where ex: "WriteCustomHeader plain_codecs (zero_header\<lparr>Mode := Some StreamHeader_RELIABLE\<rparr>)
       (NewStreamEncoder False \<lparr>Out = [], Quota = 9\<rparr>) = (s0, Inr ())"
    "send_all plain_codecs unary_ts plain_printers [Send (Log 3), FlushNow] s0 = (s1, Inr ())"
    "StreamEncoder_Close plain_codecs s1 = (s2, Inr ())" by (rule example_stream)
  with stream_roundtrip [of plain_stream plain_codecs "zero_header\<lparr>Mode := Some StreamHeader_RELIABLE\<rparr>" False 9 s0
      plain_printers "[Send (Log 3), FlushNow]" s1 s2] unary_ts_laws plain_codec_laws example_streamable
  have "fst (receive_all plain_stream plain_codecs 2 (NewStreamDecoder \<lparr>Data = Out (SE_W s2), AtEnd = EOF\<rparr>)) =
       [Some (Inr (Log 3)), Some (Inl (Err EOF))]"
    unfolding example_ops example_sent by (simp add: zero_header_def numeral_2_eq_2)
  with ex show ?thesis by blast
qed

fun recv_all :: "'ts stream_env \<Rightarrow> 'z codecs \<Rightarrow> nat \<Rightarrow> recv \<Rightarrow> 'ts message result option list \<times> recv" where
  "recv_all env cd 0 r = ([], r)"
| "recv_all env cd (Suc n) r =
     (case Recv_Generate env cd r of (x, r1) \<Rightarrow> case recv_all env cd n r1 of (xs, r2) \<Rightarrow> (x # xs, r2))"

definition is_message :: "'ts message result option \<Rightarrow> bool" where
  "is_message x \<longleftrightarrow> (case x of Some (Inr _) \<Rightarrow> True | _ \<Rightarrow> False)"

lemma Generate_header:
  "StreamDecoder_Generate env cd s = (x, s') \<Longrightarrow> SD_Init s'"
  "StreamDecoder_Generate env cd s = (x, s') \<Longrightarrow> SD_Init s \<Longrightarrow> SD_Header s' = SD_Header s"
  by (auto simp: StreamDecoder_Generate_def StreamDecoder_Probe_def split: if_splits prod.splits option.splits sum.splits)

lemma Recv_step:
  assumes "Recv_Generate env cd r = (x, r')" and "0 < Quota (RW r)"
  shows "Out (RW r') = Out (RW r) @ (if is_message x \<and> is_reliable (RDec r') then reliableAckBytes else [])"
    "Quota (RW r) - 1 \<le> Quota (RW r')" "SD_Init (RDec r')"
    "SD_Init (RDec r) \<Longrightarrow> is_reliable (RDec r') = is_reliable (RDec r)"
proof -
  obtain d where g: "StreamDecoder_Generate env cd (RDec r) = (x, d)" and
    r': "r' = r\<lparr>RDec := d, RW := if is_message x \<and> is_reliable d then sendAck (RW r) else RW r\<rparr>"
    using assms(1) unfolding Recv_Generate_def is_message_def
    by (cases "StreamDecoder_Generate env cd (RDec r)") (auto split: option.splits sum.splits)
  show "Out (RW r') = Out (RW r) @ (if is_message x \<and> is_reliable (RDec r') then reliableAckBytes else [])"
    "Quota (RW r) - 1 \<le> Quota (RW r')"
    using assms(2) by (simp_all add: r' sendAck_def w_write_def)
  show "SD_Init (RDec r')" using Generate_header(1) [OF g] by (simp add: r')
  show "SD_Init (RDec r) \<Longrightarrow> is_reliable (RDec r') = is_reliable (RDec r)"
    using Generate_header(2) [OF g] by (simp add: r' is_reliable_def)
qed

lemma recv_acks_init:
  assumes "recv_all env cd n r = (xs, r')" and "n \<le> Quota (RW r)" and "SD_Init (RDec r)"
  shows "is_reliable (RDec r') = is_reliable (RDec r) \<and> Out (RW r') = Out (RW r) @
    (if is_reliable (RDec r) then concat (replicate (length (filter is_message xs)) reliableAckBytes) else [])"
  using assms
proof (induction n arbitrary: r xs)
  case (Suc n)
  from Suc.prems(1) obtain x r1 ys where g: "Recv_Generate env cd r = (x, r1)" "recv_all env cd n r1 = (ys, r')"
    "xs = x # ys" by (auto split: prod.splits)
  have q: "0 < Quota (RW r)" using Suc.prems(2) by simp
  note st = Recv_step [OF g(1) q]
  have "n \<le> Quota (RW r1)" using st(2) Suc.prems(2) by simp
  with Suc.IH [OF g(2) _ st(3)] st(1) st(4) [OF Suc.prems(3)] show ?case
    by (simp add: g(3))
qed simp

text \<open>
  C9: acknowledgements. However many messages and errors a Recv has delivered over a working
  connection, it has written exactly one k per message when the stream's header asks for
  reliable mode, and nothing otherwise.
\<close>

theorem recv_acks:
  assumes "recv_all env cd n (NewRecv src w) = (xs, r')" and "n \<le> Quota w"
  shows "Out (RW r') = Out w @
    (if is_reliable (RDec r') then concat (replicate (length (filter is_message xs)) reliableAckBytes) else [])"
proof (cases n)
  case 0
  with assms show ?thesis by (auto simp: NewRecv_def)
next
  case (Suc k)
  with assms(1) obtain x r1 ys where g: "Recv_Generate env cd (NewRecv src w) = (x, r1)"
    "recv_all env cd k r1 = (ys, r')" "xs = x # ys" by (auto split: prod.splits)
  have q: "0 < Quota (RW (NewRecv src w))" using Suc assms(2) by (simp add: NewRecv_def)
  note st = Recv_step [OF g(1) q]
  have "k \<le> Quota (RW r1)" using st(2) Suc assms(2) by (simp add: NewRecv_def)
  with recv_acks_init [OF g(2) _ st(3)] st(1) show ?thesis
    by (simp add: g(3) NewRecv_def)
qed

text \<open>
  a flush that fails loses what snappy had buffered. The buffer is emptied whether or not
  the write below succeeded, and flushTimer drops the error, so that Close reports success
  although nothing was written; bufio keeps its error, and Close reports it.
\<close>

lemma snappy_flush_loses:
  assumes "SE_EW s = Some (SnappyW buf z)" and "buf \<noteq> []" and "SnappyWrite cd z buf = (z', out)" and "out \<noteq> []"
    and "Quota (SE_W s) = 0"
  shows "(\<exists>s'. StreamEncoder_Close cd (flushTimer cd s) = (s', Inr ()) \<and> Out (SE_W s') = Out (SE_W s)) \<and>
    (\<exists>e s'. StreamEncoder_Close cd (flushTimer cd (s\<lparr>SE_EW := Some (BufW buf None)\<rparr>)) = (s', Inl (Err e)))"
  using assms
  by (auto simp: flushTimer_def StreamEncoder_Flush_def StreamEncoder_Close_def cw_flush_def cw_close_def
      snappyWriter_Flush_def emit_def w_write_def fault_of_def)

lemma snappy_flush_loses_witness:
  "\<exists>s'. StreamEncoder_Close plain_codecs (flushTimer plain_codecs
      ((NewStreamEncoder False \<lparr>Out = [], Quota = 0\<rparr>)\<lparr>SE_EW := Some (SnappyW [7] ())\<rparr>)) = (s', Inr ()) \<and>
    Out (SE_W s') = []"
  using snappy_flush_loses [of "(NewStreamEncoder False \<lparr>Out = [], Quota = 0\<rparr>)\<lparr>SE_EW := Some (SnappyW [7] ())\<rparr>"
      "[7]" "()" plain_codecs "()" "[7]"]
  by (simp add: plain_codecs_def NewStreamEncoder_def)

text \<open>
  what the readers do with bad input. A header size with its top bit set panics (it is a
  negative int, so no buffer is made for it), a frame size beyond what can be allocated panics,
  a truncated frame is EOF before its body and unexpected EOF inside it, and a last line
  without a newline is dropped.
\<close>

lemma decoder_errors:
  assumes "sint big < 0" and "pool_buffer < unat huge" and "MaxAlloc env < unat huge"
    and "length body < 2 ^ 63" and "length body \<le> MaxAlloc env" and "n < length body" and "0x0A \<notin> set line"
  shows "StreamHeader_UnmarshalFrom env h \<lparr>Data = PutUvarint big @ r, AtEnd = e\<rparr>
       = (Some (Inl (Panic ''slice bounds out of range'')), \<lparr>Data = r, AtEnd = e\<rparr>) \<and>
     fst (decodeNative env \<lparr>Data = of_char CHR ''+'' # PutUvarint huge @ r, AtEnd = e\<rparr>)
       = Some (Inl (Panic ''makeslice: len out of range'')) \<and>
     fst (decodeNative env \<lparr>Data = of_char CHR ''+'' # PutUvarint (of_nat (length body)) @ take n body, AtEnd = EOF\<rparr>)
       = Some (Inl (Err (if n = 0 then EOF else UnexpectedEOF))) \<and>
     decodeBare env \<lparr>Data = line, AtEnd = EOF\<rparr> = (Inl (Err EOF), \<lparr>Data = [], AtEnd = EOF\<rparr>)"
proof -
  have "unat (of_nat (length body) :: u64) = length body" using assms(4) by (simp add: unat_of_nat)
  with assms show ?thesis
    by (auto simp: StreamHeader_UnmarshalFrom_def decodeNative_def read_byte_def make_bytes_def read_full_def
        decodeBare_def)
qed

lemma decoder_errors_witness:
  "fst (decodeNative plain_stream \<lparr>Data = of_char CHR ''+'' # PutUvarint 1001, AtEnd = EOF\<rparr>)
     = Some (Inl (Panic ''makeslice: len out of range''))"
  using decoder_errors [of "- 1" 1001 plain_stream "[0, 0]" 1 "[]" zero_header "[]" EOF]
  by (simp add: pool_buffer_def plain_stream_def)

declare fields_loop.simps [code]

theorem recv_acks_witness:
  "Out (RW (snd (recv_all plain_stream plain_codecs 2
     (NewRecv \<lparr>Data = header_mark @ [2, 0x10, 1] @ frame [0x0A, 3, 0, 0, 0, 0x10, 0, 0x30, 1], AtEnd = EOF\<rparr>
        \<lparr>Out = [], Quota = 5\<rparr>)))) = reliableAckBytes"
proof -
  let ?r = "NewRecv \<lparr>Data = header_mark @ [2, 0x10, 1] @ frame [0x0A, 3, 0, 0, 0, 0x10, 0, 0x30, 1], AtEnd = EOF\<rparr>
        \<lparr>Out = [], Quota = 5\<rparr>"
  have "is_reliable (RDec (snd (recv_all plain_stream plain_codecs 2 ?r))) \<and>
      length (filter is_message (fst (recv_all plain_stream plain_codecs 2 ?r))) = 1"
    by code_simp
  with recv_acks [of plain_stream plain_codecs 2 _ "\<lparr>Out = [], Quota = 5\<rparr>"
      "fst (recv_all plain_stream plain_codecs 2 ?r)" "snd (recv_all plain_stream plain_codecs 2 ?r)"]
  show ?thesis by simp
qed

end
