(* ===== verification/Send.thy ===== *)
theory Send
  imports StreamRoundtrip "HOL-Library.Signed_Division"
begin

text \<open>
  send.go: the sending side of a reliable stream. Its two goroutines, the callers of Send and
  the reader of acknowledgements, take turns in atomic steps: a call of Send up to its return
  or to the wait on the condition, a batch of acknowledgements, the failure of the reader, and
  the wake-up of a waiting call. The requests are called back through a handler, whose state is
  part of the state here; the locale send_requests says what a handler records.
\<close>

section \<open>Windows\<close>

definition wrap64 :: "int \<Rightarrow> int" where
  "wrap64 x = sint (word_of_int x :: u64)"

text \<open>MinimumSendWindow: durations are int64 nanoseconds, and division truncates.\<close>

definition MinimumSendWindow :: "int \<Rightarrow> int \<Rightarrow> int result" where
  "MinimumSendWindow d mps =
     (let t = wrap64 ((mps sdiv 1000) * 1000000)
      in if t = 0 then Inl (Panic ''integer divide by zero'') else Inr (wrap64 (wrap64 (d * 20) sdiv t)))"

definition MinimumWindow :: int where
  "MinimumWindow = projr (MinimumSendWindow (1 * 1000000) 1000)"

lemma MinimumWindow_20: "MinimumWindow = 20"
  by (simp add: MinimumWindow_def MinimumSendWindow_def wrap64_def signed_divide_int_def)

section \<open>The state\<close>

record ('ts, 'r) handler =
  HAck :: "'ts message \<Rightarrow> 'r \<Rightarrow> 'r"
  HNack :: "'ts message \<Rightarrow> 'r \<Rightarrow> 'r"

text \<open>
  Reqs is the list of requests in flight, newest first; a request may be nil. Blocked counts the
  calls of Send that wait, ClosedCalls the calls of OnClosed.
\<close>

record ('ts, 'z, 'r) send =
  SEnc :: "'z stream_encoder"
  SClosed :: bool
  Window :: int
  Available :: u32
  Reqs :: "(bool \<times> 'ts message) list"
  SReq :: 'r
  Blocked :: nat
  AckerDone :: bool
  ClosedCalls :: nat

definition NewSend :: "sink \<Rightarrow> int \<Rightarrow> 'r \<Rightarrow> ('ts, 'z, 'r) send result" where
  "NewSend w window r =
     (let win = (if window = - 1 then 1 else if window = 0 then MinimumWindow else window)
      in if win < 0 then Inl (Panic ''makeslice: len out of range'')
         else Inr \<lparr>SEnc = NewStreamEncoder False w, SClosed = False, Window = win,
           Available = word_of_int win, Reqs = [], SReq = r, Blocked = 0, AckerDone = False, ClosedCalls = 0\<rparr>)"

definition SendHandshake :: "'z codecs \<Rightarrow> ('ts, 'z, 'r) send \<Rightarrow> ('ts, 'z, 'r) send \<times> unit result" where
  "SendHandshake cd s =
     (case WriteCustomHeader cd (zero_header\<lparr>Compression := Some StreamHeader_NONE, Mode := Some StreamHeader_RELIABLE\<rparr>)
        (SEnc s) of (enc, r) \<Rightarrow> (s\<lparr>SEnc := enc\<rparr>, r))"

section \<open>Steps\<close>

definition call_back :: "('ts message \<Rightarrow> 'r \<Rightarrow> 'r) \<Rightarrow> bool \<times> 'ts message \<Rightarrow> 'r \<Rightarrow> 'r" where
  "call_back f q r = (if fst q then f (snd q) r else r)"

text \<open>From the oldest request to the newest; the list itself stays as it is.\<close>

definition sendNacks :: "('ts, 'r) handler \<Rightarrow> ('ts, 'z, 'r) send \<Rightarrow> ('ts, 'z, 'r) send" where
  "sendNacks h s =
     (if SClosed s then s
      else s\<lparr>SReq := fold (call_back (HNack h)) (rev (Reqs s)) (SReq s), SClosed := True,
             ClosedCalls := Suc (ClosedCalls s)\<rparr>)"

definition transmit :: "'z codecs \<Rightarrow> 'ts ts_ops \<Rightarrow> 'ts printers \<Rightarrow> ('ts, 'r) handler \<Rightarrow>
    'ts message \<Rightarrow> ('ts, 'z, 'r) send \<Rightarrow> ('ts, 'z, 'r) send \<times> unit result" where
  "transmit cd ops p h m s =
     (case StreamEncoder_Receive cd ops p (SEnc s) m of
        (enc, Inr _) \<Rightarrow> (s\<lparr>SEnc := enc\<rparr>, Inr ())
      | (enc, Inl (Err _)) \<Rightarrow> (sendNacks h (s\<lparr>SEnc := enc\<rparr>), Inl (Err ErrClosed))
      | (enc, Inl f) \<Rightarrow> (s\<lparr>SEnc := enc\<rparr>, Inl f))"

datatype send_result = Returned "unit result" | Waits

text \<open>The loop around the condition variable: its test, and the flush before a wait.\<close>

definition wait_loop :: "'z codecs \<Rightarrow> ('ts, 'z, 'r) send \<Rightarrow> ('ts, 'z, 'r) send \<times> send_result" where
  "wait_loop cd s =
     (if Available s \<noteq> 0 then (s, Returned (Inr ()))
      else if SClosed s then (s, Returned (Inl (Err ErrClosed)))
      else (s\<lparr>SEnc := fst (StreamEncoder_Flush cd (SEnc s)), Blocked := Suc (Blocked s)\<rparr>, Waits))"

definition Send_Send :: "'z codecs \<Rightarrow> 'ts ts_ops \<Rightarrow> 'ts printers \<Rightarrow> ('ts, 'r) handler \<Rightarrow>
    'ts message \<Rightarrow> bool \<Rightarrow> ('ts, 'z, 'r) send \<Rightarrow> ('ts, 'z, 'r) send \<times> send_result" where
  "Send_Send cd ops p h m req s =
     (if SClosed s then (s\<lparr>SReq := call_back (HNack h) (req, m) (SReq s)\<rparr>, Returned (Inl (Err ErrClosed)))
      else (case transmit cd ops p h m (s\<lparr>Reqs := (req, m) # Reqs s, Available := Available s - 1\<rparr>) of
              (s', Inl e) \<Rightarrow> (s', Returned (Inl e))
            | (s', Inr _) \<Rightarrow> wait_loop cd s'))"

definition Send_Receive :: "'z codecs \<Rightarrow> 'ts ts_ops \<Rightarrow> 'ts printers \<Rightarrow> ('ts, 'r) handler \<Rightarrow>
    'ts message \<Rightarrow> ('ts, 'z, 'r) send \<Rightarrow> ('ts, 'z, 'r) send \<times> send_result" where
  "Send_Receive cd ops p h m s = Send_Send cd ops p h m False s"

definition Send_wake :: "'z codecs \<Rightarrow> ('ts, 'z, 'r) send \<Rightarrow> ('ts, 'z, 'r) send \<times> send_result" where
  "Send_wake cd s = wait_loop cd (s\<lparr>Blocked := Blocked s - 1\<rparr>)"

fun pop_acks :: "('ts, 'r) handler \<Rightarrow> nat \<Rightarrow> (bool \<times> 'ts message) list \<times> 'r \<Rightarrow> (bool \<times> 'ts message) list \<times> 'r" where
  "pop_acks h 0 st = st"
| "pop_acks h (Suc n) (reqs, r) =
     (if reqs = [] then pop_acks h n (reqs, r)
      else pop_acks h n (butlast reqs, call_back (HAck h) (last reqs) r))"

text \<open>
  readAck after a read of the bytes bs. The test in the loop looks at the first byte only,
  so it fails before the first request is taken or not at all.
\<close>

definition readAck :: "('ts, 'r) handler \<Rightarrow> bytes \<Rightarrow> ('ts, 'z, 'r) send \<Rightarrow> ('ts, 'z, 'r) send \<times> unit result" where
  "readAck h bs s =
     (if bs \<noteq> [] \<and> hd bs \<noteq> of_char CHR ''k'' then (s, Inl (Err ErrStreamUnsynced))
      else (case pop_acks h (length bs) (Reqs s, SReq s) of (reqs, r) \<Rightarrow>
             (s\<lparr>Reqs := reqs, SReq := r, Available := Available s + of_nat (length bs)\<rparr>, Inr ())))"

text \<open>One turn of backgroundAck: what the read returned, bytes or an error (None).\<close>

definition backgroundAck :: "('ts, 'r) handler \<Rightarrow> bytes option \<Rightarrow> ('ts, 'z, 'r) send \<Rightarrow> ('ts, 'z, 'r) send" where
  "backgroundAck h got s =
     (case got of
        None \<Rightarrow> (sendNacks h s)\<lparr>AckerDone := True\<rparr>
      | Some bs \<Rightarrow>
          (case readAck h bs s of
             (s', Inr _) \<Rightarrow> s'
           | (s', Inl _) \<Rightarrow> (sendNacks h s')\<lparr>AckerDone := True\<rparr>))"

definition Send_Close :: "'z codecs \<Rightarrow> ('ts, 'z, 'r) send \<Rightarrow> ('ts, 'z, 'r) send \<times> unit result" where
  "Send_Close cd s = (case StreamEncoder_Close cd (SEnc s) of (enc, r) \<Rightarrow> (s\<lparr>SEnc := enc\<rparr>, r))"

definition Send_Flush :: "'z codecs \<Rightarrow> ('ts, 'z, 'r) send \<Rightarrow> ('ts, 'z, 'r) send \<times> unit result" where
  "Send_Flush cd s = (case StreamEncoder_Flush cd (SEnc s) of (enc, r) \<Rightarrow> (s\<lparr>SEnc := enc\<rparr>, r))"

datatype 'ts send_event = SendMsg "'ts message" bool | Acks bytes | ReadFails | Wakes

inductive send_step :: "'z codecs \<Rightarrow> 'ts ts_ops \<Rightarrow> 'ts printers \<Rightarrow> ('ts, 'r) handler \<Rightarrow>
    ('ts, 'z, 'r) send \<Rightarrow> 'ts send_event \<Rightarrow> ('ts, 'z, 'r) send \<Rightarrow> bool"
  for cd ops p h where
  call: "Send_Send cd ops p h m req s = (s', res) \<Longrightarrow> (\<And>e. res \<noteq> Returned (Inl (Panic e))) \<Longrightarrow>
    send_step cd ops p h s (SendMsg m req) s'"
| acks: "\<not> AckerDone s \<Longrightarrow> length bs \<le> nat (Window s) \<Longrightarrow> send_step cd ops p h s (Acks bs) (backgroundAck h (Some bs) s)"
| fails: "\<not> AckerDone s \<Longrightarrow> send_step cd ops p h s ReadFails (backgroundAck h None s)"
| wakes: "0 < Blocked s \<Longrightarrow> send_step cd ops p h s Wakes (fst (Send_wake cd s))"

inductive_cases send_stepE [elim!]:
  "send_step cd ops p h s (SendMsg m req) s'"
  "send_step cd ops p h s (Acks bs) s'"
  "send_step cd ops p h s ReadFails s'"
  "send_step cd ops p h s Wakes s'"

text \<open>
  A run with one caller at a time, whose peer acknowledges only what is in flight and nothing
  after the connection has failed.
\<close>

definition orderly :: "('ts, 'z, 'r) send \<Rightarrow> 'ts send_event \<Rightarrow> bool" where
  "orderly s e \<longleftrightarrow>
     (case e of
        SendMsg m req \<Rightarrow> Blocked s = 0
      | Acks bs \<Rightarrow> length bs \<le> length (Reqs s) \<and> \<not> SClosed s
      | _ \<Rightarrow> True)"

inductive orderly_run :: "'z codecs \<Rightarrow> 'ts ts_ops \<Rightarrow> 'ts printers \<Rightarrow> ('ts, 'r) handler \<Rightarrow>
    ('ts, 'z, 'r) send \<Rightarrow> 'ts send_event list \<Rightarrow> ('ts, 'z, 'r) send \<Rightarrow> bool"
  for cd ops p h where
  idle: "orderly_run cd ops p h s [] s"
| more: "orderly_run cd ops p h s es s1 \<Longrightarrow> orderly s1 e \<Longrightarrow> send_step cd ops p h s1 e s2 \<Longrightarrow>
    orderly_run cd ops p h s (es @ [e]) s2"

section \<open>What a handler records\<close>

definition asked :: "(bool \<times> 'ts message) list \<Rightarrow> 'ts message list" where
  "asked qs = map snd (filter fst qs)"

lemma asked_simps [simp]:
  "asked [] = []" "asked (q # qs) = (if fst q then [snd q] else []) @ asked qs" "asked (qs @ rs) = asked qs @ asked rs"
  by (simp_all add: asked_def)

definition requested :: "'ts send_event list \<Rightarrow> 'ts message list" where
  "requested es = concat (map (\<lambda>e. case e of SendMsg m req \<Rightarrow> (if req then [m] else []) | _ \<Rightarrow> []) es)"

lemma requested_snoc [simp]:
  "requested (es @ [SendMsg m req]) = requested es @ (if req then [m] else [])"
  "requested (es @ [Acks bs]) = requested es" "requested (es @ [ReadFails]) = requested es"
  "requested (es @ [Wakes]) = requested es" "requested [] = []"
  by (simp_all add: requested_def)

text \<open>The window: what is free and what is in flight add up to it.\<close>

definition window_ok :: "('ts, 'z, 'r) send \<Rightarrow> bool" where
  "window_ok s \<longleftrightarrow>
     1 \<le> Window s \<and> Window s < 2 ^ 31 \<and> Available s = word_of_int (Window s) - of_nat (length (Reqs s)) \<and>
     Blocked s \<le> 1 \<and>
     (\<not> SClosed s \<longrightarrow> int (length (Reqs s)) \<le> Window s \<and> (Blocked s = 0 \<longrightarrow> int (length (Reqs s)) < Window s))"

locale send_requests =
  fixes h :: "('ts, 'r) handler"
    and acked nacked :: "'r \<Rightarrow> 'ts message list"
  assumes Ack [simp]: "acked (HAck h m r) = acked r @ [m]" "nacked (HAck h m r) = nacked r"
    and Nack [simp]: "acked (HNack h m r) = acked r" "nacked (HNack h m r) = nacked r @ [m]"
begin

lemma fold_nacks:
  "acked (fold (call_back (HNack h)) qs r) = acked r"
  "nacked (fold (call_back (HNack h)) qs r) = nacked r @ asked qs"
  by (induction qs arbitrary: r) (auto simp: call_back_def)

lemma pop_acks_spec:
  "n \<le> length reqs \<Longrightarrow> pop_acks h n (reqs, r) = (reqs', r') \<Longrightarrow>
   reqs' = take (length reqs - n) reqs \<and> nacked r' = nacked r \<and>
   acked r' @ asked (rev reqs') = acked r @ asked (rev reqs)"
proof (induction n arbitrary: reqs r)
  case (Suc n)
  then obtain qs q where reqs: "reqs = qs @ [q]" by (cases reqs rule: rev_cases) auto
  from Suc.IH [of qs "call_back (HAck h) q r"] Suc.prems reqs show ?case
    by (auto simp: call_back_def split: if_splits)
qed simp

definition accounted :: "('ts, 'z, 'r) send \<Rightarrow> 'ts message list \<Rightarrow> bool" where
  "accounted s ms \<longleftrightarrow>
     acked (SReq s) @ nacked (SReq s) @ (if SClosed s then [] else asked (rev (Reqs s))) = ms \<and>
     (\<not> SClosed s \<longrightarrow> nacked (SReq s) = [])"

lemma sendNacks_accounted: "accounted s ms \<Longrightarrow> accounted (sendNacks h s) ms"
  by (auto simp: accounted_def sendNacks_def fold_nacks)

lemma accounted_enc [simp]:
  "accounted (s\<lparr>SEnc := e\<rparr>) ms = accounted s ms" "accounted (s\<lparr>Blocked := n\<rparr>) ms = accounted s ms"
  "accounted (s\<lparr>AckerDone := b\<rparr>) ms = accounted s ms"
  by (simp_all add: accounted_def)

lemma wait_loop_accounted: "accounted s ms \<Longrightarrow> accounted (fst (wait_loop cd s)) ms"
  by (simp add: wait_loop_def)

lemma Send_accounted:
  assumes "Send_Send cd ops p h m req s = (s', res)" and "accounted s ms"
    and "\<And>e. res \<noteq> Returned (Inl (Panic e))"
  shows "accounted s' (ms @ (if req then [m] else []))"
proof (cases "SClosed s")
  case True
  with assms show ?thesis by (auto simp: Send_Send_def accounted_def call_back_def)
next
  case False
  let ?s = "s\<lparr>Reqs := (req, m) # Reqs s, Available := Available s - 1\<rparr>"
  have push: "accounted ?s (ms @ (if req then [m] else []))"
    using assms(2) False by (auto simp: accounted_def)
  obtain enc r where rc: "StreamEncoder_Receive cd ops p (SEnc s) m = (enc, r)" by fastforce
  show ?thesis
  proof (cases r)
    case (Inr u)
    with assms(1) False rc have "s' = fst (wait_loop cd (?s\<lparr>SEnc := enc\<rparr>))"
      by (simp add: Send_Send_def transmit_def)
    with wait_loop_accounted [of "?s\<lparr>SEnc := enc\<rparr>"] push show ?thesis by simp
  next
    case (Inl f)
    with assms(1,3) False rc obtain e where "f = Err e" "s' = sendNacks h (?s\<lparr>SEnc := enc\<rparr>)"
      by (cases f) (auto simp: Send_Send_def transmit_def)
    with sendNacks_accounted [of "?s\<lparr>SEnc := enc\<rparr>"] push show ?thesis by simp
  qed
qed

lemma Acks_accounted:
  assumes "length bs \<le> length (Reqs s)" and "\<not> SClosed s" and "accounted s ms"
  shows "accounted (backgroundAck h (Some bs) s) ms"
proof (cases "bs \<noteq> [] \<and> hd bs \<noteq> of_char CHR ''k''")
  case True
  with sendNacks_accounted [OF assms(3)] show ?thesis by (simp add: backgroundAck_def readAck_def)
next
  case False
  obtain reqs r where pop: "pop_acks h (length bs) (Reqs s, SReq s) = (reqs, r)" by fastforce
  with False have "backgroundAck h (Some bs) s =
      s\<lparr>Reqs := reqs, SReq := r, Available := Available s + of_nat (length bs)\<rparr>"
    by (auto simp: backgroundAck_def readAck_def)
  with pop_acks_spec [OF assms(1) pop] assms(2,3) show ?thesis by (auto simp: accounted_def)
qed

lemma orderly_accounted:
  "orderly_run cd ops p h s es s' \<Longrightarrow> accounted s [] \<Longrightarrow> accounted s' (requested es)"
proof (induction rule: orderly_run.induct)
  case (more s es s1 e s2)
  then have acc: "accounted s1 (requested es)" by simp
  from more.hyps(3) show ?case
  proof (cases rule: send_step.cases)
    case (call m req res)
    with Send_accounted [OF call(2) acc] show ?thesis by simp
  next
    case (acks bs)
    with more.hyps(2) Acks_accounted [of bs s1] acc show ?thesis by (simp add: orderly_def)
  next
    case fails
    then show ?thesis using sendNacks_accounted [OF acc] by (simp add: backgroundAck_def)
  next
    case wakes
    have "accounted (s1\<lparr>Blocked := Blocked s1 - 1\<rparr>) (requested es)" using acc by simp
    from wait_loop_accounted [OF this] wakes show ?thesis by (simp add: Send_wake_def)
  qed
qed simp

text \<open>The same without the order: what a Send owes an answer for, and what it has answered.\<close>

definition in_flight :: "('ts, 'z, 'r) send \<Rightarrow> 'ts message multiset" where
  "in_flight s = (if SClosed s then {#} else mset (asked (Reqs s)))"

definition total :: "('ts, 'z, 'r) send \<Rightarrow> 'ts message multiset" where
  "total s = mset (acked (SReq s)) + mset (nacked (SReq s)) + in_flight s"

lemma mset_asked_rev [simp]: "mset (asked (rev qs)) = mset (asked qs)"
  by (simp add: asked_def flip: rev_filter rev_map)

lemma sendNacks_total: "total (sendNacks h s) = total s"
  by (simp add: total_def in_flight_def sendNacks_def fold_nacks ac_simps)

lemma total_enc [simp]:
  "total (s\<lparr>SEnc := e\<rparr>) = total s" "total (s\<lparr>Blocked := n\<rparr>) = total s" "total (s\<lparr>AckerDone := b\<rparr>) = total s"
  by (simp_all add: total_def in_flight_def)

lemma wait_loop_total: "total (fst (wait_loop cd s)) = total s"
  by (simp add: wait_loop_def)

lemma Send_total:
  assumes "Send_Send cd ops p h m True s = (s', res)" and "\<And>e. res \<noteq> Returned (Inl (Panic e))"
  shows "total s' = total s + {#m#}"
proof (cases "SClosed s")
  case True
  with assms show ?thesis by (auto simp: Send_Send_def total_def in_flight_def call_back_def)
next
  case False
  let ?s = "s\<lparr>Reqs := (True, m) # Reqs s, Available := Available s - 1\<rparr>"
  have push: "total ?s = total s + {#m#}" using False by (simp add: total_def in_flight_def)
  obtain enc r where rc: "StreamEncoder_Receive cd ops p (SEnc s) m = (enc, r)" by fastforce
  show ?thesis
  proof (cases r)
    case (Inr u)
    with assms(1) False rc have "s' = fst (wait_loop cd (?s\<lparr>SEnc := enc\<rparr>))"
      by (simp add: Send_Send_def transmit_def)
    with wait_loop_total [of cd "?s\<lparr>SEnc := enc\<rparr>"] push show ?thesis by simp
  next
    case (Inl f)
    with assms False rc obtain e where "f = Err e" "s' = sendNacks h (?s\<lparr>SEnc := enc\<rparr>)"
      by (cases f) (auto simp: Send_Send_def transmit_def)
    with sendNacks_total [of "?s\<lparr>SEnc := enc\<rparr>"] push show ?thesis by simp
  qed
qed

text \<open>As long as it is open, nothing is refused.\<close>

lemma pop_acks_nacked: "pop_acks h n (reqs, r) = (reqs', r') \<Longrightarrow> nacked r' = nacked r"
proof (induction n arbitrary: reqs r)
  case (Suc n)
  then show ?case
    using Suc.IH by (fastforce simp: call_back_def split: if_splits)
qed simp

definition quiet :: "('ts, 'z, 'r) send \<Rightarrow> ('ts, 'z, 'r) send \<Rightarrow> bool" where
  "quiet s s' \<longleftrightarrow> (\<not> SClosed s' \<longrightarrow> \<not> SClosed s \<and> nacked (SReq s') = nacked (SReq s))"

lemma quiet_steps:
  "quiet s (sendNacks h s)"
  "quiet s (fst (wait_loop cd s))"
  "Send_Send cd ops p h m req s = (s', res) \<Longrightarrow> quiet s s'"
  "quiet s (backgroundAck h got s)"
  by (auto simp: quiet_def sendNacks_def wait_loop_def Send_Send_def transmit_def backgroundAck_def
      readAck_def dest: pop_acks_nacked split: if_splits prod.splits sum.splits fault.splits option.splits)

lemma Acks_total:
  assumes "length bs \<le> length (Reqs s)" and "\<not> SClosed s"
  shows "total (backgroundAck h (Some bs) s) = total s"
proof (cases "bs \<noteq> [] \<and> hd bs \<noteq> of_char CHR ''k''")
  case True
  with sendNacks_total [of s] show ?thesis by (simp add: backgroundAck_def readAck_def)
next
  case False
  obtain reqs r where pop: "pop_acks h (length bs) (Reqs s, SReq s) = (reqs, r)" by fastforce
  with False have "backgroundAck h (Some bs) s =
      s\<lparr>Reqs := reqs, SReq := r, Available := Available s + of_nat (length bs)\<rparr>"
    by (auto simp: backgroundAck_def readAck_def)
  moreover have "mset (acked r) + mset (asked reqs) = mset (acked (SReq s)) + mset (asked (Reqs s))"
    using pop_acks_spec [OF assms(1) pop] by (metis mset_append mset_asked_rev)
  moreover have "nacked r = nacked (SReq s)" using pop_acks_spec [OF assms(1) pop] by blast
  ultimately show ?thesis using assms(2) by (simp add: total_def in_flight_def ac_simps)
qed

end

text \<open>A handler that also counts the requests it waits for.\<close>

locale counting_requests = send_requests h acked nacked
  for h :: "('ts, 'r) handler" and acked nacked :: "'r \<Rightarrow> 'ts message list" +
  fixes outstanding :: "'r \<Rightarrow> int"
  assumes outstanding_Ack [simp]: "outstanding (HAck h m r) = outstanding r - 1"
    and outstanding_Nack [simp]: "outstanding (HNack h m r) = outstanding r - 1"
begin

text \<open>The count and what is in flight differ by what nobody answers for any more.\<close>

definition owed :: "('ts, 'z, 'r) send \<Rightarrow> int" where
  "owed s = outstanding (SReq s) - int (size (in_flight s))"

lemma fold_outstanding:
  "outstanding (fold (call_back (HNack h)) qs r) = outstanding r - int (length (asked qs))"
  by (induction qs arbitrary: r) (auto simp: call_back_def)

lemma asked_rev_length [simp]: "length (asked (rev qs)) = length (asked qs)"
  by (metis mset_asked_rev size_mset)

lemma pop_acks_outstanding:
  "n \<le> length reqs \<Longrightarrow> pop_acks h n (reqs, r) = (reqs', r') \<Longrightarrow>
   outstanding r' - int (length (asked reqs')) = outstanding r - int (length (asked reqs))"
proof (induction n arbitrary: reqs r)
  case (Suc n)
  then obtain qs q where reqs: "reqs = qs @ [q]" by (cases reqs rule: rev_cases) auto
  from Suc.IH [of qs "call_back (HAck h) q r"] Suc.prems reqs show ?case
    by (auto simp: call_back_def split: if_splits)
qed simp

lemma owed_enc [simp]:
  "owed (s\<lparr>SEnc := e\<rparr>) = owed s" "owed (s\<lparr>Blocked := n\<rparr>) = owed s" "owed (s\<lparr>AckerDone := b\<rparr>) = owed s"
  by (simp_all add: owed_def in_flight_def)

lemma sendNacks_owed: "owed (sendNacks h s) = owed s"
  by (simp add: owed_def in_flight_def sendNacks_def fold_outstanding)

lemma wait_loop_owed: "owed (fst (wait_loop cd s)) = owed s"
  by (simp add: wait_loop_def)

lemma Send_owed:
  assumes "Send_Send cd ops p h m True s = (s', res)" and "\<And>e. res \<noteq> Returned (Inl (Panic e))"
  shows "owed s' = owed s - 1"
proof (cases "SClosed s")
  case True
  with assms show ?thesis by (auto simp: Send_Send_def owed_def in_flight_def call_back_def)
next
  case False
  let ?s = "s\<lparr>Reqs := (True, m) # Reqs s, Available := Available s - 1\<rparr>"
  have push: "owed ?s = owed s - 1" using False by (simp add: owed_def in_flight_def)
  obtain enc r where rc: "StreamEncoder_Receive cd ops p (SEnc s) m = (enc, r)" by fastforce
  show ?thesis
  proof (cases r)
    case (Inr u)
    with assms(1) False rc have "s' = fst (wait_loop cd (?s\<lparr>SEnc := enc\<rparr>))"
      by (simp add: Send_Send_def transmit_def)
    with wait_loop_owed [of cd "?s\<lparr>SEnc := enc\<rparr>"] push show ?thesis by simp
  next
    case (Inl f)
    with assms False rc obtain e where "f = Err e" "s' = sendNacks h (?s\<lparr>SEnc := enc\<rparr>)"
      by (cases f) (auto simp: Send_Send_def transmit_def)
    with sendNacks_owed [of "?s\<lparr>SEnc := enc\<rparr>"] push show ?thesis by simp
  qed
qed

lemma Acks_owed:
  assumes "length bs \<le> length (Reqs s)" and "\<not> SClosed s"
  shows "owed (backgroundAck h (Some bs) s) = owed s"
proof (cases "bs \<noteq> [] \<and> hd bs \<noteq> of_char CHR ''k''")
  case True
  with sendNacks_owed [of s] show ?thesis by (simp add: backgroundAck_def readAck_def)
next
  case False
  obtain reqs r where pop: "pop_acks h (length bs) (Reqs s, SReq s) = (reqs, r)" by fastforce
  with False have "backgroundAck h (Some bs) s =
      s\<lparr>Reqs := reqs, SReq := r, Available := Available s + of_nat (length bs)\<rparr>"
    by (auto simp: backgroundAck_def readAck_def)
  with pop_acks_outstanding [OF assms(1) pop] assms(2) show ?thesis by (simp add: owed_def in_flight_def)
qed

end

text \<open>The calls of OnClosed: at most one, and only when it has closed.\<close>

definition closed_once :: "('ts, 'z, 'r) send \<Rightarrow> bool" where
  "closed_once s \<longleftrightarrow> ClosedCalls s = (if SClosed s then 1 else 0)"

lemma error_closes:
  "Send_Send cd ops p h m req s = (s', Returned (Inl (Err e))) \<Longrightarrow> SClosed s'"
  "wait_loop cd s = (s', Returned (Inl (Err e))) \<Longrightarrow> SClosed s'"
  by (auto simp: Send_Send_def transmit_def wait_loop_def sendNacks_def
      split: if_splits prod.splits sum.splits fault.splits)

lemma wait_loop_no_panic: "wait_loop cd s \<noteq> (s', Returned (Inl (Panic e)))"
  by (auto simp: wait_loop_def)

definition grows :: "('ts, 'z, 'r) send \<Rightarrow> ('ts, 'z, 'r) send \<Rightarrow> bool" where
  "grows s s' \<longleftrightarrow> ClosedCalls s \<le> ClosedCalls s' \<and> (closed_once s \<longrightarrow> closed_once s') \<and>
     (ClosedCalls s' = ClosedCalls s \<longrightarrow> SClosed s' = SClosed s)"

lemma grows_steps [intro]:
  "grows s (sendNacks h s)"
  "grows s (fst (wait_loop cd s))"
  "Send_Send cd ops p h m req s = (s', res) \<Longrightarrow> grows s s'"
  "grows s (backgroundAck h got s)"
  by (auto simp: grows_def closed_once_def sendNacks_def wait_loop_def Send_Send_def transmit_def backgroundAck_def
      readAck_def split: if_splits prod.splits sum.splits fault.splits option.splits)

lemma window_ok_enc [simp]:
  "window_ok (s\<lparr>SEnc := e\<rparr>) = window_ok s" "window_ok (s\<lparr>AckerDone := b\<rparr>) = window_ok s"
  by (simp_all add: window_ok_def)

lemma sendNacks_window: "window_ok s \<Longrightarrow> window_ok (sendNacks h s)"
  by (simp add: window_ok_def sendNacks_def)

definition room_left :: "('ts, 'z, 'r) send \<Rightarrow> bool" where
  "room_left s \<longleftrightarrow>
     1 \<le> Window s \<and> Window s < 2 ^ 31 \<and> Available s = word_of_int (Window s) - of_nat (length (Reqs s)) \<and>
     Blocked s = 0 \<and> (\<not> SClosed s \<longrightarrow> int (length (Reqs s)) \<le> Window s)"

lemma wait_loop_window: "room_left s \<Longrightarrow> window_ok (fst (wait_loop cd s))"
  by (auto simp: wait_loop_def room_left_def window_ok_def) (metis of_int_of_nat_eq order_le_less)

lemma Send_window:
  assumes "Send_Send cd ops p h m req s = (s', res)" and "window_ok s" and "Blocked s = 0"
    and "\<And>e. res \<noteq> Returned (Inl (Panic e))"
  shows "window_ok s'"
proof (cases "SClosed s")
  case True
  with assms show ?thesis by (auto simp: Send_Send_def window_ok_def)
next
  case False
  let ?s = "s\<lparr>Reqs := (req, m) # Reqs s, Available := Available s - 1\<rparr>"
  have room: "room_left ?s" using assms(2,3) False by (auto simp: room_left_def window_ok_def)
  obtain enc r where rc: "StreamEncoder_Receive cd ops p (SEnc s) m = (enc, r)" by fastforce
  show ?thesis
  proof (cases r)
    case (Inr u)
    with assms(1) False rc have "s' = fst (wait_loop cd (?s\<lparr>SEnc := enc\<rparr>))"
      by (simp add: Send_Send_def transmit_def)
    moreover have "room_left (?s\<lparr>SEnc := enc\<rparr>)" using room by (simp add: room_left_def)
    ultimately show ?thesis using wait_loop_window by simp
  next
    case (Inl f)
    with assms(1,4) False rc obtain e where "f = Err e" "s' = sendNacks h (?s\<lparr>SEnc := enc\<rparr>)"
      by (cases f) (auto simp: Send_Send_def transmit_def)
    with room False show ?thesis by (simp add: sendNacks_def window_ok_def room_left_def)
  qed
qed

lemma pop_acks_take:
  "n \<le> length reqs \<Longrightarrow> fst (pop_acks h n (reqs, r)) = take (length reqs - n) reqs"
proof (induction n arbitrary: reqs r)
  case (Suc n)
  then obtain qs q where "reqs = qs @ [q]" by (cases reqs rule: rev_cases) auto
  with Suc show ?case by simp
qed simp

lemma Acks_window:
  assumes "length bs \<le> length (Reqs s)" and "window_ok s"
  shows "window_ok (backgroundAck h (Some bs) s)"
proof (cases "bs \<noteq> [] \<and> hd bs \<noteq> of_char CHR ''k''")
  case True
  with sendNacks_window [OF assms(2)] show ?thesis by (simp add: backgroundAck_def readAck_def)
next
  case False
  obtain reqs r where pop: "pop_acks h (length bs) (Reqs s, SReq s) = (reqs, r)" by fastforce
  with pop_acks_take [OF assms(1), of h "SReq s"] have "reqs = take (length (Reqs s) - length bs) (Reqs s)" by simp
  moreover have "backgroundAck h (Some bs) s =
      s\<lparr>Reqs := reqs, SReq := r, Available := Available s + of_nat (length bs)\<rparr>"
    using False pop by (auto simp: backgroundAck_def readAck_def)
  ultimately show ?thesis using assms by (auto simp: window_ok_def of_nat_diff)
qed

lemma orderly_window:
  "orderly_run cd ops p h s es s' \<Longrightarrow> window_ok s \<Longrightarrow> window_ok s'"
proof (induction rule: orderly_run.induct)
  case (more s es s1 e s2)
  then have ok: "window_ok s1" by simp
  from more.hyps(3) show ?case
  proof (cases rule: send_step.cases)
    case (call m req res)
    with more.hyps(2) Send_window [OF call(2) ok] show ?thesis by (simp add: orderly_def)
  next
    case (acks bs)
    with more.hyps(2) Acks_window [of bs s1] ok show ?thesis by (simp add: orderly_def)
  next
    case fails
    then show ?thesis using sendNacks_window [OF ok] by (simp add: backgroundAck_def)
  next
    case wakes
    with ok have "room_left (s1\<lparr>Blocked := Blocked s1 - 1\<rparr>)" by (auto simp: room_left_def window_ok_def)
    from wait_loop_window [OF this] wakes show ?thesis by (simp add: Send_wake_def)
  qed
qed simp

section \<open>Properties\<close>

text \<open>A handler that only writes down its calls.\<close>

definition log_handler :: "('ts, (bool \<times> 'ts message) list) handler" where
  "log_handler = \<lparr>HAck = (\<lambda>m r. r @ [(True, m)]), HNack = (\<lambda>m r. r @ [(False, m)])\<rparr>"

interpretation calls: send_requests log_handler "\<lambda>r. map snd (filter fst r)" "\<lambda>r. map snd (filter (\<lambda>c. \<not> fst c) r)"
  by unfold_locales (simp_all add: log_handler_def)

lemma NewSend_ok:
  assumes "NewSend w window r = Inr s" and "window \<in> {- 1, 0} \<or> 1 \<le> window \<and> window < 2 ^ 31"
  shows "window_ok s \<and> \<not> SClosed s \<and> Reqs s = [] \<and> SReq s = r"
  using assms by (auto simp: NewSend_def window_ok_def Let_def MinimumWindow_20)



text \<open>
  where Send goes wrong. The window for a millisecond of delay at a thousand messages a
  second is 20 where the comment's formula gives 2, and below a thousand messages a second the
  computation divides by zero; only the first byte of a batch of acknowledgements is looked at;
  an acknowledgement that comes after the connection was closed acknowledges a request that has
  already been refused; a call of Send that enters while another waits makes the count negative
  and is not stopped; acknowledgements nobody waits for widen the window.
\<close>

lemma send_gaps:
  "MinimumSendWindow 1000000 1000 = Inr 20 \<and>
   MinimumSendWindow 1000000 999 = Inl (Panic ''integer divide by zero'') \<and>
   snd (readAck h [of_char CHR ''k'', of_char CHR ''x''] s) = Inr () \<and>
   SReq (backgroundAck log_handler (Some [of_char CHR ''k''])
     (s'\<lparr>SClosed := True, Reqs := [(True, m)], SReq := [(False, m)]\<rparr>)) = [(False, m), (True, m)] \<and>
   wait_loop cd (s\<lparr>Available := 0 - 1\<rparr>) = (s\<lparr>Available := - 1\<rparr>, Returned (Inr ())) \<and>
   Available (fst (readAck h [of_char CHR ''k''] (s\<lparr>Reqs := []\<rparr>))) = Available s + 1"
proof (intro conjI)
  show "snd (readAck h [of_char CHR ''k'', of_char CHR ''x''] s) = Inr ()"
    by (simp add: readAck_def split: prod.split)
  show "SReq (backgroundAck log_handler (Some [of_char CHR ''k''])
     (s'\<lparr>SClosed := True, Reqs := [(True, m)], SReq := [(False, m)]\<rparr>)) = [(False, m), (True, m)]"
    by (simp add: backgroundAck_def readAck_def call_back_def log_handler_def)
  show "Available (fst (readAck h [of_char CHR ''k''] (s\<lparr>Reqs := []\<rparr>))) = Available s + 1"
    by (simp add: readAck_def)
qed (simp_all add: MinimumSendWindow_def wrap64_def signed_divide_int_def wait_loop_def)

end
