(* ===== verification/ReliableSend.thy ===== *)
theory ReliableSend
  imports Send
begin

text \<open>
  reliable_send.go: messages queue up, one goroutine (drain) hands them to the current Send,
  and when that one closes it reconnects and sends again what was refused. drain can wait
  inside Send, so its place is part of the state: Resending is its loop over the refused
  messages in reconnect. Delivered is a ghost: it only records the messages whose Ack came.
\<close>

record 'ts requester =
  Outstanding :: int
  NackedMsgs :: "'ts message list"
  Delivered :: "'ts message list"

definition RS_Ack :: "'ts message \<Rightarrow> 'ts requester \<Rightarrow> 'ts requester" where
  "RS_Ack m r = r\<lparr>Outstanding := Outstanding r - 1, Delivered := Delivered r @ [m]\<rparr>"

definition RS_Nack :: "'ts message \<Rightarrow> 'ts requester \<Rightarrow> 'ts requester" where
  "RS_Nack m r = r\<lparr>Outstanding := Outstanding r - 1, NackedMsgs := NackedMsgs r @ [m]\<rparr>"

definition reliable_handler :: "('ts, 'ts requester) handler" where
  "reliable_handler = \<lparr>HAck = RS_Ack, HNack = RS_Nack\<rparr>"

interpretation rel: counting_requests reliable_handler Delivered NackedMsgs Outstanding
  by unfold_locales (simp_all add: reliable_handler_def RS_Ack_def RS_Nack_def)

datatype 'ts drain_pc = Selecting | Resending "'ts message list"

text \<open>
  The requester lives inside the current Send (its SReq). Signals is what the closed channel
  holds; Queue is the channel newMessages, of capacity Buffer.
\<close>

record ('ts, 'z) reliable_send =
  Cur :: "('ts, 'z, 'ts requester) send"
  Queue :: "'ts message list"
  Buffer :: nat
  Signals :: nat
  Pc :: "'ts drain_pc"

text \<open>messages.go: sort.Sort by timestamp, with the order of tai64n as a parameter.\<close>

fun insert_msg :: "('ts option \<Rightarrow> 'ts option \<Rightarrow> bool) \<Rightarrow> 'ts message \<Rightarrow> 'ts message list \<Rightarrow> 'ts message list" where
  "insert_msg before m [] = [m]"
| "insert_msg before m (x # xs) =
     (if before (Timestamp x) (Timestamp m) then x # insert_msg before m xs else m # x # xs)"

definition sort_msgs :: "('ts option \<Rightarrow> 'ts option \<Rightarrow> bool) \<Rightarrow> 'ts message list \<Rightarrow> 'ts message list" where
  "sort_msgs before ms = foldr (insert_msg before) ms []"

definition new_requester :: "'ts requester" where
  "new_requester = \<lparr>Outstanding = 0, NackedMsgs = [], Delivered = []\<rparr>"

text \<open>NewReliableSend and Start: the first connection is up (reconnect with nothing to resend).\<close>

definition RS_start :: "('ts, 'z, 'ts requester) send \<Rightarrow> nat \<Rightarrow> ('ts, 'z) reliable_send" where
  "RS_start s buffer = \<lparr>Cur = s\<lparr>SReq := new_requester\<rparr>, Queue = [], Buffer = buffer, Signals = 0, Pc = Selecting\<rparr>"

text \<open>onClosed puts a signal into the channel for every close of the current Send.\<close>

definition with_cur :: "('ts, 'z) reliable_send \<Rightarrow> ('ts, 'z, 'ts requester) send \<Rightarrow> ('ts, 'z) reliable_send" where
  "with_cur r s = r\<lparr>Cur := s, Signals := Signals r + (ClosedCalls s - ClosedCalls (Cur r))\<rparr>"

text \<open>The reaction of reconnect's loop to what Send returned; drain ignores it elsewhere.\<close>

definition after_send ::
  "('ts option \<Rightarrow> 'ts option \<Rightarrow> bool) \<Rightarrow> send_result \<Rightarrow> ('ts, 'z) reliable_send \<Rightarrow> ('ts, 'z) reliable_send" where
  "after_send before res r =
     (case (Pc r, res) of
        (Resending rest, Returned (Inl _)) \<Rightarrow>
          r\<lparr>Cur := (Cur r)\<lparr>SReq := (SReq (Cur r))\<lparr>NackedMsgs :=
              sort_msgs before (rest @ NackedMsgs (SReq (Cur r)))\<rparr>\<rparr>, Pc := Selecting\<rparr>
      | _ \<Rightarrow> r)"

definition RS_Receive :: "'ts message \<Rightarrow> ('ts, 'z) reliable_send \<Rightarrow> ('ts, 'z) reliable_send" where
  "RS_Receive m r = r\<lparr>Queue := Queue r @ [m]\<rparr>"

definition RS_send ::
  "'z codecs \<Rightarrow> 'ts ts_ops \<Rightarrow> 'ts printers \<Rightarrow> 'ts message \<Rightarrow> ('ts, 'z) reliable_send \<Rightarrow> ('ts, 'z) reliable_send \<times> send_result" where
  "RS_send cd ops p m r =
     (case Send_Send cd ops p reliable_handler m True
          ((Cur r)\<lparr>SReq := (SReq (Cur r))\<lparr>Outstanding := Outstanding (SReq (Cur r)) + 1\<rparr>\<rparr>) of
        (s, res) \<Rightarrow> (with_cur r s, res))"

text \<open>
  reconnect up to its loop: the old Send is closed, a new one (its connection and handshake
  done) takes over the requester, and the refused messages are taken out to be sent again.
\<close>

definition reconnect_begin :: "('ts, 'z, 'ts requester) send \<Rightarrow> ('ts, 'z) reliable_send \<Rightarrow> ('ts, 'z) reliable_send" where
  "reconnect_begin s r =
     r\<lparr>Cur := s\<lparr>SReq := (SReq (Cur r))\<lparr>NackedMsgs := []\<rparr>\<rparr>, Pc := Resending (NackedMsgs (SReq (Cur r)))\<rparr>"

definition fresh_send :: "('ts, 'z, 'r) send \<Rightarrow> bool" where
  "fresh_send s \<longleftrightarrow> \<not> SClosed s \<and> Reqs s = [] \<and> Blocked s = 0 \<and> ClosedCalls s = 0"

datatype 'ts rs_event =
    Accept "'ts message" | DrainNew | DrainClosed | DrainFlush | Resend | ResendDone | PeerAcks bytes | PeerFails | Woken

inductive rs_step :: "'z codecs \<Rightarrow> 'ts ts_ops \<Rightarrow> 'ts printers \<Rightarrow> ('ts option \<Rightarrow> 'ts option \<Rightarrow> bool) \<Rightarrow>
    ('ts, 'z) reliable_send \<Rightarrow> 'ts rs_event \<Rightarrow> ('ts, 'z) reliable_send \<Rightarrow> bool"
  for cd ops p before where
  accept: "length (Queue r) < Buffer r \<Longrightarrow> rs_step cd ops p before r (Accept m) (RS_Receive m r)"
| drain_new: "Pc r = Selecting \<Longrightarrow> Blocked (Cur r) = 0 \<Longrightarrow> Queue r = m # q \<Longrightarrow>
    RS_send cd ops p m (r\<lparr>Queue := q\<rparr>) = (r', res) \<Longrightarrow> (\<And>e. res \<noteq> Returned (Inl (Panic e))) \<Longrightarrow>
    rs_step cd ops p before r DrainNew r'"
| drain_closed: "Pc r = Selecting \<Longrightarrow> Blocked (Cur r) = 0 \<Longrightarrow> 0 < Signals r \<Longrightarrow> fresh_send s \<Longrightarrow>
    rs_step cd ops p before r DrainClosed (reconnect_begin s (r\<lparr>Signals := Signals r - 1\<rparr>))"
| drain_flush: "Pc r = Selecting \<Longrightarrow> Blocked (Cur r) = 0 \<Longrightarrow>
    rs_step cd ops p before r DrainFlush (r\<lparr>Cur := fst (Send_Flush cd (Cur r))\<rparr>)"
| resend: "Pc r = Resending (m # rest) \<Longrightarrow> Blocked (Cur r) = 0 \<Longrightarrow>
    RS_send cd ops p m (r\<lparr>Pc := Resending rest\<rparr>) = (r', res) \<Longrightarrow> (\<And>e. res \<noteq> Returned (Inl (Panic e))) \<Longrightarrow>
    rs_step cd ops p before r Resend (after_send before res r')"
| resend_done: "Pc r = Resending [] \<Longrightarrow> Blocked (Cur r) = 0 \<Longrightarrow>
    rs_step cd ops p before r ResendDone (r\<lparr>Pc := Selecting\<rparr>)"
| peer_acks: "\<not> AckerDone (Cur r) \<Longrightarrow> length bs \<le> length (Reqs (Cur r)) \<Longrightarrow> \<not> SClosed (Cur r) \<Longrightarrow>
    rs_step cd ops p before r (PeerAcks bs) (with_cur r (backgroundAck reliable_handler (Some bs) (Cur r)))"
| peer_fails: "\<not> AckerDone (Cur r) \<Longrightarrow>
    rs_step cd ops p before r PeerFails (with_cur r (backgroundAck reliable_handler None (Cur r)))"
| woken: "0 < Blocked (Cur r) \<Longrightarrow> Send_wake cd (Cur r) = (s, res) \<Longrightarrow>
    rs_step cd ops p before r Woken (after_send before res (with_cur r s))"

text \<open>The runs from the start, with the messages they accepted.\<close>

inductive rs_run :: "'z codecs \<Rightarrow> 'ts ts_ops \<Rightarrow> 'ts printers \<Rightarrow> ('ts option \<Rightarrow> 'ts option \<Rightarrow> bool) \<Rightarrow>
    ('ts, 'z) reliable_send \<Rightarrow> 'ts rs_event list \<Rightarrow> ('ts, 'z) reliable_send \<Rightarrow> bool"
  for cd ops p before r0 where
  start: "rs_run cd ops p before r0 [] r0"
| step: "rs_run cd ops p before r0 es r \<Longrightarrow> rs_step cd ops p before r e r' \<Longrightarrow> rs_run cd ops p before r0 (es @ [e]) r'"

definition accepted :: "'ts rs_event list \<Rightarrow> 'ts message list" where
  "accepted es = concat (map (\<lambda>e. case e of Accept m \<Rightarrow> [m] | _ \<Rightarrow> []) es)"

section \<open>Nothing is lost\<close>

definition pending :: "('ts, 'z) reliable_send \<Rightarrow> 'ts message multiset" where
  "pending r = mset (Queue r) + (case Pc r of Resending rest \<Rightarrow> mset rest | Selecting \<Rightarrow> {#})"

definition rs_inv :: "('ts, 'z) reliable_send \<Rightarrow> 'ts message multiset \<Rightarrow> bool" where
  "rs_inv r ms \<longleftrightarrow>
     pending r + rel.total (Cur r) = ms \<and>
     rel.owed (Cur r) = 0 \<and> closed_once (Cur r) \<and> Signals r = ClosedCalls (Cur r) \<and>
     (\<not> SClosed (Cur r) \<longrightarrow> NackedMsgs (SReq (Cur r)) = [])"

lemma rel_total_nacks:
  "rel.total (s\<lparr>SReq := r\<lparr>NackedMsgs := ms\<rparr>\<rparr>) = mset (Delivered r) + mset ms + rel.in_flight s"
  "rel.owed (s\<lparr>SReq := r\<lparr>NackedMsgs := ms\<rparr>\<rparr>) = Outstanding r - int (size (rel.in_flight s))"
  "rel.total (s\<lparr>SReq := r\<lparr>Outstanding := k\<rparr>\<rparr>) = rel.total (s\<lparr>SReq := r\<rparr>)"
  by (simp_all add: rel.total_def rel.owed_def rel.in_flight_def)

lemma mset_sort_msgs [simp]: "mset (sort_msgs before ms) = mset ms"
proof -
  have "mset (insert_msg before m xs) = add_mset m (mset xs)" for m xs
    by (induction xs) auto
  then show ?thesis by (induction ms) (auto simp: sort_msgs_def)
qed

lemma with_cur_inv:
  assumes "rs_inv r ms" and "grows (Cur r) s" and "rel.quiet (Cur r) s"
    and "rel.total s = rel.total (Cur r) + new" and "rel.owed s = 0"
  shows "rs_inv (with_cur r s) (ms + new)"
  using assms by (auto simp: rs_inv_def with_cur_def pending_def grows_def rel.quiet_def)

lemma after_send_inv:
  assumes "rs_inv r ms" and "\<And>e. res = Returned (Inl e) \<Longrightarrow> SClosed (Cur r)"
  shows "rs_inv (after_send before res r) ms"
  using assms
  by (auto simp: after_send_def rs_inv_def pending_def rel_total_nacks closed_once_def split: drain_pc.split send_result.split sum.split)
    (auto simp: rel.total_def rel.owed_def rel.in_flight_def)

lemma grows_req [simp]:
  "grows (s\<lparr>SReq := x\<rparr>) s' = grows s s'" "grows (s\<lparr>Blocked := n\<rparr>) s' = grows s s'"
  by (simp_all add: grows_def closed_once_def)

lemma reconnect_begin_inv:
  assumes "rs_inv r ms" and "0 < Signals r" and "fresh_send s" and "Pc r = Selecting"
  shows "rs_inv (reconnect_begin s (r\<lparr>Signals := Signals r - 1\<rparr>)) ms"
proof -
  from assms(1) have "pending r + rel.total (Cur r) = ms" and owed: "rel.owed (Cur r) = 0"
    and "closed_once (Cur r)" and "Signals r = ClosedCalls (Cur r)" by (simp_all add: rs_inv_def)
  with assms(2) have closed: "SClosed (Cur r)" "Signals r = 1" by (auto simp: closed_once_def split: if_splits)
  have "rel.total (Cur r) = mset (Delivered (SReq (Cur r))) + mset (NackedMsgs (SReq (Cur r)))"
    using closed(1) by (simp add: rel.total_def rel.in_flight_def)
  moreover have "Outstanding (SReq (Cur r)) = 0" using owed closed(1) by (simp add: rel.owed_def rel.in_flight_def)
  ultimately show ?thesis
    using closed(2) assms(3,4) \<open>pending r + rel.total (Cur r) = ms\<close>
    by (simp add: rs_inv_def reconnect_begin_def pending_def fresh_send_def closed_once_def
        rel_total_nacks rel.in_flight_def asked_def ac_simps)
qed

lemma RS_send_inv:
  assumes "RS_send cd ops p m r = (r', res)" and "rs_inv r ms" and "\<And>e. res \<noteq> Returned (Inl (Panic e))"
  shows "rs_inv r' (ms + {#m#}) \<and> Pc r' = Pc r \<and> (\<forall>e. res = Returned (Inl e) \<longrightarrow> SClosed (Cur r'))"
proof -
  let ?s = "(Cur r)\<lparr>SReq := (SReq (Cur r))\<lparr>Outstanding := Outstanding (SReq (Cur r)) + 1\<rparr>\<rparr>"
  obtain s where s: "Send_Send cd ops p reliable_handler m True ?s = (s, res)" "r' = with_cur r s"
    using assms(1) by (auto simp: RS_send_def split: prod.splits)
  have "rel.total s = rel.total (Cur r) + {#m#}"
    using rel.Send_total [OF s(1) assms(3)] by (simp add: rel.total_def rel.in_flight_def)
  moreover have "rel.owed s = 0"
    using rel.Send_owed [OF s(1) assms(3)] assms(2) by (simp add: rel.owed_def rel.in_flight_def rs_inv_def)
  moreover have "grows (Cur r) s"
    using grows_steps(3) [OF s(1)] by simp
  moreover have "rel.quiet (Cur r) s"
    using rel.quiet_steps(3) [OF s(1)] by (simp add: rel.quiet_def)
  ultimately have "rs_inv (with_cur r s) (ms + {#m#})" by (intro with_cur_inv [OF assms(2)])
  moreover have "SClosed s" if "res = Returned (Inl e)" for e
  proof (cases e)
    case (Err x)
    with s(1) that show ?thesis using error_closes(1) by blast
  qed (use assms(3) that in blast)
  ultimately show ?thesis using s(2) by (simp add: with_cur_def)
qed

lemma rs_step_inv:
  assumes "rs_step cd ops p before r e r'" and "rs_inv r ms"
  shows "rs_inv r' (ms + mset (accepted [e]))"
  using assms
proof (cases rule: rs_step.cases)
  case (accept m)
  with assms(2) show ?thesis by (simp add: RS_Receive_def rs_inv_def pending_def accepted_def)
next
  case (drain_new m q res)
  have "rs_inv (r\<lparr>Queue := q\<rparr>) (ms - {#m#})"
    using assms(2) drain_new by (auto simp: rs_inv_def pending_def)
  moreover have "m \<in># ms" using assms(2) drain_new by (auto simp: rs_inv_def pending_def)
  ultimately show ?thesis
    using RS_send_inv [OF drain_new(5)] drain_new by (fastforce simp: accepted_def)
next
  case (drain_closed s)
  with reconnect_begin_inv [OF assms(2)] show ?thesis by (simp add: accepted_def)
next
  case drain_flush
  with assms(2) show ?thesis
    by (simp add: rs_inv_def pending_def accepted_def Send_Flush_def closed_once_def split: prod.split)
next
  case (resend m rest r1 res)
  have "rs_inv (r\<lparr>Pc := Resending rest\<rparr>) (ms - {#m#})" "m \<in># ms"
    using assms(2) resend by (auto simp: rs_inv_def pending_def)
  with RS_send_inv [OF resend(5)] resend have "rs_inv r1 ms" "\<And>e. res = Returned (Inl e) \<Longrightarrow> SClosed (Cur r1)"
    by fastforce+
  from after_send_inv [OF this] resend show ?thesis by (simp add: accepted_def)
next
  case resend_done
  with assms(2) show ?thesis by (simp add: rs_inv_def pending_def accepted_def)
next
  case (peer_acks bs)
  have "rs_inv (with_cur r (backgroundAck reliable_handler (Some bs) (Cur r))) (ms + {#})"
    by (rule with_cur_inv [OF assms(2) grows_steps(4) rel.quiet_steps(4)])
      (use rel.Acks_total [OF peer_acks(4,5)] rel.Acks_owed [OF peer_acks(4,5)] assms(2) in \<open>simp_all add: rs_inv_def\<close>)
  with peer_acks show ?thesis by (simp add: accepted_def)
next
  case peer_fails
  have "rs_inv (with_cur r (backgroundAck reliable_handler None (Cur r))) (ms + {#})"
    by (rule with_cur_inv [OF assms(2) grows_steps(4) rel.quiet_steps(4)])
      (use assms(2) in \<open>simp_all add: backgroundAck_def rel.sendNacks_total rel.sendNacks_owed rs_inv_def\<close>)
  with peer_fails show ?thesis by (simp add: accepted_def)
next
  case (woken s res)
  have s: "s = fst (wait_loop cd ((Cur r)\<lparr>Blocked := Blocked (Cur r) - 1\<rparr>))"
    using woken by (simp add: Send_wake_def)
  have "grows (Cur r) s"
    using grows_steps(2) [of "(Cur r)\<lparr>Blocked := Blocked (Cur r) - 1\<rparr>" cd] by (simp add: s)
  moreover have "rel.quiet (Cur r) s"
    using rel.quiet_steps(2) [of "(Cur r)\<lparr>Blocked := Blocked (Cur r) - 1\<rparr>" cd] by (simp add: s rel.quiet_def)
  ultimately have "rs_inv (with_cur r s) (ms + {#})"
    by (rule with_cur_inv [OF assms(2)])
      (use assms(2) in \<open>simp_all add: s rel.wait_loop_total rel.wait_loop_owed rs_inv_def\<close>)
  moreover have "SClosed s" if "res = Returned (Inl e)" for e
    using that woken(4) error_closes(2) wait_loop_no_panic unfolding Send_wake_def by (metis fault.exhaust)
  ultimately show ?thesis using after_send_inv [of "with_cur r s"] woken by (simp add: accepted_def with_cur_def)
qed

lemma accepted_snoc: "accepted (es @ [e]) = accepted es @ accepted [e]"
  by (simp add: accepted_def)

lemma rs_run_inv:
  assumes "rs_run cd ops p before r0 es r" and "rs_inv r0 {#}"
  shows "rs_inv r (mset (accepted es))"
  using assms
proof (induction rule: rs_run.induct)
  case (step es r e r')
  then have "rs_inv r' (mset (accepted es) + mset (accepted [e]))" by (intro rs_step_inv) simp_all
  then show ?case by (simp add: accepted_snoc)
qed (simp add: accepted_def)

text \<open>
  The end of drain: what is queued is sent, and the Send is closed without waiting for the
  acknowledgements. A Send that fills the window would wait for them here.
\<close>

fun drain_dying :: "'z codecs \<Rightarrow> 'ts ts_ops \<Rightarrow> 'ts printers \<Rightarrow> 'ts message list \<Rightarrow> ('ts, 'z) reliable_send \<Rightarrow>
    ('ts, 'z) reliable_send option" where
  "drain_dying cd ops p [] r = Some (r\<lparr>Queue := [], Cur := fst (Send_Close cd (Cur r))\<rparr>)"
| "drain_dying cd ops p (m # ms) r =
     (case RS_send cd ops p m r of
        (r', Returned _) \<Rightarrow> drain_dying cd ops p ms r'
      | (r', Waits) \<Rightarrow> None)"

section \<open>Properties\<close>



end
