(* ===== verification/System.thy ===== *)
theory System
  imports ReliableSend
begin

text \<open>
  system.go: the logger of a process, localConn. Messages go through a channel to one
  goroutine (process), which sends them to the agent's socket and keeps what it cannot send.
  What net.Dial answers is an argument of each step: no connection, or a fresh writer.
  Accepted and Sent are ghosts: the messages taken from the channel, and those for which
  Encode returned no error.
\<close>

definition cMaxBuffer :: nat where "cMaxBuffer = 100"
definition cMaxTries :: nat where "cMaxTries = 10"
definition cDefaultBacklog :: int where "cDefaultBacklog = 100"
definition DefaultSocketPath :: string where "DefaultSocketPath = ''/var/lib/cypress.sock''"

text \<open>Connected is that there is a writer: conn, enc and connected change together.\<close>

record 'ts local_conn =
  LC_Feeder :: "'ts message list"
  LC_Conn :: "sink option"
  LC_Buffer :: "'ts message list"
  LC_Done :: bool
  LC_Accepted :: "'ts message list"
  LC_Sent :: "'ts message list"

definition LogPath :: "(string \<Rightarrow> string) \<Rightarrow> string" where
  "LogPath env = (if env ''LOG_PATH'' \<noteq> '''' then env ''LOG_PATH'' else DefaultSocketPath)"

text \<open>ConnectTo panics without the socket; make panics when the variable asks for a negative backlog.\<close>

definition ConnectTo :: "(string \<Rightarrow> string) \<Rightarrow> (string \<Rightarrow> bool) \<Rightarrow> string \<Rightarrow> ('ts local_conn \<times> nat) result" where
  "ConnectTo env exists path =
     (if \<not> exists path then Inl (Panic ''log path is not available'')
      else let backlog = (case Atoi (env ''LOG_BACKLOG'') of Inr i \<Rightarrow> i | Inl _ \<Rightarrow> cDefaultBacklog)
        in if backlog < 0 then Inl (Panic ''makechan: size out of range'')
           else Inr (\<lparr>LC_Feeder = [], LC_Conn = None, LC_Buffer = [], LC_Done = False, LC_Accepted = [], LC_Sent = []\<rparr>,
                     nat backlog))"

definition save :: "'ts message \<Rightarrow> 'ts message list \<Rightarrow> 'ts message list" where
  "save m buffer =
     (if cMaxBuffer \<le> length buffer then [m] @ take (cMaxBuffer - 1) buffer else buffer @ [m])"

text \<open>send over the writer; Encode does not panic (Encode\_no\_panic below), so it fails with an error.\<close>

definition lc_send :: "'ts ts_ops \<Rightarrow> sink \<Rightarrow> 'ts message \<Rightarrow> sink \<times> bool" where
  "lc_send ops w m =
     (case Encoder_Encode w_write ops w m of (w', r) \<Rightarrow> (w', case r of Inr _ \<Rightarrow> True | Inl _ \<Rightarrow> False))"

text \<open>
  The loop over the buffer, in flush and in finalFlush: the writer is closed at the first
  failure. The answer: the writer if all went well, what is left, and what was sent.
\<close>

fun send_buffer :: "'ts ts_ops \<Rightarrow> sink \<Rightarrow> 'ts message list \<Rightarrow> sink option \<times> 'ts message list \<times> 'ts message list" where
  "send_buffer ops w [] = (Some w, [], [])"
| "send_buffer ops w (m # ms) =
     (case lc_send ops w m of
        (w', True) \<Rightarrow> (case send_buffer ops w' ms of (c, rest, done) \<Rightarrow> (c, rest, m # done))
      | (w', False) \<Rightarrow> (None, m # ms, []))"

definition drain_buffer :: "'ts ts_ops \<Rightarrow> sink \<Rightarrow> 'ts local_conn \<Rightarrow> 'ts local_conn" where
  "drain_buffer ops w l =
     (case send_buffer ops w (LC_Buffer l) of
        (c, rest, done) \<Rightarrow> l\<lparr>LC_Conn := c, LC_Buffer := rest, LC_Sent := LC_Sent l @ done\<rparr>)"

definition lc_flush :: "'ts ts_ops \<Rightarrow> sink option \<Rightarrow> 'ts local_conn \<Rightarrow> 'ts local_conn" where
  "lc_flush ops dial l =
     (case (case LC_Conn l of Some w \<Rightarrow> Some w | None \<Rightarrow> dial) of
        None \<Rightarrow> l
      | Some w \<Rightarrow> drain_buffer ops w l)"

text \<open>finalFlush; None is that it never returns. The n-th try dials with the answer dial n.\<close>

partial_function (option) finalFlush ::
  "'ts ts_ops \<Rightarrow> (nat \<Rightarrow> sink option) \<Rightarrow> nat \<Rightarrow> 'ts local_conn \<Rightarrow> 'ts local_conn option" where
  "finalFlush ops dial tries l =
     (case (case LC_Conn l of Some w \<Rightarrow> Some w | None \<Rightarrow> dial (Suc tries)) of
        None \<Rightarrow> if Suc tries = cMaxTries then Some l else finalFlush ops dial (Suc tries) l
      | Some w \<Rightarrow>
          (let l' = drain_buffer ops w l in
           if LC_Conn l' = None then finalFlush ops dial (Suc tries) l' else Some l'))"

definition lc_accept :: "'ts message \<Rightarrow> 'ts local_conn \<Rightarrow> 'ts local_conn" where
  "lc_accept m l = l\<lparr>LC_Accepted := LC_Accepted l @ [m]\<rparr>"

text \<open>process on one message: the fast case, or save and flush.\<close>

definition process_message :: "'ts ts_ops \<Rightarrow> sink option \<Rightarrow> 'ts message \<Rightarrow> 'ts local_conn \<Rightarrow> 'ts local_conn" where
  "process_message ops dial m l0 =
     (let l = lc_accept m l0 in
      case LC_Conn l of
        None \<Rightarrow> lc_flush ops dial (l\<lparr>LC_Buffer := save m (LC_Buffer l)\<rparr>)
      | Some w \<Rightarrow>
          (case lc_send ops w m of
             (w', True) \<Rightarrow> l\<lparr>LC_Conn := Some w', LC_Sent := LC_Sent l @ [m]\<rparr>
           | (w', False) \<Rightarrow> lc_flush ops dial (l\<lparr>LC_Conn := Some w', LC_Buffer := save m (LC_Buffer l)\<rparr>)))"

definition drain_feeder :: "'ts local_conn \<Rightarrow> 'ts local_conn" where
  "drain_feeder l =
     l\<lparr>LC_Feeder := [], LC_Buffer := fold save (LC_Feeder l) (LC_Buffer l), LC_Accepted := LC_Accepted l @ LC_Feeder l\<rparr>"

datatype 'ts lc_event = LcWrite "'ts message" | LcTake "sink option" | LcTick "sink option" | LcShutdown "nat \<Rightarrow> sink option"

text \<open>Write blocks while the channel is full, so that it is not a step then.\<close>

inductive lc_step :: "'ts ts_ops \<Rightarrow> nat \<Rightarrow> 'ts local_conn \<Rightarrow> 'ts lc_event \<Rightarrow> 'ts local_conn \<Rightarrow> bool"
  for ops backlog where
  lc_write: "length (LC_Feeder l) < backlog \<Longrightarrow>
    lc_step ops backlog l (LcWrite m) (l\<lparr>LC_Feeder := LC_Feeder l @ [m]\<rparr>)"
| lc_take: "\<not> LC_Done l \<Longrightarrow> LC_Feeder l = m # ms \<Longrightarrow>
    lc_step ops backlog l (LcTake dial) (process_message ops dial m (l\<lparr>LC_Feeder := ms\<rparr>))"
| lc_tick: "\<not> LC_Done l \<Longrightarrow> lc_step ops backlog l (LcTick dial) (lc_flush ops dial l)"
| lc_shutdown: "\<not> LC_Done l \<Longrightarrow> finalFlush ops dial 0 (drain_feeder l) = Some l' \<Longrightarrow>
    lc_step ops backlog l (LcShutdown dial) (l'\<lparr>LC_Done := True\<rparr>)"

inductive lc_run :: "'ts ts_ops \<Rightarrow> nat \<Rightarrow> 'ts local_conn \<Rightarrow> 'ts lc_event list \<Rightarrow> 'ts local_conn \<Rightarrow> bool"
  for ops backlog l0 where
  lc_start: "lc_run ops backlog l0 [] l0"
| lc_more: "lc_run ops backlog l0 es l \<Longrightarrow> lc_step ops backlog l e l' \<Longrightarrow> lc_run ops backlog l0 (es @ [e]) l'"

inductive_cases lc_runE: "lc_run ops backlog l0 es l"

section \<open>The buffer\<close>

lemma Encode_no_panic:
  assumes "ts_laws ops"
  shows "snd (Encoder_Encode w_write ops w m) \<noteq> Inl (Panic e)"
proof -
  have "Message_MarshalTo ops m \<noteq> Inl (Panic x)" for x
  proof (cases "Timestamp m")
    case (Some t)
    moreover obtain bs where "TsMarshalTo ops t = Inr bs" using assms by (auto simp: ts_laws_def)
    ultimately show ?thesis by (simp add: Message_MarshalTo_def split: option.split)
  qed (simp add: Message_MarshalTo_def)
  moreover have "length body \<le> max pool_buffer (Message_Size ops m)" if "Message_MarshalTo ops m = Inr body" for body
    using Message_Size_MarshalTo [OF assms that] by simp
  ultimately show ?thesis
    by (auto simp: Encoder_Encode_def Let_def into_buffer_def bindR_eq_Inl_iff split: prod.splits option.splits sum.splits)
qed

lemma fold_save:
  "length buf \<le> cMaxBuffer \<Longrightarrow>
   fold save ms buf = take cMaxBuffer (rev (drop (cMaxBuffer - length buf) ms) @ buf @ take (cMaxBuffer - length buf) ms)"
proof (induction ms rule: rev_induct)
  case (snoc m ms)
  let ?k = "cMaxBuffer - length buf"
  show ?case
  proof (cases "length ms < ?k")
    case True
    with snoc have "fold save ms buf = buf @ ms" by simp
    moreover have room: "length buf + length ms < cMaxBuffer" using True by linarith
    then have "save m (buf @ ms) = buf @ ms @ [m]" by (simp add: save_def)
    ultimately show ?thesis using room True by simp
  next
    case False
    define X where "X = rev (drop ?k ms) @ buf @ take ?k ms"
    have X: "length X = length buf + length ms" using False by (simp add: X_def)
    have "fold save (ms @ [m]) buf = save m (take cMaxBuffer X)" using snoc by (simp add: X_def)
    moreover have "cMaxBuffer \<le> length X" using X False snoc.prems by simp
    then have "save m (take cMaxBuffer X) = take cMaxBuffer (m # X)" by (simp add: save_def take_Cons' cMaxBuffer_def)
    ultimately show ?thesis using False by (simp add: X_def)
  qed
qed simp

section \<open>Order and loss\<close>

definition lc_fresh :: "'ts local_conn \<Rightarrow> bool" where
  "lc_fresh l \<longleftrightarrow> LC_Feeder l = [] \<and> LC_Conn l = None \<and> LC_Buffer l = [] \<and> LC_Accepted l = [] \<and> LC_Sent l = []"

definition written :: "'ts lc_event list \<Rightarrow> 'ts message list" where
  "written es = concat (map (\<lambda>e. case e of LcWrite m \<Rightarrow> [m] | _ \<Rightarrow> []) es)"

text \<open>The steps that find room in the buffer.\<close>

definition roomy :: "'ts local_conn \<Rightarrow> 'ts lc_event \<Rightarrow> bool" where
  "roomy l e \<longleftrightarrow>
     (case e of
        LcTake _ \<Rightarrow> length (LC_Buffer l) < cMaxBuffer
      | LcShutdown _ \<Rightarrow> length (LC_Buffer l) + length (LC_Feeder l) \<le> cMaxBuffer
      | _ \<Rightarrow> True)"

inductive roomy_run :: "'ts ts_ops \<Rightarrow> nat \<Rightarrow> 'ts local_conn \<Rightarrow> 'ts lc_event list \<Rightarrow> 'ts local_conn \<Rightarrow> bool"
  for ops backlog l0 where
  roomy_start: "roomy_run ops backlog l0 [] l0"
| roomy_more: "roomy_run ops backlog l0 es l \<Longrightarrow> roomy l e \<Longrightarrow> lc_step ops backlog l e l' \<Longrightarrow> roomy_run ops backlog l0 (es @ [e]) l'"

text \<open>Between two steps a connected logger has nothing buffered.\<close>

definition lc_settled :: "'ts local_conn \<Rightarrow> bool" where
  "lc_settled l \<longleftrightarrow> (LC_Conn l \<noteq> None \<longrightarrow> LC_Buffer l = []) \<and> length (LC_Buffer l) \<le> cMaxBuffer"

lemma send_buffer_split:
  "send_buffer ops w ms = (c, rest, done) \<Longrightarrow> done @ rest = ms \<and> (c \<noteq> None \<longrightarrow> rest = [])"
  by (induction ops w ms arbitrary: c rest "done" rule: send_buffer.induct)
    (auto split: prod.splits bool.splits)

lemma drain_buffer_sent:
  "LC_Sent (drain_buffer ops w l) @ LC_Buffer (drain_buffer ops w l) = LC_Sent l @ LC_Buffer l"
  "LC_Conn (drain_buffer ops w l) \<noteq> None \<longrightarrow> LC_Buffer (drain_buffer ops w l) = []"
  "length (LC_Buffer (drain_buffer ops w l)) \<le> length (LC_Buffer l)"
  "LC_Accepted (drain_buffer ops w l) = LC_Accepted l" "LC_Feeder (drain_buffer ops w l) = LC_Feeder l"
proof -
  obtain c rest sent' where s: "send_buffer ops w (LC_Buffer l) = (c, rest, sent')" using prod_cases3 by blast
  then have drain: "drain_buffer ops w l = l\<lparr>LC_Conn := c, LC_Buffer := rest, LC_Sent := LC_Sent l @ sent'\<rparr>"
    by (simp add: drain_buffer_def)
  have split: "sent' @ rest = LC_Buffer l" "c \<noteq> None \<longrightarrow> rest = []" using send_buffer_split [OF s] by simp_all
  from split(1) have "length rest \<le> length (LC_Buffer l)" by (metis length_append le_add2)
  with drain split show "LC_Sent (drain_buffer ops w l) @ LC_Buffer (drain_buffer ops w l) = LC_Sent l @ LC_Buffer l"
    "LC_Conn (drain_buffer ops w l) \<noteq> None \<longrightarrow> LC_Buffer (drain_buffer ops w l) = []"
    "length (LC_Buffer (drain_buffer ops w l)) \<le> length (LC_Buffer l)"
    "LC_Accepted (drain_buffer ops w l) = LC_Accepted l" "LC_Feeder (drain_buffer ops w l) = LC_Feeder l"
    by simp_all
qed

lemma lc_flush_sent:
  "LC_Sent (lc_flush ops dial l) @ LC_Buffer (lc_flush ops dial l) = LC_Sent l @ LC_Buffer l"
  "LC_Conn (lc_flush ops dial l) \<noteq> None \<longrightarrow> LC_Buffer (lc_flush ops dial l) = []"
  "length (LC_Buffer (lc_flush ops dial l)) \<le> length (LC_Buffer l)"
  "LC_Accepted (lc_flush ops dial l) = LC_Accepted l" "LC_Feeder (lc_flush ops dial l) = LC_Feeder l"
  by (auto simp: lc_flush_def drain_buffer_sent split: option.split dest: drain_buffer_sent(2) [rule_format])

definition same_messages :: "'ts local_conn \<Rightarrow> 'ts local_conn \<Rightarrow> bool" where
  "same_messages l l' \<longleftrightarrow>
     LC_Sent l' @ LC_Buffer l' = LC_Sent l @ LC_Buffer l \<and> (LC_Conn l' \<noteq> None \<longrightarrow> LC_Buffer l' = []) \<and>
     length (LC_Buffer l') \<le> length (LC_Buffer l) \<and> LC_Accepted l' = LC_Accepted l \<and> LC_Feeder l' = LC_Feeder l"

lemma same_flush: "same_messages l (lc_flush ops dial l)"
  using lc_flush_sent [of ops dial l] by (simp add: same_messages_def)

lemma finalFlush_sent:
  assumes "finalFlush ops dial tries l = Some l'"
  shows "same_messages l l'"
proof (rule finalFlush.raw_induct [of "\<lambda>ops dial tries l l'. same_messages l l'", OF _ assms], goal_cases)
  case (1 f ops dial tries l l')
  show ?case
  proof (cases "case LC_Conn l of Some w \<Rightarrow> Some w | None \<Rightarrow> dial (Suc tries)")
    case None
    then have "LC_Conn l = None" by (cases "LC_Conn l") auto
    with None 1 show ?thesis by (auto simp: same_messages_def split: if_splits)
  next
    case (Some w)
    have "same_messages l (drain_buffer ops w l)"
      using drain_buffer_sent [of ops w l] by (simp add: same_messages_def)
    with Some 1 show ?thesis
      by (auto simp: Let_def split: if_splits) (force simp: same_messages_def)
  qed
qed

lemma save_mset: "mset (save m buf) \<subseteq># add_mset m (mset buf)"
proof -
  have "mset (take n buf) \<subseteq># mset buf" for n
    by (metis append_take_drop_id mset_append mset_subset_eq_add_left)
  then show ?thesis by (simp add: save_def)
qed

lemma save_length: "length buf \<le> cMaxBuffer \<Longrightarrow> length (save m buf) \<le> cMaxBuffer"
  by (auto simp: save_def cMaxBuffer_def)

lemma fold_save_length: "length buf \<le> cMaxBuffer \<Longrightarrow> length (fold save ms buf) \<le> cMaxBuffer"
  by (induction ms arbitrary: buf) (simp_all add: save_length)

lemma fold_save_mset: "mset (fold save ms buf) \<subseteq># mset ms + mset buf"
proof (induction ms arbitrary: buf)
  case (Cons m ms)
  have "mset (fold save ms (save m buf)) \<subseteq># mset ms + mset (save m buf)" by (rule Cons)
  also have "\<dots> \<subseteq># mset ms + add_mset m (mset buf)" using save_mset by (intro subset_mset.add_left_mono)
  finally show ?case by simp
qed simp

definition lc_lossy :: "'ts local_conn \<Rightarrow> bool" where
  "lc_lossy l \<longleftrightarrow> mset (LC_Sent l) + mset (LC_Buffer l) \<subseteq># mset (LC_Accepted l)"

lemma same_messages_keeps:
  assumes "same_messages l l'"
  shows "lc_settled l \<Longrightarrow> lc_settled l'" "lc_lossy l \<Longrightarrow> lc_lossy l'"
    "length (LC_Buffer l) \<le> cMaxBuffer \<Longrightarrow> lc_settled l'"
    "LC_Sent l @ LC_Buffer l = ms \<Longrightarrow> LC_Sent l' @ LC_Buffer l' = ms"
proof -
  have "mset (LC_Sent l') + mset (LC_Buffer l') = mset (LC_Sent l @ LC_Buffer l)"
    using assms unfolding same_messages_def by (metis mset_append)
  then show "lc_lossy l \<Longrightarrow> lc_lossy l'" using assms by (simp add: lc_lossy_def same_messages_def)
qed (use assms in \<open>auto simp: same_messages_def lc_settled_def\<close>)

text \<open>One message through process: all but a full buffer keeps the order.\<close>

lemma lc_accept_simps [simp]:
  "LC_Conn (lc_accept m l) = LC_Conn l" "LC_Sent (lc_accept m l) = LC_Sent l" "LC_Buffer (lc_accept m l) = LC_Buffer l"
  "LC_Accepted (lc_accept m l) = LC_Accepted l @ [m]" "LC_Feeder (lc_accept m l) = LC_Feeder l"
  by (simp_all add: lc_accept_def)

lemma process_message_cases:
  assumes "lc_settled l"
  obtains (fast) w' where "LC_Buffer l = []"
      "process_message ops dial m l = (lc_accept m l)\<lparr>LC_Conn := Some w', LC_Sent := LC_Sent l @ [m]\<rparr>"
    | (slow) c where
      "process_message ops dial m l = lc_flush ops dial ((lc_accept m l)\<lparr>LC_Conn := c, LC_Buffer := save m (LC_Buffer l)\<rparr>)"
proof (cases "LC_Conn l")
  case None
  have "(lc_accept m l)\<lparr>LC_Buffer := b\<rparr> = (lc_accept m l)\<lparr>LC_Conn := None, LC_Buffer := b\<rparr>" for b
    by (rule local_conn.equality) (simp_all add: None)
  from arg_cong [OF this, of "lc_flush ops dial"] show thesis
    by (intro slow [of None]) (simp only: process_message_def None Let_def lc_accept_simps option.case)
next
  case (Some w)
  then have nil: "LC_Buffer l = []" using assms by (simp add: lc_settled_def)
  obtain w' b where s: "lc_send ops w m = (w', b)" by fastforce
  show thesis
  proof (cases b)
    case True
    with nil Some s show thesis by (intro fast [of w']) (simp_all add: process_message_def)
  next
    case False
    with Some s show thesis by (intro slow [of "Some w'"]) (simp add: process_message_def)
  qed
qed

lemma process_message_log:
  assumes "lc_settled l"
  shows "LC_Accepted (process_message ops dial m l) = LC_Accepted l @ [m]"
    and "LC_Feeder (process_message ops dial m l) = LC_Feeder l"
  by (rule process_message_cases [OF assms, of ops dial m]; simp add: lc_flush_sent)+

lemma process_message_settled:
  assumes "lc_settled l"
  shows "lc_settled (process_message ops dial m l)"
proof (rule process_message_cases [OF assms, of ops dial m], goal_cases)
  case (1 w')
  then show ?case by (simp add: lc_settled_def)
next
  case (2 c)
  have "length (save m (LC_Buffer l)) \<le> cMaxBuffer" using assms by (simp add: lc_settled_def save_length)
  with 2 same_messages_keeps(3)
    [OF same_flush [of "(lc_accept m l)\<lparr>LC_Conn := c, LC_Buffer := save m (LC_Buffer l)\<rparr>" ops dial]]
  show ?case by simp
qed

lemma process_message_lossy:
  assumes "lc_settled l" and "lc_lossy l"
  shows "lc_lossy (process_message ops dial m l)"
proof (rule process_message_cases [OF assms(1), of ops dial m], goal_cases)
  case (1 w')
  with assms(2) show ?case by (simp add: lc_lossy_def)
next
  case (2 c)
  have "mset (LC_Sent l) + mset (save m (LC_Buffer l)) \<subseteq># mset (LC_Sent l) + add_mset m (mset (LC_Buffer l))"
    by (intro subset_mset.add_left_mono save_mset)
  also have "\<dots> \<subseteq># add_mset m (mset (LC_Accepted l))" using assms(2) by (simp add: lc_lossy_def)
  finally have "lc_lossy ((lc_accept m l)\<lparr>LC_Conn := c, LC_Buffer := save m (LC_Buffer l)\<rparr>)" by (simp add: lc_lossy_def)
  with 2 same_messages_keeps(2)
    [OF same_flush [of "(lc_accept m l)\<lparr>LC_Conn := c, LC_Buffer := save m (LC_Buffer l)\<rparr>" ops dial]]
  show ?case by simp
qed

lemma process_message_order:
  assumes "lc_settled l" and "length (LC_Buffer l) < cMaxBuffer"
  shows "LC_Sent (process_message ops dial m l) @ LC_Buffer (process_message ops dial m l) = LC_Sent l @ LC_Buffer l @ [m]"
proof (rule process_message_cases [OF assms(1), of ops dial m], goal_cases)
  case (1 w')
  then show ?case by simp
next
  case (2 c)
  have "save m (LC_Buffer l) = LC_Buffer l @ [m]" using assms(2) by (simp add: save_def)
  with 2 show ?case by (simp add: lc_flush_sent(1))
qed

lemma lc_step_keeps:
  assumes "lc_step ops backlog l e l'" and "lc_settled l" and "lc_lossy l"
  shows "lc_settled l' \<and> lc_lossy l' \<and> LC_Accepted l' @ LC_Feeder l' = LC_Accepted l @ LC_Feeder l @ written [e]"
  using assms
proof (cases rule: lc_step.cases)
  case (lc_take m ms dial)
  then have s: "lc_settled (l\<lparr>LC_Feeder := ms\<rparr>)" "lc_lossy (l\<lparr>LC_Feeder := ms\<rparr>)"
    using assms by (simp_all add: lc_settled_def lc_lossy_def)
  with process_message_settled [OF s(1)] process_message_lossy [OF s] process_message_log [OF s(1)] lc_take show ?thesis
    by (simp add: written_def)
next
  case (lc_tick dial)
  with assms same_messages_keeps(1,2) [OF same_flush [of l ops dial]] same_flush [of l ops dial]
  show ?thesis by (simp add: written_def same_messages_def)
next
  case (lc_shutdown dial l1)
  have "lc_lossy (drain_feeder l)"
  proof -
    have "mset (LC_Sent l) + mset (fold save (LC_Feeder l) (LC_Buffer l)) \<subseteq>#
        mset (LC_Sent l) + (mset (LC_Feeder l) + mset (LC_Buffer l))"
      by (intro subset_mset.add_left_mono fold_save_mset)
    also have "\<dots> = (mset (LC_Sent l) + mset (LC_Buffer l)) + mset (LC_Feeder l)" by (simp add: ac_simps)
    also have "\<dots> \<subseteq># mset (LC_Accepted l) + mset (LC_Feeder l)"
      using assms(3) by (simp add: lc_lossy_def)
    finally show ?thesis by (simp add: lc_lossy_def drain_feeder_def)
  qed
  moreover have "length (LC_Buffer (drain_feeder l)) \<le> cMaxBuffer"
    using assms(2) by (simp add: drain_feeder_def lc_settled_def fold_save_length)
  moreover note same = finalFlush_sent [OF lc_shutdown(4)]
  ultimately have "lc_settled l1" "lc_lossy l1" using same_messages_keeps(2,3) by blast+
  with lc_shutdown same show ?thesis
    by (simp add: lc_settled_def lc_lossy_def written_def same_messages_def drain_feeder_def)
qed (simp add: written_def lc_settled_def lc_lossy_def)

lemma written_snoc: "written (es @ [e]) = written es @ written [e]"
  by (simp add: written_def)

lemma lc_run_keeps:
  assumes "lc_run ops backlog l0 es l" and "lc_fresh l0"
  shows "lc_settled l \<and> lc_lossy l \<and> LC_Accepted l @ LC_Feeder l = written es"
  using assms
proof (induction rule: lc_run.induct)
  case lc_start
  then show ?case by (simp add: lc_fresh_def lc_settled_def lc_lossy_def written_def)
next
  case (lc_more es l e l')
  with lc_step_keeps [OF lc_more.hyps(2)] show ?case
    by (simp add: written_snoc [of es])
qed

lemma lc_step_order:
  assumes "lc_step ops backlog l e l'" and "lc_settled l" and "roomy l e" and "LC_Sent l @ LC_Buffer l = LC_Accepted l"
  shows "LC_Sent l' @ LC_Buffer l' = LC_Accepted l'"
  using assms
proof (cases rule: lc_step.cases)
  case (lc_take m ms dial)
  let ?l = "l\<lparr>LC_Feeder := ms\<rparr>"
  have s: "lc_settled ?l" "length (LC_Buffer ?l) < cMaxBuffer" "LC_Sent ?l @ LC_Buffer ?l = LC_Accepted ?l"
    using assms lc_take by (simp_all add: lc_settled_def roomy_def)
  from process_message_order [OF s(1,2), of ops dial m] process_message_log(1) [OF s(1), of ops dial m] s(3) lc_take
  show ?thesis by (metis append_assoc)
next
  case (lc_tick dial)
  with assms(4) same_messages_keeps(4) [OF same_flush] show ?thesis by (simp add: lc_flush_sent)
next
  case (lc_shutdown dial l1)
  have "length (LC_Feeder l) \<le> cMaxBuffer - length (LC_Buffer l)" "length (LC_Buffer l) \<le> cMaxBuffer"
    using assms(2,3) lc_shutdown by (simp_all add: roomy_def lc_settled_def)
  then have "fold save (LC_Feeder l) (LC_Buffer l) = LC_Buffer l @ LC_Feeder l"
    using fold_save [of "LC_Buffer l" "LC_Feeder l"] by simp
  with assms(4) have "LC_Sent (drain_feeder l) @ LC_Buffer (drain_feeder l) = LC_Accepted (drain_feeder l)"
    by (simp add: drain_feeder_def flip: append_assoc)
  with finalFlush_sent [OF lc_shutdown(4)] lc_shutdown show ?thesis by (simp add: same_messages_def)
qed simp

lemma roomy_run_order:
  assumes "roomy_run ops backlog l0 es l" and "lc_fresh l0"
  shows "lc_run ops backlog l0 es l \<and> LC_Sent l @ LC_Buffer l = LC_Accepted l"
  using assms
proof (induction rule: roomy_run.induct)
  case roomy_start
  then show ?case by (simp add: lc_fresh_def lc_start)
next
  case (roomy_more es l e l')
  then have run: "lc_run ops backlog l0 es l" and order: "LC_Sent l @ LC_Buffer l = LC_Accepted l" by simp_all
  with lc_run_keeps [OF run roomy_more.prems] roomy_more.hyps show ?case
    by (blast intro: lc_more lc_step_order)
qed

section \<open>Outages and poison\<close>

definition poison :: "'ts ts_ops \<Rightarrow> 'ts message \<Rightarrow> bool" where
  "poison ops m \<longleftrightarrow> (case Message_MarshalTo ops m of Inl _ \<Rightarrow> True | Inr _ \<Rightarrow> False)"

lemma poison_send: "poison ops m \<Longrightarrow> snd (lc_send ops w m) = False"
  by (auto simp: poison_def lc_send_def Encoder_Encode_def Let_def split: prod.splits option.splits sum.splits)

lemma poison_drain:
  assumes "LC_Buffer l = m # ms" and "poison ops m"
  shows "drain_buffer ops w l = l\<lparr>LC_Conn := None\<rparr>"
proof -
  obtain w' where "lc_send ops w m = (w', False)" using poison_send [OF assms(2), of w] by (metis prod.collapse)
  with assms(1) show ?thesis by (simp add: drain_buffer_def)
qed

lemma finalFlush_poison:
  assumes "finalFlush ops dial tries l = Some l'" and "LC_Buffer l = m # ms" and "poison ops m"
    and "\<And>n. tries < n \<Longrightarrow> dial n \<noteq> None"
  shows False
proof -
  have "LC_Buffer l = m # ms \<and> (\<forall>n>tries. dial n \<noteq> None) \<longrightarrow> \<not> poison ops m"
  proof (rule finalFlush.raw_induct [of "\<lambda>ops dial tries l l'. LC_Buffer l = m # ms \<and> (\<forall>n>tries. dial n \<noteq> None) \<longrightarrow> \<not> poison ops m",
        OF _ assms(1)], goal_cases)
    case (1 f ops dial tries l l')
    show ?case
    proof (intro impI notI)
      assume a: "LC_Buffer l = m # ms \<and> (\<forall>n>tries. dial n \<noteq> None)" and p: "poison ops m"
      then obtain w where "(case LC_Conn l of Some w \<Rightarrow> Some w | None \<Rightarrow> dial (Suc tries)) = Some w"
        by (cases "LC_Conn l") auto
      with 1(2) poison_drain [of l m ms ops w] a p have "f ops dial (Suc tries) (l\<lparr>LC_Conn := None\<rparr>) = Some l'" by simp
      from 1(1) [OF this] a p show False by simp
    qed
  qed
  with assms show False by blast
qed

lemma finalFlush_past_limit:
  assumes "finalFlush ops dial tries l = Some l'" and "LC_Conn l = None" and "cMaxTries \<le> tries"
    and "\<And>n. tries < n \<Longrightarrow> dial n = None"
  shows False
proof -
  have "\<not> (LC_Conn l = None \<and> cMaxTries \<le> tries \<and> (\<forall>n>tries. dial n = None))"
  proof (rule finalFlush.raw_induct [of "\<lambda>ops dial tries l l'. \<not> (LC_Conn l = None \<and> cMaxTries \<le> tries \<and> (\<forall>n>tries. dial n = None))",
        OF _ assms(1)], goal_cases)
    case (1 f ops dial tries l l')
    show ?case
    proof
      assume a: "LC_Conn l = None \<and> cMaxTries \<le> tries \<and> (\<forall>n>tries. dial n = None)"
      with 1(2) have "f ops dial (Suc tries) l = Some l'" by simp
      from 1(1) [OF this] a show False by simp
    qed
  qed
  with assms show False by blast
qed

lemma finalFlush_skip:
  assumes "LC_Conn l = None" and "tries + k < cMaxTries" and "\<And>n. tries < n \<Longrightarrow> n \<le> tries + k \<Longrightarrow> dial n = None"
  shows "finalFlush ops dial tries l = finalFlush ops dial (tries + k) l"
  using assms(2,3)
proof (induction k)
  case (Suc k)
  then have "finalFlush ops dial tries l = finalFlush ops dial (tries + k) l" by simp
  also have "\<dots> = finalFlush ops dial (tries + Suc k) l"
    using Suc.prems assms(1) by (subst finalFlush.simps) simp
  finally show ?case .
qed simp

lemma outage_buffer:
  "LC_Conn l = None \<Longrightarrow> fold (process_message ops None) ms l =
     l\<lparr>LC_Buffer := fold save ms (LC_Buffer l), LC_Accepted := LC_Accepted l @ ms\<rparr>"
proof (induction ms arbitrary: l)
  case (Cons m ms)
  have "process_message ops None m l = (lc_accept m l)\<lparr>LC_Buffer := save m (LC_Buffer l)\<rparr>"
    using Cons.prems by (simp add: process_message_def lc_flush_def)
  with Cons show ?case by (simp add: lc_accept_def)
qed simp

section \<open>Properties\<close>

text \<open>
  C12: What the local logger keeps. In every reachable state at most 100 messages are buffered,
  a connected logger has none, and what was sent, is buffered or waits in the channel was
  written, each message at most as often as it was written. As long as no message finds the
  buffer full, nothing is lost and the order is that of the calls of Write.
\<close>

theorem system_keeps:
  assumes "lc_fresh l0" and "lc_run ops backlog l0 es l"
  shows "length (LC_Buffer l) \<le> cMaxBuffer \<and> (LC_Conn l \<noteq> None \<longrightarrow> LC_Buffer l = []) \<and>
    mset (LC_Sent l) + mset (LC_Buffer l) + mset (LC_Feeder l) \<subseteq># mset (written es) \<and>
    (roomy_run ops backlog l0 es l \<longrightarrow> LC_Sent l @ LC_Buffer l @ LC_Feeder l = written es)"
proof -
  note keeps = lc_run_keeps [OF assms(2,1)]
  have "mset (LC_Sent l) + mset (LC_Buffer l) + mset (LC_Feeder l) \<subseteq># mset (LC_Accepted l) + mset (LC_Feeder l)"
    using keeps by (intro subset_mset.add_right_mono) (simp add: lc_lossy_def)
  also have "\<dots> = mset (written es)" using keeps by (metis mset_append)
  finally have "mset (LC_Sent l) + mset (LC_Buffer l) + mset (LC_Feeder l) \<subseteq># mset (written es)" .
  moreover have "LC_Sent l @ LC_Buffer l @ LC_Feeder l = written es" if "roomy_run ops backlog l0 es l"
    using roomy_run_order [OF that assms(1)] keeps by (metis append_assoc)
  ultimately show ?thesis using keeps by (simp add: lc_settled_def)
qed

definition idle_conn :: "nat local_conn" where
  "idle_conn = \<lparr>LC_Feeder = [], LC_Conn = None, LC_Buffer = [], LC_Done = False, LC_Accepted = [], LC_Sent = []\<rparr>"

theorem system_keeps_witness:
  "\<exists>l. lc_run unary_ts 1 idle_conn [LcWrite (Log 3)] l \<and> LC_Sent l @ LC_Buffer l @ LC_Feeder l = [Log 3]"
proof -
  have fresh: "lc_fresh idle_conn" by (simp add: lc_fresh_def idle_conn_def)
  let ?l = "idle_conn\<lparr>LC_Feeder := LC_Feeder idle_conn @ [Log 3]\<rparr>"
  have step: "lc_step unary_ts 1 idle_conn (LcWrite (Log 3)) ?l" by (rule lc_write) (simp add: idle_conn_def)
  have run: "lc_run unary_ts 1 idle_conn [LcWrite (Log 3)] ?l" using lc_more [OF lc_start step] by simp
  have "roomy_run unary_ts 1 idle_conn [LcWrite (Log 3)] ?l"
    using roomy_more [OF roomy_start _ step] by (simp add: roomy_def)
  with system_keeps [OF fresh run] run show ?thesis by (auto simp: written_def)
qed

text \<open>
  An outage and a message that cannot be marshalled. While no connection can be made, the
  first hundred messages are kept in order and each later one goes to the front and pushes out
  the last, so that the newest are sent first, backwards. A message without a timestamp or a
  type at the head of the buffer stops the logger for good: every flush, on any connection,
  sends nothing, closes the connection and leaves the buffer as it is.
\<close>

lemma system_outage:
  fixes ops :: "'ts ts_ops"
  assumes "lc_fresh l"
  shows "LC_Buffer (fold (process_message ops None) ms l) = take 100 (rev (drop 100 ms) @ take 100 ms) \<and>
    (\<forall>l1 m rest w. LC_Buffer l1 = m # rest \<and> (Timestamp m = None \<or> MType m = None) \<and> LC_Conn l1 = None \<and> ts_laws ops \<longrightarrow>
       lc_flush ops (Some w) l1 = l1)"
proof (intro conjI allI impI)
  show "LC_Buffer (fold (process_message ops None) ms l) = take 100 (rev (drop 100 ms) @ take 100 ms)"
    using assms fold_save [of "[]" ms] by (simp add: lc_fresh_def outage_buffer cMaxBuffer_def)
next
  fix l1 :: "'ts local_conn" and m rest w
  assume a: "LC_Buffer l1 = m # rest \<and> (Timestamp m = None \<or> MType m = None) \<and> LC_Conn l1 = None \<and> ts_laws ops"
  then have "poison ops m"
    by (auto simp: poison_def Message_MarshalTo_def bindR_eq_Inr_iff split: option.splits sum.splits)
  with a have "drain_buffer ops w l1 = l1\<lparr>LC_Conn := None\<rparr>" by (intro poison_drain) auto
  with a show "lc_flush ops (Some w) l1 = l1" by (simp add: lc_flush_def)
qed

lemma system_outage_witness:
  "LC_Buffer (fold (process_message unary_ts None) [Log 1, Log 2] idle_conn) = [Log 1, Log 2]"
  using system_outage [of idle_conn unary_ts "[Log 1, Log 2]"] by (simp add: lc_fresh_def idle_conn_def)

text \<open>
  When finalFlush returns. Without a connection it gives up after ten tries with the buffer
  unsent; if one of the ten connects and takes everything, it returns with an empty buffer; but
  it never returns if the tenth try connects and then fails, with no connection after it (the
  count has passed ten), or if the first message cannot be marshalled and connections can be made.
\<close>

lemma finalFlush_ends:
  assumes "LC_Conn l = None"
  shows "((\<forall>n. 1 \<le> n \<and> n \<le> 10 \<longrightarrow> dial n = None) \<longrightarrow> finalFlush ops dial 0 l = Some l) \<and>
    (\<forall>n w w'. n < 10 \<and> (\<forall>i. 1 \<le> i \<and> i \<le> n \<longrightarrow> dial i = None) \<and> dial (Suc n) = Some w \<and>
       send_buffer ops w (LC_Buffer l) = (Some w', [], LC_Buffer l) \<longrightarrow>
       (\<exists>l'. finalFlush ops dial 0 l = Some l' \<and> LC_Buffer l' = [] \<and> LC_Sent l' = LC_Sent l @ LC_Buffer l)) \<and>
    (\<forall>w rest done. (\<forall>n. n \<noteq> 10 \<longrightarrow> dial n = None) \<and> dial 10 = Some w \<and>
       send_buffer ops w (LC_Buffer l) = (None, rest, done) \<longrightarrow> finalFlush ops dial 0 l = None) \<and>
    (\<forall>m rest. LC_Buffer l = m # rest \<and> poison ops m \<and> (\<forall>n>0. dial n \<noteq> None) \<longrightarrow> finalFlush ops dial 0 l = None)"
proof (intro conjI allI impI)
  assume none: "\<forall>n. 1 \<le> n \<and> n \<le> 10 \<longrightarrow> dial n = None"
  then have "finalFlush ops dial 0 l = finalFlush ops dial 9 l"
    using finalFlush_skip [OF assms, of 0 9 dial ops] by (simp add: cMaxTries_def)
  with none assms show "finalFlush ops dial 0 l = Some l"
    by (subst (asm) (2) finalFlush.simps) (simp add: cMaxTries_def)
next
  fix n w w'
  assume a: "n < 10 \<and> (\<forall>i. 1 \<le> i \<and> i \<le> n \<longrightarrow> dial i = None) \<and> dial (Suc n) = Some w \<and>
       send_buffer ops w (LC_Buffer l) = (Some w', [], LC_Buffer l)"
  then have "finalFlush ops dial 0 l = finalFlush ops dial n l"
    using finalFlush_skip [OF assms, of 0 n dial ops] by (simp add: cMaxTries_def)
  also have "\<dots> = Some (drain_buffer ops w l)"
    using a assms by (subst finalFlush.simps) (simp add: drain_buffer_def)
  finally show "\<exists>l'. finalFlush ops dial 0 l = Some l' \<and> LC_Buffer l' = [] \<and> LC_Sent l' = LC_Sent l @ LC_Buffer l"
    using a by (simp add: drain_buffer_def)
next
  fix w rest "done"
  assume a: "(\<forall>n. n \<noteq> 10 \<longrightarrow> dial n = None) \<and> dial 10 = Some w \<and> send_buffer ops w (LC_Buffer l) = (None, rest, done)"
  then have "finalFlush ops dial 0 l = finalFlush ops dial 9 l"
    using finalFlush_skip [OF assms, of 0 9 dial ops] by (simp add: cMaxTries_def)
  also have "\<dots> = finalFlush ops dial 10 (drain_buffer ops w l)"
    using a assms by (subst finalFlush.simps) (simp add: drain_buffer_def)
  also have "\<dots> = None"
    using finalFlush_past_limit [of ops dial 10 "drain_buffer ops w l"] a
    by (cases "finalFlush ops dial 10 (drain_buffer ops w l)") (simp_all add: drain_buffer_def cMaxTries_def)
  finally show "finalFlush ops dial 0 l = None" .
next
  fix m rest
  assume "LC_Buffer l = m # rest \<and> poison ops m \<and> (\<forall>n>0. dial n \<noteq> None)"
  then show "finalFlush ops dial 0 l = None"
    using finalFlush_poison [of ops dial 0 l] by (cases "finalFlush ops dial 0 l") auto
qed

lemma finalFlush_ends_witness:
  "finalFlush unary_ts (\<lambda>n. if n = 10 then Some \<lparr>Out = [], Quota = 0\<rparr> else None) 0 (idle_conn\<lparr>LC_Buffer := [Log 3]\<rparr>) = None"
proof -
  let ?dial = "\<lambda>n :: nat. if n = 10 then Some \<lparr>Out = [], Quota = 0\<rparr> else None"
  have "send_buffer unary_ts \<lparr>Out = [], Quota = 0\<rparr> [Log 3] = (None, [Log 3], [])"
    by (simp add: lc_send_def Encoder_Encode_def Let_def w_write_def)
  then show ?thesis
    using finalFlush_ends [of "idle_conn\<lparr>LC_Buffer := [Log 3]\<rparr>" ?dial unary_ts] by (simp add: idle_conn_def)
qed

end
