(* ===== verification/Pipes.thy ===== *)
theory Pipes
  imports System "HOL-Library.Monad_Syntax"
begin

text \<open>
  How messages move: the interfaces Generator, Receiver and Filterer (interfaces.go), Glue and
  GlueFiltered (glue.go), and the simple implementations: StaticGenerator, BufferReceiver,
  Channel, ManyReceiver, the stream encoder and decoder as receiver and generator, and cat.
  A call that never returns, because it loops or blocks, is None.
\<close>

section \<open>Interfaces\<close>

text \<open>A message can be nil (None), as Generate may answer nil without an error.\<close>

record ('ts, 'g) generator =
  GGenerate :: "'g \<Rightarrow> ('ts message option result \<times> 'g) option"
  GClose :: "'g \<Rightarrow> 'g"

record ('ts, 'r) receiver =
  RReceive :: "'r \<Rightarrow> 'ts message option \<Rightarrow> (unit result \<times> 'r) option"
  RClose :: "'r \<Rightarrow> unit result \<times> 'r"

text \<open>
  A filter works on the message in place: its answer has the message as it left it, and the
  message, nil or error that it returned.
\<close>

type_synonym 'ts filterer = "'ts message option \<Rightarrow> 'ts message option \<times> 'ts message option result"

definition eof_is_ok :: "fault \<Rightarrow> unit result" where
  "eof_is_ok e = (if e = Err EOF then Inr () else Inl e)"

text \<open>The deferred calls run at every return and at a panic: the generator is closed first.\<close>

definition close_both :: "('ts, 'g) generator \<Rightarrow> ('ts, 'r) receiver \<Rightarrow> unit result \<Rightarrow> 'g \<Rightarrow> 'r \<Rightarrow> unit result \<times> 'g \<times> 'r" where
  "close_both gen recv res g r = (res, GClose gen g, snd (RClose recv r))"

partial_function (option) Glue ::
  "('ts, 'g) generator \<Rightarrow> ('ts, 'r) receiver \<Rightarrow> 'g \<Rightarrow> 'r \<Rightarrow> (unit result \<times> 'g \<times> 'r) option" where
  "Glue gen recv g r =
     do {
       (x, g1) \<leftarrow> GGenerate gen g;
       case x of
         Inl e \<Rightarrow> Some (close_both gen recv (eof_is_ok e) g1 r)
       | Inr m \<Rightarrow>
           do {
             (y, r1) \<leftarrow> RReceive recv r m;
             case y of
               Inl e \<Rightarrow> Some (close_both gen recv (eof_is_ok e) g1 r1)
             | Inr _ \<Rightarrow> Glue gen recv g1 r1
           }
     }"

partial_function (option) GlueFiltered ::
  "('ts, 'g) generator \<Rightarrow> 'ts filterer \<Rightarrow> ('ts, 'r) receiver \<Rightarrow> 'g \<Rightarrow> 'r \<Rightarrow> (unit result \<times> 'g \<times> 'r) option" where
  "GlueFiltered gen filt recv g r =
     do {
       (x, g1) \<leftarrow> GGenerate gen g;
       case x of
         Inl e \<Rightarrow> Some (close_both gen recv (eof_is_ok e) g1 r)
       | Inr m \<Rightarrow>
           (case snd (filt m) of
              Inl e \<Rightarrow> Some (close_both gen recv (Inl e) g1 r)
            | Inr None \<Rightarrow> GlueFiltered gen filt recv g1 r
            | Inr (Some m') \<Rightarrow>
                do {
                  (y, r1) \<leftarrow> RReceive recv r (Some m');
                  case y of
                    Inl e \<Rightarrow> Some (close_both gen recv (eof_is_ok e) g1 r1)
                  | Inr _ \<Rightarrow> GlueFiltered gen filt recv g1 r1
                })
     }"

section \<open>Generators and receivers\<close>

definition StaticGenerator :: "('ts, 'ts message list) generator" where
  "StaticGenerator = \<lparr>GGenerate = (\<lambda>ms. case ms of [] \<Rightarrow> Some (Inr None, []) | m # rest \<Rightarrow> Some (Inr (Some m), rest)),
     GClose = id\<rparr>"

definition BufferReceiver :: "('ts, 'ts message option list) receiver" where
  "BufferReceiver = \<lparr>RReceive = (\<lambda>b m. Some (Inr (), b @ [m])), RClose = (\<lambda>b. (Inr (), b))\<rparr>"

text \<open>
  Channel: a Go channel of a given capacity. Reading an open empty channel and writing to a
  full one block; writing to a closed one and closing it again panic. (None is what blocks.)
\<close>

record 'ts channel =
  Queued :: "'ts message option list"
  Capacity :: nat
  ChanClosed :: bool

definition Channel_Generate :: "'ts channel \<Rightarrow> ('ts message option result \<times> 'ts channel) option" where
  "Channel_Generate c =
     (case Queued c of
        m # q \<Rightarrow> Some (Inr m, c\<lparr>Queued := q\<rparr>)
      | [] \<Rightarrow> if ChanClosed c then Some (Inl (Err EOF), c) else None)"

definition Channel_Receive :: "'ts channel \<Rightarrow> 'ts message option \<Rightarrow> (unit result \<times> 'ts channel) option" where
  "Channel_Receive c m =
     (if ChanClosed c then Some (Inl (Panic ''send on closed channel''), c)
      else if length (Queued c) < Capacity c then Some (Inr (), c\<lparr>Queued := Queued c @ [m]\<rparr>)
      else None)"

definition Channel_Close :: "'ts channel \<Rightarrow> unit result \<times> 'ts channel" where
  "Channel_Close c =
     (if ChanClosed c then (Inl (Panic ''close of closed channel''), c) else (Inr (), c\<lparr>ChanClosed := True\<rparr>))"

definition channel_generator :: "('ts, 'ts channel) generator" where
  "channel_generator = \<lparr>GGenerate = Channel_Generate, GClose = (\<lambda>c. snd (Channel_Close c))\<rparr>"

definition channel_receiver :: "('ts, 'ts channel) receiver" where
  "channel_receiver = \<lparr>RReceive = Channel_Receive, RClose = Channel_Close\<rparr>"

text \<open>ManyReceiver: the first error ends Receive; Close closes all and keeps the last error.\<close>

fun Many_Receive :: "('ts, 'r) receiver \<Rightarrow> 'r list \<Rightarrow> 'ts message option \<Rightarrow> (unit result \<times> 'r list) option" where
  "Many_Receive recv [] m = Some (Inr (), [])"
| "Many_Receive recv (r # rs) m =
     do {
       (x, r1) \<leftarrow> RReceive recv r m;
       case x of
         Inl e \<Rightarrow> Some (Inl e, r1 # rs)
       | Inr _ \<Rightarrow> do { (y, rs1) \<leftarrow> Many_Receive recv rs m; Some (y, r1 # rs1) }
     }"

fun Many_Close :: "('ts, 'r) receiver \<Rightarrow> 'r list \<Rightarrow> unit result \<Rightarrow> unit result \<times> 'r list" where
  "Many_Close recv [] err = (err, [])"
| "Many_Close recv (r # rs) err =
     (case RClose recv r of (x, r1) \<Rightarrow>
      case Many_Close recv rs (case x of Inl e \<Rightarrow> Inl e | Inr _ \<Rightarrow> err) of (y, rs1) \<Rightarrow> (y, r1 # rs1))"

definition ManyReceiver :: "('ts, 'r) receiver \<Rightarrow> ('ts, 'r list) receiver" where
  "ManyReceiver recv = \<lparr>RReceive = Many_Receive recv, RClose = (\<lambda>rs. Many_Close recv rs (Inr ()))\<rparr>"

text \<open>SerialReceiver only takes a lock around the call.\<close>

definition SerialReceiver :: "('ts, 'r) receiver \<Rightarrow> ('ts, 'r) receiver" where
  "SerialReceiver recv = recv"

definition stream_generator :: "'ts stream_env \<Rightarrow> 'z codecs \<Rightarrow> ('ts, stream_decoder) generator" where
  "stream_generator env cd =
     \<lparr>GGenerate = (\<lambda>s. case StreamDecoder_Generate env cd s of
         (None, _) \<Rightarrow> None
       | (Some (Inl e), s1) \<Rightarrow> Some (Inl e, s1)
       | (Some (Inr m), s1) \<Rightarrow> Some (Inr (Some m), s1)),
      GClose = id\<rparr>"

definition stream_receiver :: "'z codecs \<Rightarrow> 'ts ts_ops \<Rightarrow> 'ts printers \<Rightarrow> ('ts, 'z stream_encoder) receiver" where
  "stream_receiver cd ops p =
     \<lparr>RReceive = (\<lambda>s m. case m of
         None \<Rightarrow> Some (Inl (Panic ''nil pointer dereference''), s)
       | Some m \<Rightarrow> (case StreamEncoder_Receive cd ops p s m of (s1, x) \<Rightarrow> Some (x, s1))),
      RClose = (\<lambda>s. case StreamEncoder_Close cd s of (s1, x) \<Rightarrow> (x, s1))\<rparr>"

text \<open>tools/cat.go: the messages of a stream in a format; the errors of its text formats are dropped.\<close>

datatype cat_format = CatKV | CatHUMAN | CatJSON | CatNATIVE

definition line_out :: "bytes \<Rightarrow> sink \<Rightarrow> sink" where
  "line_out line w = fst (w_write (fst (w_write w line)) [0x0A])"

definition cat_write :: "'z codecs \<Rightarrow> 'ts ts_ops \<Rightarrow> 'ts printers \<Rightarrow> 'ts json_env \<Rightarrow> cat_format \<Rightarrow>
    'ts message \<Rightarrow> 'z stream_encoder \<Rightarrow> unit result \<times> 'z stream_encoder" where
  "cat_write cd ops p js fmt m s =
     (case fmt of
        CatKV \<Rightarrow>
          (case KVString p m of
             Inl e \<Rightarrow> (Inl e, s) | Inr str \<Rightarrow> (Inr (), s\<lparr>SE_W := line_out (str_bytes str) (SE_W s)\<rparr>))
      | CatHUMAN \<Rightarrow>
          (case HumanString p m of
             Inl e \<Rightarrow> (Inl e, s) | Inr str \<Rightarrow> (Inr (), s\<lparr>SE_W := line_out (str_bytes str) (SE_W s)\<rparr>))
      | CatJSON \<Rightarrow>
          (case MarshalJSON js m of
             Inl (Panic e) \<Rightarrow> (Inl (Panic e), s)
           | Inl (Err _) \<Rightarrow> (Inr (), s)
           | Inr bs \<Rightarrow> (Inr (), s\<lparr>SE_W := fst (w_write (SE_W s) (bs @ [0x0A]))\<rparr>))
      | CatNATIVE \<Rightarrow> (case StreamEncoder_Receive cd ops p s m of (s1, x) \<Rightarrow> (x, s1)))"

partial_function (option) Cat_Run :: "('ts, 'g) generator \<Rightarrow>
    ('ts message \<Rightarrow> 'o \<Rightarrow> unit result \<times> 'o) \<Rightarrow> 'g \<Rightarrow> 'o \<Rightarrow> (unit result \<times> 'g \<times> 'o) option" where
  "Cat_Run gen show_it g out =
     do {
       (x, g1) \<leftarrow> GGenerate gen g;
       case x of
         Inl e \<Rightarrow> Some (Inl e, GClose gen g1, out)
       | Inr None \<Rightarrow> Some (Inr (), GClose gen g1, out)
       | Inr (Some m) \<Rightarrow>
           (case show_it m out of
              (Inl e, out1) \<Rightarrow> Some (Inl e, GClose gen g1, out1)
            | (Inr _, out1) \<Rightarrow> Cat_Run gen show_it g1 out1)
     }"

definition cat_format_of :: "bool \<Rightarrow> bool \<Rightarrow> bool \<Rightarrow> bool \<Rightarrow> cat_format result" where
  "cat_format_of kv human json native =
     (let cnt = length (filter id [kv, human, json, native]) in
      if cnt = 0 then Inr CatKV
      else if cnt > 1 then Inl (Err (OtherErr ''multiple display types requested, only use one''))
      else if kv then Inr CatKV
      else if human then Inr CatHUMAN
      else if json then Inr CatJSON
      else Inr CatNATIVE)"

text \<open>CatCLI.Execute over standard input and output.\<close>

definition CatCLI_Execute :: "'ts stream_env \<Rightarrow> 'z codecs \<Rightarrow> 'ts printers \<Rightarrow> cat_format result \<Rightarrow> bool \<Rightarrow>
    source \<Rightarrow> sink \<Rightarrow> (unit result \<times> sink) option" where
  "CatCLI_Execute env cd p fmt stdout_tty stdin stdout =
     (case fmt of
        Inl e \<Rightarrow> Some (Inl e, stdout)
      | Inr f \<Rightarrow>
          do {
            (x, _, s) \<leftarrow> Cat_Run (stream_generator env cd) (cat_write cd (Ops env) p (Js env) f)
              (NewStreamDecoder stdin) (NewStreamEncoder stdout_tty stdout);
            Some (case x of Inl e \<Rightarrow> eof_is_ok e | Inr _ \<Rightarrow> Inr (), SE_W s)
          })"

section \<open>Contracts\<close>

text \<open>A source that will answer with the messages ms and then with EOF.\<close>

locale message_source =
  fixes gen :: "('ts, 'g) generator" and gives :: "'g \<Rightarrow> 'ts message list \<Rightarrow> bool"
  assumes more: "gives g (m # ms) \<Longrightarrow> \<exists>g1. GGenerate gen g = Some (Inr (Some m), g1) \<and> gives g1 ms"
    and finished: "gives g [] \<Longrightarrow> \<exists>g1. GGenerate gen g = Some (Inl (Err EOF), g1)"
begin

lemma cat_shows:
  assumes "gives g ms" and "\<And>m out n. m \<in> set ms \<Longrightarrow> enough out (Suc n) \<Longrightarrow>
      \<exists>out1. show_it m out = (Inr (), out1) \<and> enough out1 n \<and> shown out1 = shown out @ line m"
    and "enough out (length ms)"
  shows "\<exists>g1 out1. Cat_Run gen show_it g out = Some (Inl (Err EOF), g1, out1) \<and> shown out1 = shown out @ concat (map line ms)"
  using assms
proof (induction ms arbitrary: g out)
  case Nil
  with finished [of g] show ?case by (subst Cat_Run.simps) auto
next
  case (Cons m ms)
  obtain g1 where g1: "GGenerate gen g = Some (Inr (Some m), g1)" "gives g1 ms" using more [OF Cons.prems(1)] by blast
  obtain out1 where out1: "show_it m out = (Inr (), out1)" "enough out1 (length ms)" "shown out1 = shown out @ line m"
    using Cons.prems(2) [of m out "length ms"] Cons.prems(3) by auto
  have "Cat_Run gen show_it g out = Cat_Run gen show_it g1 out1" using g1(1) out1(1) by (subst Cat_Run.simps) simp
  moreover have "\<exists>g2 out2. Cat_Run gen show_it g1 out1 = Some (Inl (Err EOF), g2, out2) \<and>
      shown out2 = shown out1 @ concat (map line ms)"
    by (rule Cons.IH [OF g1(2) _ out1(2)]) (rule Cons.prems(2), simp_all)
  ultimately show ?case using out1(3) by auto
qed

end

text \<open>A receiver that takes n more messages without an error.\<close>

locale message_sink =
  fixes recv :: "('ts, 'r) receiver" and got :: "'r \<Rightarrow> 'ts message list" and ready :: "'r \<Rightarrow> nat \<Rightarrow> bool"
  assumes takes: "ready r (Suc n) \<Longrightarrow> \<exists>r1. RReceive recv r (Some m) = Some (Inr (), r1) \<and> got r1 = got r @ [m] \<and> ready r1 n"
    and close_keeps: "got (snd (RClose recv r)) = got r"
begin

lemma ready_less: "ready r (Suc n) \<Longrightarrow> RReceive recv r (Some m) = Some (x, r1) \<Longrightarrow> x = Inr ()"
  using takes [of r n m] by auto

end

locale pipe = message_source gen gives + message_sink recv got ready
  for gen :: "('ts, 'g) generator" and gives and recv :: "('ts, 'r) receiver" and got and ready
begin

lemma glue_delivers:
  assumes "gives g ms" and "ready r (length ms)"
  shows "\<exists>g1 r1. Glue gen recv g r = Some (Inr (), g1, r1) \<and> got r1 = got r @ ms"
  using assms
proof (induction ms arbitrary: g r)
  case Nil
  with finished [of g] show ?case by (subst Glue.simps) (auto simp: close_both_def eof_is_ok_def close_keeps)
next
  case (Cons m ms)
  obtain g1 where g1: "GGenerate gen g = Some (Inr (Some m), g1)" "gives g1 ms" using more [OF Cons.prems(1)] by blast
  obtain r1 where r1: "RReceive recv r (Some m) = Some (Inr (), r1)" "got r1 = got r @ [m]" "ready r1 (length ms)"
    using takes [of r "length ms" m] Cons.prems(2) by auto
  have "Glue gen recv g r = Glue gen recv g1 r1" using g1(1) r1(1) by (subst Glue.simps) simp
  with Cons.IH [OF g1(2) r1(3)] r1(2) show ?case by auto
qed

lemma glue_filters:
  assumes "gives g ms" and "ready r (length (List.map_filter f ms))"
    and "\<And>m. m \<in> set ms \<Longrightarrow> snd (filt (Some m)) = Inr (f m)"
  shows "\<exists>g1 r1. GlueFiltered gen filt recv g r = Some (Inr (), g1, r1) \<and> got r1 = got r @ List.map_filter f ms"
  using assms
proof (induction ms arbitrary: g r)
  case Nil
  with finished [of g] show ?case
    by (subst GlueFiltered.simps) (auto simp: close_both_def eof_is_ok_def close_keeps)
next
  case (Cons m ms)
  obtain g1 where g1: "GGenerate gen g = Some (Inr (Some m), g1)" "gives g1 ms" using more [OF Cons.prems(1)] by blast
  have f: "snd (filt (Some m)) = Inr (f m)" using Cons.prems(3) by simp
  show ?case
  proof (cases "f m")
    case None
    then have "GlueFiltered gen filt recv g r = GlueFiltered gen filt recv g1 r"
      using g1(1) f by (subst GlueFiltered.simps) simp
    with Cons None g1(2) show ?thesis by simp
  next
    case (Some m')
    then obtain r1 where r1: "RReceive recv r (Some m') = Some (Inr (), r1)" "got r1 = got r @ [m']"
      "ready r1 (length (List.map_filter f ms))"
      using takes [of r "length (List.map_filter f ms)" m'] Cons.prems(2) by auto
    have "GlueFiltered gen filt recv g r = GlueFiltered gen filt recv g1 r1"
      using g1(1) f Some r1(1) by (subst GlueFiltered.simps) simp
    moreover have "\<exists>g2 r2. GlueFiltered gen filt recv g1 r1 = Some (Inr (), g2, r2) \<and> got r2 = got r1 @ List.map_filter f ms"
      by (rule Cons.IH [OF g1(2) r1(3)]) (use Cons.prems(3) in simp)
    ultimately show ?thesis using r1(2) Some by auto
  qed
qed

end

section \<open>Who keeps them\<close>

interpretation chan_source: message_source channel_generator "\<lambda>c ms. ChanClosed c \<and> Queued c = map Some ms"
  by unfold_locales (auto simp: channel_generator_def Channel_Generate_def)

definition non_nil :: "'ts message option list \<Rightarrow> 'ts message list" where
  "non_nil b = List.map_filter id b"

lemma non_nil_simps [simp]:
  "non_nil [] = []" "non_nil (b @ c) = non_nil b @ non_nil c" "non_nil (Some m # b) = m # non_nil b" "non_nil (map Some ms) = ms"
  by (induction ms) (simp_all add: non_nil_def List.map_filter_def)

interpretation buffer_sink: message_sink BufferReceiver non_nil "\<lambda>b n. True"
  by unfold_locales (simp_all add: BufferReceiver_def)

interpretation chan_sink: message_sink channel_receiver "\<lambda>c. non_nil (Queued c)"
    "\<lambda>c n. \<not> ChanClosed c \<and> length (Queued c) + n \<le> Capacity c"
  by unfold_locales (auto simp: channel_receiver_def Channel_Receive_def Channel_Close_def)

text \<open>ManyReceiver over buffers: each of them has the same messages, if they start alike.\<close>

lemma Many_buffers: "Many_Receive BufferReceiver bs m = Some (Inr (), map (\<lambda>b. b @ [m]) bs)"
  by (induction bs) (simp_all add: BufferReceiver_def)

lemma Many_close_buffers: "Many_Close BufferReceiver bs err = (err, bs)"
  by (induction bs) (simp_all add: BufferReceiver_def)

interpretation many_sink: message_sink "ManyReceiver BufferReceiver" "\<lambda>bs. non_nil (hd bs)" "\<lambda>bs n. bs \<noteq> []"
  by unfold_locales (auto simp: ManyReceiver_def Many_buffers Many_close_buffers hd_map)

definition stream_gives :: "'ts stream_env \<Rightarrow> 'z codecs \<Rightarrow> stream_decoder \<Rightarrow> 'ts message list \<Rightarrow> bool" where
  "stream_gives env cd s ms \<longleftrightarrow>
     ts_laws (Ops env) \<and> list_all (streamable env) ms \<and>
     (\<exists>s' bodies k. list_all2 (\<lambda>m b. Message_MarshalTo (Ops env) m = Inr b) ms bodies \<and> SD_Init s' \<and>
        SD_Dec s' = \<lparr>DSrc = \<lparr>Data = concat (map frame bodies), AtEnd = EOF\<rparr>, DKind = k\<rparr> \<and> (k = Native \<or> k = Unprobed) \<and>
        StreamDecoder_Generate env cd s = StreamDecoder_Generate env cd s')"

lemma stream_gives_more:
  assumes "stream_gives env cd s (m # ms)"
  obtains s1 where "StreamDecoder_Generate env cd s = (Some (Inr m), s1)" and "stream_gives env cd s1 ms"
proof -
  from assms obtain s' b bs k where laws: "ts_laws (Ops env)" "streamable env m" "list_all (streamable env) ms"
    and b: "Message_MarshalTo (Ops env) m = Inr b" and bs: "list_all2 (\<lambda>m b. Message_MarshalTo (Ops env) m = Inr b) ms bs"
    and s': "SD_Init s'" "SD_Dec s' = \<lparr>DSrc = \<lparr>Data = frame b @ concat (map frame bs), AtEnd = EOF\<rparr>, DKind = k\<rparr>"
      "k = Native \<or> k = Unprobed" "StreamDecoder_Generate env cd s = StreamDecoder_Generate env cd s'"
    by (auto simp: stream_gives_def list_all2_Cons1)
  let ?s1 = "s'\<lparr>SD_Dec := \<lparr>DSrc = \<lparr>Data = concat (map frame bs), AtEnd = EOF\<rparr>, DKind = Native\<rparr>\<rparr>"
  have "StreamDecoder_Generate env cd s = (Some (Inr m), ?s1)"
    using decode_frame [OF laws(1,2) b, of "\<lparr>Data = frame b @ concat (map frame bs), AtEnd = EOF\<rparr>" "concat (map frame bs)" k]
      s' by (simp add: StreamDecoder_Generate_def)
  moreover have "stream_gives env cd ?s1 ms"
    unfolding stream_gives_def using laws bs s'(1)
    by (intro conjI exI [of _ ?s1] exI [of _ bs] exI [of _ Native]) simp_all
  ultimately show thesis by (rule that)
qed

lemma stream_gives_end:
  assumes "stream_gives env cd s []"
  obtains s1 where "StreamDecoder_Generate env cd s = (Some (Inl (Err EOF)), s1)"
proof -
  from assms obtain s' k where s': "SD_Init s'" "SD_Dec s' = \<lparr>DSrc = \<lparr>Data = [], AtEnd = EOF\<rparr>, DKind = k\<rparr>"
    "k = Native \<or> k = Unprobed" "StreamDecoder_Generate env cd s = StreamDecoder_Generate env cd s'"
    by (auto simp: stream_gives_def)
  then have "fst (StreamDecoder_Generate env cd s) = Some (Inl (Err EOF))"
    by (auto simp: StreamDecoder_Generate_def Decoder_Decode_def Decoder_probe_def Decoder_run_def decodeNative_def read_byte_def)
  then show thesis by (metis that prod.collapse)
qed

interpretation stream_source: message_source "stream_generator env cd" "stream_gives env cd"
  by unfold_locales (auto simp: stream_generator_def elim: stream_gives_more stream_gives_end)

interpretation stream_pipe: pipe "stream_generator env cd" "stream_gives env cd" BufferReceiver non_nil "\<lambda>b n. True" ..

interpretation chan_pipe: pipe channel_generator "\<lambda>c ms. ChanClosed c \<and> Queued c = map Some ms"
    "ManyReceiver BufferReceiver" "\<lambda>bs. non_nil (hd bs)" "\<lambda>bs n. bs \<noteq> []" ..

lemma stream_written_gives:
  assumes "ts_laws (Ops env)" and "codec_laws cd" and "SHUnrecognized h = []"
    and "WriteCustomHeader cd h (NewStreamEncoder tty \<lparr>Out = [], Quota = q\<rparr>) = (s0, Inr ())"
    and "send_all cd (Ops env) p es s0 = (s1, Inr ())"
    and "StreamEncoder_Close cd s1 = (s2, Inr ())"
    and "list_all (streamable env) (sent es)"
  shows "stream_gives env cd (NewStreamDecoder \<lparr>Data = Out (SE_W s2), AtEnd = EOF\<rparr>) (sent es)"
  using stream_written [OF assms(1-6), of env] assms(1,7) unfolding stream_gives_def by blast

lemma static_never:
  assumes "Glue StaticGenerator BufferReceiver ms b = Some x"
  shows False
proof -
  have "(gen :: ('ts, 'ts message list) generator) = StaticGenerator \<longrightarrow>
      (recv :: ('ts, 'ts message option list) receiver) = BufferReceiver \<longrightarrow> False"
    if "Glue gen recv ms b = Some x" for gen recv ms b x
  proof (rule Glue.raw_induct [of "\<lambda>gen recv ms b x. gen = StaticGenerator \<longrightarrow> recv = BufferReceiver \<longrightarrow> False", OF _ that],
      goal_cases)
    case (1 f gen recv ms b x)
    show ?case
    proof (intro impI)
      assume eq: "gen = StaticGenerator" "recv = BufferReceiver"
      have "\<exists>ms' b'. f gen recv ms' b' = Some x"
        using 1(2) eq by (cases ms) (auto simp: StaticGenerator_def BufferReceiver_def)
      with 1(1) eq show False by blast
    qed
  qed
  with assms show False by blast
qed

section \<open>Properties\<close>

text \<open>
  C13: Glue moves a whole stream. What was written through a StreamEncoder, with flushes anywhere
  and a Close at the end, is delivered by Glue from a StreamDecoder to a buffer in order, and
  Glue returns nil; GlueFiltered delivers exactly what the filter lets through, in order.
\<close>

theorem glue_stream:
  assumes "ts_laws (Ops env)" and "codec_laws cd" and "SHUnrecognized h = []"
    and "WriteCustomHeader cd h (NewStreamEncoder tty \<lparr>Out = [], Quota = q\<rparr>) = (s0, Inr ())"
    and "send_all cd (Ops env) p es s0 = (s1, Inr ())"
    and "StreamEncoder_Close cd s1 = (s2, Inr ())"
    and "list_all (streamable env) (sent es)"
    and "\<And>m. m \<in> set (sent es) \<Longrightarrow> snd (filt (Some m)) = Inr (f m)"
  shows "(\<exists>g b. Glue (stream_generator env cd) BufferReceiver (NewStreamDecoder \<lparr>Data = Out (SE_W s2), AtEnd = EOF\<rparr>) [] =
       Some (Inr (), g, b) \<and> non_nil b = sent es) \<and>
    (\<exists>g b. GlueFiltered (stream_generator env cd) filt BufferReceiver (NewStreamDecoder \<lparr>Data = Out (SE_W s2), AtEnd = EOF\<rparr>) [] =
       Some (Inr (), g, b) \<and> non_nil b = List.map_filter f (sent es))"
  using stream_pipe.glue_delivers [OF stream_written_gives [OF assms(1-7)], where r = "[]"]
    stream_pipe.glue_filters [OF stream_written_gives [OF assms(1-7)], where r = "[]" and f = f and filt = filt] assms(8) by simp

text \<open>
  Glue over a StaticGenerator never returns: an empty one answers nil without an error, and
  Glue hands nil to the receiver for ever, while a ManyReceiver behind a closed Channel gets the
  queued messages and Glue returns.
\<close>

lemma glue_static:
  "Glue StaticGenerator BufferReceiver ms b = None \<and>
   (\<exists>g bs. Glue channel_generator (ManyReceiver BufferReceiver) \<lparr>Queued = map Some ms, Capacity = n, ChanClosed = True\<rparr> [[], []] =
      Some (Inr (), g, bs) \<and> non_nil (hd bs) = ms)"
proof
  show "Glue StaticGenerator BufferReceiver ms b = None"
    using static_never [of ms b] by (cases "Glue StaticGenerator BufferReceiver ms b") auto
  show "\<exists>g bs. Glue channel_generator (ManyReceiver BufferReceiver) \<lparr>Queued = map Some ms, Capacity = n, ChanClosed = True\<rparr> [[], []] =
      Some (Inr (), g, bs) \<and> non_nil (hd bs) = ms"
    using chan_pipe.glue_delivers [of "\<lparr>Queued = map Some ms, Capacity = n, ChanClosed = True\<rparr>" ms "[[], []]"] by simp
qed

theorem glue_stream_witness:
  "\<exists>out g b. Glue (stream_generator plain_stream plain_codecs) BufferReceiver (NewStreamDecoder \<lparr>Data = out, AtEnd = EOF\<rparr>) [] =
     Some (Inr (), g, b) \<and> non_nil b = [Log 3]"
proof -
  obtain s0 s1 s2 where ex: "WriteCustomHeader plain_codecs (zero_header\<lparr>Mode := Some StreamHeader_RELIABLE\<rparr>)
       (NewStreamEncoder False \<lparr>Out = [], Quota = 9\<rparr>) = (s0, Inr ())"
    "send_all plain_codecs unary_ts plain_printers [Send (Log 3), FlushNow] s0 = (s1, Inr ())"
    "StreamEncoder_Close plain_codecs s1 = (s2, Inr ())" by (rule example_stream)
  with glue_stream [of plain_stream plain_codecs "zero_header\<lparr>Mode := Some StreamHeader_RELIABLE\<rparr>" False 9 s0
      plain_printers "[Send (Log 3), FlushNow]" s1 s2 "\<lambda>m. (m, Inr m)" Some] unary_ts_laws plain_codec_laws example_streamable
  show ?thesis
    unfolding example_ops example_sent by (simp add: zero_header_def) blast
qed

lemma line_out_two: "2 \<le> Quota w \<Longrightarrow> line_out l w = w\<lparr>Out := Out w @ l @ [0x0A], Quota := Quota w - 2\<rparr>"
  by (simp add: line_out_def w_write_def)

text \<open>
  cat prints a stream. The command with the flag for KV text, or with no flag, reads a
  stream that was written through a StreamEncoder and prints the KV line of every message, in
  order and each with a newline, and returns nil at the end; two flags are an error.
\<close>

lemma cat_stream:
  assumes "ts_laws (Ops env)" and "codec_laws cd" and "SHUnrecognized h = []"
    and "WriteCustomHeader cd h (NewStreamEncoder tty \<lparr>Out = [], Quota = q\<rparr>) = (s0, Inr ())"
    and "send_all cd (Ops env) p es s0 = (s1, Inr ())"
    and "StreamEncoder_Close cd s1 = (s2, Inr ())"
    and "list_all (streamable env) (sent es)"
    and "\<And>m. m \<in> set (sent es) \<Longrightarrow> KVString p m = Inr (line m)" and "2 * length (sent es) \<le> Quota out"
  shows "(\<exists>w. CatCLI_Execute env cd p (cat_format_of kv False False False) tty' \<lparr>Data = Out (SE_W s2), AtEnd = EOF\<rparr> out =
      Some (Inr (), w) \<and> Out w = Out out @ concat (map (\<lambda>m. str_bytes (line m) @ [0x0A]) (sent es))) \<and>
    is_panic (cat_format_of True True human json) = False \<and> (\<exists>e. cat_format_of True True human json = Inl (Err e))"
proof -
  let ?show = "cat_write cd (Ops env) p (Js env) CatKV"
  let ?o = "NewStreamEncoder tty' out :: 'b stream_encoder"
  have step: "\<exists>o1. ?show m o' = (Inr (), o1) \<and> 2 * n \<le> Quota (SE_W o1) \<and>
      Out (SE_W o1) = Out (SE_W o') @ str_bytes (line m) @ [0x0A]"
    if "m \<in> set (sent es)" and "2 * Suc n \<le> Quota (SE_W o')" for m o' n
    using that assms(8) by (simp add: cat_write_def line_out_two)
  have "\<exists>g1 o1. Cat_Run (stream_generator env cd) ?show (NewStreamDecoder \<lparr>Data = Out (SE_W s2), AtEnd = EOF\<rparr>) ?o =
      Some (Inl (Err EOF), g1, o1) \<and>
      Out (SE_W o1) = Out (SE_W ?o) @ concat (map (\<lambda>m. str_bytes (line m) @ [0x0A]) (sent es))"
    by (rule stream_source.cat_shows [OF stream_written_gives [OF assms(1-7)],
          where enough = "\<lambda>x n. 2 * n \<le> Quota (SE_W x)" and shown = "\<lambda>x. Out (SE_W x)"])
      (use step assms(9) in \<open>simp_all add: NewStreamEncoder_def\<close>)
  moreover have "cat_format_of kv False False False = Inr CatKV" by (simp add: cat_format_of_def)
  ultimately show ?thesis
    by (auto simp: CatCLI_Execute_def eof_is_ok_def cat_format_of_def NewStreamEncoder_def)
qed

lemma cat_stream_witness:
  "\<exists>w data. CatCLI_Execute plain_stream plain_codecs plain_printers (cat_format_of True False False False) False
     \<lparr>Data = data, AtEnd = EOF\<rparr> \<lparr>Out = [], Quota = 2\<rparr> = Some (Inr (), w) \<and>
     Out w = str_bytes (projr (KVString plain_printers (Log (3 :: nat)))) @ [0x0A]"
proof -
  obtain s0 s1 s2 where ex: "WriteCustomHeader plain_codecs (zero_header\<lparr>Mode := Some StreamHeader_RELIABLE\<rparr>)
       (NewStreamEncoder False \<lparr>Out = [], Quota = 9\<rparr>) = (s0, Inr ())"
    "send_all plain_codecs unary_ts plain_printers [Send (Log 3), FlushNow] s0 = (s1, Inr ())"
    "StreamEncoder_Close plain_codecs s1 = (s2, Inr ())" by (rule example_stream)
  have "KVString plain_printers (Log (3 :: nat)) = Inr (projr (KVString plain_printers (Log (3 :: nat))))" by code_simp
  with cat_stream [of plain_stream plain_codecs "zero_header\<lparr>Mode := Some StreamHeader_RELIABLE\<rparr>" False 9 s0
      plain_printers "[Send (Log 3), FlushNow]" s1 s2 "\<lambda>m. projr (KVString plain_printers m)" "\<lparr>Out = [], Quota = 2\<rparr>" True False]
    unary_ts_laws plain_codec_laws example_streamable ex
  show ?thesis
    unfolding example_ops example_sent by (simp add: zero_header_def) blast
qed

end
