(* ===== verification/Config.thy ===== *)
theory Config
  imports Prelude Decimal "HOL-Library.AList"
begin

text \<open>
  config.go and global_config.go: configuration trees and where they are looked for. Parsing
  TOML and storing a table in a Go value are library code: parse and unmarshal are parameters.
  The fields of a table are a Go map; the list has them in the order of one iteration.
\<close>

datatype toml = Table "(string \<times> toml) list" | Value string

type_synonym table = "(string \<times> toml) list"

type_synonym config = "table list"

definition config_Add :: "(bytes \<Rightarrow> table result) \<Rightarrow> bytes result \<Rightarrow> config \<Rightarrow> config result" where
  "config_Add parse data cfg = bindR data (\<lambda>d. bindR (parse d) (\<lambda>tree. Inr (cfg @ [tree])))"

definition ParseConfig :: "(bytes \<Rightarrow> table result) \<Rightarrow> bytes result \<Rightarrow> config result" where
  "ParseConfig parse data = config_Add parse data []"

definition config_AddString :: "(bytes \<Rightarrow> table result) \<Rightarrow> string \<Rightarrow> config \<Rightarrow> config result" where
  "config_AddString parse s cfg = config_Add parse (Inr (str_bytes s)) cfg"

text \<open>Files are a map from paths to contents.\<close>

definition read_file :: "(string \<Rightarrow> bytes option) \<Rightarrow> string \<Rightarrow> bytes result" where
  "read_file fs path = (case fs path of None \<Rightarrow> Inl (Err (OtherErr ''no such file'')) | Some d \<Rightarrow> Inr d)"

definition LoadMergedConfig :: "(bytes \<Rightarrow> table result) \<Rightarrow> (string \<Rightarrow> bytes option) \<Rightarrow> string \<Rightarrow> config \<Rightarrow> config result" where
  "LoadMergedConfig parse fs path cfg = config_Add parse (read_file fs path) cfg"

definition subTable :: "string \<Rightarrow> table \<Rightarrow> table option" where
  "subTable name t = (case map_of t name of Some (Table sub) \<Rightarrow> Some sub | _ \<Rightarrow> None)"

text \<open>Load: every tree that has the table stores into the same value, the later trees last.\<close>

fun config_Load :: "(table \<Rightarrow> 'v \<Rightarrow> 'v result) \<Rightarrow> string \<Rightarrow> config \<Rightarrow> 'v \<Rightarrow> 'v result" where
  "config_Load unmarshal name [] v = Inr v"
| "config_Load unmarshal name (tree # trees) v =
     (case subTable name tree of
        None \<Rightarrow> config_Load unmarshal name trees v
      | Some sub \<Rightarrow> bindR (unmarshal sub v) (config_Load unmarshal name trees))"

text \<open>Duration.UnmarshalTOML: the text between the quotes; time.ParseDuration is a parameter.\<close>

definition Duration_UnmarshalTOML :: "(string \<Rightarrow> u64 result) \<Rightarrow> bytes \<Rightarrow> u64 result" where
  "Duration_UnmarshalTOML parse_duration data =
     bindR (go_slice data 1 (int (length data) - 1)) (\<lambda>inner. parse_duration (bytes_str inner))"

section \<open>Paths\<close>

definition UserPath :: string where "UserPath = ''.cypress''"
definition UserConfigPath :: string where "UserConfigPath = UserPath @ ''/config''"
definition PotentialGlobalPaths :: "string list" where
  "PotentialGlobalPaths = [''/etc/cypress'', ''/var/lib/cypress'']"

text \<open>
  filepath.Join of non-empty clean elements; the elements here are absolute directories and
  relative names.
\<close>

definition join_path :: "string \<Rightarrow> string \<Rightarrow> string" where
  "join_path dir name = dir @ ''/'' @ name"

definition ExpandPath :: "string \<Rightarrow> string \<Rightarrow> string" where
  "ExpandPath home path = (if HasPrefix path ''~/'' then home @ ''/'' @ drop 2 path else path)"

record paths =
  HomeDir :: string
  GlobalPaths :: "string list"
  GlobalConfigPaths :: "string list"

text \<open>
  The init function, over the home directory it found (empty when there is none), the value of
  CYPRESS\_PATH and the paths that exist (after it has made the directory of the user).
\<close>

fun probe_paths :: "(string \<Rightarrow> bool) \<Rightarrow> string list \<Rightarrow> paths \<Rightarrow> paths" where
  "probe_paths exists [] p = p"
| "probe_paths exists (path # rest) p =
     probe_paths exists rest
       (if exists path then
          p\<lparr>GlobalPaths := GlobalPaths p @ [path],
            GlobalConfigPaths := GlobalConfigPaths p
              @ (if exists (join_path path ''config'') then [join_path path ''config''] else [])\<rparr>
        else p)"

definition init_paths :: "(string \<Rightarrow> bool) \<Rightarrow> string \<Rightarrow> string \<Rightarrow> paths" where
  "init_paths exists home env_path =
     (let user = (if home \<noteq> '''' \<and> exists (join_path home UserConfigPath) then [join_path home UserConfigPath] else [])
      in probe_paths exists (PotentialGlobalPaths @ (if env_path \<noteq> '''' then [env_path] else []))
           \<lparr>HomeDir = home, GlobalPaths = [], GlobalConfigPaths = user\<rparr>)"

text \<open>loadGlobalConfig: from the last path to the first; a file that cannot be loaded is left out.\<close>

definition loadGlobalConfig :: "(bytes \<Rightarrow> table result) \<Rightarrow> (string \<Rightarrow> bytes option) \<Rightarrow> paths \<Rightarrow> config" where
  "loadGlobalConfig parse fs p =
     foldl (\<lambda>cfg path. case LoadMergedConfig parse fs path cfg of Inr cfg' \<Rightarrow> cfg' | Inl _ \<Rightarrow> cfg)
       [] (rev (GlobalConfigPaths p))"

definition GlobalConfig :: "(bytes \<Rightarrow> table result) \<Rightarrow> (string \<Rightarrow> bytes option) \<Rightarrow> bool \<Rightarrow> paths \<Rightarrow> config option \<Rightarrow> config" where
  "GlobalConfig parse fs empty_config p loaded =
     (case loaded of
        Some cfg \<Rightarrow> cfg
      | None \<Rightarrow> if empty_config then [] else loadGlobalConfig parse fs p)"

definition UserFile :: "(string \<Rightarrow> bool) \<Rightarrow> paths \<Rightarrow> string \<Rightarrow> string option" where
  "UserFile exists p path =
     (if HomeDir p = '''' then None
      else let fp = join_path (join_path (HomeDir p) UserPath) path
        in if exists fp then Some fp else None)"

fun first_existing :: "(string \<Rightarrow> bool) \<Rightarrow> string list \<Rightarrow> string option" where
  "first_existing exists [] = None"
| "first_existing exists (fp # fps) = (if exists fp then Some fp else first_existing exists fps)"

definition GlobalFile :: "(string \<Rightarrow> bool) \<Rightarrow> paths \<Rightarrow> string \<Rightarrow> string option" where
  "GlobalFile exists p path = first_existing exists (map (\<lambda>gp. join_path gp path) (GlobalPaths p))"

section \<open>Precedence\<close>

lemma probe_paths_spec:
  "probe_paths exists ps p =
     p\<lparr>GlobalPaths := GlobalPaths p @ filter exists ps,
       GlobalConfigPaths := GlobalConfigPaths p @
         filter exists (map (\<lambda>q. join_path q ''config'') (filter exists ps))\<rparr>"
  by (induction ps arbitrary: p) simp_all

text \<open>Where an unmarshal only ever overwrites a setting, the last tree that has it decides.\<close>

lemma config_Load_last:
  assumes "\<And>sub v. \<exists>v'. unmarshal sub v = Inr v' \<and> get v' = (case map_of sub key of Some (Value x) \<Rightarrow> x | _ \<Rightarrow> get v)"
  shows "\<exists>v'. config_Load unmarshal name cfg v = Inr v' \<and>
    get v' = foldl (\<lambda>x tree. case subTable name tree of
        Some sub \<Rightarrow> (case map_of sub key of Some (Value y) \<Rightarrow> y | _ \<Rightarrow> x) | None \<Rightarrow> x) (get v) cfg"
proof (induction cfg arbitrary: v)
  case (Cons tree cfg)
  show ?case
  proof (cases "subTable name tree")
    case None
    with Cons show ?thesis by simp
  next
    case (Some sub)
    from assms [of sub v] obtain v1 where v1: "unmarshal sub v = Inr v1"
      "get v1 = (case map_of sub key of Some (Value x) \<Rightarrow> x | _ \<Rightarrow> get v)" by blast
    with Some Cons [of v1] show ?thesis by simp
  qed
qed simp

section \<open>Properties\<close>

text \<open>
  Which configuration wins. The files are looked for in the home directory first, then in
  /etc/cypress, /var/lib/cypress and the directory of CYPRESS\_PATH, those that exist; the last
  of them is loaded first, so that for a setting that each file overwrites the first file that
  has it decides.
\<close>

lemma config_precedence:
  assumes "\<And>sub v. \<exists>v'. unmarshal sub v = Inr v' \<and> get v' = (case map_of sub key of Some (Value x) \<Rightarrow> x | _ \<Rightarrow> get v)"
    and "\<And>path. path \<in> set (GlobalConfigPaths p) \<Longrightarrow> LoadMergedConfig parse fs path [] = Inr [tree path]"
    and "p = init_paths exists home env" and "home \<noteq> ''''"
  shows "GlobalConfigPaths p = filter exists ([join_path home UserConfigPath] @
      map (\<lambda>d. join_path d ''config'') (filter exists (PotentialGlobalPaths @ (if env \<noteq> '''' then [env] else [])))) \<and>
    (\<exists>v'. config_Load unmarshal name (loadGlobalConfig parse fs p) v = Inr v' \<and>
      get v' = foldr (\<lambda>path x. case subTable name (tree path) of
          Some sub \<Rightarrow> (case map_of sub key of Some (Value y) \<Rightarrow> y | _ \<Rightarrow> x) | None \<Rightarrow> x) (GlobalConfigPaths p) (get v))"
proof
  show "GlobalConfigPaths p = filter exists ([join_path home UserConfigPath] @
      map (\<lambda>d. join_path d ''config'') (filter exists (PotentialGlobalPaths @ (if env \<noteq> '''' then [env] else []))))"
    using assms(3,4) by (simp add: init_paths_def probe_paths_spec)
  have load: "LoadMergedConfig parse fs path cfg = Inr (cfg @ [tree path])" if "path \<in> set (GlobalConfigPaths p)" for path cfg
    using assms(2) [OF that] by (auto simp: LoadMergedConfig_def config_Add_def bindR_eq_Inr_iff)
  have "foldl (\<lambda>cfg path. case LoadMergedConfig parse fs path cfg of Inr cfg' \<Rightarrow> cfg' | Inl _ \<Rightarrow> cfg) cfg ps = cfg @ map tree ps"
    if "set ps \<subseteq> set (GlobalConfigPaths p)" for ps cfg
    using that by (induction ps arbitrary: cfg) (simp_all add: load)
  then have "loadGlobalConfig parse fs p = map tree (rev (GlobalConfigPaths p))"
    by (simp add: loadGlobalConfig_def)
  with config_Load_last [OF assms(1), of name "loadGlobalConfig parse fs p" v]
  show "\<exists>v'. config_Load unmarshal name (loadGlobalConfig parse fs p) v = Inr v' \<and>
      get v' = foldr (\<lambda>path x. case subTable name (tree path) of
          Some sub \<Rightarrow> (case map_of sub key of Some (Value y) \<Rightarrow> y | _ \<Rightarrow> x) | None \<Rightarrow> x) (GlobalConfigPaths p) (get v)"
    by (simp add: foldl_conv_foldr foldr_map rev_map comp_def)
qed

lemma config_precedence_witness:
  "\<exists>p v. p = init_paths (\<lambda>s. s = ''/h/.cypress/config'') ''/h'' '''' \<and> GlobalConfigPaths p = [''/h/.cypress/config''] \<and>
     config_Load (\<lambda>sub v. Inr (case map_of sub ''k'' of Some (Value x) \<Rightarrow> x | _ \<Rightarrow> v)) ''t''
       (loadGlobalConfig (\<lambda>d. Inr [(''t'', Table [(''k'', Value ''1'')])]) (\<lambda>_. Some []) p) ''0'' = Inr v \<and> v = ''1''"
proof -
  let ?p = "init_paths (\<lambda>s. s = ''/h/.cypress/config'') ''/h'' ''''"
  have paths: "GlobalConfigPaths ?p = [''/h/.cypress/config'']"
    by (simp add: init_paths_def probe_paths_spec PotentialGlobalPaths_def join_path_def UserConfigPath_def UserPath_def)
  let ?tree = "[(''t'', Table [(''k'', Value ''1'')])]"
  have sub: "subTable ''t'' ?tree = Some [(''k'', Value ''1'')]" by (simp add: subTable_def)
  have "\<exists>v. config_Load (\<lambda>sub v. Inr (case map_of sub ''k'' of Some (Value x) \<Rightarrow> x | _ \<Rightarrow> v)) ''t''
       (loadGlobalConfig (\<lambda>d. Inr ?tree) (\<lambda>_. Some []) ?p) ''0'' = Inr v \<and>
     v = foldr (\<lambda>path x. case subTable ''t'' ?tree of
          Some sub \<Rightarrow> (case map_of sub ''k'' of Some (Value y) \<Rightarrow> y | _ \<Rightarrow> x) | None \<Rightarrow> x) (GlobalConfigPaths ?p) ''0''"
    by (rule config_precedence [where get = "\<lambda>v. v" and key = "''k''" and tree = "\<lambda>_. ?tree" and p = ?p
        and exists = "\<lambda>s. s = ''/h/.cypress/config''" and home = "''/h''" and env = "''''", THEN conjunct2])
      (simp_all add: LoadMergedConfig_def config_Add_def read_file_def)
  then show ?thesis unfolding paths sub by (intro exI [of _ ?p]) (simp add: paths)
qed

end
