(* ===== verification/Router.thy ===== *)
theory Router
  imports Pipes Config "HOL-Library.List_Lexorder" "HOL-Library.Char_ord"
begin

text \<open>
  plugins.go and router/router.go: the registry of plugins, the router's configuration, the
  wiring of its routes, and Flow, which moves the messages of a route. What a plugin can do and
  how it is configured are parameters; a router's maps are lists in the order of iteration.
\<close>

section \<open>plugins.go\<close>

text \<open>The registry: a plugin is what its creator returns.\<close>

definition AddPlugin :: "string \<Rightarrow> 'p \<Rightarrow> (string \<times> 'p) list \<Rightarrow> (string \<times> 'p) list" where
  "AddPlugin name creator registry = AList.update (ToLower name) creator registry"

definition FindPlugin :: "(string \<times> 'p) list \<Rightarrow> string \<Rightarrow> 'p option" where
  "FindPlugin registry name = map_of registry (ToLower name)"

definition AllPlugins :: "(string \<times> 'p) list \<Rightarrow> string list" where
  "AllPlugins registry = sort (map fst registry)"

text \<open>
  What a type assertion and the call give: nothing if the plugin is not of that kind, an error,
  or a value that can be nil.
\<close>

record ('p, 'g, 'r, 'f) plugin_kinds =
  AsGenerator :: "'p \<Rightarrow> 'g option result option"
  AsReceiver :: "'p \<Rightarrow> 'r option result option"
  AsFilterer :: "'p \<Rightarrow> 'f option result option"
  Configure :: "table \<Rightarrow> 'p \<Rightarrow> 'p result"

text \<open>cli/router.go: the kinds of a plugin, as the router command lists them.\<close>

fun comma_list :: "string list \<Rightarrow> string" where
  "comma_list [] = ''''"
| "comma_list [s] = s"
| "comma_list (s # ss) = s @ '', '' @ comma_list ss"

definition pluginType :: "('p, 'g, 'r, 'f) plugin_kinds \<Rightarrow> 'p \<Rightarrow> string" where
  "pluginType k p =
     comma_list ((if AsGenerator k p \<noteq> None then [''input''] else []) @ (if AsReceiver k p \<noteq> None then [''output''] else [])
       @ (if AsFilterer k p \<noteq> None then [''filter''] else []))"

section \<open>Configuration\<close>

record 'p plugin_def =
  PName :: string
  PType :: string
  PConfig :: table
  PPlugin :: "'p option"

record ('g, 'r, 'f) route =
  RName :: string
  REnabled :: bool
  RInput :: "string list"
  ROutput :: "string list"
  RFilter :: "string list"
  RGenerators :: "'g list"
  RReceivers :: "'r list"
  RFilters :: "'f list"

record ('p, 'g, 'r, 'f) router =
  RPlugins :: "(string \<times> 'p plugin_def) list"
  RRoutes :: "(string \<times> ('g, 'r, 'f) route) list"

definition NewRouter :: "('p, 'g, 'r, 'f) router" where
  "NewRouter = \<lparr>RPlugins = [], RRoutes = []\<rparr>"

definition zero_route :: "('g, 'r, 'f) route" where
  "zero_route = \<lparr>RName = '''', REnabled = False, RInput = [], ROutput = [], RFilter = [],
     RGenerators = [], RReceivers = [], RFilters = []\<rparr>"

text \<open>A table with one field that is a table itself: the field's name is the type.\<close>

definition typed_table :: "string \<Rightarrow> table \<Rightarrow> string \<times> table" where
  "typed_table key sub = (case sub of [(skey, Table inner)] \<Rightarrow> (skey, inner) | _ \<Rightarrow> (key, sub))"

fun loadPlugins :: "(table \<Rightarrow> ('g, 'r, 'f) route \<Rightarrow> ('g, 'r, 'f) route result) \<Rightarrow> table \<Rightarrow>
    ('p, 'g, 'r, 'f) router \<Rightarrow> ('p, 'g, 'r, 'f) router result" where
  "loadPlugins unmarshal [] r = Inr r"
| "loadPlugins unmarshal ((key, val) # entries) r =
     (case val of
        Value _ \<Rightarrow> Inl (Err ErrInvalidConfig)
      | Table tab \<Rightarrow>
          (case typed_table key tab of (typ, sub) \<Rightarrow>
             if key = ''route'' then
               bindR (unmarshal sub (zero_route\<lparr>REnabled := True, RName := typ\<rparr>)) (\<lambda>route.
                 loadPlugins unmarshal entries (r\<lparr>RRoutes := AList.update typ route (RRoutes r)\<rparr>))
             else
               loadPlugins unmarshal entries (r\<lparr>RPlugins := AList.update key
                 \<lparr>PName = key, PType = typ, PConfig = sub, PPlugin = None\<rparr> (RPlugins r)\<rparr>)))"

definition LoadConfig :: "(bytes \<Rightarrow> table result) \<Rightarrow> (table \<Rightarrow> ('g, 'r, 'f) route \<Rightarrow> ('g, 'r, 'f) route result) \<Rightarrow>
    bytes result \<Rightarrow> ('p, 'g, 'r, 'f) router \<Rightarrow> ('p, 'g, 'r, 'f) router result" where
  "LoadConfig parse unmarshal data r = bindR data (\<lambda>d. bindR (parse d) (\<lambda>tree. loadPlugins unmarshal tree r))"

section \<open>Wiring\<close>

definition open_plugin :: "('p, 'g, 'r, 'f) plugin_kinds \<Rightarrow> (string \<times> 'p) list \<Rightarrow> 'p plugin_def \<Rightarrow> 'p plugin_def result" where
  "open_plugin k registry def =
     (if PPlugin def \<noteq> None then Inr def
      else (case FindPlugin registry (PType def) of
              None \<Rightarrow> Inl (Err (ErrUnknownPlugin (PType def)))
            | Some plug \<Rightarrow> bindR (Configure k (PConfig def) plug) (\<lambda>p. Inr (def\<lparr>PPlugin := Some p\<rparr>))))"

fun traverse :: "('a \<Rightarrow> 'b result) \<Rightarrow> 'a list \<Rightarrow> 'b list result" where
  "traverse f [] = Inr []"
| "traverse f (x # xs) = bindR (f x) (\<lambda>y. bindR (traverse f xs) (\<lambda>ys. Inr (y # ys)))"

text \<open>The three loops of wireRoutes differ in the assertion and in the two error values.\<close>

definition wire_one :: "(string \<times> 'p plugin_def) list \<Rightarrow> ('p \<Rightarrow> 'x option result option) \<Rightarrow> (string \<Rightarrow> go_err) \<Rightarrow>
    (string \<Rightarrow> go_err) \<Rightarrow> string \<Rightarrow> 'x result" where
  "wire_one plugins as_kind not_kind is_nil name =
     (case map_of plugins name of
        None \<Rightarrow> Inl (Err (ErrUnknownPlugin name))
      | Some def \<Rightarrow>
          (case Option.bind (PPlugin def) as_kind of
             None \<Rightarrow> Inl (Err (not_kind name))
           | Some (Inl e) \<Rightarrow> Inl e
           | Some (Inr None) \<Rightarrow> Inl (Err (is_nil name))
           | Some (Inr (Some x)) \<Rightarrow> Inr x))"

definition wire_route :: "('p, 'g, 'r, 'f) plugin_kinds \<Rightarrow> (string \<times> 'p plugin_def) list \<Rightarrow> ('g, 'r, 'f) route \<Rightarrow>
    ('g, 'r, 'f) route result" where
  "wire_route k plugins route =
     (if \<not> REnabled route then Inr route
      else bindR (traverse (wire_one plugins (AsGenerator k) ErrInvalidGenerator ErrInvalidGenerator) (RInput route)) (\<lambda>gs.
           bindR (traverse (wire_one plugins (AsFilterer k) ErrInvalidFilterer ErrInvalidFilterer) (RFilter route)) (\<lambda>fs.
           bindR (traverse (wire_one plugins (AsReceiver k) ErrInvalidGenerator ErrInvalidReceiver) (ROutput route)) (\<lambda>rs.
             Inr (route\<lparr>RGenerators := RGenerators route @ gs, RFilters := RFilters route @ fs,
               RReceivers := RReceivers route @ rs\<rparr>)))))"

definition on_values :: "('a \<Rightarrow> 'b result) \<Rightarrow> (string \<times> 'a) list \<Rightarrow> (string \<times> 'b) list result" where
  "on_values f = traverse (\<lambda>(k, v). bindR (f v) (\<lambda>w. Inr (k, w)))"

definition default_route :: "('g, 'r, 'f) route" where
  "default_route = zero_route\<lparr>RName := ''Default'', REnabled := True, RInput := [''in''], ROutput := [''out'']\<rparr>"

definition Router_Open :: "('p, 'g, 'r, 'f) plugin_kinds \<Rightarrow> (string \<times> 'p) list \<Rightarrow> ('p, 'g, 'r, 'f) router \<Rightarrow>
    ('p, 'g, 'r, 'f) router result" where
  "Router_Open k registry r =
     bindR (on_values (open_plugin k registry) (RPlugins r)) (\<lambda>plugins.
     bindR (on_values (wire_route k plugins) (if RRoutes r = [] then [(''Default'', default_route)] else RRoutes r)) (\<lambda>routes.
       Inr \<lparr>RPlugins = plugins, RRoutes = routes\<rparr>))"

text \<open>Close, with the operation that closes a generator.\<close>

definition Router_Close :: "('g \<Rightarrow> 'g) \<Rightarrow> ('p, 'g, 'r, 'f) router \<Rightarrow> ('p, 'g, 'r, 'f) router" where
  "Router_Close close_gen r =
     r\<lparr>RRoutes := map (\<lambda>(k, route). (k, route\<lparr>RGenerators := map close_gen (RGenerators route)\<rparr>)) (RRoutes r)\<rparr>"

section \<open>Flow\<close>

text \<open>
  The loop over the filters. The loop variable msg is declared anew inside it, so what a filter
  returns only ends the loop: the message of the route is the old one, as the filters left it.
\<close>

fun flow_filters :: "'ts filterer list \<Rightarrow> 'ts message option \<Rightarrow> 'ts message option result" where
  "flow_filters [] msg = Inr msg"
| "flow_filters (filt # filts) msg =
     (case filt msg of
        (msg', Inl (Panic e)) \<Rightarrow> Inl (Panic e)
      | (msg', Inl (Err e)) \<Rightarrow> Inr msg'
      | (msg', Inr None) \<Rightarrow> Inr msg'
      | (msg', Inr (Some _)) \<Rightarrow> flow_filters filts msg')"

text \<open>Every receiver gets the message; errors are only logged.\<close>

fun flow_deliver :: "('ts, 'r) receiver \<Rightarrow> 'ts message \<Rightarrow> 'r list \<Rightarrow> 'r list result option" where
  "flow_deliver recv m [] = Some (Inr [])"
| "flow_deliver recv m (r # rs) =
     (case RReceive recv r (Some m) of
        None \<Rightarrow> None
      | Some (Inl (Panic e), r') \<Rightarrow> Some (Inl (Panic e))
      | Some (_, r') \<Rightarrow> map_option (\<lambda>x. bindR x (\<lambda>rs'. Inr (r' # rs'))) (flow_deliver recv m rs))"

text \<open>
  A running Flow: its generators, each in a goroutine that ends at an error, the channel they
  write to, and the receivers. Made is a ghost: what the generators have produced.
\<close>

record ('ts, 'g, 'r) flow =
  FGens :: "('g \<times> bool) list"
  FQueue :: "'ts message option list"
  FRecvs :: "'r list"
  FMade :: "'ts message option list"

definition flow_start :: "'g list \<Rightarrow> 'r list \<Rightarrow> ('ts, 'g, 'r) flow" where
  "flow_start gs rs = \<lparr>FGens = map (\<lambda>g. (g, False)) gs, FQueue = [], FRecvs = rs, FMade = []\<rparr>"

inductive flow_step :: "('ts, 'g) generator \<Rightarrow> 'ts filterer list \<Rightarrow> ('ts, 'r) receiver \<Rightarrow>
    ('ts, 'g, 'r) flow \<Rightarrow> ('ts, 'g, 'r) flow \<Rightarrow> bool" for gen filts recv where
  produces: "i < length (FGens s) \<Longrightarrow> FGens s ! i = (g, False) \<Longrightarrow> GGenerate gen g = Some (Inr m, g') \<Longrightarrow>
    length (FQueue s) < 2 * length (FGens s) \<Longrightarrow>
    flow_step gen filts recv s (s\<lparr>FGens := (FGens s)[i := (g', False)], FQueue := FQueue s @ [m], FMade := FMade s @ [m]\<rparr>)"
| stops: "i < length (FGens s) \<Longrightarrow> FGens s ! i = (g, False) \<Longrightarrow> GGenerate gen g = Some (Inl (Err e), g') \<Longrightarrow>
    flow_step gen filts recv s (s\<lparr>FGens := (FGens s)[i := (g', True)]\<rparr>)"
| delivers: "FQueue s = m # q \<Longrightarrow> flow_filters filts m = Inr (Some m') \<Longrightarrow>
    flow_deliver recv m' (FRecvs s) = Some (Inr rs) \<Longrightarrow>
    flow_step gen filts recv s (s\<lparr>FQueue := q, FRecvs := rs\<rparr>)"
| skips: "FQueue s = m # q \<Longrightarrow> flow_filters filts m = Inr None \<Longrightarrow>
    flow_step gen filts recv s (s\<lparr>FQueue := q\<rparr>)"

inductive flow_reaches :: "('ts, 'g) generator \<Rightarrow> 'ts filterer list \<Rightarrow> ('ts, 'r) receiver \<Rightarrow>
    ('ts, 'g, 'r) flow \<Rightarrow> ('ts, 'g, 'r) flow \<Rightarrow> bool" for gen filts recv s0 where
  flow_now: "flow_reaches gen filts recv s0 s0"
| flow_next: "flow_reaches gen filts recv s0 s \<Longrightarrow> flow_step gen filts recv s s' \<Longrightarrow> flow_reaches gen filts recv s0 s'"

section \<open>What arrives\<close>

definition passes :: "'ts filterer list \<Rightarrow> 'ts message option \<Rightarrow> 'ts message option" where
  "passes filts m = (case flow_filters filts m of Inr x \<Rightarrow> x | Inl _ \<Rightarrow> None)"

definition flowed :: "'ts filterer list \<Rightarrow> 'ts message option list \<Rightarrow> 'ts message option list" where
  "flowed filts ms = map Some (List.map_filter (passes filts) ms)"

lemma flowed_simps [simp]:
  "flowed filts [] = []" "flowed filts (ms @ ms') = flowed filts ms @ flowed filts ms'"
  "flowed filts (m # ms) = (case passes filts m of None \<Rightarrow> [] | Some m' \<Rightarrow> [Some m']) @ flowed filts ms"
  by (simp_all add: flowed_def List.map_filter_def split: option.split)

lemma deliver_buffers: "flow_deliver BufferReceiver m bs = Some (Inr (map (\<lambda>b. b @ [Some m]) bs))"
  by (induction bs) (simp_all add: BufferReceiver_def)

lemma flow_conserves:
  assumes "flow_reaches gen filts BufferReceiver (flow_start gs (replicate n [])) s"
  shows "length (FRecvs s) = n \<and> (\<forall>b\<in>set (FRecvs s). b @ flowed filts (FQueue s) = flowed filts (FMade s)) \<and>
    length (FGens s) = length gs \<and> length (FQueue s) \<le> 2 * length gs"
  using assms
proof (induction rule: flow_reaches.induct)
  case flow_now
  then show ?case by (simp add: flow_start_def)
next
  case (flow_next s s')
  from flow_next.hyps(2) show ?case
  proof (cases rule: flow_step.cases)
    case (delivers m q m' rs)
    then have "rs = map (\<lambda>b. b @ [Some m']) (FRecvs s)" "passes filts m = Some m'"
      by (simp_all add: deliver_buffers passes_def)
    with flow_next.IH delivers show ?thesis by auto
  next
    case (skips m q)
    then have "passes filts m = None" by (simp add: passes_def)
    with flow_next.IH skips show ?thesis by auto
  qed (use flow_next.IH in auto)
qed

lemma passes_in_place:
  assumes "\<And>f m. f \<in> set filts \<Longrightarrow> fst (f (Some m)) \<noteq> None \<and> \<not> is_panic (snd (f (Some m)))"
  shows "passes filts (Some m) \<noteq> None"
proof -
  have "\<exists>m'. flow_filters filts (Some m) = Inr (Some m')"
    using assms
  proof (induction filts arbitrary: m)
    case (Cons f filts)
    from Cons.prems [of f m] obtain m1 x where f: "f (Some m) = (Some m1, x)" "\<not> is_panic x"
      by (cases "f (Some m)") auto
    have "\<exists>m'. flow_filters filts (Some m1) = Inr (Some m')" using Cons.prems by (intro Cons.IH) simp
    then show ?case using f by (cases x rule: sum.exhaust) (auto split: fault.split option.split)
  qed simp
  then show ?thesis by (auto simp: passes_def)
qed

lemma loadPlugins_routes:
  assumes "loadPlugins unmarshal entries r = Inr r'" and "''route'' \<notin> fst ` set entries"
  shows "RRoutes r' = RRoutes r"
  using assms
  by (induction unmarshal entries r rule: loadPlugins.induct) (auto split: toml.splits prod.splits)

lemma length_update_le: "length (AList.update k v al) \<le> Suc (length al)"
  by (induction al) auto

lemma loadPlugins_one_route:
  assumes "loadPlugins unmarshal entries r = Inr r'" and "distinct (map fst entries)"
  shows "length (RRoutes r') \<le> Suc (length (RRoutes r))"
  using assms
proof (induction unmarshal entries r rule: loadPlugins.induct)
  case (2 unmarshal key val entries r)
  from 2(3,4) obtain tb ty sb where v: "val = Table tb" "typed_table key tb = (ty, sb)" "key \<notin> fst ` set entries"
    by (auto split: toml.splits) (metis prod.collapse)
  show ?case
  proof (cases "key = ''route''")
    case True
    with 2(3) v obtain rt where "loadPlugins unmarshal entries (r\<lparr>RRoutes := AList.update ty rt (RRoutes r)\<rparr>) = Inr r'"
      by (auto simp: bindR_eq_Inr_iff)
    from loadPlugins_routes [OF this] True v(3) show ?thesis using length_update_le by auto
  next
    case False
    with 2(2) 2(3,4) v show ?thesis by auto
  qed
qed simp

section \<open>Properties\<close>


definition drop_all :: "'ts filterer" where
  "drop_all m = (m, Inr None)"

text \<open>One message through one route, with a filter that drops everything.\<close>

lemma example_flow:
  obtains s where "flow_reaches StaticGenerator [drop_all] BufferReceiver (flow_start [[Log (3 :: nat)]] (replicate 1 [])) s"
    and "FMade s = [Some (Log 3)]" and "FQueue s = []" and "FRecvs s = [[Some (Log 3)]]"
proof -
  define s0 :: "(nat, nat message list, nat message option list) flow" where
    "s0 = flow_start [[Log 3]] (replicate 1 [])"
  define s1 where "s1 = s0\<lparr>FGens := (FGens s0)[0 := ([], False)], FQueue := FQueue s0 @ [Some (Log 3)],
    FMade := FMade s0 @ [Some (Log 3)]\<rparr>"
  define s2 where "s2 = s1\<lparr>FQueue := [], FRecvs := [[Some (Log 3)]]\<rparr>"
  have "flow_step StaticGenerator [drop_all] BufferReceiver s0 s1"
    unfolding s1_def by (rule produces [where i = 0 and g = "[Log 3]"]) (simp_all add: s0_def flow_start_def StaticGenerator_def)
  moreover have "flow_step StaticGenerator [drop_all] BufferReceiver s1 s2"
    unfolding s2_def by (rule delivers) (simp_all add: s1_def s0_def flow_start_def drop_all_def BufferReceiver_def)
  ultimately have "flow_reaches StaticGenerator [drop_all] BufferReceiver s0 s2"
    by (meson flow_now flow_next)
  then show thesis by (intro that [of s2]) (simp_all add: s2_def s1_def s0_def flow_start_def)
qed


text \<open>
  A route's filters cannot drop anything. Whatever the filters return, nil and errors
  included, every message that a generator has made and that has left the channel is received,
  as long as the filters do not panic: Flow forgets what they return, because the variable it is
  stored in is a new one.
\<close>

lemma router_ignores_filters:
  assumes "flow_reaches gen filts BufferReceiver (flow_start gs (replicate n [])) s"
    and "\<And>f m. f \<in> set filts \<Longrightarrow> fst (f (Some m)) \<noteq> None \<and> \<not> is_panic (snd (f (Some m)))"
    and "None \<notin> set (FMade s)" and "FQueue s = []"
  shows "\<forall>b\<in>set (FRecvs s). length b = length (FMade s)"
proof -
  have "length (flowed filts ms) = length ms" if "None \<notin> set ms" for ms
    using that
  proof (induction ms)
    case (Cons m ms)
    then obtain x where "m = Some x" by (cases m) auto
    moreover have "passes filts (Some x) \<noteq> None" by (rule passes_in_place) (rule assms(2))
    ultimately show ?case using Cons by auto
  qed simp
  with flow_conserves [OF assms(1)] assms(3,4) show ?thesis by auto
qed

lemma router_ignores_filters_witness:
  "\<exists>s. FMade s = [Some (Log (3 :: nat))] \<and> (\<forall>b\<in>set (FRecvs s). length b = 1) \<and> FRecvs s \<noteq> [] \<and>
     flow_reaches StaticGenerator [drop_all] BufferReceiver (flow_start [[Log 3]] (replicate 1 [])) s"
proof -
  obtain s where s: "flow_reaches StaticGenerator [drop_all] BufferReceiver (flow_start [[Log (3 :: nat)]] (replicate 1 [])) s"
    "FMade s = [Some (Log 3)]" "FQueue s = []" "FRecvs s = [[Some (Log 3)]]" by (rule example_flow)
  with router_ignores_filters [OF s(1)] show ?thesis by (intro exI [of _ s]) (simp add: drop_all_def)
qed

text \<open>
  Opening a router. A configuration without routes gets the route Default from the plugin in
  to the plugin out; a name that is no plugin, and a plugin of the wrong kind, are errors (for
  an output of the wrong kind it is the error for generators); and because a table with two
  entries is taken as one route itself, a file can only define a single route.
\<close>

lemma router_opens:
  assumes "PPlugin in_def = None" and "PPlugin out_def = None"
    and "FindPlugin registry (PType in_def) = Some p" and "Configure k (PConfig in_def) p = Inr p'"
    and "FindPlugin registry (PType out_def) = Some q" and "Configure k (PConfig out_def) q = Inr q'"
    and "AsGenerator k p' = Some (Inr (Some g))"
  shows "(\<forall>r. AsReceiver k q' = Some (Inr (Some r)) \<longrightarrow>
      map_sum id RRoutes (Router_Open k registry \<lparr>RPlugins = [(''in'', in_def), (''out'', out_def)], RRoutes = []\<rparr>) =
        Inr [(''Default'', default_route\<lparr>RGenerators := [g], RReceivers := [r]\<rparr>)]) \<and>
    (AsReceiver k q' = None \<longrightarrow>
      Router_Open k registry \<lparr>RPlugins = [(''in'', in_def), (''out'', out_def)], RRoutes = []\<rparr> =
        Inl (Err (ErrInvalidGenerator ''out''))) \<and>
    Router_Open k registry \<lparr>RPlugins = [(''in'', in_def)], RRoutes = []\<rparr> = Inl (Err (ErrUnknownPlugin ''out'')) \<and>
    (distinct (map fst entries) \<and> loadPlugins unmarshal entries NewRouter = Inr r \<longrightarrow> length (RRoutes r) \<le> 1)"
proof (intro conjI allI impI)
  note open_defs = Router_Open_def on_values_def open_plugin_def wire_route_def wire_one_def default_route_def zero_route_def
  show "map_sum id RRoutes (Router_Open k registry \<lparr>RPlugins = [(''in'', in_def), (''out'', out_def)], RRoutes = []\<rparr>) =
      Inr [(''Default'', default_route\<lparr>RGenerators := [g], RReceivers := [r]\<rparr>)]"
    if "AsReceiver k q' = Some (Inr (Some r))" for r
    using assms that by (simp add: open_defs)
  show "Router_Open k registry \<lparr>RPlugins = [(''in'', in_def), (''out'', out_def)], RRoutes = []\<rparr> =
      Inl (Err (ErrInvalidGenerator ''out''))" if "AsReceiver k q' = None"
    using assms that by (simp add: open_defs)
  show "Router_Open k registry \<lparr>RPlugins = [(''in'', in_def)], RRoutes = []\<rparr> = Inl (Err (ErrUnknownPlugin ''out''))"
    using assms by (simp add: open_defs)
  show "length (RRoutes r) \<le> 1" if "distinct (map fst entries) \<and> loadPlugins unmarshal entries NewRouter = Inr r"
    using loadPlugins_one_route [of unmarshal entries NewRouter r] that by (simp add: NewRouter_def)
qed

lemma router_opens_witness:
  "Router_Open \<lparr>AsGenerator = (\<lambda>p. Some (Inr (Some p))), AsReceiver = (\<lambda>p. None), AsFilterer = (\<lambda>p. None), Configure = (\<lambda>t. Inr)\<rparr>
     [(''test'', 7 :: nat)] \<lparr>RPlugins = [(''in'', \<lparr>PName = ''in'', PType = ''Test'', PConfig = [], PPlugin = None\<rparr>),
       (''out'', \<lparr>PName = ''out'', PType = ''test'', PConfig = [], PPlugin = None\<rparr>)],
       RRoutes = ([] :: (string \<times> (nat, unit, unit) route) list)\<rparr> = Inl (Err (ErrInvalidGenerator ''out''))"
proof -
  have "ToLower ''Test'' = ''test''" "ToLower ''test'' = ''test''" by code_simp+
  then show ?thesis
    by (intro router_opens [of "\<lparr>PName = ''in'', PType = ''Test'', PConfig = [], PPlugin = None\<rparr>"
        "\<lparr>PName = ''out'', PType = ''test'', PConfig = [], PPlugin = None\<rparr>" "[(''test'', 7 :: nat)]" 7
        "\<lparr>AsGenerator = (\<lambda>p. Some (Inr (Some p))), AsReceiver = (\<lambda>p. None), AsFilterer = (\<lambda>p. None), Configure = (\<lambda>t. Inr)\<rparr>"
        7 7 7 7, THEN conjunct2, THEN conjunct1, THEN mp]) (simp_all add: FindPlugin_def)
qed

section \<open>Every run of Flow comes to its end\<close>

text \<open>A generator that has the messages ms left, and then an error.\<close>

inductive runs_out :: "('ts, 'g) generator \<Rightarrow> 'g \<Rightarrow> 'ts message option list \<Rightarrow> bool" for gen where
  out_now: "GGenerate gen g = Some (Inl (Err e), g') \<Longrightarrow> runs_out gen g []"
| out_later: "GGenerate gen g = Some (Inr m, g') \<Longrightarrow> runs_out gen g' ms \<Longrightarrow> runs_out gen g (m # ms)"

inductive_cases runs_outE: "runs_out gen g ms"

definition flow_left :: "('ts, 'g) generator \<Rightarrow> ('ts, 'g, 'r) flow \<Rightarrow> 'ts message option list list \<Rightarrow> bool" where
  "flow_left gen s ls \<longleftrightarrow> list_all2 (\<lambda>(g, stopped) ms. if stopped then ms = [] else runs_out gen g ms) (FGens s) ls"

text \<open>What is still to be done: a message is produced and then taken from the channel, and a generator stops once.\<close>

definition gen_work :: "('g \<times> bool) \<times> 'a list \<Rightarrow> nat" where
  "gen_work p = (if snd (fst p) then 0 else Suc (2 * length (snd p)))"

definition flow_work :: "('ts, 'g, 'r) flow \<Rightarrow> 'ts message option list list \<Rightarrow> nat" where
  "flow_work s ls = sum_list (map gen_work (zip (FGens s) ls)) + length (FQueue s)"

lemma flow_left_at:
  assumes "flow_left gen s ls" and "i < length (FGens s)" and "FGens s ! i = (g, False)"
  shows "i < length ls" and "runs_out gen g (ls ! i)"
  using assms by (auto simp: flow_left_def list_all2_conv_all_nth)

lemma flow_left_update:
  assumes "flow_left gen s ls" and "if stopped then ms = [] else runs_out gen g ms"
  shows "flow_left gen (s\<lparr>FGens := (FGens s)[i := (g, stopped)], FQueue := q, FMade := made\<rparr>) (ls[i := ms])"
  using assms by (simp add: flow_left_def list_all2_update_cong)

lemma work_update:
  assumes "i < length gs" and "i < length ls"
  shows "sum_list (map gen_work (zip (gs[i := x]) (ls[i := ms]))) + gen_work (gs ! i, ls ! i) =
    sum_list (map gen_work (zip gs ls)) + gen_work (x, ms)"
proof -
  let ?ws = "map gen_work (zip gs ls)"
  have "map gen_work (zip (gs[i := x]) (ls[i := ms])) = ?ws[i := gen_work (x, ms)]"
    by (simp add: update_zip map_update [symmetric])
  moreover have "i < length ?ws" "?ws ! i = gen_work (gs ! i, ls ! i)" using assms by simp_all
  moreover from this have "gen_work (gs ! i, ls ! i) \<le> sum_list ?ws" by (metis elem_le_sum_list)
  ultimately show ?thesis by (simp add: sum_list_update)
qed

lemma mset_concat_update:
  assumes "i < length ls" and "ls ! i = m # ms"
  shows "mset (concat ls) = mset (concat (ls[i := ms])) + {#m#}"
proof -
  have "ls = take i ls @ (m # ms) # drop (Suc i) ls" using assms by (metis id_take_nth_drop)
  moreover have "ls[i := ms] = take i ls @ ms # drop (Suc i) ls" using assms(1) by (rule upd_conv_take_nth_drop)
  ultimately show ?thesis by (metis (no_types, lifting) concat.simps(2) concat_append mset_append mset.simps(2)
    append_Cons union_mset_add_mset_right add_mset_add_single)
qed

lemma flow_step_works:
  assumes "flow_step gen filts recv s s'" and "flow_left gen s ls"
  shows "\<exists>ls'. flow_left gen s' ls' \<and> Suc (flow_work s' ls') = flow_work s ls \<and>
    mset (FMade s') + mset (concat ls') = mset (FMade s) + mset (concat ls)"
  using assms
proof cases
  case (produces i g m g')
  have i: "i < length ls" "runs_out gen g (ls ! i)" using flow_left_at [OF assms(2) produces(2,3)] by auto
  from i(2) produces(4) obtain ms where ms: "ls ! i = m # ms" "runs_out gen g' ms" by (auto elim: runs_outE)
  have "flow_left gen s' (ls[i := ms])"
    unfolding produces(1) using ms(2) by (intro flow_left_update [OF assms(2)]) simp
  moreover have "Suc (flow_work s' (ls[i := ms])) = flow_work s ls"
    using work_update [OF produces(2) i(1), of "(g', False)" ms] ms(1) produces by (simp add: flow_work_def gen_work_def)
  moreover have "mset (FMade s') + mset (concat (ls[i := ms])) = mset (FMade s) + mset (concat ls)"
    using mset_concat_update [OF i(1) ms(1)] produces(1) by simp
  ultimately show ?thesis by blast
next
  case (stops i g e g')
  have i: "i < length ls" "runs_out gen g (ls ! i)" using flow_left_at [OF assms(2) stops(2,3)] by auto
  with stops(4) have ms: "ls ! i = []" by (auto elim: runs_outE)
  then have same: "ls[i := []] = ls" by (metis list_update_id)
  have "flow_left gen (s\<lparr>FGens := (FGens s)[i := (g', True)], FQueue := FQueue s, FMade := FMade s\<rparr>) (ls[i := []])"
    by (intro flow_left_update [OF assms(2)]) simp
  then have "flow_left gen s' ls" using stops(1) same by simp
  moreover have "Suc (flow_work s' ls) = flow_work s ls"
    using work_update [OF stops(2) i(1), of "(g', True)" "[]"] ms stops same by (simp add: flow_work_def gen_work_def)
  moreover have "FMade s' = FMade s" using stops(1) by simp
  ultimately show ?thesis by auto
next
  case (delivers m q m' rs)
  with assms(2) show ?thesis by (intro exI [of _ ls]) (simp add: flow_left_def flow_work_def)
next
  case (skips m q)
  with assms(2) show ?thesis by (intro exI [of _ ls]) (simp add: flow_left_def flow_work_def)
qed

lemma flow_run_works:
  assumes "(flow_step gen filts recv ^^ k) s s'" and "flow_left gen s ls"
  shows "\<exists>ls'. flow_left gen s' ls' \<and> k + flow_work s' ls' = flow_work s ls \<and>
    mset (FMade s') + mset (concat ls') = mset (FMade s) + mset (concat ls)"
  using assms
proof (induction k arbitrary: s')
  case (Suc k)
  from Suc.prems(1) obtain s1 where s1: "(flow_step gen filts recv ^^ k) s s1" "flow_step gen filts recv s1 s'" by auto
  from Suc.IH [OF s1(1) Suc.prems(2)] obtain l1 where l1: "flow_left gen s1 l1" "k + flow_work s1 l1 = flow_work s ls"
    "mset (FMade s1) + mset (concat l1) = mset (FMade s) + mset (concat ls)" by blast
  from flow_step_works [OF s1(2) l1(1)] l1(2,3) show ?case by (metis add_Suc_right add_Suc)
qed auto

lemma flow_run_reaches: "(flow_step gen filts recv ^^ k) s0 s \<Longrightarrow> flow_reaches gen filts recv s0 s"
  by (induction k arbitrary: s) (auto intro: flow_reaches.intros)

lemma flow_filters_returns: "\<forall>f\<in>set filts. \<forall>m. \<not> is_panic (snd (f m)) \<Longrightarrow> \<exists>x. flow_filters filts m = Inr x"
proof (induction filts arbitrary: m)
  case (Cons f filts)
  have "\<not> is_panic (snd (f m))" using Cons.prems by simp
  then show ?case using Cons by (cases "f m" rule: prod.exhaust) (auto split: sum.split fault.split option.split)
qed simp

lemma flow_stuck:
  assumes "flow_left gen s ls" and "\<forall>f\<in>set filts. \<forall>m. \<not> is_panic (snd (f m))"
    and "\<nexists>s'. flow_step gen filts BufferReceiver s s'"
  shows "FQueue s = [] \<and> (\<forall>(g, stopped)\<in>set (FGens s). stopped) \<and> concat ls = []"
proof -
  have empty: "FQueue s = []"
  proof (cases "FQueue s")
    case (Cons m q)
    from flow_filters_returns [of filts m] assms(2) obtain x where "flow_filters filts m = Inr x" by blast
    with Cons assms(3) show ?thesis by (cases x) (metis skips delivers deliver_buffers)+
  qed
  have stopped: "snd (FGens s ! i)" if i: "i < length (FGens s)" for i
  proof (rule ccontr)
    assume "\<not> snd (FGens s ! i)"
    then obtain g where g: "FGens s ! i = (g, False)" by (metis prod.collapse)
    from flow_left_at(2) [OF assms(1) i g] show False
    proof cases
      case out_now
      with i g assms(3) show ?thesis by (metis stops)
    next
      case (out_later m g' ms)
      have "length (FQueue s) < 2 * length (FGens s)" using i empty by (cases "FGens s") simp_all
      from produces [OF i g out_later(2) this] assms(3) show ?thesis by blast
    qed
  qed
  then have "\<forall>(g, stopped)\<in>set (FGens s). stopped" by (auto simp: in_set_conv_nth) (metis snd_conv)
  moreover have "concat ls = []"
    using assms(1) stopped by (force simp: flow_left_def list_all2_conv_all_nth in_set_conv_nth)
  ultimately show ?thesis using empty by blast
qed



end
