(* ===== verification/Spool.thy ===== *)
theory Spool
  imports Pipes "HOL-Library.List_Lexorder" "HOL-Library.Char_ord"
begin

text \<open>
  plugins/spool/spool.go: messages kept in files, the one that is written (current) and the
  rotated ones, whose names are TAI64N labels. The directory is a map from names to contents
  without current, whose content is what the encoder's writer holds. Labels, the order of their
  times, and how many writes the disk takes for a new file are parameters.
\<close>

record ('ts, 'z) spool_env =
  Stream :: "'ts stream_env"
  Codecs :: "'z codecs"
  LabelTime :: "string \<Rightarrow> 'ts option"
  Earlier :: "'ts \<Rightarrow> 'ts \<Rightarrow> bool"

record 'z spool =
  PerFileSize :: u64
  MaxFiles :: int
  SDir :: "(string \<times> bytes) list"
  StartSize :: u64
  SEnc :: "'z stream_encoder"

definition default_PerFileSize :: u64 where "default_PerFileSize = 1024 * 1024"
definition default_MaxFiles :: int where "default_MaxFiles = 10"

text \<open>An encoder over the file: a new one gets a snappy header, an old one is appended to.\<close>

definition openCurrent :: "('ts, 'z) spool_env \<Rightarrow> bytes \<Rightarrow> nat \<Rightarrow> 'z spool \<Rightarrow> 'z spool \<times> unit result option" where
  "openCurrent env content quota sp =
     (let enc = NewStreamEncoder False \<lparr>Out = content, Quota = quota\<rparr>;
          sp1 = sp\<lparr>StartSize := of_nat (length content)\<rparr>
      in case (if content = []
               then (case StreamEncoder_Init (Codecs env) StreamHeader_SNAPPY enc of (e, r) \<Rightarrow> (e, Some r))
               else OpenFile (Stream env) (Codecs env) content enc) of
           (e, Some (Inr _)) \<Rightarrow> (sp1\<lparr>SEnc := e\<rparr>, Some (Inr ()))
         | (e, r) \<Rightarrow> (sp1, r))"

text \<open>pruneOldFiles: the labelled files are counted, and one of the oldest goes if they are too many.\<close>

fun find_oldest :: "('ts, 'z) spool_env \<Rightarrow> string list \<Rightarrow> nat \<times> (string \<times> 'ts) option \<Rightarrow> nat \<times> (string \<times> 'ts) option" where
  "find_oldest env [] acc = acc"
| "find_oldest env (name # names) (n, oldest) =
     (case LabelTime env name of
        None \<Rightarrow> find_oldest env names (n, oldest)
      | Some ts \<Rightarrow>
          find_oldest env names (Suc n,
            (case oldest of None \<Rightarrow> Some (name, ts)
             | Some (_, ots) \<Rightarrow> if Earlier env ts ots then Some (name, ts) else oldest)))"

definition listing :: "'z spool \<Rightarrow> string list" where
  "listing sp = sort (''current'' # map fst (SDir sp))"

definition pruneOldFiles :: "('ts, 'z) spool_env \<Rightarrow> 'z spool \<Rightarrow> 'z spool" where
  "pruneOldFiles env sp =
     (case find_oldest env (listing sp) (0, None) of
        (n, oldest) \<Rightarrow>
          if int n \<le> MaxFiles sp then sp
          else (case oldest of None \<Rightarrow> sp | Some (name, _) \<Rightarrow> sp\<lparr>SDir := AList.delete name (SDir sp)\<rparr>))"

definition NewSpool :: "('ts, 'z) spool_env \<Rightarrow> (string \<times> bytes) list \<Rightarrow> bytes \<Rightarrow> nat \<Rightarrow> 'z spool \<times> unit result option" where
  "NewSpool env dir current quota =
     openCurrent env current quota
       (pruneOldFiles env \<lparr>PerFileSize = default_PerFileSize, MaxFiles = default_MaxFiles, SDir = dir, StartSize = 0,
          SEnc = NewStreamEncoder False \<lparr>Out = current, Quota = quota\<rparr>\<rparr>)"

text \<open>Rotate: what the flush cannot write is lost, and its error is dropped. label is newFilename.\<close>

definition Rotate :: "('ts, 'z) spool_env \<Rightarrow> string \<Rightarrow> nat \<Rightarrow> 'z spool \<Rightarrow> 'z spool \<times> unit result option" where
  "Rotate env label quota sp =
     (let enc = fst (StreamEncoder_Flush (Codecs env) (SEnc sp))
      in openCurrent env [] quota
           (pruneOldFiles env (sp\<lparr>SEnc := enc, SDir := AList.update label (Out (SE_W enc)) (SDir sp)\<rparr>)))"

definition Spool_Receive :: "('ts, 'z) spool_env \<Rightarrow> 'ts printers \<Rightarrow> string \<Rightarrow> nat \<Rightarrow> 'ts message \<Rightarrow>
    'z spool \<Rightarrow> 'z spool \<times> unit result option" where
  "Spool_Receive env p label quota m sp =
     (case StreamEncoder_Receive (Codecs env) (Ops (Stream env)) p (SEnc sp) m of
        (enc, Inl e) \<Rightarrow> (sp\<lparr>SEnc := enc\<rparr>, Some (Inl e))
      | (enc, Inr _) \<Rightarrow>
          let sp1 = sp\<lparr>SEnc := enc\<rparr> in
          if PerFileSize sp \<le> StartSize sp + SE_Encoded enc then Rotate env label quota sp1
          else (sp1, Some (Inr ())))"

definition Spool_Flush :: "('ts, 'z) spool_env \<Rightarrow> 'z spool \<Rightarrow> 'z spool \<times> unit result" where
  "Spool_Flush env sp = (case StreamEncoder_Flush (Codecs env) (SEnc sp) of (enc, r) \<Rightarrow> (sp\<lparr>SEnc := enc\<rparr>, r))"

definition Spool_Close :: "('ts, 'z) spool_env \<Rightarrow> 'z spool \<Rightarrow> 'z spool" where
  "Spool_Close env sp = sp\<lparr>SEnc := fst (StreamEncoder_Flush (Codecs env) (SEnc sp))\<rparr>"

section \<open>Reading\<close>

text \<open>Generator: the files in the order of their names, then current; all opened at once.\<close>

record spool_gen =
  SG_Closed :: bool
  SG_Rest :: "bytes list"
  SG_Dec :: stream_decoder

definition open_source :: "bytes \<Rightarrow> stream_decoder" where
  "open_source content = NewStreamDecoder \<lparr>Data = content, AtEnd = EOF\<rparr>"

definition spool_files :: "'z spool \<Rightarrow> bytes list" where
  "spool_files sp = map (\<lambda>n. the (map_of (SDir sp) n)) (sort (map fst (SDir sp))) @ [Out (SE_W (SEnc sp))]"

definition Spool_Generator :: "'z spool \<Rightarrow> spool_gen" where
  "Spool_Generator sp = \<lparr>SG_Closed = False, SG_Rest = tl (spool_files sp), SG_Dec = open_source (hd (spool_files sp))\<rparr>"

fun sg_loop :: "'ts stream_env \<Rightarrow> 'z codecs \<Rightarrow> bytes list \<Rightarrow> stream_decoder \<Rightarrow> ('ts message option result \<times> spool_gen) option" where
  "sg_loop env cd rest dec =
     (case StreamDecoder_Generate env cd dec of
        (None, _) \<Rightarrow> None
      | (Some (Inr m), d) \<Rightarrow> Some (Inr (Some m), \<lparr>SG_Closed = False, SG_Rest = rest, SG_Dec = d\<rparr>)
      | (Some (Inl e), d) \<Rightarrow>
          if e \<noteq> Err EOF then Some (Inl e, \<lparr>SG_Closed = False, SG_Rest = rest, SG_Dec = d\<rparr>)
          else (case rest of
                  [] \<Rightarrow> Some (Inl (Err EOF), \<lparr>SG_Closed = True, SG_Rest = [], SG_Dec = d\<rparr>)
                | content # rest' \<Rightarrow> sg_loop env cd rest' (open_source content)))"

declare sg_loop.simps [simp del]

definition SpoolGenerator_Generate :: "('ts, 'z) spool_env \<Rightarrow> spool_gen \<Rightarrow> ('ts message option result \<times> spool_gen) option" where
  "SpoolGenerator_Generate env g =
     (if SG_Closed g then Some (Inl (Err EOF), g) else sg_loop (Stream env) (Codecs env) (SG_Rest g) (SG_Dec g))"

definition spool_generator :: "('ts, 'z) spool_env \<Rightarrow> ('ts, spool_gen) generator" where
  "spool_generator env = \<lparr>GGenerate = SpoolGenerator_Generate env, GClose = id\<rparr>"

section \<open>Reading back\<close>

definition spool_gives :: "('ts, 'z) spool_env \<Rightarrow> spool_gen \<Rightarrow> 'ts message list \<Rightarrow> bool" where
  "spool_gives env g ms \<longleftrightarrow>
     \<not> SG_Closed g \<and>
     (\<exists>cur rest. ms = cur @ concat rest \<and> stream_gives (Stream env) (Codecs env) (SG_Dec g) cur \<and>
        list_all2 (\<lambda>c fs. stream_gives (Stream env) (Codecs env) (open_source c) fs) (SG_Rest g) rest)"

lemma sg_loop_more:
  assumes "stream_gives (Stream env) (Codecs env) dec cur" and "cur @ concat fss = m # ms"
    and "list_all2 (\<lambda>c fs. stream_gives (Stream env) (Codecs env) (open_source c) fs) rest fss"
  shows "\<exists>g. sg_loop (Stream env) (Codecs env) rest dec = Some (Inr (Some m), g) \<and> spool_gives env g ms"
  using assms
proof (induction rest arbitrary: dec cur fss)
  case Nil
  then obtain d where "StreamDecoder_Generate (Stream env) (Codecs env) dec = (Some (Inr m), d)"
    "stream_gives (Stream env) (Codecs env) d ms" by (auto elim: stream_gives_more)
  then show ?case by (auto simp: sg_loop.simps spool_gives_def)
next
  case (Cons c rest)
  then obtain fs fss' where fss: "fss = fs # fss'" "stream_gives (Stream env) (Codecs env) (open_source c) fs"
    "list_all2 (\<lambda>c fs. stream_gives (Stream env) (Codecs env) (open_source c) fs) rest fss'"
    by (auto simp: list_all2_Cons1)
  show ?case
  proof (cases cur)
    case Nil
    with Cons.prems(1) obtain d where "StreamDecoder_Generate (Stream env) (Codecs env) dec = (Some (Inl (Err EOF)), d)"
      by (auto elim: stream_gives_end)
    then have "sg_loop (Stream env) (Codecs env) (c # rest) dec = sg_loop (Stream env) (Codecs env) rest (open_source c)"
      by (simp add: sg_loop.simps)
    with Cons.IH [OF fss(2) _ fss(3)] Cons.prems(2) Nil fss(1) show ?thesis by simp
  next
    case (Cons m' cur')
    with Cons.prems(1,2) obtain d where "StreamDecoder_Generate (Stream env) (Codecs env) dec = (Some (Inr m), d)"
      "stream_gives (Stream env) (Codecs env) d cur'" by (auto elim: stream_gives_more)
    with Cons Cons.prems(2,3) show ?thesis by (auto simp: sg_loop.simps spool_gives_def)
  qed
qed

lemma sg_loop_end:
  assumes "stream_gives (Stream env) (Codecs env) dec []" and "concat fss = []"
    and "list_all2 (\<lambda>c fs. stream_gives (Stream env) (Codecs env) (open_source c) fs) rest fss"
  shows "\<exists>g. sg_loop (Stream env) (Codecs env) rest dec = Some (Inl (Err EOF), g)"
  using assms
proof (induction rest arbitrary: dec fss)
  case Nil
  then show ?case by (auto simp: sg_loop.simps elim!: stream_gives_end)
next
  case (Cons c rest)
  then obtain fss' where fss: "fss = [] # fss'" "stream_gives (Stream env) (Codecs env) (open_source c) []"
    "list_all2 (\<lambda>c fs. stream_gives (Stream env) (Codecs env) (open_source c) fs) rest fss'"
    by (auto simp: list_all2_Cons1)
  from Cons.prems(1) obtain d where "StreamDecoder_Generate (Stream env) (Codecs env) dec = (Some (Inl (Err EOF)), d)"
    by (auto elim: stream_gives_end)
  then have "sg_loop (Stream env) (Codecs env) (c # rest) dec = sg_loop (Stream env) (Codecs env) rest (open_source c)"
    by (simp add: sg_loop.simps)
  with Cons.IH [OF fss(2) _ fss(3)] Cons.prems(2) fss(1) show ?case by simp
qed

interpretation spool_source: message_source "spool_generator env" "spool_gives env"
proof
  show "\<exists>g1. GGenerate (spool_generator env) g = Some (Inr (Some m), g1) \<and> spool_gives env g1 ms"
    if "spool_gives env g (m # ms)" for g m ms
    using that sg_loop_more [of env "SG_Dec g" _ _ m ms "SG_Rest g"]
    by (auto simp: spool_generator_def SpoolGenerator_Generate_def spool_gives_def)
  show "\<exists>g1. GGenerate (spool_generator env) g = Some (Inl (Err EOF), g1)" if "spool_gives env g []" for g
    using that sg_loop_end [of env "SG_Dec g" _ "SG_Rest g"]
    by (auto simp: spool_generator_def SpoolGenerator_Generate_def spool_gives_def)
qed

interpretation spool_pipe: pipe "spool_generator env" "spool_gives env" BufferReceiver non_nil "\<lambda>b n. True" ..

section \<open>Writing\<close>

definition spool_header :: stream_header where
  "spool_header = zero_header\<lparr>Compression := Some StreamHeader_SNAPPY\<rparr>"

definition header_bytes :: "stream_header \<Rightarrow> bytes" where
  "header_bytes h = header_mark @ PutUvarint (of_nat (length (StreamHeader_MarshalTo h))) @ StreamHeader_MarshalTo h"

definition spool_holds :: "('ts, 'z) spool_env \<Rightarrow> 'z spool \<Rightarrow> 'ts message list \<Rightarrow> bool" where
  "spool_holds env sp ms \<longleftrightarrow>
     sorted (map fst (SDir sp)) \<and> distinct (map fst (SDir sp)) \<and>
     (\<exists>mss cur. ms = concat mss @ cur \<and>
        list_all2 (\<lambda>f fs. stream_gives (Stream env) (Codecs env) (open_source (snd f)) fs) (SDir sp) mss \<and>
        holds_frames (Codecs env) (Ops (Stream env)) (header_bytes spool_header) StreamHeader_SNAPPY (SEnc sp) cur)"

text \<open>For snappy a flush is as good as a close.\<close>

lemma snappy_flush_closes:
  assumes "holds_frames cd ops hdr StreamHeader_SNAPPY s ms" and "StreamEncoder_Flush cd s = (s', Inr ())"
  shows "StreamEncoder_Close cd s = (s', Inr ())"
proof -
  from assms(1) obtain ew where ew: "SE_EW s = Some ew" "kind_of ew = StreamHeader_SNAPPY" by (auto simp: holds_frames_def)
  then have "cw_close cd (ew, w) = cw_flush cd (ew, w)" for w
    by (cases ew) (auto simp: cw_close_def header_codes split: option.split)
  with assms(2) ew(1) show ?thesis by (simp add: StreamEncoder_Close_def StreamEncoder_Flush_def)
qed

lemma holds_gives:
  assumes "holds_frames cd (Ops env) (header_bytes h) (GetCompression h) s ms" and "StreamEncoder_Close cd s = (s', Inr ())"
    and "ts_laws (Ops env)" and "codec_laws cd" and "SHUnrecognized h = []" and "list_all (streamable env) ms"
  shows "stream_gives env cd (open_source (Out (SE_W s'))) ms"
  using frames_written [OF assms(4,5) assms(1) [unfolded header_bytes_def] assms(2), of env] assms(3,6)
  unfolding stream_gives_def open_source_def by blast

lemma spool_header_simps: "GetCompression spool_header = StreamHeader_SNAPPY" "SHUnrecognized spool_header = []"
  by (simp_all add: spool_header_def zero_header_def GetCompression_def)

definition labelled :: "('ts, 'z) spool_env \<Rightarrow> string list \<Rightarrow> string list" where
  "labelled env names = filter (\<lambda>n. LabelTime env n \<noteq> None) names"

lemma set_listing: "set (listing sp) = insert ''current'' (fst ` set (SDir sp))"
  unfolding listing_def set_sort by simp

lemma find_oldest_count: "fst (find_oldest env names (n, old)) = n + length (labelled env names)"
  by (induction names arbitrary: n old) (auto simp: labelled_def split: option.split)

lemma labelled_listing: "LabelTime env ''current'' = None \<Longrightarrow> length (labelled env (listing sp)) = length (labelled env (map fst (SDir sp)))"
  unfolding labelled_def listing_def filter_sort by simp

lemma prune_few:
  assumes "LabelTime env ''current'' = None" and "int (length (labelled env (map fst (SDir sp)))) \<le> MaxFiles sp"
  shows "pruneOldFiles env sp = sp"
  using assms find_oldest_count [of env "listing sp" 0 None] labelled_listing [OF assms(1), of sp]
  by (auto simp: pruneOldFiles_def split: prod.split)

lemma openCurrent_new:
  assumes "openCurrent env [] quota sp = (sp', Some (Inr ()))"
  shows "SDir sp' = SDir sp" "MaxFiles sp' = MaxFiles sp"
    "holds_frames (Codecs env) ops (header_bytes spool_header) StreamHeader_SNAPPY (SEnc sp') []"
proof -
  obtain e r where i: "StreamEncoder_Init (Codecs env) StreamHeader_SNAPPY
      (NewStreamEncoder False \<lparr>Out = [], Quota = quota\<rparr>) = (e, r)" by fastforce
  with assms(1) have sp': "sp' = sp\<lparr>StartSize := 0, SEnc := e\<rparr>" and r: "r = Inr ()"
    by (auto simp: openCurrent_def Let_def split: sum.splits)
  then show "SDir sp' = SDir sp" "MaxFiles sp' = MaxFiles sp" by simp_all
  have "WriteCustomHeader (Codecs env) spool_header (NewStreamEncoder False \<lparr>Out = [], Quota = quota\<rparr>) = (e, Inr ())"
    using i r by (simp add: StreamEncoder_Init_def spool_header_def)
  from WriteCustomHeader_holds [OF this, of ops]
  show "holds_frames (Codecs env) ops (header_bytes spool_header) StreamHeader_SNAPPY (SEnc sp') []"
    by (simp add: sp' spool_header_simps header_bytes_def)
qed

text \<open>
  The runs in which the disk takes what is flushed, every rotated file gets a label behind those
  before it, and no file has to be pruned.
\<close>

inductive spool_run :: "('ts, 'z) spool_env \<Rightarrow> 'ts printers \<Rightarrow> 'z spool \<Rightarrow> 'ts message list \<Rightarrow> 'z spool \<Rightarrow> bool"
  for env p sp0 where
  spool_new: "spool_run env p sp0 [] sp0"
| spool_receive: "spool_run env p sp0 ms sp \<Longrightarrow>
    Spool_Receive env p label quota m sp = (sp', Some (Inr ())) \<Longrightarrow>
    snd (StreamEncoder_Flush (Codecs env) (fst (StreamEncoder_Receive (Codecs env) (Ops (Stream env)) p (SEnc sp) m))) = Inr () \<Longrightarrow>
    \<forall>n\<in>fst ` set (SDir sp). n < label \<Longrightarrow> int (length (SDir sp)) < MaxFiles sp \<Longrightarrow>
    streamable (Stream env) m \<Longrightarrow> spool_run env p sp0 (ms @ [m]) sp'"

lemma Rotate_holds:
  assumes "Rotate env label quota sp = (sp', Some (Inr ()))" and "spool_holds env sp ms"
    and "snd (StreamEncoder_Flush (Codecs env) (SEnc sp)) = Inr ()"
    and "\<forall>n\<in>fst ` set (SDir sp). n < label" and "int (length (SDir sp)) < MaxFiles sp"
    and "LabelTime env ''current'' = None" and "ts_laws (Ops (Stream env))" and "codec_laws (Codecs env)"
    and "list_all (streamable (Stream env)) ms"
  shows "spool_holds env sp' ms \<and> MaxFiles sp' = MaxFiles sp"
proof -
  from assms(2) obtain mss cur where ms: "ms = concat mss @ cur"
    and files: "list_all2 (\<lambda>f fs. stream_gives (Stream env) (Codecs env) (open_source (snd f)) fs) (SDir sp) mss"
    and cur: "holds_frames (Codecs env) (Ops (Stream env)) (header_bytes spool_header) StreamHeader_SNAPPY (SEnc sp) cur"
    and names: "sorted (map fst (SDir sp))" "distinct (map fst (SDir sp))" by (auto simp: spool_holds_def)
  obtain enc where enc: "StreamEncoder_Flush (Codecs env) (SEnc sp) = (enc, Inr ())" using assms(3) by (metis prod.collapse)
  have gives: "stream_gives (Stream env) (Codecs env) (open_source (Out (SE_W enc))) cur"
    using holds_gives [of "Codecs env" "Stream env" spool_header "SEnc sp" cur enc] cur snappy_flush_closes [OF cur enc]
      assms(7-9) by (simp add: spool_header_simps ms)
  have upd: "AList.update label (Out (SE_W enc)) (SDir sp) = SDir sp @ [(label, Out (SE_W enc))]"
    using assms(4) by (intro update_fresh) force
  let ?sp1 = "sp\<lparr>SEnc := enc, SDir := SDir sp @ [(label, Out (SE_W enc))]\<rparr>"
  have "length (labelled env (map fst (SDir ?sp1))) \<le> Suc (length (SDir sp))"
    unfolding labelled_def by (rule order_trans [OF length_filter_le]) simp
  then have "pruneOldFiles env ?sp1 = ?sp1" using assms(5,6) by (intro prune_few) simp_all
  with assms(1) enc upd have "openCurrent env [] quota ?sp1 = (sp', Some (Inr ()))" by (simp add: Rotate_def)
  note new = openCurrent_new(1,2) [OF this] openCurrent_new(3) [OF this, of "Ops (Stream env)"]
  have "list_all2 (\<lambda>f fs. stream_gives (Stream env) (Codecs env) (open_source (snd f)) fs) (SDir sp') (mss @ [cur])"
    using files gives new(1) by (simp add: list_all2_appendI)
  moreover have "sorted (map fst (SDir sp'))" "distinct (map fst (SDir sp'))"
    using new(1) names assms(4) by (auto simp: sorted_append less_imp_le)
  ultimately show ?thesis
    unfolding spool_holds_def using new(2,3) ms
    by (intro conjI exI [of _ "mss @ [cur]"] exI [of _ "[]"]) simp_all
qed

lemma Spool_Receive_holds:
  assumes "Spool_Receive env p label quota m sp = (sp', Some (Inr ()))" and "spool_holds env sp ms"
    and "snd (StreamEncoder_Flush (Codecs env) (fst (StreamEncoder_Receive (Codecs env) (Ops (Stream env)) p (SEnc sp) m))) = Inr ()"
    and "\<forall>n\<in>fst ` set (SDir sp). n < label" and "int (length (SDir sp)) < MaxFiles sp"
    and "LabelTime env ''current'' = None" and "ts_laws (Ops (Stream env))" and "codec_laws (Codecs env)"
    and "list_all (streamable (Stream env)) (ms @ [m])"
  shows "spool_holds env sp' (ms @ [m]) \<and> MaxFiles sp' = MaxFiles sp"
proof -
  obtain enc where enc: "StreamEncoder_Receive (Codecs env) (Ops (Stream env)) p (SEnc sp) m = (enc, Inr ())"
    using assms(1) by (auto simp: Spool_Receive_def split: prod.splits sum.splits)
  let ?sp1 = "sp\<lparr>SEnc := enc\<rparr>"
  have holds: "spool_holds env ?sp1 (ms @ [m])"
    using assms(2) Receive_holds [OF enc _ assms(7)] by (fastforce simp: spool_holds_def)
  show ?thesis
  proof (cases "PerFileSize sp \<le> StartSize sp + SE_Encoded enc")
    case True
    with assms(1) enc have "Rotate env label quota ?sp1 = (sp', Some (Inr ()))" by (simp add: Spool_Receive_def)
    from Rotate_holds [OF this holds] assms enc show ?thesis by simp
  next
    case False
    with assms(1) enc holds show ?thesis by (auto simp: Spool_Receive_def)
  qed
qed

lemma NewSpool_holds:
  assumes "NewSpool env [] [] quota = (sp, Some (Inr ()))" and "LabelTime env ''current'' = None"
  shows "spool_holds env sp []" and "MaxFiles sp = default_MaxFiles"
proof -
  let ?sp0 = "\<lparr>PerFileSize = default_PerFileSize, MaxFiles = default_MaxFiles, SDir = [], StartSize = 0,
      SEnc = NewStreamEncoder False \<lparr>Out = [], Quota = quota\<rparr>\<rparr>"
  have "pruneOldFiles env ?sp0 = ?sp0"
    using assms(2) by (intro prune_few) (simp_all add: labelled_def default_MaxFiles_def)
  with assms(1) have o: "openCurrent env [] quota ?sp0 = (sp, Some (Inr ()))" by (simp add: NewSpool_def)
  note new = openCurrent_new(1,2) [OF o] openCurrent_new(3) [OF o, of "Ops (Stream env)"]
  then show "spool_holds env sp []" "MaxFiles sp = default_MaxFiles" by (auto simp: spool_holds_def)
qed

lemma spool_run_holds:
  assumes "spool_run env p sp0 ms sp" and "spool_holds env sp0 []"
    and "LabelTime env ''current'' = None" and "ts_laws (Ops (Stream env))" and "codec_laws (Codecs env)"
  shows "spool_holds env sp ms \<and> list_all (streamable (Stream env)) ms"
  using assms(1)
proof (induction rule: spool_run.induct)
  case spool_new
  then show ?case using assms(2) by simp
next
  case (spool_receive ms sp label quota m sp')
  then show ?case using Spool_Receive_holds [of env p label quota m sp sp' ms] assms(3-5) by simp
qed

lemma Close_gives:
  assumes "spool_holds env sp ms" and "snd (StreamEncoder_Flush (Codecs env) (SEnc sp)) = Inr ()"
    and "ts_laws (Ops (Stream env))" and "codec_laws (Codecs env)" and "list_all (streamable (Stream env)) ms"
  shows "spool_gives env (Spool_Generator (Spool_Close env sp)) ms"
proof -
  from assms(1) obtain mss cur where ms: "ms = concat mss @ cur"
    and files: "list_all2 (\<lambda>f fs. stream_gives (Stream env) (Codecs env) (open_source (snd f)) fs) (SDir sp) mss"
    and cur: "holds_frames (Codecs env) (Ops (Stream env)) (header_bytes spool_header) StreamHeader_SNAPPY (SEnc sp) cur"
    and names: "sorted (map fst (SDir sp))" "distinct (map fst (SDir sp))" by (auto simp: spool_holds_def)
  obtain enc where enc: "StreamEncoder_Flush (Codecs env) (SEnc sp) = (enc, Inr ())" using assms(2) by (metis prod.collapse)
  have "stream_gives (Stream env) (Codecs env) (open_source (Out (SE_W enc))) cur"
    using holds_gives [of "Codecs env" "Stream env" spool_header "SEnc sp" cur enc] cur snappy_flush_closes [OF cur enc]
      assms(3-5) by (simp add: spool_header_simps ms)
  moreover have "map (\<lambda>n. the (map_of (SDir sp) n)) (map fst (SDir sp)) = map snd (SDir sp)"
    using names(2) by (auto simp: map_of_is_SomeI)
  then have "spool_files (Spool_Close env sp) = map snd (SDir sp) @ [Out (SE_W enc)]"
    using names(1) enc by (simp add: spool_files_def Spool_Close_def sorted_sort_id)
  moreover have "list_all2 (\<lambda>c fs. stream_gives (Stream env) (Codecs env) (open_source c) fs) (map snd (SDir sp)) mss"
    using files by (simp add: list_all2_map1)
  ultimately have gives: "list_all2 (\<lambda>c fs. stream_gives (Stream env) (Codecs env) (open_source c) fs)
      (spool_files (Spool_Close env sp)) (mss @ [cur])" by (simp add: list_all2_appendI)
  obtain c cs f fs where split: "spool_files (Spool_Close env sp) = c # cs" "mss @ [cur] = f # fs"
    "stream_gives (Stream env) (Codecs env) (open_source c) f"
    "list_all2 (\<lambda>c fs. stream_gives (Stream env) (Codecs env) (open_source c) fs) cs fs"
    using gives by (cases "spool_files (Spool_Close env sp)"; cases "mss @ [cur]") simp_all
  have "ms = f @ concat fs" using ms split(2) by (metis concat.simps(2) concat_append concat.simps(1) append_Nil2)
  with split show ?thesis unfolding spool_gives_def Spool_Generator_def
    by (intro conjI exI [of _ f] exI [of _ fs]) simp_all
qed

section \<open>Properties\<close>

text \<open>
  C15: A spool reads back. Starting with an empty directory, the messages that Receive took
  without an error, over any number of rotations that prune nothing and on a disk that takes
  what is flushed, come out of the spool's generator after Close, all of them and in order: Glue
  from it to a buffer returns nil and delivers exactly them.
\<close>

theorem spool_roundtrip:
  assumes "NewSpool env [] [] quota = (sp0, Some (Inr ()))" and "spool_run env p sp0 ms sp"
    and "snd (StreamEncoder_Flush (Codecs env) (SEnc sp)) = Inr ()"
    and "LabelTime env ''current'' = None" and "ts_laws (Ops (Stream env))" and "codec_laws (Codecs env)"
  shows "\<exists>g b. Glue (spool_generator env) BufferReceiver (Spool_Generator (Spool_Close env sp)) [] = Some (Inr (), g, b) \<and>
    non_nil b = ms"
proof -
  have "spool_holds env sp ms \<and> list_all (streamable (Stream env)) ms"
    by (rule spool_run_holds [OF assms(2) NewSpool_holds(1) [OF assms(1,4)] assms(4-6)])
  then have "spool_gives env (Spool_Generator (Spool_Close env sp)) ms" using assms(3,5,6) by (intro Close_gives) simp_all
  from spool_pipe.glue_delivers [OF this, of "[]"] show ?thesis by simp
qed

definition small_env :: "(nat, unit) spool_env" where
  "small_env = \<lparr>Stream = plain_stream, Codecs = plain_codecs,
     LabelTime = (\<lambda>n. if n = ''current'' then None else Some (length n)), Earlier = (<)\<rparr>"

theorem spool_roundtrip_witness:
  "\<exists>(sp :: unit spool) g b. Glue (spool_generator small_env) BufferReceiver (Spool_Generator sp) [] = Some (Inr (), g, b) \<and>
     non_nil b = [Log 3]"
proof -
  define sp0 where "sp0 = fst (NewSpool small_env [] [] 9)"
  define sp1 where "sp1 = fst (Spool_Receive small_env plain_printers ''a'' 9 (Log 3) sp0)"
  have 0: "NewSpool small_env [] [] 9 = (sp0, Some (Inr ()))" unfolding sp0_def by code_simp
  have r: "Spool_Receive small_env plain_printers ''a'' 9 (Log 3) sp0 = (sp1, Some (Inr ()))"
    unfolding sp1_def sp0_def by code_simp
  have f: "snd (StreamEncoder_Flush (Codecs small_env) (fst (StreamEncoder_Receive (Codecs small_env)
      (Ops (Stream small_env)) plain_printers (SEnc sp0) (Log 3)))) = Inr ()" unfolding sp0_def by code_simp
  have c: "snd (StreamEncoder_Flush (Codecs small_env) (SEnc sp1)) = Inr ()" unfolding sp1_def sp0_def by code_simp
  have dir: "SDir sp0 = []" "MaxFiles sp0 = 10" unfolding sp0_def by code_simp+
  have run: "spool_run small_env plain_printers sp0 ([] @ [Log 3]) sp1"
    by (rule spool_receive [OF spool_new r f]) (use dir example_streamable in \<open>simp_all add: small_env_def\<close>)
  have env: "LabelTime small_env ''current'' = None" "ts_laws (Ops (Stream small_env))" "codec_laws (Codecs small_env)"
    using unary_ts_laws plain_codec_laws by (simp_all add: small_env_def example_ops)
  show ?thesis using spool_roundtrip [OF 0 run c env] by auto
qed

lemma find_oldest_min:
  assumes "find_oldest env names (n, old) = (n', Some (name, ts))" and "\<And>a b. Earlier env a b \<longleftrightarrow> rank a < (rank b :: int)"
  shows "(\<forall>x\<in>set names. \<forall>t. LabelTime env x = Some t \<longrightarrow> rank ts \<le> rank t) \<and>
    (\<forall>x t. old = Some (x, t) \<longrightarrow> rank ts \<le> rank t) \<and>
    (name \<in> set names \<and> LabelTime env name = Some ts \<or> old = Some (name, ts))"
  using assms(1)
proof (induction names arbitrary: n old)
  case (Cons a names)
  show ?case
  proof (cases "LabelTime env a")
    case None
    with Cons show ?thesis by auto
  next
    case (Some t)
    let ?old = "case old of None \<Rightarrow> Some (a, t) | Some (_, ots) \<Rightarrow> if Earlier env t ots then Some (a, t) else old"
    from Cons.prems Some have "find_oldest env names (Suc n, ?old) = (n', Some (name, ts))" by simp
    from Cons.IH [OF this] Some show ?thesis
      by (cases old) (auto simp: assms(2) split: if_splits)
  qed
qed simp

lemma find_oldest_some: "labelled env names \<noteq> [] \<or> old \<noteq> None \<Longrightarrow> snd (find_oldest env names (n, old)) \<noteq> None"
  by (induction names arbitrary: n old) (auto simp: labelled_def split: option.splits)

lemma openCurrent_dir: "SDir (fst (openCurrent env content quota sp)) = SDir sp"
  by (simp add: openCurrent_def Let_def split: prod.split option.split sum.split)

definition label_count :: "('ts, 'z) spool_env \<Rightarrow> 'z spool \<Rightarrow> nat" where
  "label_count env sp = length (labelled env (map fst (SDir sp)))"

lemma labelled_delete:
  "distinct (map fst al) \<Longrightarrow> name \<in> fst ` set al \<Longrightarrow> LabelTime env name \<noteq> None \<Longrightarrow>
   Suc (length (labelled env (map fst (AList.delete name al)))) = length (labelled env (map fst al))"
proof (induction al)
  case (Cons x al)
  show ?case
  proof (cases "fst x = name")
    case True
    with Cons.prems have "AList.delete name al = al" by (simp add: AList.delete_id)
    with True Cons.prems show ?thesis by (simp add: labelled_def)
  next
    case False
    with Cons show ?thesis by (auto simp: labelled_def)
  qed
qed simp

text \<open>
  C16: What pruning leaves. With at most MaxFiles labelled files pruneOldFiles does nothing;
  with more it removes one, and no other labelled file is older. So a rotation never brings the
  count above MaxFiles, but a directory that has more files than that keeps them: each rotation
  adds one and removes one, and the limit is never reached.
\<close>

theorem spool_prune:
  assumes "LabelTime env ''current'' = None" and "\<And>a b. Earlier env a b \<longleftrightarrow> rank a < (rank b :: int)"
    and "distinct (map fst (SDir sp))" and "0 \<le> MaxFiles sp" and "label \<notin> fst ` set (SDir sp)" and "LabelTime env label \<noteq> None"
  shows "(if int (label_count env sp) \<le> MaxFiles sp then pruneOldFiles env sp = sp
      else \<exists>name ts. LabelTime env name = Some ts \<and> SDir (pruneOldFiles env sp) = AList.delete name (SDir sp) \<and>
        (\<forall>other t. other \<in> fst ` set (SDir sp) \<and> LabelTime env other = Some t \<longrightarrow> rank ts \<le> rank t) \<and>
        Suc (label_count env (pruneOldFiles env sp)) = label_count env sp) \<and>
    label_count env (fst (Rotate env label quota sp)) =
      (if int (label_count env sp) < MaxFiles sp then Suc (label_count env sp) else label_count env sp)"
proof -
  have prune: "if int (label_count env sp) \<le> MaxFiles sp then pruneOldFiles env sp = sp
      else \<exists>name ts. LabelTime env name = Some ts \<and> SDir (pruneOldFiles env sp) = AList.delete name (SDir sp) \<and>
        (\<forall>other t. other \<in> fst ` set (SDir sp) \<and> LabelTime env other = Some t \<longrightarrow> rank ts \<le> rank t) \<and>
        Suc (label_count env (pruneOldFiles env sp)) = label_count env sp"
    if dist: "distinct (map fst (SDir sp))" and max: "0 \<le> MaxFiles sp" for sp :: "'b spool"
  proof (cases "int (label_count env sp) \<le> MaxFiles sp")
    case True
    then show ?thesis using prune_few [OF assms(1), of sp] by (simp add: label_count_def)
  next
    case False
    then have "labelled env (listing sp) \<noteq> []"
      using labelled_listing [OF assms(1), of sp] max by (auto simp: label_count_def)
    then obtain c name ts where old: "find_oldest env (listing sp) (0, None) = (c, Some (name, ts))"
      using find_oldest_some [of env "listing sp" None 0] by (cases "find_oldest env (listing sp) (0, None)") auto
    with find_oldest_count [of env "listing sp" 0 None] labelled_listing [OF assms(1), of sp]
    have "c = label_count env sp" by (simp add: label_count_def)
    with old False have del: "SDir (pruneOldFiles env sp) = AList.delete name (SDir sp)" by (simp add: pruneOldFiles_def)
    have min: "\<forall>x\<in>set (listing sp). \<forall>t. LabelTime env x = Some t \<longrightarrow> rank ts \<le> rank t"
      and name: "name \<in> set (listing sp)" "LabelTime env name = Some ts"
      using find_oldest_min [OF old assms(2)] by auto
    have "name \<in> fst ` set (SDir sp)" using name assms(1) by (auto simp: set_listing)
    then have "Suc (label_count env (pruneOldFiles env sp)) = label_count env sp"
      using labelled_delete [OF dist, of name env] name(2) del by (simp add: label_count_def)
    moreover have "\<forall>other t. other \<in> fst ` set (SDir sp) \<and> LabelTime env other = Some t \<longrightarrow> rank ts \<le> rank t"
      using min by (auto simp: set_listing)
    ultimately show ?thesis using False del name(2) by auto
  qed
  let ?enc = "fst (StreamEncoder_Flush (Codecs env) (SEnc sp))"
  let ?sp = "sp\<lparr>SEnc := ?enc, SDir := SDir sp @ [(label, Out (SE_W ?enc))]\<rparr>"
  have "AList.update label (Out (SE_W ?enc)) (SDir sp) = SDir sp @ [(label, Out (SE_W ?enc))]"
    using assms(5) by (simp add: update_fresh)
  then have rot: "SDir (fst (Rotate env label quota sp)) = SDir (pruneOldFiles env ?sp)"
    by (simp add: Rotate_def Let_def openCurrent_dir)
  have "distinct (map fst (SDir ?sp))" using assms(3,5) by auto
  moreover have "label_count env ?sp = Suc (label_count env sp)" using assms(6) by (simp add: label_count_def labelled_def)
  ultimately have "label_count env (pruneOldFiles env ?sp) =
      (if int (label_count env sp) < MaxFiles sp then Suc (label_count env sp) else label_count env sp)"
    using prune [of ?sp] assms(4) by (auto split: if_splits)
  with rot prune [OF assms(3,4)] show ?thesis by (simp add: label_count_def)
qed

theorem spool_prune_witness:
  "label_count small_env (fst (Rotate small_env ''dddd'' 9 ((fst (NewSpool small_env [] [] 9))
     \<lparr>MaxFiles := 1, SDir := [(''aa'', []), (''b'', []), (''ccc'', [])]\<rparr>))) = 3"
proof -
  let ?sp = "(fst (NewSpool small_env [] [] 9))\<lparr>MaxFiles := 1, SDir := [(''aa'', []), (''b'', []), (''ccc'', [])]\<rparr>"
  have "label_count small_env ?sp = 3" by (simp add: label_count_def labelled_def small_env_def)
  with spool_prune [of small_env int ?sp "''dddd''" 9, THEN conjunct2] show ?thesis
    by (simp add: small_env_def)
qed

end
