(* ===== verification/Syslog.thy ===== *)
theory Syslog
  imports Pipes
begin

text \<open>
  plugins/syslog/syslog.go: the parsers of RFC 3164 and RFC 5424 lines and the loop that reads
  a connection. The reader is the rest of the stream. Parameters: time.Parse with a layout, and
  how many bytes one Read of the buffered reader returns (at least one, if there are any).
\<close>

record 'ts syslog_env =
  TimeParse :: "string \<Rightarrow> string \<Rightarrow> 'ts option"
  OneRead :: "source \<Rightarrow> nat"
  SyMaxAlloc :: nat

definition facility :: "string list" where
  "facility = [''kernel'', ''user'', ''mail'', ''system'', ''security'', ''internal'', ''line printer'', ''network news'',
     ''UUCP'', ''clock'', ''security'', ''FTP'', ''NTP'', ''audit'', ''alert'', ''clock'', ''local0'', ''local1'',
     ''local2'', ''local3'', ''local4'', ''local5'', ''local6'', ''local7'']"

definition severity :: "string list" where
  "severity = [''emergency'', ''alert'', ''critical'', ''error'', ''warning'', ''notice'', ''info'', ''debug'']"

section \<open>The buffered reader\<close>

definition sy_byte :: "source \<Rightarrow> (char \<times> source) result" where
  "sy_byte r = (case Data r of [] \<Rightarrow> Inl (Err (AtEnd r)) | b # bs \<Rightarrow> Inr (char_of (unat b), r\<lparr>Data := bs\<rparr>))"

definition sy_until :: "char \<Rightarrow> source \<Rightarrow> (string \<times> source) result" where
  "sy_until c r =
     (case IndexByte (Data r) (of_char c) of
        None \<Rightarrow> Inl (Err (AtEnd r))
      | Some i \<Rightarrow> Inr (bytes_str (take (Suc i) (Data r)), r\<lparr>Data := drop (Suc i) (Data r)\<rparr>))"

definition sy_peek :: "nat \<Rightarrow> source \<Rightarrow> string result" where
  "sy_peek n r = (if n \<le> length (Data r) then Inr (bytes_str (take n (Data r))) else Inl (Err (AtEnd r)))"

definition sy_skip :: "nat \<Rightarrow> source \<Rightarrow> source" where
  "sy_skip n r = r\<lparr>Data := drop n (Data r)\<rparr>"

text \<open>One Read into a new buffer of n bytes: what it does not fill stays zero.\<close>

definition sy_read :: "'ts syslog_env \<Rightarrow> nat \<Rightarrow> source \<Rightarrow> (string \<times> source) result" where
  "sy_read env n r =
     (if SyMaxAlloc env < n then Inl (Panic ''makeslice: len out of range'')
      else if Data r = [] then Inl (Err (AtEnd r))
      else let k = min n (min (OneRead env r) (length (Data r)))
        in Inr (bytes_str (take k (Data r) @ replicate (n - k) 0), sy_skip k r))"

section \<open>Shared by both formats\<close>

definition tsFmts :: "string list" where
  "tsFmts = [''Jan 02 15:04:05'', ''Jan  2 15:04:05'', ''2006-01-02T15:04:05Z07:00'', ''Jan _2 15:04:05'']"

text \<open>The loop over the layouts: the time and how long its text was.\<close>

fun parse_stamp :: "'ts syslog_env \<Rightarrow> string list \<Rightarrow> source \<Rightarrow> ('ts \<times> nat \<times> source) result" where
  "parse_stamp env [] r = Inl (Err ErrInvalidFormat)"
| "parse_stamp env (tsFmt # fmts) r =
     bindR (sy_peek (length tsFmt) r) (\<lambda>sub.
       let sub = (if CHR '' '' \<notin> set tsFmt then takeWhile (\<lambda>c. c \<noteq> CHR '' '') sub else sub)
       in case TimeParse env tsFmt sub of
            Some ts \<Rightarrow> Inr (ts, length sub, sy_skip (length sub) r)
          | None \<Rightarrow> parse_stamp env fmts r)"

definition expect_space :: "source \<Rightarrow> source result" where
  "expect_space r = bindR (sy_byte r) (\<lambda>(c, r1). if c \<noteq> CHR '' '' then Inl (Err ErrInvalidFormat) else Inr r1)"

text \<open>The text of the message: what is todo of the counted octets, or the rest of the line.\<close>

definition read_text :: "'ts syslog_env \<Rightarrow> int \<Rightarrow> source \<Rightarrow> (string \<times> int \<times> source) result" where
  "read_text env todo r =
     (if todo > 0 then bindR (sy_read env (nat todo) r) (\<lambda>(msg, r1). Inr (msg, todo, r1))
      else bindR (sy_until (CHR 0x0A) r) (\<lambda>(msg, r1). Inr (msg, todo - int (length msg), r1)))"

definition prio_attrs :: "int \<Rightarrow> (string \<times> goval) list result" where
  "prio_attrs prio =
     (if prio > 8 then
        (let fac = prio div 8; fac = (if fac > int (length facility) then 0 else fac)
         in bindR (go_index facility fac) (\<lambda>f. bindR (go_index severity (prio mod 8)) (\<lambda>s.
              Inr [(''facility'', VString f), (''severity'', VString s)])))
      else bindR (go_index severity prio) (\<lambda>s. Inr [(''severity'', VString s)]))"

definition syslog_message :: "'ts \<Rightarrow> 'ts message" where
  "syslog_message ts = zero_message\<lparr>Version := DEFAULT_VERSION, MType := Some LOG, Timestamp := Some ts\<rparr>"

text \<open>A tag with a process id in brackets; one that is no number stays part of the tag.\<close>

definition split_pid :: "string \<Rightarrow> (string \<times> int) result" where
  "split_pid tag =
     (case (IndexByte tag (CHR ''[''), IndexByte tag (CHR '']'')) of
        (Some idx, Some right) \<Rightarrow>
          bindR (go_slice tag (int idx + 1) (int right)) (\<lambda>pid.
            case Atoi pid of Inr p \<Rightarrow> Inr (take idx tag, p) | Inl _ \<Rightarrow> Inr (tag, 0))
      | _ \<Rightarrow> Inr (tag, 0))"

section \<open>RFC 5424\<close>

text \<open>A quoted value: the value and what is behind it; a backslash takes the next byte as it is.\<close>

fun sd_value :: "string \<Rightarrow> bytes \<Rightarrow> (string \<times> bytes) option" where
  "sd_value acc [] = None"
| "sd_value acc (c # cs) =
     (if c = of_char (CHR 0x22) then Some (acc, cs)
      else if c = of_char (CHR 0x5C) then
        (case cs of [] \<Rightarrow> None | d # ds \<Rightarrow> sd_value (acc @ [char_of (unat d)]) ds)
      else sd_value (acc @ [char_of (unat c)]) cs)"

lemma sd_value_shorter: "sd_value acc cs = Some (v, rest) \<Longrightarrow> length rest < length cs"
  by (induction acc cs rule: sd_value.induct) (auto split: if_splits list.splits)

lemma sy_until_shorter: "sy_until c r = Inr (s, r1) \<Longrightarrow> length (Data r1) < length (Data r) \<and> length s \<le> length (Data r)"
proof -
  have "IndexByte xs x = Some i \<Longrightarrow> i < length xs" for xs :: "byte list" and x i
    by (induction xs arbitrary: i) (auto split: if_splits)
  then show "sy_until c r = Inr (s, r1) \<Longrightarrow> length (Data r1) < length (Data r) \<and> length s \<le> length (Data r)"
    by (fastforce simp: sy_until_def split: option.splits)
qed

text \<open>The parameters of the one structured element that is read.\<close>

function sd_params :: "string \<Rightarrow> 'ts message \<Rightarrow> int \<Rightarrow> source \<Rightarrow> ('ts message \<times> int \<times> source) result" where
  "sd_params sdid m todo r =
     bindR (sy_peek 1 r) (\<lambda>peek.
       if peek = '']'' then Inr (m, todo - 1, sy_skip 1 r)
       else
         let sp = (if peek = '' '' then 1 else 0 :: nat) in
         bindR (sy_until (CHR ''='') (sy_skip sp r)) (\<lambda>(name, r1).
         bindR (sy_byte r1) (\<lambda>(q, r2).
           if q \<noteq> CHR 0x22 then Inl (Err ErrInvalidFormat)
           else (case sd_value [] (Data r2) of
             None \<Rightarrow> Inl (Err (AtEnd r2))
           | Some (val, rest) \<Rightarrow>
               bindR (AddString m (sdid @ ''.'' @ butlast name) val) (\<lambda>m1.
                 sd_params sdid m1 (todo - int sp - int (length name) - 1 - int (length (Data r2) - length rest))
                   (r2\<lparr>Data := rest\<rparr>))))))"
  by pat_completeness auto

lemma sy_byte_shorter: "sy_byte r = Inr (c, r1) \<Longrightarrow> length (Data r1) < length (Data r)"
  by (auto simp: sy_byte_def split: list.splits)

termination sd_params
proof (relation "measure (\<lambda>(sdid, m, todo, r). length (Data r))", goal_cases)
  case (2 sdid m todo r peek sp xa name r1 xb q r2 xc val rest m1)
  then show ?case
    by (auto simp: sy_skip_def dest!: sd_value_shorter sy_byte_shorter sy_until_shorter)
qed simp

declare sd_params.simps [simp del]

definition structured_data :: "'ts message \<Rightarrow> int \<Rightarrow> source \<Rightarrow> ('ts message \<times> int \<times> source) result" where
  "structured_data m todo r =
     bindR (sy_peek 1 r) (\<lambda>peek.
       if peek = ''-'' then bindR (expect_space (sy_skip 1 r)) (\<lambda>r1. Inr (m, todo - 2, r1))
       else
         bindR (sy_until (CHR '' '') r) (\<lambda>(sdid, r1).
         bindR (go_slice sdid 1 (int (length sdid) - 1)) (\<lambda>inner.
           sd_params inner m (todo - int (length sdid)) r1)))"

text \<open>A field up to a space, and how many bytes it took.\<close>

definition sy_field :: "char \<Rightarrow> int \<Rightarrow> source \<Rightarrow> (string \<times> int \<times> source) result" where
  "sy_field c todo r = bindR (sy_until c r) (\<lambda>(s, r1). Inr (butlast s, todo - int (length s), r1))"

definition strip_bom :: "string \<Rightarrow> string" where
  "strip_bom msg = (if HasPrefix msg [CHR 0xEF, CHR 0xBB, CHR 0xBF] then drop 3 msg else msg)"

definition parse5425 :: "'ts syslog_env \<Rightarrow> int \<Rightarrow> int \<Rightarrow> source \<Rightarrow> ('ts message \<times> int \<times> source) result" where
  "parse5425 env prio todo r =
     bindR (parse_stamp env tsFmts r) (\<lambda>(ts, n, r1).
     bindR (expect_space r1) (\<lambda>r2.
     bindR (sy_field (CHR '' '') (todo - int n - 1) r2) (\<lambda>(host, todo, r3).
     bindR (sy_field (CHR '' '') todo r3) (\<lambda>(tag, todo, r4).
     bindR (sy_field (CHR '' '') todo r4) (\<lambda>(procid, todo, r5).
     bindR (sy_field (CHR '' '') todo r5) (\<lambda>(msgid, todo, r6).
     bindR (structured_data (syslog_message ts) todo r6) (\<lambda>(m, todo, r7).
     bindR (read_text env todo r7) (\<lambda>(msg, todo, r8).
     bindR (prio_attrs prio) (\<lambda>pa.
     bindR (add_items (AddTag m ''host'' host) (pa @ [(''tag'', VString tag), (''procid'', VString procid),
         (''msgid'', VString msgid), (''message'', VString (strip_bom (TrimSpace msg)))])) (\<lambda>m.
       Inr (m, todo, r8)))))))))))"

section \<open>RFC 3164, and the choice between them\<close>

definition parse3164 :: "'ts syslog_env \<Rightarrow> int \<Rightarrow> int \<Rightarrow> source \<Rightarrow> ('ts message \<times> int \<times> source) result" where
  "parse3164 env prio todo r =
     bindR (parse_stamp env tsFmts r) (\<lambda>(ts, n, r1).
     bindR (expect_space r1) (\<lambda>r2.
     bindR (sy_field (CHR '' '') (todo - int n - 1) r2) (\<lambda>(host, todo, r3).
     bindR (sy_field (CHR '':'') todo r3) (\<lambda>(tag0, todo, r4).
     bindR (split_pid tag0) (\<lambda>(tag, pid).
     bindR (read_text env todo r4) (\<lambda>(msg, todo, r5).
     bindR (prio_attrs prio) (\<lambda>pa.
     bindR (add_items (AddTag (syslog_message ts) ''host'' host) (pa @ [(''tag'', VString tag)]
         @ (if pid \<noteq> 0 then [(''pid'', VInt (word_of_int pid))] else []) @ [(''message'', VString (TrimSpace msg))])) (\<lambda>m.
       Inr (m, todo, r5)))))))))"

definition parseSyslog :: "'ts syslog_env \<Rightarrow> int \<Rightarrow> source \<Rightarrow> ('ts message \<times> int \<times> source) result" where
  "parseSyslog env todo r =
     bindR (sy_byte r) (\<lambda>(c, r1).
       if c \<noteq> CHR ''<'' then Inl (Err ErrInvalidFormat)
       else
         bindR (sy_field (CHR ''>'') (todo - 1) r1) (\<lambda>(nxt, todo, r2).
         bindR (Atoi nxt) (\<lambda>prio.
         bindR (sy_peek 2 r2) (\<lambda>peek.
           if peek = ''1 '' then parse5425 env prio (todo - 2) (sy_skip 2 r2)
           else parse3164 env prio todo r2))))"

section \<open>A connection\<close>

text \<open>runConn: its error is what ends it (None is that it does not end); todo counts the bytes.\<close>

partial_function (option) runConn :: "'ts syslog_env \<Rightarrow> bool \<Rightarrow> ('ts, 'r) receiver \<Rightarrow> source \<Rightarrow> u64 \<Rightarrow> 'r \<Rightarrow>
    (fault \<times> u64 \<times> 'r) option" where
  "runConn env octets recv r todo st =
     (case bindR (if octets then bindR (sy_field (CHR '' '') 0 r) (\<lambda>(s, _, r1). bindR (Atoi s) (\<lambda>sz. Inr (sz, r1))) else Inr (0, r))
             (\<lambda>(sz, r1). bindR (parseSyslog env sz r1) (\<lambda>(m, bytes, r2).
               Inr (m, if sz = 0 then - bytes else sz, r2))) of
        Inl e \<Rightarrow> Some (e, todo, st)
      | Inr (m, sz, r2) \<Rightarrow>
          do {
            (y, st1) \<leftarrow> RReceive recv st (Some m);
            case y of
              Inl e \<Rightarrow> Some (e, todo + word_of_int sz, st1)
            | Inr _ \<Rightarrow> runConn env octets recv r2 (todo + word_of_int sz) st1
          })"

text \<open>plugin.go: exactly one of the three addresses.\<close>

datatype syslog_source = FromDgram string | FromTCP string bool | FromUDP string

definition syslog_source_of :: "string \<Rightarrow> string \<Rightarrow> string \<Rightarrow> bool \<Rightarrow> syslog_source result" where
  "syslog_source_of dgram tcp udp octets =
     (let cnt = length (filter (\<lambda>s. s \<noteq> '''') [dgram, tcp, udp]) in
      if cnt = 0 then Inl (Err (OtherErr ''specify a method for receiving syslog message''))
      else if cnt > 1 then Inl (Err (OtherErr ''specify only one method''))
      else if dgram \<noteq> '''' then Inr (FromDgram dgram)
      else if tcp \<noteq> '''' then Inr (FromTCP tcp octets)
      else Inr (FromUDP udp))"

section \<open>A well-formed line\<close>

lemma of_char_byte_inject [simp]: "(of_char c :: byte) = of_char d \<longleftrightarrow> c = d"
  by (metis char_of_byte)

lemma IndexByte_str: "c \<notin> set s \<Longrightarrow> IndexByte (str_bytes s @ of_char c # rest) (of_char c) = Some (length s)"
  by (induction s) (auto simp: str_bytes_def)

lemma sy_until_str [simp]:
  "c \<notin> set s \<Longrightarrow> sy_until c \<lparr>Data = str_bytes s @ of_char c # rest, AtEnd = e\<rparr> = Inr (s @ [c], \<lparr>Data = rest, AtEnd = e\<rparr>)"
  by (simp add: sy_until_def IndexByte_str) (simp add: bytes_str_def str_bytes_def comp_def)

lemma sy_field_str [simp]:
  "c \<notin> set s \<Longrightarrow> sy_field c n \<lparr>Data = str_bytes s @ of_char c # rest, AtEnd = e\<rparr> =
     Inr (s, n - int (Suc (length s)), \<lparr>Data = rest, AtEnd = e\<rparr>)"
  by (simp add: sy_field_def)

lemma int_dec_digits: "CHR ''>'' \<notin> set (int_dec i)"
proof -
  have "CHR ''>'' \<notin> set (nat_dec n)" for n
    using nat_dec_digits [of n] by (auto simp: list_all_iff is_digit_def)
  then show ?thesis by (simp add: int_dec_def)
qed

lemma TrimSpace_newline [simp]: "TrimSpace (msg @ [CHR 0x0A]) = TrimSpace msg"
proof -
  have "dropWhile p (xs @ [x]) = (if \<forall>y\<in>set xs. p y then [] else dropWhile p xs @ [x])" if "p x" for p and xs :: string and x
    using that by (induction xs) auto
  moreover have "is_space (CHR 0x0A)" by (simp add: is_space_def)
  ultimately show ?thesis by (auto simp: TrimSpace_def TrimRightIf_def dropWhile_eq_Nil_conv [THEN iffD2])
qed

definition rfc3164 :: "int \<Rightarrow> string \<Rightarrow> string \<Rightarrow> string \<Rightarrow> string \<Rightarrow> string" where
  "rfc3164 prio stamp host tag msg =
     ''<'' @ int_dec prio @ ''>'' @ stamp @ '' '' @ host @ '' '' @ tag @ '':'' @ msg @ [CHR 0x0A]"

definition rfc3164_ok :: "'ts syslog_env \<Rightarrow> int \<Rightarrow> string \<Rightarrow> 'ts \<Rightarrow> string \<Rightarrow> string \<Rightarrow> string \<Rightarrow> bool" where
  "rfc3164_ok env prio stamp ts host tag msg \<longleftrightarrow>
     - (2 ^ 63) \<le> prio \<and> prio < 2 ^ 63 \<and> length stamp = 15 \<and> TimeParse env ''Jan 02 15:04:05'' stamp = Some ts \<and>
     take 2 stamp \<noteq> ''1 '' \<and> CHR '' '' \<notin> set host \<and> CHR '':'' \<notin> set tag \<and> CHR 0x0A \<notin> set msg"

lemma parse_line:
  assumes "rfc3164_ok env prio stamp ts host tag msg"
  shows "parseSyslog env 0 \<lparr>Data = str_bytes (rfc3164 prio stamp host tag msg) @ rest, AtEnd = e\<rparr> =
    bindR (split_pid tag) (\<lambda>(tag', pid). bindR (prio_attrs prio) (\<lambda>pa.
      bindR (add_items (AddTag (syslog_message ts) ''host'' host) (pa @ [(''tag'', VString tag')]
         @ (if pid \<noteq> 0 then [(''pid'', VInt (word_of_int pid))] else []) @ [(''message'', VString (TrimSpace msg))])) (\<lambda>m.
       Inr (m, - int (length (rfc3164 prio stamp host tag msg)), \<lparr>Data = rest, AtEnd = e\<rparr>))))"
proof -
  note ok = assms [unfolded rfc3164_ok_def]
  let ?c = "\<lambda>s. (of_char s :: byte)"
  let ?text = "str_bytes host @ ?c CHR '' '' # str_bytes tag @ ?c CHR '':'' # str_bytes msg @ ?c CHR 0x0A # rest"
  have data: "str_bytes (rfc3164 prio stamp host tag msg) @ rest =
      ?c CHR ''<'' # str_bytes (int_dec prio) @ ?c CHR ''>'' # str_bytes stamp @ ?c CHR '' '' # ?text"
    by (simp add: rfc3164_def str_bytes_def)
  have atoi: "Atoi (int_dec prio) = Inr prio" using ok by (simp add: Atoi_def ParseInt10_int_dec)
  have peek: "sy_peek 2 \<lparr>Data = str_bytes stamp @ xs, AtEnd = e\<rparr> = Inr (take 2 stamp)" for xs
    using ok by (simp add: sy_peek_def bytes_str_def str_bytes_def take_map [symmetric] comp_def)
  have stamp: "parse_stamp env tsFmts \<lparr>Data = str_bytes stamp @ xs, AtEnd = e\<rparr> = Inr (ts, 15, \<lparr>Data = xs, AtEnd = e\<rparr>)" for xs
    using ok by (simp add: tsFmts_def sy_peek_def sy_skip_def)

  have "parseSyslog env 0 \<lparr>Data = str_bytes (rfc3164 prio stamp host tag msg) @ rest, AtEnd = e\<rparr> =
      parse3164 env prio (- int (length (int_dec prio) + 2)) \<lparr>Data = str_bytes stamp @ ?c CHR '' '' # ?text, AtEnd = e\<rparr>"
    unfolding data parseSyslog_def using ok by (simp add: sy_byte_def int_dec_digits atoi peek del: of_char_Char)
  also have "\<dots> = bindR (split_pid tag) (\<lambda>(tag', pid). bindR (prio_attrs prio) (\<lambda>pa.
      bindR (add_items (AddTag (syslog_message ts) ''host'' host) (pa @ [(''tag'', VString tag')]
         @ (if pid \<noteq> 0 then [(''pid'', VInt (word_of_int pid))] else []) @ [(''message'', VString (TrimSpace msg))])) (\<lambda>m.
       Inr (m, - int (length (rfc3164 prio stamp host tag msg)), \<lparr>Data = rest, AtEnd = e\<rparr>))))"
    unfolding parse3164_def stamp using ok
    by (simp add: expect_space_def sy_byte_def read_text_def rfc3164_def del: of_char_Char)
      (simp only: diff_conv_add_uminus minus_add_distrib minus_minus ac_simps)
  finally show ?thesis .
qed

lemma prio_attrs_ok:
  assumes "0 \<le> prio" and "prio < 192" and "prio \<noteq> 8"
  shows "prio_attrs prio = Inr ((if prio > 8 then [(''facility'', VString (facility ! nat (prio div 8)))] else []) @
     [(''severity'', VString (severity ! nat (prio mod 8)))])"
proof -
  have "length facility = 24" "length severity = 8" by (simp_all add: facility_def severity_def)
  moreover from assms have "prio div 8 < 24" "0 \<le> prio div 8" "0 \<le> prio mod 8" "prio mod 8 < 8" by presburger+
  moreover have "prio mod 8 = prio" if "\<not> prio > 8" using that assms by presburger
  ultimately show ?thesis using assms by (simp add: prio_attrs_def go_index_def Let_def)
qed

lemma prio_attrs_panics: "is_panic (prio_attrs prio) \<longleftrightarrow> prio < 0 \<or> prio = 8 \<or> (192 \<le> prio \<and> prio < 200)"
proof -
  have len: "length facility = 24" "length severity = 8" by (simp_all add: facility_def severity_def)
  show ?thesis
  proof (cases "prio > 8")
    case True
    then have "prio div 8 > 24 \<longleftrightarrow> 200 \<le> prio" "prio div 8 = 24 \<longleftrightarrow> 192 \<le> prio \<and> prio < 200" by presburger+
    with True len show ?thesis by (auto simp: prio_attrs_def go_index_def Let_def)
  next
    case False
    with len show ?thesis by (auto simp: prio_attrs_def go_index_def)
  qed
qed

text \<open>A tag, with the process id in brackets if there is one.\<close>

definition tag_text :: "string \<Rightarrow> int \<Rightarrow> string" where
  "tag_text tag pid = (if pid = 0 then tag else tag @ ''['' @ int_dec pid @ '']'')"

lemma int_dec_chars: "c \<in> set (int_dec i) \<Longrightarrow> is_digit c \<or> c = CHR ''-''"
proof -
  have "c \<in> set (nat_dec n) \<Longrightarrow> is_digit c" for n
    using nat_dec_digits [of n] by (auto simp: list_all_iff)
  then show "c \<in> set (int_dec i) \<Longrightarrow> is_digit c \<or> c = CHR ''-''" by (auto simp: int_dec_def split: if_splits)
qed

lemma split_pid_tag_text:
  assumes "CHR ''['' \<notin> set tag" "CHR '']'' \<notin> set tag" "- (2 ^ 63) \<le> pid" "pid < 2 ^ 63"
  shows "split_pid (tag_text tag pid) = Inr (tag, pid)"
proof (cases "pid = 0")
  case True
  with assms show ?thesis by (simp add: tag_text_def split_pid_def IndexByte_none)
next
  case False
  have "CHR '']'' \<notin> set (int_dec pid)" using int_dec_chars [of "CHR '']''" pid] by (auto simp: is_digit_def)
  then have "IndexByte ((tag @ ''['' @ int_dec pid) @ CHR '']'' # []) (CHR '']'') = Some (length tag + 1 + length (int_dec pid))"
    using assms by (subst IndexByte_at) auto
  moreover have "IndexByte (tag @ ''['' @ int_dec pid @ '']'') (CHR ''['') = Some (length tag)"
    using assms(1) IndexByte_at [of "CHR ''[''" tag "int_dec pid @ '']''"] by simp
  moreover have "Atoi (int_dec pid) = Inr pid" using assms by (simp add: Atoi_def ParseInt10_int_dec)
  moreover have "nat (int (length tag) + 1) = Suc (length tag)" by simp
  ultimately show ?thesis using False by (simp add: tag_text_def split_pid_def go_slice_def)
qed

text \<open>The keys and the values of the attributes of a parsed line.\<close>

definition syslog_keys :: "int \<Rightarrow> int \<Rightarrow> string list" where
  "syslog_keys prio pid = (if prio > 8 then [''facility''] else []) @ [''severity'', ''tag''] @
     (if pid \<noteq> 0 then [''pid''] else []) @ [''message'']"

definition syslog_values :: "int \<Rightarrow> string \<Rightarrow> int \<Rightarrow> string \<Rightarrow> avalue list" where
  "syslog_values prio tag pid msg = (if prio > 8 then [AString (facility ! nat (prio div 8))] else []) @
     [AString (severity ! nat (prio mod 8)), AString tag] @
     (if pid \<noteq> 0 then [AInt (word_of_int pid)] else []) @ [AString (TrimSpace msg)]"


section \<open>What goes wrong\<close>

lemma add_items_not_panic:
  "known_version m \<Longrightarrow> \<forall>(k, v)\<in>set kvs. is_scalar v \<Longrightarrow> \<not> is_panic (bindR (add_items m kvs) (\<lambda>m. Inr (f m)))"
  using add_items_scalars [of m kvs] by fastforce

lemma prio_attrs_scalar: "prio_attrs prio = Inr pa \<Longrightarrow> \<forall>(k, v)\<in>set pa. is_scalar v"
  by (auto simp: prio_attrs_def go_index_def is_scalar_def scalar_attr_def Let_def split: if_splits)

lemma prio_attrs_error: "prio_attrs prio = Inl x \<Longrightarrow> is_panic (prio_attrs prio)"
  by (auto simp: prio_attrs_def go_index_def Let_def split: if_splits)

text \<open>On a well-formed line whose tag is read well, the parser panics exactly for the priorities
  without an entry in its two tables: negative ones, 8, and 192 to 199 (from 200 on the facility
  is 0 again). A tag with a closing bracket before the opening one panics for every priority.\<close>

lemma syslog_panics:
  assumes "rfc3164_ok env prio stamp ts host tag msg" and "split_pid tag = Inr tp"
  shows "is_panic (parseSyslog env 0 \<lparr>Data = str_bytes (rfc3164 prio stamp host tag msg) @ rest, AtEnd = e\<rparr>)
    \<longleftrightarrow> prio < 0 \<or> prio = 8 \<or> (192 \<le> prio \<and> prio < 200)"
proof (cases "prio_attrs prio")
  case (Inl x)
  moreover have "is_panic (bindR (Inl x) f)" if "is_panic (Inl x :: (string \<times> goval) list result)" for f :: "(string \<times> goval) list \<Rightarrow> 'a result"
    using that by (cases x) simp_all
  ultimately show ?thesis
    unfolding parse_line [OF assms(1)] prio_attrs_panics [symmetric] using assms(2) prio_attrs_error [of prio]
    by (cases x) (auto simp: split: prod.splits)
next
  case (Inr pa)
  have "known_version (AddTag (syslog_message ts) ''host'' host)"
    by (simp add: known_version_def AddTag_def syslog_message_def DEFAULT_VERSION_def)
  moreover have "is_scalar (VString s)" "is_scalar (VInt i)" for s i by (simp_all add: is_scalar_def scalar_attr_def)
  ultimately have "\<not> is_panic (parseSyslog env 0 \<lparr>Data = str_bytes (rfc3164 prio stamp host tag msg) @ rest, AtEnd = e\<rparr>)"
    unfolding parse_line [OF assms(1)] assms(2) Inr bindR_simps using prio_attrs_scalar [OF Inr]
    by (cases tp) (simp, intro conjI impI add_items_not_panic, auto)
  with Inr show ?thesis unfolding prio_attrs_panics [symmetric] by simp
qed

text \<open>A closing bracket before the opening one in the tag is sliced with its bounds the wrong way round.\<close>

lemma syslog_tag_panics:
  assumes "rfc3164_ok env prio stamp ts host (a @ '']'' @ b @ ''['' @ c) msg"
    and "CHR ''['' \<notin> set a" "CHR '']'' \<notin> set a" "CHR ''['' \<notin> set b"
  shows "is_panic (parseSyslog env 0 \<lparr>Data = str_bytes (rfc3164 prio stamp host (a @ '']'' @ b @ ''['' @ c) msg) @ rest, AtEnd = e\<rparr>)"
proof -
  have "IndexByte ((a @ '']'' @ b) @ CHR ''['' # c) (CHR ''['') = Some (length a + 1 + length b)"
    using assms by (subst IndexByte_at) auto
  moreover have "IndexByte (a @ CHR '']'' # b @ CHR ''['' # c) (CHR '']'') = Some (length a)"
    using assms by (subst IndexByte_at) auto
  ultimately have "split_pid (a @ '']'' @ b @ ''['' @ c) = Inl (Panic ''slice bounds out of range'')"
    by (simp add: split_pid_def go_slice_def)
  then show ?thesis unfolding parse_line [OF assms(1)] by simp
qed

text \<open>Of a message with its length counted, one Read is asked for the octets that are left: the
  message is exactly them if and only if that Read returns them all; otherwise its end is zeros and
  the octets that came later are left to be read as the next message.\<close>

lemma syslog_counted:
  assumes "0 < todo" and "nat todo \<le> SyMaxAlloc env" and "0 < OneRead env \<lparr>Data = str_bytes msg @ rest, AtEnd = e\<rparr>"
    and "length msg = nat todo"
  shows "\<exists>k. 0 < k \<and> k \<le> length msg \<and> read_text env todo \<lparr>Data = str_bytes msg @ rest, AtEnd = e\<rparr> =
      Inr (take k msg @ replicate (length msg - k) (CHR 0x00), todo, \<lparr>Data = str_bytes (drop k msg) @ rest, AtEnd = e\<rparr>) \<and>
      (k = length msg \<longleftrightarrow> length msg \<le> OneRead env \<lparr>Data = str_bytes msg @ rest, AtEnd = e\<rparr>)"
proof -
  let ?k = "min (length msg) (OneRead env \<lparr>Data = str_bytes msg @ rest, AtEnd = e\<rparr>)"
  have zero: "char_of (0 :: nat) = CHR 0x00" by code_simp
  have "msg \<noteq> []" using assms by auto
  then show ?thesis
    using assms
    by (intro exI [of _ ?k])
      (auto simp: read_text_def sy_read_def sy_skip_def Let_def min_def str_bytes_def bytes_str_def comp_def take_map drop_map zero)
qed

section \<open>The loop of a connection ends\<close>

lemma sy_peek_same: "bindR (sy_peek n r) f = Inr y \<Longrightarrow> \<exists>s. f s = Inr y"
  by (auto simp: go_simps)

lemma expect_space_le: "expect_space r = Inr r1 \<Longrightarrow> length (Data r1) \<le> length (Data r)"
  by (auto simp: expect_space_def go_simps split: if_splits dest: sy_byte_shorter)

lemma parse_stamp_le: "parse_stamp env fmts r = Inr (ts, n, r1) \<Longrightarrow> length (Data r1) \<le> length (Data r)"
  by (induction fmts) (auto simp: go_simps sy_skip_def Let_def split: option.splits if_splits)

lemma sy_field_le: "sy_field c n r = Inr (s, n1, r1) \<Longrightarrow> length (Data r1) \<le> length (Data r)"
  by (auto simp: sy_field_def go_simps dest: sy_until_shorter)

lemma read_text_le: "read_text env n r = Inr (s, n1, r1) \<Longrightarrow> length (Data r1) \<le> length (Data r)"
  by (auto simp: read_text_def sy_read_def sy_skip_def Let_def go_simps split: if_splits dest: sy_until_shorter)

lemma sd_params_le: "sd_params sdid m n r = Inr (m1, n1, r1) \<Longrightarrow> length (Data r1) \<le> length (Data r)"
proof (induction sdid m n r rule: sd_params.induct)
  case (1 sdid m todo r)
  from "1.prems" obtain peek where peek: "sy_peek 1 r = Inr peek"
    by (subst (asm) sd_params.simps) (auto simp: bindR_eq_Inr_iff)
  show ?case
  proof (cases "peek = '']''")
    case True
    with "1.prems" peek show ?thesis by (subst (asm) sd_params.simps) (auto simp: sy_skip_def)
  next
    case False
    let ?sp = "if peek = '' '' then 1 else 0 :: nat"
    from "1.prems" peek False obtain name r2 r3 val rest m2 n2 where
        steps: "sy_until (CHR ''='') (sy_skip ?sp r) = Inr (name, r2)" "sy_byte r2 = Inr (CHR 0x22, r3)"
          "sd_value [] (Data r3) = Some (val, rest)" "AddString m (sdid @ ''.'' @ butlast name) val = Inr m2"
      and rec: "sd_params sdid m2 (todo - int ?sp - int (length name) - 1 - int (length (Data r3) - length rest)) (r3\<lparr>Data := rest\<rparr>) = Inr (m1, n1, r1)"
      by (subst (asm) sd_params.simps) (fastforce simp: bindR_eq_Inr_iff Let_def split: if_splits option.splits)
    have "length (Data r1) \<le> length (Data (r3\<lparr>Data := rest\<rparr>))"
      by (rule "1.IH" [OF peek False refl steps(1) refl steps(2) refl _ steps(3) refl steps(4) rec]) simp
    with steps(1-3) show ?thesis
      by (auto simp: sy_skip_def dest!: sd_value_shorter sy_byte_shorter sy_until_shorter split: if_splits)
  qed
qed

lemma structured_data_le: "structured_data m n r = Inr (m1, n1, r1) \<Longrightarrow> length (Data r1) \<le> length (Data r)"
  by (auto simp: structured_data_def go_simps sy_skip_def split: if_splits
      dest!: sd_params_le expect_space_le sy_until_shorter)

lemmas sy_le = parse_stamp_le expect_space_le sy_field_le structured_data_le read_text_le

lemma parse5425_le: "parse5425 env prio n r = Inr (m, n1, r1) \<Longrightarrow> length (Data r1) \<le> length (Data r)"
  by (auto simp: parse5425_def bindR_eq_Inr_iff split_paired_all dest!: sy_le)

lemma parse3164_le: "parse3164 env prio n r = Inr (m, n1, r1) \<Longrightarrow> length (Data r1) \<le> length (Data r)"
  by (auto simp: parse3164_def bindR_eq_Inr_iff split_paired_all dest!: sy_le)

lemma parseSyslog_shorter: "parseSyslog env n r = Inr (m, n1, r1) \<Longrightarrow> length (Data r1) < length (Data r)"
  by (auto simp: parseSyslog_def bindR_eq_Inr_iff split_paired_all sy_skip_def split: if_splits
      dest!: sy_le parse5425_le parse3164_le sy_byte_shorter)

text \<open>C19: The loop of a connection ends, for every input and both framings, if its receiver returns:
  every message takes at least a byte of the stream.\<close>

theorem runConn_ends:
  assumes "\<And>st m. RReceive recv st m \<noteq> None"
  shows "\<exists>x todo1 st1. runConn env octets recv r todo st = Some (x, todo1, st1)"
proof (induction "length (Data r)" arbitrary: r todo st rule: less_induct)
  case less
  let ?sz = "if octets then bindR (sy_field (CHR '' '') 0 r) (\<lambda>(s, _, r1). bindR (Atoi s) (\<lambda>sz. Inr (sz, r1))) else Inr (0, r)"
  let ?frame = "bindR ?sz (\<lambda>(sz, r1). bindR (parseSyslog env sz r1) (\<lambda>(m, bytes, r2).
     Inr (m, if sz = 0 then - bytes else sz, r2)))"
  show ?case
  proof (cases ?frame)
    case (Inl x)
    then show ?thesis by (subst runConn.simps) simp
  next
    case (Inr y)
    obtain m sz r2 where y: "y = (m, sz, r2)" by (cases y)
    from Inr y have "length (Data r2) < length (Data r)"
      by (auto simp: bindR_eq_Inr_iff split_paired_all split: if_splits dest!: parseSyslog_shorter sy_field_le)
    note IH = less [OF this]
    obtain z st1 where "RReceive recv st (Some m) = Some (z, st1)" using assms [of st "Some m"] by (cases "RReceive recv st (Some m)") auto
    with Inr y IH show ?thesis by (subst runConn.simps) (cases z, auto)
  qed
qed

section \<open>RFC 5424 lines\<close>

definition sd_escape :: "string \<Rightarrow> string" where
  "sd_escape v = concat (map (\<lambda>c. if c = CHR 0x22 \<or> c = CHR 0x5C \<or> c = CHR '']'' then [CHR 0x5C, c] else [c]) v)"

definition sd_param :: "string \<times> string \<Rightarrow> string" where
  "sd_param p = fst p @ ''='' @ [CHR 0x22] @ sd_escape (snd p) @ [CHR 0x22]"

definition sd_rest :: "(string \<times> string) list \<Rightarrow> string" where
  "sd_rest ps = concat (map (\<lambda>p. '' '' @ sd_param p) ps) @ '']''"

definition sd_element :: "string \<Rightarrow> string \<times> string \<Rightarrow> (string \<times> string) list \<Rightarrow> string" where
  "sd_element sdid p ps = ''['' @ sdid @ '' '' @ sd_param p @ sd_rest ps"

definition sd_name_ok :: "string \<Rightarrow> bool" where
  "sd_name_ok k \<longleftrightarrow> CHR ''='' \<notin> set k \<and> take 1 k \<noteq> '' '' \<and> take 1 k \<noteq> '']''"

lemma str_bytes_simps [simp]:
  "str_bytes [] = []" "str_bytes (c # s) = of_char c # str_bytes s" "str_bytes (s @ t) = str_bytes s @ str_bytes t"
  "length (str_bytes s) = length s"
  by (simp_all add: str_bytes_def)

lemma sd_value_escape:
  "sd_value acc (str_bytes (sd_escape v) @ of_char (CHR 0x22) # rest) = Some (acc @ v, rest)"
  by (induction v arbitrary: acc) (simp_all add: sd_escape_def del: of_char_Char)

lemma AddString_known:
  assumes "known_version m"
  shows "\<exists>m1. AddString m k v = Inr m1 \<and> Add m k (VString v) = Inr (m1, None) \<and> known_version m1"
  using SetKey_known [OF assms, of k]
  by (auto simp: AddString_def Add.simps scalar_attr_def assms)

lemma sd_params_step:
  assumes "known_version m" and "sd_name_ok k" and "sep = [] \<or> sep = '' ''"
  shows "sd_params sdid m n \<lparr>Data = str_bytes (sep @ sd_param (k, v)) @ rest, AtEnd = e\<rparr> =
    bindR (Add m (sdid @ ''.'' @ k) (VString v)) (\<lambda>(m1, _).
      sd_params sdid m1 (n - int (length (sep @ sd_param (k, v)))) \<lparr>Data = rest, AtEnd = e\<rparr>)"
proof -
  have nosep: "k @ [CHR ''='', c] \<noteq> []" "take 1 (k @ CHR ''='' # xs) \<noteq> '' ''" "take 1 (k @ CHR ''='' # xs) \<noteq> '']''" for c xs
    using assms(2) by (cases k; simp add: sd_name_ok_def)+
  have key: "CHR ''='' \<notin> set k" using assms(2) by (simp add: sd_name_ok_def)
  have peek1: "sy_peek 1 \<lparr>Data = str_bytes (c # s) @ xs, AtEnd = e\<rparr> = Inr [c]" for c s xs
    by (simp add: sy_peek_def bytes_str_def del: of_char_Char)
  have peek: "sy_peek 1 \<lparr>Data = str_bytes (sep @ sd_param (k, v)) @ rest, AtEnd = e\<rparr> = Inr (if sep = [] then take 1 (k @ ''='') else sep)"
    using assms(3) peek1 by (cases k) (auto simp: sd_param_def simp del: str_bytes_simps of_char_Char)
  obtain m1 where m1: "AddString m (sdid @ ''.'' @ k) v = Inr m1" "Add m (sdid @ ''.'' @ k) (VString v) = Inr (m1, None)"
    using AddString_known [OF assms(1)] by blast
  have skip: "sy_skip (length sep) \<lparr>Data = str_bytes (sep @ s) @ xs, AtEnd = e\<rparr> = \<lparr>Data = str_bytes s @ xs, AtEnd = e\<rparr>" for s xs
    by (simp add: sy_skip_def)
  show ?thesis
    using nosep key m1 assms(3) skip
    by (subst sd_params.simps, unfold peek bindR_simps)
      (auto simp: sd_param_def sy_byte_def sd_value_escape Let_def sy_skip_def simp del: of_char_Char
        intro!: arg_cong [where f = "\<lambda>n. sd_params sdid m1 n \<lparr>Data = rest, AtEnd = e\<rparr>"])
qed

lemma add_items_Cons: "add_items m ((k, x) # kvs) = bindR (Add m k x) (\<lambda>(m', _). add_items m' kvs)"
  by (simp add: Add.simps)

lemma sd_params_rest:
  assumes "known_version m" and "\<forall>(k, v)\<in>set ps. sd_name_ok k"
  shows "sd_params sdid m n \<lparr>Data = str_bytes (sd_rest ps) @ rest, AtEnd = e\<rparr> =
    bindR (add_items m (map (\<lambda>(k, v). (sdid @ ''.'' @ k, VString v)) ps)) (\<lambda>m1.
      Inr (m1, n - int (length (sd_rest ps)), \<lparr>Data = rest, AtEnd = e\<rparr>))"
  using assms
proof (induction ps arbitrary: m n)
  case Nil
  then show ?case by (subst sd_params.simps) (simp add: sd_rest_def sy_peek_def sy_skip_def bytes_str_def Add.simps del: of_char_Char)
next
  case (Cons p ps)
  obtain k v where p: "p = (k, v)" by (cases p)
  obtain m1 where m1: "Add m (sdid @ ''.'' @ k) (VString v) = Inr (m1, None)" "known_version m1"
    using AddString_known [OF Cons.prems(1)] by blast
  have split: "str_bytes (sd_rest (p # ps)) @ rest = str_bytes ('' '' @ sd_param (k, v)) @ (str_bytes (sd_rest ps) @ rest)"
    by (simp add: sd_rest_def p)
  have ok: "sd_name_ok k" "\<forall>(k, v)\<in>set ps. sd_name_ok k" using Cons.prems p by auto
  have len: "length (sd_rest (p # ps)) = length ('' '' @ sd_param (k, v)) + length (sd_rest ps)"
    by (simp add: sd_rest_def p)
  have "'' '' = ([] :: string) \<or> '' '' = '' ''" by simp
  note step = sd_params_step [OF Cons.prems(1) ok(1) this, of sdid n v]
  show ?case
    unfolding split step m1(1) len using Cons.IH [OF m1(2) ok(2)] m1(1)
    by (simp add: p add_items_Cons diff_diff_eq add.assoc)
qed

lemma sy_until_first:
  "c \<notin> set s \<Longrightarrow> sy_until c \<lparr>Data = str_bytes (s @ [c]) @ rest, AtEnd = e\<rparr> = Inr (s @ [c], \<lparr>Data = rest, AtEnd = e\<rparr>)"
  by simp

lemma structured_data_element:
  assumes "known_version m" and "sd_name_ok (fst p)" and "\<forall>(k, v)\<in>set ps. sd_name_ok k" and "CHR '' '' \<notin> set sdid"
  shows "structured_data m n \<lparr>Data = str_bytes (sd_element sdid p ps) @ rest, AtEnd = e\<rparr> =
    bindR (add_items m (map (\<lambda>(k, v). (sdid @ ''.'' @ k, VString v)) (p # ps))) (\<lambda>m1.
      Inr (m1, n - int (length (sd_element sdid p ps)), \<lparr>Data = rest, AtEnd = e\<rparr>))"
proof -
  obtain k v where p: "p = (k, v)" by (cases p)
  obtain m1 where m1: "Add m (sdid @ ''.'' @ k) (VString v) = Inr (m1, None)" "known_version m1"
    using AddString_known [OF assms(1)] by blast
  let ?tail = "str_bytes (sd_rest ps) @ rest"
  let ?r = "\<lparr>Data = str_bytes (sd_param p) @ ?tail, AtEnd = e\<rparr>"
  have el: "str_bytes (sd_element sdid p ps) @ rest = str_bytes ((CHR ''['' # sdid) @ [CHR '' '']) @ str_bytes (sd_param p) @ ?tail"
    by (simp add: sd_element_def)
  have peek: "sy_peek 1 \<lparr>Data = str_bytes ((CHR ''['' # sdid) @ [CHR '' '']) @ xs, AtEnd = e\<rparr> = Inr ''[''" for xs
    by (simp add: sy_peek_def bytes_str_def del: of_char_Char)
  have inner: "go_slice ((CHR ''['' # sdid) @ [CHR '' '']) 1 (int (length ((CHR ''['' # sdid) @ [CHR '' ''])) - 1) = Inr sdid"
    by (simp add: go_slice_def)
  have until: "sy_until (CHR '' '') \<lparr>Data = str_bytes ((CHR ''['' # sdid) @ [CHR '' '']) @ xs, AtEnd = e\<rparr> =
      Inr ((CHR ''['' # sdid) @ [CHR '' ''], \<lparr>Data = xs, AtEnd = e\<rparr>)" for xs
    by (rule sy_until_first) (use assms(4) in simp)
  have "structured_data m n \<lparr>Data = str_bytes (sd_element sdid p ps) @ rest, AtEnd = e\<rparr> = sd_params sdid m (n - int (length sdid + 2)) ?r"
    unfolding structured_data_def el peek until bindR_simps prod.case inner by simp
  also have "\<dots> = bindR (Add m (sdid @ ''.'' @ k) (VString v)) (\<lambda>(m1, _). sd_params sdid m1 (n - int (length sdid + 2) - int (length (sd_param p)))
      \<lparr>Data = ?tail, AtEnd = e\<rparr>)"
    using sd_params_step [of m k "[]" sdid "n - int (length sdid + 2)" v ?tail e] assms(1,2) p by simp
  also have "\<dots> = bindR (add_items m1 (map (\<lambda>(k, v). (sdid @ ''.'' @ k, VString v)) ps)) (\<lambda>m1.
      Inr (m1, n - int (length (sd_element sdid p ps)), \<lparr>Data = rest, AtEnd = e\<rparr>))"
    unfolding m1(1) bindR_simps prod.case sd_params_rest [OF m1(2) assms(3)] by (simp add: sd_element_def diff_diff_eq ac_simps)
  finally show ?thesis using m1(1) p by (simp add: add_items_Cons)
qed

definition sd_text :: "string \<Rightarrow> (string \<times> string) list \<Rightarrow> string" where
  "sd_text sdid ps = (case ps of [] \<Rightarrow> ''- '' | p # ps \<Rightarrow> sd_element sdid p ps)"

lemma structured_data_text:
  assumes "known_version m" and "\<forall>(k, v)\<in>set ps. sd_name_ok k" and "CHR '' '' \<notin> set sdid"
  shows "structured_data m n \<lparr>Data = str_bytes (sd_text sdid ps) @ rest, AtEnd = e\<rparr> =
    bindR (add_items m (map (\<lambda>(k, v). (sdid @ ''.'' @ k, VString v)) ps)) (\<lambda>m1.
      Inr (m1, n - int (length (sd_text sdid ps)), \<lparr>Data = rest, AtEnd = e\<rparr>))"
proof (cases ps)
  case Nil
  then show ?thesis
    by (simp add: sd_text_def structured_data_def sy_peek_def sy_skip_def bytes_str_def expect_space_def sy_byte_def Add.simps
        del: of_char_Char)
next
  case (Cons p ps')
  then show ?thesis using structured_data_element [of m p ps' sdid] assms by (auto simp: sd_text_def)
qed

definition rfc5424 :: "int \<Rightarrow> string \<Rightarrow> string \<Rightarrow> string \<Rightarrow> string \<Rightarrow> string \<Rightarrow> string \<Rightarrow> string \<Rightarrow> string" where
  "rfc5424 prio stamp host tag procid msgid sd msg =
     ''<'' @ int_dec prio @ ''>1 '' @ stamp @ '' '' @ host @ '' '' @ tag @ '' '' @ procid @ '' '' @ msgid @ '' '' @ sd @ msg @ [CHR 0x0A]"

definition rfc5424_ok :: "'ts syslog_env \<Rightarrow> int \<Rightarrow> string \<Rightarrow> 'ts \<Rightarrow> string list \<Rightarrow> string \<Rightarrow> bool" where
  "rfc5424_ok env prio stamp ts toks msg \<longleftrightarrow>
     - (2 ^ 63) \<le> prio \<and> prio < 2 ^ 63 \<and> 20 \<le> length stamp \<and> length stamp \<le> 25 \<and> CHR '' '' \<notin> set stamp \<and>
     TimeParse env ''Jan 02 15:04:05'' (take 15 stamp) = None \<and> TimeParse env ''Jan  2 15:04:05'' (take 15 stamp) = None \<and>
     TimeParse env ''2006-01-02T15:04:05Z07:00'' stamp = Some ts \<and>
     (\<forall>f\<in>set toks. CHR '' '' \<notin> set f) \<and> CHR 0x0A \<notin> set msg"

lemma parse_line_5424:
  assumes "rfc5424_ok env prio stamp ts [host, tag, procid, msgid, sdid] msg" and "\<forall>(k, v)\<in>set ps. sd_name_ok k"
  shows "parseSyslog env 0 \<lparr>Data = str_bytes (rfc5424 prio stamp host tag procid msgid (sd_text sdid ps) msg) @ rest, AtEnd = e\<rparr> =
    bindR (add_items (syslog_message ts) (map (\<lambda>(k, v). (sdid @ ''.'' @ k, VString v)) ps)) (\<lambda>m.
    bindR (prio_attrs prio) (\<lambda>pa.
    bindR (add_items (AddTag m ''host'' host) (pa @ [(''tag'', VString tag), (''procid'', VString procid),
       (''msgid'', VString msgid), (''message'', VString (strip_bom (TrimSpace msg)))])) (\<lambda>m.
       Inr (m, - int (length (rfc5424 prio stamp host tag procid msgid (sd_text sdid ps) msg)), \<lparr>Data = rest, AtEnd = e\<rparr>))))"
proof -
  note ok = assms(1) [unfolded rfc5424_ok_def]
  let ?c = "\<lambda>s. (of_char s :: byte)"
  let ?sd = "str_bytes (sd_text sdid ps) @ str_bytes msg @ ?c CHR 0x0A # rest"
  let ?text = "str_bytes host @ ?c CHR '' '' # str_bytes tag @ ?c CHR '' '' # str_bytes procid @ ?c CHR '' '' # str_bytes msgid @ ?c CHR '' '' # ?sd"
  have data: "str_bytes (rfc5424 prio stamp host tag procid msgid (sd_text sdid ps) msg) @ rest =
      ?c CHR ''<'' # str_bytes (int_dec prio) @ ?c CHR ''>'' # ?c CHR ''1'' # ?c CHR '' '' # str_bytes stamp @ ?c CHR '' '' # ?text"
    by (simp add: rfc5424_def)
  have atoi: "Atoi (int_dec prio) = Inr prio" using ok by (simp add: Atoi_def ParseInt10_int_dec)
  have peek: "sy_peek 2 \<lparr>Data = ?c c # ?c d # xs, AtEnd = e\<rparr> = Inr [c, d]" for c d xs
    by (simp add: sy_peek_def bytes_str_def del: of_char_Char)
  have bytes: "bytes_str (take n (str_bytes s)) = take n s" for n s
    by (simp add: bytes_str_def str_bytes_def take_map [symmetric] comp_def)
  have bytes_app: "bytes_str (take n (str_bytes s @ xs)) = take n s" if "n \<le> length s" for n s xs
    using that by (simp add: bytes_str_def str_bytes_def take_map [symmetric] comp_def)
  have stamp: "parse_stamp env tsFmts \<lparr>Data = str_bytes stamp @ ?c CHR '' '' # xs, AtEnd = e\<rparr> =
      Inr (ts, length stamp, \<lparr>Data = ?c CHR '' '' # xs, AtEnd = e\<rparr>)" if "4 \<le> length xs" for xs
  proof -
    let ?r = "\<lparr>Data = str_bytes stamp @ ?c CHR '' '' # xs, AtEnd = e\<rparr>"
    have tw: "takeWhile (\<lambda>c. c \<noteq> CHR '' '') (bytes_str (take 25 (str_bytes stamp @ ?c CHR '' '' # xs))) = stamp"
    proof (cases "length stamp = 25")
      case True
      with ok show ?thesis by (simp add: bytes takeWhile_eq_all_conv) (metis (full_types))
    next
      case False
      moreover have "length stamp \<le> 25" using ok by simp
      ultimately have "25 - length stamp = Suc (24 - length stamp)" by arith
      with ok have "bytes_str (take 25 (str_bytes stamp @ ?c CHR '' '' # xs)) = stamp @ CHR '' '' # bytes_str (take (24 - length stamp) xs)"
        by (simp add: bytes_str_def str_bytes_def comp_def del: of_char_Char)
      with ok show ?thesis by (simp add: takeWhile_append)
    qed
    have lens: "length ''Jan 02 15:04:05'' = 15" "length ''Jan  2 15:04:05'' = 15" "length ''2006-01-02T15:04:05Z07:00'' = 25" by simp_all
    have p15: "sy_peek 15 ?r = Inr (take 15 stamp)" using ok by (simp add: sy_peek_def bytes bytes_app)
    have p25: "sy_peek 25 ?r = Inr (bytes_str (take 25 (str_bytes stamp @ ?c CHR '' '' # xs)))" using ok that by (simp add: sy_peek_def)
    have skip: "sy_skip (length stamp) ?r = \<lparr>Data = ?c CHR '' '' # xs, AtEnd = e\<rparr>" by (simp add: sy_skip_def)
    have sp: "CHR '' '' \<in> set ''Jan 02 15:04:05''" "CHR '' '' \<in> set ''Jan  2 15:04:05''" "CHR '' '' \<notin> set ''2006-01-02T15:04:05Z07:00''" by simp_all
    show ?thesis
      unfolding tsFmts_def parse_stamp.simps lens p15 p25 bindR_simps Let_def
      using ok sp by (simp only: tw skip if_True if_False not_False_eq_True option.case simp_thms)
  qed
  have "parseSyslog env 0 \<lparr>Data = str_bytes (rfc5424 prio stamp host tag procid msgid (sd_text sdid ps) msg) @ rest, AtEnd = e\<rparr> =
      parse5425 env prio (- 4 - int (length (int_dec prio))) \<lparr>Data = str_bytes stamp @ ?c CHR '' '' # ?text, AtEnd = e\<rparr>"
    unfolding data parseSyslog_def using ok
    by (simp add: sy_byte_def int_dec_digits atoi peek sy_skip_def del: of_char_Char)
  also have "\<dots> = bindR (structured_data (syslog_message ts)
      (- int (length (int_dec prio) + length stamp + length host + length tag + length procid + length msgid + 9)) \<lparr>Data = ?sd, AtEnd = e\<rparr>) (\<lambda>(m, todo, r7).
     bindR (read_text env todo r7) (\<lambda>(msg, todo, r8).
     bindR (prio_attrs prio) (\<lambda>pa.
     bindR (add_items (AddTag m ''host'' host) (pa @ [(''tag'', VString tag), (''procid'', VString procid),
         (''msgid'', VString msgid), (''message'', VString (strip_bom (TrimSpace msg)))])) (\<lambda>m.
       Inr (m, todo, r8)))))"
    unfolding parse5425_def using ok
    by (subst stamp) (simp_all add: expect_space_def sy_byte_def del: of_char_Char, simp only: diff_conv_add_uminus minus_add_distrib minus_minus ac_simps)
  also have "\<dots> = bindR (add_items (syslog_message ts) (map (\<lambda>(k, v). (sdid @ ''.'' @ k, VString v)) ps)) (\<lambda>m.
    bindR (prio_attrs prio) (\<lambda>pa.
    bindR (add_items (AddTag m ''host'' host) (pa @ [(''tag'', VString tag), (''procid'', VString procid),
       (''msgid'', VString msgid), (''message'', VString (strip_bom (TrimSpace msg)))])) (\<lambda>m.
       Inr (m, - int (length (rfc5424 prio stamp host tag procid msgid (sd_text sdid ps) msg)), \<lparr>Data = rest, AtEnd = e\<rparr>))))"
  proof -
    have known: "known_version (syslog_message ts)" by (simp add: known_version_def syslog_message_def DEFAULT_VERSION_def)
    have sp: "CHR '' '' \<notin> set sdid" using ok by simp
    have "CHR 0x0A \<notin> set msg" using ok by simp
    then have read: "read_text env n \<lparr>Data = str_bytes msg @ ?c CHR 0x0A # rest, AtEnd = e\<rparr> =
        Inr (msg @ [CHR 0x0A], n - int (length msg) - 1, \<lparr>Data = rest, AtEnd = e\<rparr>)" if "n \<le> 0" for n
      using that by (simp add: read_text_def del: of_char_Char)
    have total: "- int (length (int_dec prio) + length stamp + length host + length tag + length procid + length msgid + 9) -
        int (length (sd_text sdid ps)) - int (length msg) - 1 =
        - int (length (rfc5424 prio stamp host tag procid msgid (sd_text sdid ps) msg))"
      by (simp add: rfc5424_def)
    show ?thesis
      unfolding structured_data_text [OF known assms(2) sp] bindR_assoc bindR_simps prod.case
      by (subst read) (simp, simp only: total bindR_simps prod.case TrimSpace_newline)
  qed
  finally show ?thesis .
qed


section \<open>Witnesses\<close>

text \<open>Layouts told apart by the lengths of the texts, and Reads of at most four bytes.\<close>

definition example_syslog :: "nat syslog_env" where
  "example_syslog = \<lparr>TimeParse = (\<lambda>f s. if length s = (if f = ''2006-01-02T15:04:05Z07:00'' then 20 else 15) \<and> take 1 s \<noteq> ''2'' \<or>
       f = ''2006-01-02T15:04:05Z07:00'' \<and> length s = 20 then Some (length s) else None),
     OneRead = (\<lambda>r. 4), SyMaxAlloc = 1000\<rparr>"

lemmas example_line = rfc3164_ok_def rfc5424_ok_def example_syslog_def tag_text_def


lemma syslog_panics_witness:
  "is_panic (parseSyslog example_syslog 0 \<lparr>Data = str_bytes (rfc3164 8 ''Oct 11 22:14:15'' ''h'' ''su'' ''x'') @ [], AtEnd = EOF\<rparr>)"
proof -
  have "rfc3164_ok example_syslog 8 ''Oct 11 22:14:15'' 15 ''h'' ''su'' ''x''" by (simp add: example_line)
  moreover have "split_pid ''su'' = Inr (''su'', 0)" by code_simp
  ultimately show ?thesis by (simp only: syslog_panics) simp
qed

lemma syslog_tag_panics_witness:
  "is_panic (parseSyslog example_syslog 0 \<lparr>Data = str_bytes (rfc3164 1 ''Oct 11 22:14:15'' ''h'' (''a'' @ '']'' @ ''b'' @ ''['' @ ''c'') ''x'') @ [], AtEnd = EOF\<rparr>)"
  by (rule syslog_tag_panics [where ts = 15]) (simp_all add: example_line)

lemma syslog_counted_witness:
  "\<exists>k. 0 < k \<and> k \<le> length ''hello'' \<and> read_text example_syslog 5 \<lparr>Data = str_bytes ''hello'' @ [], AtEnd = EOF\<rparr> =
      Inr (take k ''hello'' @ replicate (length ''hello'' - k) (CHR 0x00), 5, \<lparr>Data = str_bytes (drop k ''hello'') @ [], AtEnd = EOF\<rparr>) \<and>
      (k = length ''hello'' \<longleftrightarrow> length ''hello'' \<le> OneRead example_syslog \<lparr>Data = str_bytes ''hello'' @ [], AtEnd = EOF\<rparr>)"
  by (rule syslog_counted) (simp_all add: example_syslog_def)


theorem runConn_ends_witness:
  "\<exists>x todo1 st1. runConn example_syslog True (\<lparr>RReceive = (\<lambda>st m. Some (Inr (), st @ [m])), RClose = (\<lambda>st. (Inr (), st))\<rparr>)
     \<lparr>Data = str_bytes ''3 <1>'', AtEnd = EOF\<rparr> 0 [] = Some (x, todo1, st1)"
  by (rule runConn_ends) simp

end
