(* ===== verification/Keystore.thy ===== *)
theory Keystore
  imports Pipes Base64 "HOL-Library.List_Lexorder" "HOL-Library.Char_ord"
begin


text \<open>
  keystore/: keys in PEM files, directories of them, and the keys of a user. The encodings of keys
  (crypto/x509, crypto/elliptic), PEM and SHA-256 are parameters. A public key is its point, which
  is absent (nil coordinates) if elliptic.Unmarshal could not read it.
\<close>

datatype pubkey = PublicKey "(int \<times> int) option"

record privkey =
  Secret :: int
  PublicOf :: pubkey

record pem =
  PemType :: string
  PemHeaders :: "(string \<times> string) list"
  PemBytes :: bytes

record key_env =
  MarshalPKIX :: "pubkey \<Rightarrow> bytes result"
  Sha256 :: "bytes \<Rightarrow> bytes"
  ParseEC :: "bytes \<Rightarrow> privkey result"
  MarshalEC :: "privkey \<Rightarrow> bytes result"
  UnmarshalPoint :: "bytes \<Rightarrow> (int \<times> int) option"
  MarshalPoint :: "pubkey \<Rightarrow> bytes result"
  PemDecode :: "bytes \<Rightarrow> pem option"
  PemEncode :: "pem \<Rightarrow> bytes \<times> go_err option"

definition PEMPrivateKey :: string where "PEMPrivateKey = ''EC PRIVATE KEY''"
definition PEMPublicKey :: string where "PEMPublicKey = ''EC PUBLIC KEY''"
definition NameHeader :: string where "NameHeader = ''Canonical-Name''"

text \<open>KeyId: an error of the encoding is a panic.\<close>

definition KeyId :: "key_env \<Rightarrow> pubkey \<Rightarrow> string result" where
  "KeyId env key =
     (case MarshalPKIX env key of
        Inl (Err e) \<Rightarrow> Inl (Panic ''x509'')
      | Inl (Panic s) \<Rightarrow> Inl (Panic s)
      | Inr data \<Rightarrow> Inr (b64_encode (Sha256 env data)))"

section \<open>Files\<close>

text \<open>A path is a file with its content and permission bits, or a directory with its entries.\<close>

datatype node = RegFile bytes u32 | DirNode "(string \<times> node) list"

datatype loaded = LPrivate privkey | LPublic pubkey

text \<open>LoadPEM: a file that is no PEM is a nil block, whose Type is read all the same.\<close>

definition LoadPEM :: "key_env \<Rightarrow> node option \<Rightarrow> (loaded \<times> pem) result" where
  "LoadPEM env path =
     (case path of
        None \<Rightarrow> Inl (Err (OtherErr ''no such file''))
      | Some (DirNode ents) \<Rightarrow> Inl (Err (OtherErr ''is a directory''))
      | Some (RegFile data perm) \<Rightarrow>
          (case PemDecode env data of
             None \<Rightarrow> Inl (Panic ''nil pointer dereference'')
           | Some blk \<Rightarrow>
               if PemType blk = PEMPrivateKey then
                 if perm AND 0x3F \<noteq> 0 then Inl (Err ErrInvalidPermissions)
                 else bindR (ParseEC env (PemBytes blk)) (\<lambda>key. Inr (LPrivate key, blk))
               else if PemType blk = PEMPublicKey then
                 Inr (LPublic (PublicKey (UnmarshalPoint env (PemBytes blk))), blk)
               else Inl (Err ErrUnknownKeyType)))"

definition key_pem :: "string \<Rightarrow> string \<Rightarrow> bytes \<Rightarrow> pem" where
  "key_pem ty name bs = \<lparr>PemType = ty, PemHeaders = (if name \<noteq> '''' then [(NameHeader, name)] else []), PemBytes = bs\<rparr>"

text \<open>The file is emptied before it is written; one that is there keeps its permissions.\<close>

definition write_pem :: "key_env \<Rightarrow> u32 \<Rightarrow> pem \<Rightarrow> node option \<Rightarrow> node option \<times> unit result" where
  "write_pem env perm pb path =
     (case path of
        Some (DirNode ents) \<Rightarrow> (path, Inl (Err (OtherErr ''is a directory'')))
      | _ \<Rightarrow>
          (case PemEncode env pb of (bs, e) \<Rightarrow>
             (Some (RegFile bs (case path of Some (RegFile _ p) \<Rightarrow> p | _ \<Rightarrow> perm)),
              case e of Some e \<Rightarrow> Inl (Err e) | None \<Rightarrow> Inr ())))"

definition SaveNamedPrivatePEM :: "key_env \<Rightarrow> node option \<Rightarrow> string \<Rightarrow> privkey \<Rightarrow> node option \<times> unit result" where
  "SaveNamedPrivatePEM env path name key =
     (case MarshalEC env key of
        Inl e \<Rightarrow> (path, Inl e)
      | Inr bs \<Rightarrow> write_pem env 0x180 (key_pem PEMPrivateKey name bs) path)"

definition SavePrivatePEM :: "key_env \<Rightarrow> node option \<Rightarrow> privkey \<Rightarrow> node option \<times> unit result" where
  "SavePrivatePEM env path key = SaveNamedPrivatePEM env path '''' key"

text \<open>os.Create makes a file that umask restricts.\<close>

definition SaveNamedPublicPEM :: "key_env \<Rightarrow> u32 \<Rightarrow> node option \<Rightarrow> string \<Rightarrow> pubkey \<Rightarrow> node option \<times> unit result" where
  "SaveNamedPublicPEM env umask path name key =
     (case MarshalPoint env key of
        Inl e \<Rightarrow> (path, Inl e)
      | Inr bs \<Rightarrow> write_pem env (0x1B6 AND NOT umask) (key_pem PEMPublicKey name bs) path)"

definition SavePublicPEM :: "key_env \<Rightarrow> u32 \<Rightarrow> node option \<Rightarrow> pubkey \<Rightarrow> node option \<times> unit result" where
  "SavePublicPEM env umask path key = SaveNamedPublicPEM env umask path '''' key"

text \<open>GenerateKey, and what key:check prints of a file; ecdsa.GenerateKey is an argument.\<close>

definition GenerateKey :: "key_env \<Rightarrow> privkey result \<Rightarrow> node option \<Rightarrow> string \<Rightarrow> node option \<times> unit result" where
  "GenerateKey env generated path name =
     (case generated of Inl e \<Rightarrow> (path, Inl e) | Inr key \<Rightarrow> SaveNamedPrivatePEM env path name key)"

definition KeyCheck :: "key_env \<Rightarrow> node option \<Rightarrow> string result" where
  "KeyCheck env path = bindR (LoadPEM env path) (\<lambda>(val, _).
     Inr ((case val of LPrivate _ \<Rightarrow> ''private'' | LPublic _ \<Rightarrow> ''public'') @ '' key, 521 bits'' @ [CHR 0x0A]))"

section \<open>A directory of keys\<close>

record key_directory =
  PublicKeys :: "string \<Rightarrow> pubkey option"
  PrivateKeys :: "string \<Rightarrow> privkey option"

definition key_alias :: "string \<Rightarrow> string" where
  "key_alias name = (if HasSuffix name ''.pem'' then take (length name - 4) name else name)"

text \<open>The names under which a file is stored: its key's id, its own name, and the canonical name.\<close>

definition key_names :: "string \<Rightarrow> string \<Rightarrow> pem \<Rightarrow> string list" where
  "key_names keyid name blk = [keyid, key_alias name] @ (case map_of (PemHeaders blk) NameHeader of Some c \<Rightarrow> [c] | None \<Rightarrow> [])"

fun put_keys :: "string list \<Rightarrow> 'k \<Rightarrow> (string \<Rightarrow> 'k option) \<Rightarrow> string \<Rightarrow> 'k option" where
  "put_keys [] key m = m"
| "put_keys (n # ns) key m = put_keys ns key (m(n \<mapsto> key))"

fun loadKeys :: "key_env \<Rightarrow> (string \<times> node) list \<Rightarrow> key_directory \<Rightarrow> key_directory result" where
  "loadKeys env [] d = Inr d"
| "loadKeys env ((name, path) # ents) d =
     bindR (LoadPEM env (Some path)) (\<lambda>(val, blk).
       case val of
         LPrivate key \<Rightarrow>
           bindR (KeyId env (PublicOf key)) (\<lambda>keyid.
             loadKeys env ents (d\<lparr>PublicKeys := put_keys (key_names keyid name blk) (PublicOf key) (PublicKeys d),
               PrivateKeys := put_keys (key_names keyid name blk) key (PrivateKeys d)\<rparr>))
       | LPublic key \<Rightarrow>
           bindR (KeyId env key) (\<lambda>keyid.
             loadKeys env ents (d\<lparr>PublicKeys := put_keys (key_names keyid name blk) key (PublicKeys d)\<rparr>)))"

text \<open>NewDirectory: ReadDir sorts the entries by their names.\<close>

definition NewDirectory :: "key_env \<Rightarrow> node option \<Rightarrow> key_directory result" where
  "NewDirectory env path =
     (case path of
        None \<Rightarrow> Inl (Err (OtherErr ''no such file''))
      | Some (RegFile _ _) \<Rightarrow> Inl (Err (OtherErr ''path is not a directory''))
      | Some (DirNode ents) \<Rightarrow> loadKeys env (sort_key fst ents) \<lparr>PublicKeys = Map.empty, PrivateKeys = Map.empty\<rparr>)"

definition lookup_key :: "(string \<Rightarrow> 'k option) \<Rightarrow> string \<Rightarrow> 'k result" where
  "lookup_key m name = (case m name of Some k \<Rightarrow> Inr k | None \<Rightarrow> Inl (Err ErrUnknownKey))"

definition Directory_Get :: "key_directory \<Rightarrow> string \<Rightarrow> pubkey result" where
  "Directory_Get d = lookup_key (PublicKeys d)"

definition Directory_GetPrivate :: "key_directory \<Rightarrow> string \<Rightarrow> privkey result" where
  "Directory_GetPrivate d = lookup_key (PrivateKeys d)"

definition memoryKeys_Get :: "(string \<Rightarrow> pubkey option) \<Rightarrow> string \<Rightarrow> pubkey result" where
  "memoryKeys_Get m = lookup_key m"

text \<open>TestKeys: one key, for one name or for every name.\<close>

definition TestKeys_Get :: "string \<times> privkey \<Rightarrow> string \<Rightarrow> pubkey result" where
  "TestKeys_Get t name = (if fst t \<noteq> '''' \<and> fst t \<noteq> name then Inl (Err ErrUnknownKey) else Inr (PublicOf (snd t)))"

definition TestKeys_GetPrivate :: "string \<times> privkey \<Rightarrow> string \<Rightarrow> privkey result" where
  "TestKeys_GetPrivate t name = (if fst t \<noteq> '''' \<and> fst t \<noteq> name then Inl (Err ErrUnknownKey) else Inr (snd t))"

section \<open>The keys of a user\<close>

record user_keys =
  UserDir :: "key_directory option"
  GlobalDirs :: "key_directory list"
  ExplicitDir :: "key_directory option"

definition GlobalKeyDirs :: "string list" where
  "GlobalKeyDirs = [''/etc/cypress/keys'', ''/var/lib/cypress/keys'']"

text \<open>
  Setup: the receiver may be a nil pointer, and then every assignment to a field panics. The
  directory of the user is looked at if homedir.Dir failed, and then it is the home directory
  itself that is loaded.
\<close>

definition set_field :: "(user_keys \<Rightarrow> user_keys) \<Rightarrow> user_keys option \<Rightarrow> user_keys option result" where
  "set_field f u = (case u of None \<Rightarrow> Inl (Panic ''nil pointer dereference'') | Some u \<Rightarrow> Inr (Some (f u)))"

fun load_globals :: "key_env \<Rightarrow> (string \<Rightarrow> node option) \<Rightarrow> string list \<Rightarrow> user_keys option \<Rightarrow> user_keys option result" where
  "load_globals env fs [] u = Inr u"
| "load_globals env fs (gdir # gdirs) u =
     (if fs gdir = None then load_globals env fs gdirs u
      else bindR (NewDirectory env (fs gdir)) (\<lambda>d.
             bindR (set_field (\<lambda>u. u\<lparr>GlobalDirs := GlobalDirs u @ [d]\<rparr>) u) (load_globals env fs gdirs)))"

definition UserKeys_Setup :: "key_env \<Rightarrow> (string \<Rightarrow> node option) \<Rightarrow> string \<Rightarrow> string \<times> go_err option \<Rightarrow>
    user_keys option \<Rightarrow> user_keys option result" where
  "UserKeys_Setup env fs KEYDIR homedir u =
     bindR (if KEYDIR \<noteq> '''' then bindR (NewDirectory env (fs KEYDIR)) (\<lambda>d. set_field (\<lambda>u. u\<lparr>ExplicitDir := Some d\<rparr>) u) else Inr u) (\<lambda>u.
     bindR (case homedir of
              (dir, None) \<Rightarrow> Inr u
            | (dir, Some e) \<Rightarrow>
                if fs (dir @ ''/.cypress/keys'') = None then Inr u
                else bindR (NewDirectory env (fs dir)) (\<lambda>d. set_field (\<lambda>u. u\<lparr>UserDir := Some d\<rparr>) u)) (\<lambda>u.
     load_globals env fs GlobalKeyDirs u))"

text \<open>The lookup that Get and GetPrivate share: an explicit directory alone decides.\<close>

fun first_key :: "('d \<Rightarrow> string \<Rightarrow> 'k result) \<Rightarrow> 'd list \<Rightarrow> string \<Rightarrow> 'k result" where
  "first_key get [] name = Inl (Err ErrUnknownKey)"
| "first_key get (d # ds) name =
     (case get d name of Inr key \<Rightarrow> Inr key | Inl (Panic s) \<Rightarrow> Inl (Panic s) | Inl (Err e) \<Rightarrow> first_key get ds name)"

definition user_lookup :: "(key_directory \<Rightarrow> string \<Rightarrow> 'k result) \<Rightarrow> user_keys option \<Rightarrow> string \<Rightarrow> 'k result" where
  "user_lookup get u name =
     (case u of
        None \<Rightarrow> Inl (Panic ''nil pointer dereference'')
      | Some u \<Rightarrow>
          (case ExplicitDir u of
             Some d \<Rightarrow> get d name
           | None \<Rightarrow> first_key get ((case UserDir u of Some d \<Rightarrow> [d] | None \<Rightarrow> []) @ GlobalDirs u) name))"

definition UserKeys_Get :: "user_keys option \<Rightarrow> string \<Rightarrow> pubkey result" where
  "UserKeys_Get = user_lookup Directory_Get"

definition UserKeys_GetPrivate :: "user_keys option \<Rightarrow> string \<Rightarrow> privkey result" where
  "UserKeys_GetPrivate = user_lookup Directory_GetPrivate"

text \<open>default.go: the default keys are a nil pointer to UserKeys; log.Fatal ends the program.\<close>

definition defaultUserKeys :: "user_keys option" where "defaultUserKeys = None"

datatype default_keys = Fatal go_err | DefaultKeys "user_keys option"

definition Default :: "key_env \<Rightarrow> (string \<Rightarrow> node option) \<Rightarrow> string \<Rightarrow> string \<times> go_err option \<Rightarrow> default_keys result" where
  "Default env fs KEYDIR homedir =
     (case UserKeys_Setup env fs KEYDIR homedir defaultUserKeys of
        Inl (Panic s) \<Rightarrow> Inl (Panic s)
      | Inl (Err e) \<Rightarrow> Inr (Fatal e)
      | Inr u \<Rightarrow> Inr (DefaultKeys u))"

section \<open>What a directory gives\<close>

lemma put_keys_get: "put_keys ns key m n = (if n \<in> set ns then Some key else m n)"
  by (induction ns arbitrary: m) auto

text \<open>What a file is stored as, and under which names.\<close>

definition file_keys :: "key_env \<Rightarrow> string \<times> node \<Rightarrow> (loaded \<times> string list) result" where
  "file_keys env ent = bindR (LoadPEM env (Some (snd ent))) (\<lambda>(val, blk).
     bindR (KeyId env (case val of LPrivate key \<Rightarrow> PublicOf key | LPublic key \<Rightarrow> key)) (\<lambda>keyid.
       Inr (val, key_names keyid (fst ent) blk)))"

definition public_of :: "loaded \<Rightarrow> pubkey" where
  "public_of val = (case val of LPrivate key \<Rightarrow> PublicOf key | LPublic key \<Rightarrow> key)"

definition names_public :: "key_env \<Rightarrow> string \<Rightarrow> string \<times> node \<Rightarrow> pubkey option" where
  "names_public env n ent = (case file_keys env ent of
     Inr (val, ns) \<Rightarrow> if n \<in> set ns then Some (public_of val) else None | Inl e \<Rightarrow> None)"

definition names_private :: "key_env \<Rightarrow> string \<Rightarrow> string \<times> node \<Rightarrow> privkey option" where
  "names_private env n ent = (case file_keys env ent of
     Inr (LPrivate key, ns) \<Rightarrow> if n \<in> set ns then Some key else None | _ \<Rightarrow> None)"

text \<open>The last value that is there.\<close>

fun last_some :: "'a option list \<Rightarrow> 'a option \<Rightarrow> 'a option" where
  "last_some [] y = y"
| "last_some (x # xs) y = last_some xs (case x of None \<Rightarrow> y | Some z \<Rightarrow> Some z)"

lemma loadKeys_last:
  assumes "loadKeys env ents d = Inr d1"
  shows "PublicKeys d1 n = last_some (map (names_public env n) ents) (PublicKeys d n) \<and>
    PrivateKeys d1 n = last_some (map (names_private env n) ents) (PrivateKeys d n)"
  using assms
proof (induction env ents d rule: loadKeys.induct)
  case (2 env name path ents d)
  from "2.prems" obtain val blk where pem: "LoadPEM env (Some path) = Inr (val, blk)" by (auto simp: bindR_eq_Inr_iff)
  show ?case
  proof (cases val)
    case (LPrivate key)
    with "2.prems" pem obtain keyid where id: "KeyId env (PublicOf key) = Inr keyid" by (auto simp: bindR_eq_Inr_iff)
    with LPrivate pem have "file_keys env (name, path) = Inr (val, key_names keyid name blk)" by (simp add: file_keys_def)
    with "2.IH"(1) [OF pem refl LPrivate id] "2.prems" pem id LPrivate show ?thesis
      by (simp add: names_public_def names_private_def public_of_def put_keys_get)
  next
    case (LPublic key)
    with "2.prems" pem obtain keyid where id: "KeyId env key = Inr keyid" by (auto simp: bindR_eq_Inr_iff)
    with LPublic pem have "file_keys env (name, path) = Inr (val, key_names keyid name blk)" by (simp add: file_keys_def)
    with "2.IH"(2) [OF pem refl LPublic id] "2.prems" pem id LPublic show ?thesis
      by (simp add: names_public_def names_private_def public_of_def put_keys_get)
  qed
qed simp

lemma last_some_tail: "last_some (map f (xs @ x # ys)) y = Some z"
  if "f x = Some z" and "\<forall>x\<in>set ys. f x = None"
proof -
  have "last_some (map f ys) y = y" for y using that(2) by (induction ys arbitrary: y) auto
  then show ?thesis using that(1) by (induction xs arbitrary: y) auto
qed

lemma last_some_in: "last_some (map f xs) None = Some z \<Longrightarrow> \<exists>x\<in>set xs. f x = Some z"
proof -
  have "last_some (map f xs) y = Some z \<Longrightarrow> y = Some z \<or> (\<exists>x\<in>set xs. f x = Some z)" for y
    by (induction xs arbitrary: y) (fastforce split: option.splits)+
  then show "last_some (map f xs) None = Some z \<Longrightarrow> \<exists>x\<in>set xs. f x = Some z" by fastforce
qed

section \<open>The interface of keys\<close>

text \<open>Keys: both lookups are those of maps, and the error of an unknown name is the only one.\<close>

locale keys =
  fixes get :: "'s \<Rightarrow> string \<Rightarrow> pubkey result"
    and get_private :: "'s \<Rightarrow> string \<Rightarrow> privkey result"
    and public_keys :: "'s \<Rightarrow> string \<Rightarrow> pubkey option"
    and private_keys :: "'s \<Rightarrow> string \<Rightarrow> privkey option"
  assumes get: "get s name = lookup_key (public_keys s) name"
    and get_private: "get_private s name = lookup_key (private_keys s) name"
begin

lemma never_panics: "\<not> is_panic (get s name)" "\<not> is_panic (get_private s name)"
  by (simp_all add: get get_private lookup_key_def split: option.splits)

lemma unknown: "get s name = Inl e \<longleftrightarrow> public_keys s name = None \<and> e = Err ErrUnknownKey"
  by (auto simp: get lookup_key_def split: option.splits)

lemma known: "get s name = Inr key \<longleftrightarrow> public_keys s name = Some key"
  by (auto simp: get lookup_key_def split: option.splits)

end

interpretation dir_keys: keys Directory_Get Directory_GetPrivate PublicKeys PrivateKeys
  by unfold_locales (simp_all add: Directory_Get_def Directory_GetPrivate_def)

interpretation test_keys: keys TestKeys_Get TestKeys_GetPrivate
    "\<lambda>t name. if fst t \<noteq> '''' \<and> fst t \<noteq> name then None else Some (PublicOf (snd t))"
    "\<lambda>t name. if fst t \<noteq> '''' \<and> fst t \<noteq> name then None else Some (snd t)"
  by unfold_locales (auto simp: TestKeys_Get_def TestKeys_GetPrivate_def lookup_key_def)

text \<open>The keys of a user: the explicit directory, or the others in their order, earlier ones first.\<close>

definition layered :: "(key_directory \<Rightarrow> string \<Rightarrow> 'k option) \<Rightarrow> user_keys \<Rightarrow> string \<Rightarrow> 'k option" where
  "layered keys_of u =
     (case ExplicitDir u of
        Some d \<Rightarrow> keys_of d
      | None \<Rightarrow> foldr (\<lambda>d m. m ++ keys_of d) ((case UserDir u of Some d \<Rightarrow> [d] | None \<Rightarrow> []) @ GlobalDirs u) Map.empty)"

lemma first_key_layers:
  "first_key (\<lambda>d. lookup_key (keys_of d)) ds name = lookup_key (foldr (\<lambda>d m. m ++ keys_of d) ds Map.empty) name"
  by (induction ds) (auto simp: lookup_key_def map_add_def split: option.splits)

lemma user_lookup_layers:
  "user_lookup (\<lambda>d. lookup_key (keys_of d)) (Some u) name = lookup_key (layered keys_of u) name"
  by (simp add: user_lookup_def layered_def first_key_layers split: option.split)

interpretation own_keys: keys "\<lambda>u. UserKeys_Get (Some u)" "\<lambda>u. UserKeys_GetPrivate (Some u)"
    "layered PublicKeys" "layered PrivateKeys"
  by unfold_locales (simp_all add: UserKeys_Get_def UserKeys_GetPrivate_def Directory_Get_def [abs_def]
    Directory_GetPrivate_def [abs_def] user_lookup_layers)

section \<open>Properties\<close>

lemma NewDirectory_last:
  assumes "NewDirectory env (Some (DirNode ents)) = Inr d"
  shows "PublicKeys d n = last_some (map (names_public env n) (sort_key fst ents)) None"
    "PrivateKeys d n = last_some (map (names_private env n) (sort_key fst ents)) None"
  using assms loadKeys_last [of env "sort_key fst ents" _ d n] by (auto simp: NewDirectory_def)

text \<open>What PEM and the encoding of a key must do: a block and a key are read back as they were written.\<close>

definition codecs_of :: "key_env \<Rightarrow> string \<Rightarrow> privkey \<Rightarrow> bool" where
  "codecs_of env cname key \<longleftrightarrow>
     (\<exists>bs text. MarshalEC env key = Inr bs \<and> ParseEC env bs = Inr key \<and>
        PemEncode env (key_pem PEMPrivateKey cname bs) = (text, None) \<and>
        PemDecode env text = Some (key_pem PEMPrivateKey cname bs))"

lemma saved_private:
  assumes "codecs_of env cname key" and "case path of None \<Rightarrow> True | Some (RegFile _ p) \<Rightarrow> p AND 0x3F = 0 | _ \<Rightarrow> False"
  shows "snd (SaveNamedPrivatePEM env path cname key) = Inr ()"
    and "\<exists>blk. LoadPEM env (fst (SaveNamedPrivatePEM env path cname key)) = Inr (LPrivate key, blk) \<and>
      map_of (PemHeaders blk) NameHeader = (if cname = '''' then None else Some cname)"
proof -
  have perm: "(0x180 :: u32) AND 0x3F = 0" by code_simp

  obtain bs ptext where bs: "MarshalEC env key = Inr bs" "ParseEC env bs = Inr key"
      "PemEncode env (key_pem PEMPrivateKey cname bs) = (ptext, None)" "PemDecode env ptext = Some (key_pem PEMPrivateKey cname bs)"
    using assms(1) by (auto simp: codecs_of_def)
  obtain p where saved: "SaveNamedPrivatePEM env path cname key = (Some (RegFile ptext p), Inr ())" "p AND 0x3F = 0"
  proof (cases path)
    case None
    with bs perm that show ?thesis by (simp add: SaveNamedPrivatePEM_def write_pem_def)
  next
    case (Some x)
    with assms(2) obtain c q where "path = Some (RegFile c q)" "q AND 0x3F = 0" by (cases x) auto
    with bs that show ?thesis by (simp add: SaveNamedPrivatePEM_def write_pem_def)
  qed
  then show "snd (SaveNamedPrivatePEM env path cname key) = Inr ()" by simp
  show "\<exists>blk. LoadPEM env (fst (SaveNamedPrivatePEM env path cname key)) = Inr (LPrivate key, blk) \<and>
      map_of (PemHeaders blk) NameHeader = (if cname = '''' then None else Some cname)"
    using bs saved by (simp add: LoadPEM_def key_pem_def)
qed

text \<open>C24: A saved key is found again. A private key that is saved into a directory, as a new file or over one
  with permissions for its owner alone, is what that directory, if it loads, gives for the key's id, for the
  name of the file without .pem and for its canonical name, its public key for Get and itself for GetPrivate,
  as long as no file with a later name claims the same name.\<close>

theorem keystore_roundtrip:
  assumes "codecs_of env cname key"
    and "case path of None \<Rightarrow> True | Some (RegFile _ p) \<Rightarrow> p AND 0x3F = 0 | _ \<Rightarrow> False"
    and "fst (SaveNamedPrivatePEM env path cname key) = Some stored"
    and "NewDirectory env (Some (DirNode (before @ (fname, stored) # behind))) = Inr d" and "KeyId env (PublicOf key) = Inr keyid"
    and "n = keyid \<or> n = key_alias fname \<or> (cname \<noteq> '''' \<and> n = cname)"
    and "sort_key fst (before @ (fname, stored) # behind) = xs @ (fname, stored) # ys"
    and "\<forall>f\<in>set ys. names_public env n f = None \<and> names_private env n f = None"
  shows "snd (SaveNamedPrivatePEM env path cname key) = Inr () \<and>
    Directory_Get d n = Inr (PublicOf key) \<and> Directory_GetPrivate d n = Inr key"
proof -
  obtain blk where blk: "LoadPEM env (Some stored) = Inr (LPrivate key, blk)"
      "map_of (PemHeaders blk) NameHeader = (if cname = '''' then None else Some cname)"
    using saved_private(2) [OF assms(1,2)] assms(3) by auto
  then have fk: "file_keys env (fname, stored) = Inr (LPrivate key, key_names keyid fname blk)"
    using assms(5) by (simp add: file_keys_def)
  have n: "n \<in> set (key_names keyid fname blk)" using assms(6) blk(2) by (auto simp: key_names_def)
  have "PublicKeys d n = Some (PublicOf key)"
    unfolding NewDirectory_last(1) [OF assms(4)] assms(7)
    using fk n assms(8) by (intro last_some_tail) (auto simp: names_public_def public_of_def)
  moreover have "PrivateKeys d n = Some key"
    unfolding NewDirectory_last(2) [OF assms(4)] assms(7)
    using fk n assms(8) by (intro last_some_tail) (auto simp: names_private_def)
  ultimately show ?thesis
    using saved_private(1) [OF assms(1,2)] by (simp add: dir_keys.get dir_keys.get_private lookup_key_def)
qed

text \<open>The keys of a user form layers: an explicit directory alone decides; otherwise the directory of the
  user goes before the global ones in their order, as in maps laid over each other, for public and private keys.\<close>

lemma user_keys_layers:
  "UserKeys_Get (Some u) name = lookup_key (layered PublicKeys u) name \<and>
   UserKeys_GetPrivate (Some u) name = lookup_key (layered PrivateKeys u) name"
  using own_keys.get own_keys.get_private by blast

text \<open>The default keys cannot be used: whatever the environment and the files are, Default panics, ends
  the program, or returns a nil pointer whose lookups panic for every name.\<close>

lemma default_keys_unusable:
  "(\<exists>s. Default env fs KEYDIR homedir = Inl (Panic s)) \<or>
   (\<exists>e. Default env fs KEYDIR homedir = Inr (Fatal e)) \<or>
   (\<exists>u. Default env fs KEYDIR homedir = Inr (DefaultKeys u) \<and>
      (\<forall>name. is_panic (UserKeys_Get u name) \<and> is_panic (UserKeys_GetPrivate u name)))"
proof -
  have none: "set_field f None = Inr u1 \<Longrightarrow> u1 = None" for f u1 by (simp add: set_field_def)
  have globals: "load_globals env fs gdirs None = Inr u1 \<Longrightarrow> u1 = None" for gdirs u1
    by (induction gdirs) (auto simp: bindR_eq_Inr_iff set_field_def split: if_splits)
  have "UserKeys_Setup env fs KEYDIR homedir None = Inr u1 \<Longrightarrow> u1 = None" for u1
    by (auto simp: UserKeys_Setup_def bindR_eq_Inr_iff set_field_def split: if_splits prod.splits option.splits dest: globals)
  then show ?thesis
    by (cases "UserKeys_Setup env fs KEYDIR homedir None" rule: sum.exhaust)
      (auto simp: Default_def defaultUserKeys_def UserKeys_Get_def UserKeys_GetPrivate_def user_lookup_def split: fault.splits)
qed

section \<open>Witnesses\<close>

definition example_key :: privkey where
  "example_key = \<lparr>Secret = 5, PublicOf = PublicKey (Some (1, 2))\<rparr>"

text \<open>A PEM file is one byte here: 1 for the private key with the name main, 2 for a public key of that name.\<close>

definition example_keys :: key_env where
  "example_keys = \<lparr>MarshalPKIX = (\<lambda>k. Inr [if k = PublicOf example_key then 9 else 8]), Sha256 = id,
     ParseEC = (\<lambda>bs. Inr example_key), MarshalEC = (\<lambda>k. Inr [7]),
     UnmarshalPoint = (\<lambda>bs. Some (3, 4)), MarshalPoint = (\<lambda>k. Inr [4]),
     PemDecode = (\<lambda>bs. Some (key_pem (if bs = [2] then PEMPublicKey else PEMPrivateKey) ''main'' [7])),
     PemEncode = (\<lambda>pb. ([1], None))\<rparr>"

lemmas example_keys_simps = example_keys_def key_pem_def LoadPEM_def KeyId_def key_names_def NameHeader_def PEMPrivateKey_def
  PEMPublicKey_def key_alias_def HasSuffix_def

theorem keystore_roundtrip_witness:
  "\<exists>d. NewDirectory example_keys (Some (DirNode ([] @ (''k.pem'', RegFile [1] 0x180) # []))) = Inr d \<and>
     snd (SaveNamedPrivatePEM example_keys None ''main'' example_key) = Inr () \<and>
     Directory_Get d ''main'' = Inr (PublicKey (Some (1, 2))) \<and> Directory_GetPrivate d ''main'' = Inr example_key"
proof -
  have perm: "(0x180 :: u32) AND 0x3F = 0" by code_simp
  obtain d where d: "NewDirectory example_keys (Some (DirNode ([] @ (''k.pem'', RegFile [1] 0x180) # []))) = Inr d"
    by (simp add: NewDirectory_def perm example_keys_simps)
  have "snd (SaveNamedPrivatePEM example_keys None ''main'' example_key) = Inr () \<and>
     Directory_Get d ''main'' = Inr (PublicOf example_key) \<and> Directory_GetPrivate d ''main'' = Inr example_key"
    by (rule keystore_roundtrip [where stored = "RegFile [1] 0x180" and keyid = "b64_encode [9]" and xs = "[]" and ys = "[]", OF _ _ _ d])
      (simp_all add: codecs_of_def SaveNamedPrivatePEM_def write_pem_def example_keys_simps)
  with d show ?thesis by (simp add: example_key_def)
qed

text \<open>Public and private keys of one name can differ: a public key in a later file takes the name for Get only.\<close>

lemma private_public_differ:
  "\<exists>d. NewDirectory example_keys (Some (DirNode [(''a'', RegFile [1] 0x180), (''b'', RegFile [2] 0x1A4)])) = Inr d \<and>
     Directory_GetPrivate d ''main'' = Inr example_key \<and> Directory_Get d ''main'' \<noteq> Inr (PublicOf example_key)"
proof -
  have perm: "(0x180 :: u32) AND 0x3F = 0" by code_simp
  have order: "sort_key fst [(''a'', RegFile [1] 0x180), (''b'', RegFile [2] 0x1A4)] = [(''a'', RegFile [1] 0x180), (''b'', RegFile [2] 0x1A4)]"
    by code_simp
  show ?thesis
    unfolding NewDirectory_def order option.case node.case
    by (simp add: perm example_keys_simps example_key_def Directory_Get_def Directory_GetPrivate_def lookup_key_def)
qed

end
