(* ===== verification/S3.thy ===== *)
theory S3
  imports Spool Keystore JsonText
begin

text \<open>
  plugins/s3/: a spool whose rotated files are signed and put into a bucket, and the generator that
  reads the objects of a bucket. Parameters: MD5, the signatures, the JSON of a signature, and the
  answers of the server to the requests for a list and for an object.
\<close>

datatype s3_acl = Private | S3PublicRead | S3PublicReadWrite | AuthenticatedRead | BucketOwnerRead | BucketOwnerFull

definition validS3ACLs :: "string \<Rightarrow> s3_acl option" where
  "validS3ACLs = map_of
    [(''private'', Private), (''public-read'', S3PublicRead), (''public-read-write'', S3PublicReadWrite),
     (''authenticated-read'', AuthenticatedRead), (''bucket-owner-read'', BucketOwnerRead),
     (''bucket-owner-full-control'', BucketOwnerFull),
     (''public'', S3PublicRead), (''0644'', S3PublicRead), (''world-write'', S3PublicReadWrite),
     (''0666'', S3PublicReadWrite), (''auth-read'', AuthenticatedRead), (''0040'', AuthenticatedRead),
     (''owner-read'', BucketOwnerRead), (''0400'', BucketOwnerRead), (''owner'', BucketOwnerFull), (''0600'', BucketOwnerFull)]"

record s3_env =
  KeyEnv :: key_env
  Md5 :: "bytes \<Rightarrow> bytes"
  EcdsaSign :: "privkey \<Rightarrow> bytes \<Rightarrow> (int \<times> int) result"
  EcdsaVerify :: "pubkey \<Rightarrow> bytes \<Rightarrow> int \<Rightarrow> int \<Rightarrow> bool"
  SigJson :: "string \<Rightarrow> int \<Rightarrow> int \<Rightarrow> bytes result"
  SigOfJson :: "bytes \<Rightarrow> (string \<times> int option \<times> int option) option"

record s3_object =
  ObjBody :: bytes
  ObjMd5 :: string
  ObjMeta :: "(string \<times> string) list"
  ObjType :: string
  ObjACL :: s3_acl

record 'z s3 =
  ACL :: s3_acl
  Bucket :: "(string \<times> s3_object) list"
  S3Spool :: "'z spool"
  LastFile :: string
  SignKey :: "privkey option"

definition SignatureHeaderKey :: string where "SignatureHeaderKey = ''cypress-signature''"
definition SignatureHeader :: string where "SignatureHeader = ''x-amz-meta-'' @ SignatureHeaderKey"
definition BinaryLogContentType :: string where "BinaryLogContentType = ''application/vnd.vektra-binarylog''"

text \<open>Without a configured key nothing is signed; with one it is that of the store of keys.\<close>

definition S3_SignKey :: "(string \<Rightarrow> privkey result) \<Rightarrow> string \<Rightarrow> privkey option result" where
  "S3_SignKey get_private cfg = (if cfg = '''' then Inr None else bindR (get_private cfg) (\<lambda>k. Inr (Some k)))"

definition NewS3WithSpool :: "(string \<Rightarrow> privkey result) \<Rightarrow> string \<Rightarrow> s3_acl \<Rightarrow> (string \<times> s3_object) list \<Rightarrow> 'z spool \<Rightarrow> 'z s3 result" where
  "NewS3WithSpool get_private cfg acl bucket sp =
     bindR (S3_SignKey get_private cfg) (\<lambda>k.
       Inr \<lparr>ACL = acl, Bucket = bucket, S3Spool = sp, LastFile = '''', SignKey = k\<rparr>)"

definition SignWith :: "privkey option \<Rightarrow> 'z s3 \<Rightarrow> 'z s3" where
  "SignWith k s = s\<lparr>SignKey := k\<rparr>"

text \<open>The meta data of an upload: the signature of the sum of the file, if there is a key.\<close>

definition sign_meta :: "s3_env \<Rightarrow> privkey option \<Rightarrow> bytes \<Rightarrow> (string \<times> string) list result" where
  "sign_meta env k md =
     (case k of
        None \<Rightarrow> Inr []
      | Some key \<Rightarrow>
          bindR (EcdsaSign env key md) (\<lambda>(r, s).
          bindR (KeyId (KeyEnv env) (PublicOf key)) (\<lambda>keyid.
          bindR (SigJson env keyid r s) (\<lambda>jsdata.
            Inr [(SignatureHeaderKey, b64_encode jsdata)]))))"

text \<open>onRotate: content is the file, if it can be read; put_err is the answer to the upload.\<close>

definition onRotate :: "s3_env \<Rightarrow> bytes result \<Rightarrow> string \<Rightarrow> go_err option \<Rightarrow> 'z s3 \<Rightarrow> 'z s3 \<times> unit result" where
  "onRotate env content fileName put_err s =
     (case bindR content (\<lambda>data. bindR (sign_meta env (SignKey s) (Md5 env data)) (\<lambda>meta. Inr (data, meta))) of
        Inl e \<Rightarrow> (s, Inl e)
      | Inr (data, meta) \<Rightarrow>
          let s1 = s\<lparr>LastFile := fileName\<rparr>;
              obj = \<lparr>ObjBody = data, ObjMd5 = b64_encode (Md5 env data), ObjMeta = meta,
                     ObjType = BinaryLogContentType, ObjACL = ACL s\<rparr>
          in case put_err of
               Some e \<Rightarrow> (s1, Inl (Err e))
             | None \<Rightarrow> (s1\<lparr>Bucket := AList.update fileName obj (Bucket s)\<rparr>, Inr ()))"

text \<open>Rotate of the spool with this hook, whose error is dropped; only a panic gets through.\<close>

definition S3_Rotate :: "s3_env \<Rightarrow> ('ts, 'z) spool_env \<Rightarrow> string \<times> nat \<Rightarrow> string \<times> go_err option \<Rightarrow> 'z s3 \<Rightarrow>
    'z s3 \<times> unit result option" where
  "S3_Rotate env senv file up s =
     (let enc = fst (StreamEncoder_Flush (Codecs senv) (SEnc (S3Spool s))) in
      case onRotate env (Inr (Out (SE_W enc))) (fst up) (snd up) s of
        (s1, Inl (Panic e)) \<Rightarrow> (s1, Some (Inl (Panic e)))
      | (s1, _) \<Rightarrow> (case Rotate senv (fst file) (snd file) (S3Spool s) of (sp, r) \<Rightarrow> (s1\<lparr>S3Spool := sp\<rparr>, r)))"

definition S3_Receive :: "s3_env \<Rightarrow> ('ts, 'z) spool_env \<Rightarrow> 'ts printers \<Rightarrow> string \<times> nat \<Rightarrow> string \<times> go_err option \<Rightarrow>
    'ts message \<Rightarrow> 'z s3 \<Rightarrow> 'z s3 \<times> unit result option" where
  "S3_Receive env senv p file up m s =
     (let sp = S3Spool s in
      case StreamEncoder_Receive (Codecs senv) (Ops (Stream senv)) p (SEnc sp) m of
        (enc, Inl e) \<Rightarrow> (s\<lparr>S3Spool := sp\<lparr>SEnc := enc\<rparr>\<rparr>, Some (Inl e))
      | (enc, Inr _) \<Rightarrow>
          let s1 = s\<lparr>S3Spool := sp\<lparr>SEnc := enc\<rparr>\<rparr> in
          if PerFileSize sp \<le> StartSize sp + SE_Encoded enc then S3_Rotate env senv file up s1
          else (s1, Some (Inr ())))"

definition S3_Flush :: "('ts, 'z) spool_env \<Rightarrow> 'z s3 \<Rightarrow> 'z s3 \<times> unit result" where
  "S3_Flush senv s = (case Spool_Flush senv (S3Spool s) of (sp, r) \<Rightarrow> (s\<lparr>S3Spool := sp\<rparr>, r))"

definition S3_Close :: "('ts, 'z) spool_env \<Rightarrow> 'z s3 \<Rightarrow> 'z s3" where
  "S3_Close senv s = s\<lparr>S3Spool := Spool_Close senv (S3Spool s)\<rparr>"

section \<open>Signatures\<close>

text \<open>Keys is an interface that may be nil, R and S are pointers.\<close>

record s3_signature =
  SigKeys :: "(string \<Rightarrow> pubkey result) option"
  KeyID :: string
  SigR :: "int option"
  SigS :: "int option"

record s3_response =
  ETag :: string
  SigValue :: string
  Body :: bytes

fun hex_decode :: "string \<Rightarrow> bytes option" where
  "hex_decode [] = Some []"
| "hex_decode [c] = None"
| "hex_decode (c # d # s) =
     (case (hex_of c, hex_of d) of
        (Some x, Some y) \<Rightarrow> map_option ((#) (of_nat (16 * x + y))) (hex_decode s)
      | _ \<Rightarrow> None)"

definition ValidateETag :: "s3_env \<Rightarrow> s3_signature \<Rightarrow> s3_response \<Rightarrow> unit result" where
  "ValidateETag env sig resp =
     (if KeyID sig = '''' then Inr ()
      else if ETag resp = '''' then Inl (Err ErrMissingETag)
      else (case hex_decode (ETag resp) of
        None \<Rightarrow> Inl (Err (OtherErr ''encoding/hex''))
      | Some md \<Rightarrow>
          (case SigKeys sig of
             None \<Rightarrow> Inl (Panic ''nil pointer dereference'')
           | Some get \<Rightarrow>
               bindR (get (KeyID sig)) (\<lambda>pkey.
                 case (SigR sig, SigS sig) of
                   (Some r, Some s) \<Rightarrow> if EcdsaVerify env pkey md r s then Inr () else Inl (Err ErrInvalidSignature)
                 | _ \<Rightarrow> Inl (Panic ''nil pointer dereference'')))))"

section \<open>The generator\<close>

record s3_server =
  ListBucket :: "string \<Rightarrow> string \<Rightarrow> int \<Rightarrow> ((string \<times> string) list \<times> bool) result"
  GetObject :: "string \<Rightarrow> s3_response result"

record s3_gen =
  GKeys :: "(string \<Rightarrow> pubkey result) option"
  AllowUnsigned :: bool
  GList :: "((string \<times> string) list \<times> bool) option"
  GMarker :: string
  ListMax :: int
  GCur :: int
  GDec :: "stream_decoder option"
  GSig :: "s3_signature option"

definition extractSignature :: "s3_env \<Rightarrow> s3_gen \<Rightarrow> s3_response \<Rightarrow> s3_signature result" where
  "extractSignature env g resp =
     (if SigValue resp = '''' then
        (if AllowUnsigned g then Inr \<lparr>SigKeys = None, KeyID = '''', SigR = None, SigS = None\<rparr>
         else Inl (Err ErrMissingSignature))
      else (case Option.bind (b64_decode (SigValue resp)) (SigOfJson env) of
              None \<Rightarrow> Inl (Err ErrCorruptSignature)
            | Some (keyid, r, s) \<Rightarrow> Inr \<lparr>SigKeys = GKeys g, KeyID = keyid, SigR = r, SigS = s\<rparr>))"

definition updateList :: "s3_server \<Rightarrow> s3_gen \<Rightarrow> s3_gen \<times> unit result" where
  "updateList srv g =
     (case GList g of
        Some (_, False) \<Rightarrow> (g\<lparr>GList := None\<rparr>, Inr ())
      | _ \<Rightarrow>
          (case ListBucket srv ''@'' (GMarker g) (ListMax g) of
             Inl e \<Rightarrow> (g, Inl e)
           | Inr lst \<Rightarrow>
               (let g1 = g\<lparr>GList := Some lst\<rparr>
                in if fst lst \<noteq> [] then g1\<lparr>GMarker := fst (last (fst lst))\<rparr> else g1, Inr ())))"

definition NewS3Generator :: "s3_server \<Rightarrow> bool \<Rightarrow> s3_gen result" where
  "NewS3Generator srv allow =
     (case updateList srv \<lparr>GKeys = None, AllowUnsigned = allow, GList = None, GMarker = '''', ListMax = 100,
         GCur = -1, GDec = None, GSig = None\<rparr> of
        (g, Inl e) \<Rightarrow> Inl e
      | (g, Inr _) \<Rightarrow> Inr g)"

definition validClass :: "string \<Rightarrow> bool" where
  "validClass c = (c \<in> {'''', ''STANDARD'', ''REDUCED_REDUNDANCY''})"

text \<open>The part of Generate that looks for the next object: the counter goes up, and at the end of the list the next one is asked for.\<close>

definition s3_advance :: "s3_server \<Rightarrow> s3_gen \<Rightarrow> s3_gen \<times> unit result" where
  "s3_advance srv g =
     (let g1 = g\<lparr>GCur := GCur g + 1\<rparr> in
      case GList g1 of
        None \<Rightarrow> (g1, Inl (Panic ''nil pointer dereference''))
      | Some (contents, _) \<Rightarrow>
          if GCur g1 = int (length contents) then
            (case updateList srv g1 of
               (g2, Inl e) \<Rightarrow> (g2, Inl e)
             | (g2, Inr _) \<Rightarrow> if GList g2 = None then (g2, Inl (Err EOF)) else (g2\<lparr>GCur := 0\<rparr>, Inr ()))
          else (g1, Inr ()))"

text \<open>An object is opened if its class is one to be read and its signature is accepted.\<close>

definition s3_accept :: "s3_env \<Rightarrow> s3_server \<Rightarrow> s3_gen \<Rightarrow> string \<Rightarrow> (s3_signature \<times> s3_response) result" where
  "s3_accept env srv g key =
     bindR (GetObject srv key) (\<lambda>resp.
     bindR (extractSignature env g resp) (\<lambda>sig.
     bindR (ValidateETag env sig resp) (\<lambda>_. Inr (sig, resp))))"

definition s3_open :: "s3_env \<Rightarrow> s3_server \<Rightarrow> s3_gen \<Rightarrow> s3_gen \<times> unit result" where
  "s3_open env srv g =
     (case s3_advance srv g of
        (g1, Inl e) \<Rightarrow> (g1, Inl e)
      | (g1, Inr _) \<Rightarrow>
          (case go_index (fst (the (GList g1))) (GCur g1) of
             Inl e \<Rightarrow> (g1, Inl e)
           | Inr (key, cls) \<Rightarrow>
               if \<not> validClass cls then (g1, Inr ())
               else (case s3_accept env srv g1 key of
                  Inl e \<Rightarrow> (g1, Inl e)
                | Inr (sig, resp) \<Rightarrow> (g1\<lparr>GSig := Some sig, GDec := Some (open_source (Body resp))\<rparr>, Inr ()))))"

partial_function (option) S3_Generate :: "s3_env \<Rightarrow> ('ts, 'z) spool_env \<Rightarrow> s3_server \<Rightarrow> s3_gen \<Rightarrow>
    ('ts message option result \<times> s3_gen) option" where
  "S3_Generate env senv srv g =
     (case GDec g of
        None \<Rightarrow> (case s3_open env srv g of
            (g1, Inl e) \<Rightarrow> Some (Inl e, g1)
          | (g1, Inr _) \<Rightarrow> S3_Generate env senv srv g1)
      | Some d \<Rightarrow> (case StreamDecoder_Generate (Stream senv) (Codecs senv) d of
            (None, _) \<Rightarrow> None
          | (Some (Inr m), d1) \<Rightarrow> Some (Inr (Some m), g\<lparr>GDec := Some d1\<rparr>)
          | (Some (Inl e), d1) \<Rightarrow>
              if e = Err EOF then S3_Generate env senv srv (g\<lparr>GDec := None\<rparr>)
              else Some (Inl e, g\<lparr>GDec := Some d1\<rparr>)))"

definition s3_generator :: "s3_env \<Rightarrow> ('ts, 'z) spool_env \<Rightarrow> s3_server \<Rightarrow> ('ts, s3_gen) generator" where
  "s3_generator env senv srv = \<lparr>GGenerate = S3_Generate env senv srv, GClose = id\<rparr>"

section \<open>The plugin\<close>

definition S3_region :: "(string \<Rightarrow> 'r option) \<Rightarrow> (string \<Rightarrow> 'r option) \<Rightarrow> string \<Rightarrow> 'r result" where
  "S3_region regions extra name =
     (case regions name of Some r \<Rightarrow> Inr r
      | None \<Rightarrow> (case extra name of Some r \<Rightarrow> Inr r | None \<Rightarrow> Inl (Err (ErrInvalidAWSRegion name))))"

definition S3Plugin_Receiver :: "(string \<Rightarrow> 'r option) \<Rightarrow> string \<Rightarrow> string \<Rightarrow> (s3_acl \<times> 'r) result" where
  "S3Plugin_Receiver regions acl region =
     (case validS3ACLs acl of
        None \<Rightarrow> Inl (Err (ErrInvalidS3ACL acl))
      | Some a \<Rightarrow> bindR (S3_region regions Map.empty region) (\<lambda>r. Inr (a, r)))"

section \<open>Only what was accepted is read\<close>

text \<open>What a decoder has read: the messages since it was opened.\<close>

inductive reads :: "('ts, 'z) spool_env \<Rightarrow> stream_decoder \<Rightarrow> 'ts message list \<Rightarrow> stream_decoder \<Rightarrow> bool"
  for senv d0 where
  reads_none: "reads senv d0 [] d0"
| reads_more: "reads senv d0 ms d \<Longrightarrow> StreamDecoder_Generate (Stream senv) (Codecs senv) d = (Some (Inr m), d1) \<Longrightarrow>
    reads senv d0 (ms @ [m]) d1"
| reads_error: "reads senv d0 ms d \<Longrightarrow> StreamDecoder_Generate (Stream senv) (Codecs senv) d = (Some (Inl e), d1) \<Longrightarrow>
    reads senv d0 ms d1"

text \<open>The generators that can come about: from NewS3Generator, with keys set, by any calls of Generate.\<close>

inductive s3_reach :: "s3_env \<Rightarrow> ('ts, 'z) spool_env \<Rightarrow> s3_server \<Rightarrow> (string \<Rightarrow> pubkey result) option \<Rightarrow> bool \<Rightarrow> s3_gen \<Rightarrow> bool"
  for env senv srv ks allow where
  s3_start: "NewS3Generator srv allow = Inr g \<Longrightarrow> s3_reach env senv srv ks allow (g\<lparr>GKeys := ks\<rparr>)"
| s3_call: "s3_reach env senv srv ks allow g \<Longrightarrow> S3_Generate env senv srv g = Some (r, g1) \<Longrightarrow> s3_reach env senv srv ks allow g1"

definition s3_checked :: "s3_env \<Rightarrow> (string \<Rightarrow> pubkey result) option \<Rightarrow> bool \<Rightarrow> s3_response \<Rightarrow> s3_signature \<Rightarrow> bool" where
  "s3_checked env ks allow resp sig \<longleftrightarrow>
     (if SigValue resp = '''' then allow
      else KeyID sig = '''' \<or>
        (\<exists>get pkey md r s. ks = Some get \<and> get (KeyID sig) = Inr pkey \<and> hex_decode (ETag resp) = Some md \<and>
           SigR sig = Some r \<and> SigS sig = Some s \<and> EcdsaVerify env pkey md r s))"

definition s3_inv :: "s3_env \<Rightarrow> ('ts, 'z) spool_env \<Rightarrow> s3_server \<Rightarrow> (string \<Rightarrow> pubkey result) option \<Rightarrow> bool \<Rightarrow> 'ts message list \<Rightarrow> s3_gen \<Rightarrow> bool" where
  "s3_inv env senv srv ks allow ms g \<longleftrightarrow>
     GKeys g = ks \<and> AllowUnsigned g = allow \<and>
     (\<forall>d. GDec g = Some d \<longrightarrow>
        (\<exists>key resp sig. GetObject srv key = Inr resp \<and> GSig g = Some sig \<and> s3_checked env ks allow resp sig \<and>
           reads senv (open_source (Body resp)) ms d))"

lemma ValidateETag_ok:
  assumes "ValidateETag env sig resp = Inr ()" and "KeyID sig \<noteq> ''''"
  obtains get pkey md r s where "SigKeys sig = Some get" "get (KeyID sig) = Inr pkey" "hex_decode (ETag resp) = Some md"
    "SigR sig = Some r" "SigS sig = Some s" "EcdsaVerify env pkey md r s"
  using assms
  by (cases "hex_decode (ETag resp)"; cases "SigKeys sig"; cases "SigR sig"; cases "SigS sig")
    (auto simp: ValidateETag_def bindR_eq_Inr_iff split: if_splits)

lemma s3_accept_checked:
  assumes "s3_accept env srv g key = Inr (sig, resp)"
  shows "GetObject srv key = Inr resp \<and> s3_checked env (GKeys g) (AllowUnsigned g) resp sig"
proof -
  have acc: "extractSignature env g resp = Inr sig" "ValidateETag env sig resp = Inr ()" "GetObject srv key = Inr resp"
    using assms by (auto simp: s3_accept_def bindR_eq_Inr_iff)
  show ?thesis
  proof (cases "SigValue resp = '''' \<or> KeyID sig = ''''")
    case True
    with acc show ?thesis by (auto simp: s3_checked_def extractSignature_def split: if_splits)
  next
    case False
    then have "SigKeys sig = GKeys g" using acc(1) by (auto simp: extractSignature_def split: option.splits)
    moreover obtain get pkey md r s where "SigKeys sig = Some get" "get (KeyID sig) = Inr pkey" "hex_decode (ETag resp) = Some md"
      "SigR sig = Some r" "SigS sig = Some s" "EcdsaVerify env pkey md r s" using ValidateETag_ok [OF acc(2)] False by blast
    ultimately show ?thesis using False acc(3) unfolding s3_checked_def by metis
  qed
qed

lemma updateList_keeps:
  "updateList srv g = (g1, r) \<Longrightarrow> GKeys g1 = GKeys g \<and> AllowUnsigned g1 = AllowUnsigned g \<and> GDec g1 = GDec g \<and> GSig g1 = GSig g \<and> ListMax g1 = ListMax g"
  by (auto simp: updateList_def Let_def split: option.splits sum.splits bool.splits if_splits)

lemma s3_advance_keeps:
  "s3_advance srv g = (g1, r) \<Longrightarrow> GKeys g1 = GKeys g \<and> AllowUnsigned g1 = AllowUnsigned g \<and> GDec g1 = GDec g \<and> GSig g1 = GSig g"
  by (auto simp: s3_advance_def Let_def split: option.splits sum.splits if_splits prod.splits dest: updateList_keeps)

lemma s3_open_cases:
  assumes "s3_open env srv g = (g1, r)" and "s3_advance srv g = (ga, ra)"
  obtains "g1 = ga" | key sig resp where "s3_accept env srv ga key = Inr (sig, resp)"
    "g1 = ga\<lparr>GSig := Some sig, GDec := Some (open_source (Body resp))\<rparr>"
proof (cases "\<exists>key cls. ra = Inr () \<and> go_index (fst (the (GList ga))) (GCur ga) = Inr (key, cls) \<and> validClass cls")
  case True
  then obtain key cls where k: "ra = Inr ()" "go_index (fst (the (GList ga))) (GCur ga) = Inr (key, cls)" "validClass cls" by blast
  show thesis
  proof (cases "s3_accept env srv ga key")
    case (Inl e)
    with k assms that(1) show ?thesis by (simp add: s3_open_def)
  next
    case (Inr x)
    with k assms that(2) [of key "fst x" "snd x"] show ?thesis by (simp add: s3_open_def split: prod.splits)
  qed
next
  case False
  with assms have "g1 = ga"
    by (cases ra; cases "go_index (fst (the (GList ga))) (GCur ga)") (auto simp: s3_open_def split: prod.splits if_splits)
  then show thesis by (rule that(1))
qed

lemma s3_open_inv:
  assumes "s3_open env srv g = (g1, r)" and "GDec g = None" and "s3_inv env senv srv ks allow ms g"
  shows "s3_inv env senv srv ks allow [] g1"
proof -
  obtain ga ra where a: "s3_advance srv g = (ga, ra)" by fastforce
  with assms(3) s3_advance_keeps [OF this] assms(2)
  have ga: "GKeys ga = ks" "AllowUnsigned ga = allow" "GDec ga = None" by (auto simp: s3_inv_def)
  from assms(1) a show ?thesis
  proof (cases rule: s3_open_cases)
    case 1
    with ga show ?thesis by (simp add: s3_inv_def)
  next
    case (2 key sig resp)
    with s3_accept_checked [OF 2(1)] ga show ?thesis by (auto simp: s3_inv_def intro: reads_none)
  qed
qed

lemma s3_inv_step:
  assumes "s3_inv env senv srv ks allow ms g" and "GDec g = Some d" and "\<And>d0. reads senv d0 ms d \<Longrightarrow> reads senv d0 ms1 d1"
  shows "s3_inv env senv srv ks allow ms1 (g\<lparr>GDec := Some d1\<rparr>)"
  using assms by (simp add: s3_inv_def) blast

lemma S3_Generate_inv:
  assumes "S3_Generate env senv srv g = Some (r, g1)" and "s3_inv env senv srv ks allow ms g"
  shows "\<exists>ms. s3_inv env senv srv ks allow ms g1 \<and> (\<forall>m. r = Inr (Some m) \<longrightarrow> GDec g1 \<noteq> None \<and> ms \<noteq> [] \<and> last ms = m)"
proof -
  have "\<forall>ms. s3_inv env senv srv ks allow ms g \<longrightarrow>
      (\<exists>ms. s3_inv env senv srv ks allow ms (snd x) \<and> (\<forall>m. fst x = Inr (Some m) \<longrightarrow> GDec (snd x) \<noteq> None \<and> ms \<noteq> [] \<and> last ms = m))"
    if "S3_Generate env senv srv g = Some x" for x
  proof (rule S3_Generate.raw_induct [of "\<lambda>env senv srv g x. \<forall>ms. s3_inv env senv srv ks allow ms g \<longrightarrow>
      (\<exists>ms. s3_inv env senv srv ks allow ms (snd x) \<and> (\<forall>m. fst x = Inr (Some m) \<longrightarrow> GDec (snd x) \<noteq> None \<and> ms \<noteq> [] \<and> last ms = m))", OF _ that],
      goal_cases)
    case (1 gen env senv srv g x)
    show ?case
    proof (intro allI impI)
      fix ms assume inv: "s3_inv env senv srv ks allow ms g"
      show "\<exists>ms. s3_inv env senv srv ks allow ms (snd x) \<and> (\<forall>m. fst x = Inr (Some m) \<longrightarrow> GDec (snd x) \<noteq> None \<and> ms \<noteq> [] \<and> last ms = m)"
      proof (cases "GDec g")
        case None
        obtain ga ra where opened: "s3_open env srv g = (ga, ra)" by fastforce
        note inv1 = s3_open_inv [OF this None inv]
        from 1(2) None opened 1(1) [of env senv srv ga x] inv1 show ?thesis by (cases ra) auto
      next
        case (Some d)
        obtain y d1 where y: "StreamDecoder_Generate (Stream senv) (Codecs senv) d = (y, d1)" by fastforce
        have off: "s3_inv env senv srv ks allow [] (g\<lparr>GDec := None\<rparr>)" using inv by (simp add: s3_inv_def)
        have err: "s3_inv env senv srv ks allow ms (g\<lparr>GDec := Some d1\<rparr>)" if "y = Some (Inl e)" for e
          using inv Some by (rule s3_inv_step) (rule reads_error, assumption, use y that in simp)
        have msg: "s3_inv env senv srv ks allow (ms @ [m]) (g\<lparr>GDec := Some d1\<rparr>)" if "y = Some (Inr m)" for m
          using inv Some by (rule s3_inv_step) (rule reads_more, assumption, use y that in simp)
        show ?thesis
        proof (cases y)
          case None
          with 1(2) Some y show ?thesis by simp
        next
          case [simp]: (Some z)
          show ?thesis
          proof (cases z)
            case [simp]: (Inl e)
            show ?thesis
            proof (cases "e = Err EOF")
              case True
              with 1(2) \<open>GDec g = Some d\<close> y have "gen env senv srv (g\<lparr>GDec := None\<rparr>) = Some x" by simp
              from 1(1) [OF this] off show ?thesis by blast
            next
              case False
              with 1(2) \<open>GDec g = Some d\<close> y have "x = (Inl e, g\<lparr>GDec := Some d1\<rparr>)" by simp
              with err show ?thesis by auto
            qed
          next
            case [simp]: (Inr m)
            with 1(2) \<open>GDec g = Some d\<close> y have "x = (Inr (Some m), g\<lparr>GDec := Some d1\<rparr>)" by simp
            with msg [of m] show ?thesis by (intro exI [of _ "ms @ [m]"]) simp
          qed
        qed
      qed
    qed
  qed
  from this [OF assms(1)] assms(2) show ?thesis by auto
qed


section \<open>Reading all the objects\<close>

text \<open>A server that lists these keys, in their order, at most so many at a time, after a marker.\<close>

definition pages :: "s3_server \<Rightarrow> string list \<Rightarrow> bool" where
  "pages srv names \<longleftrightarrow> sorted_wrt (<) names \<and>
     (\<forall>marker n. 0 < n \<longrightarrow> ListBucket srv ''@'' marker (int n) =
        (let ks = filter (\<lambda>k. marker < k) names in Inr (map (\<lambda>k. (k, ''STANDARD'')) (take n ks), n < length ks)))"

definition s3_pending :: "string list \<Rightarrow> s3_gen \<Rightarrow> string list" where
  "s3_pending names g =
     (case GList g of
        None \<Rightarrow> []
      | Some (contents, trunc) \<Rightarrow> drop (nat (GCur g + 1)) (map fst contents) @ (if trunc then filter (\<lambda>k. GMarker g < k) names else []))"

definition s3_ready :: "string list \<Rightarrow> s3_gen \<Rightarrow> bool" where
  "s3_ready names g \<longleftrightarrow> ListMax g = 100 \<and>
     (\<exists>contents trunc. GList g = Some (contents, trunc) \<and> -1 \<le> GCur g \<and> GCur g < int (length contents) \<and>
        (\<forall>c\<in>set contents. validClass (snd c)) \<and> (trunc \<longrightarrow> filter (\<lambda>k. GMarker g < k) names \<noteq> []))"

lemma filter_after_take:
  assumes "sorted_wrt (<) names" and "filter (\<lambda>k. marker < k) names = ks" and "0 < n" and "ks \<noteq> []"
  shows "filter (\<lambda>k. last (take n ks) < (k :: string)) names = drop n ks"
proof -
  let ?l = "last (take n ks)"
  have "?l \<in> set (take n ks)" using assms(3,4) by (intro last_in_set) simp
  then have l: "?l \<in> set ks" "marker < ?l" using assms(2) by (auto dest: in_set_takeD)
  have "filter (\<lambda>k. ?l < k) names = filter (\<lambda>k. ?l < k) ks"
    unfolding assms(2) [symmetric] filter_filter unfolding assms(2)
    using less_trans [OF l(2)] by (intro filter_cong refl) auto
  also have "\<dots> = filter (\<lambda>k. ?l < k) (take n ks) @ filter (\<lambda>k. ?l < k) (drop n ks)"
    by (metis append_take_drop_id filter_append)
  also have "filter (\<lambda>k. ?l < k) (take n ks) = []"
  proof -
    have s: "sorted_wrt (<) ks" unfolding assms(2) [symmetric] by (rule sorted_wrt_filter [OF assms(1)])
    have "\<not> ?l < x" if "x \<in> set (take n ks)" for x
    proof -
      have "take n ks = butlast (take n ks) @ [?l]" using assms(3,4) by simp
      moreover have "sorted_wrt (<) (take n ks)" using s by (rule sorted_wrt_take)
      ultimately have "\<forall>y\<in>set (butlast (take n ks)). y < ?l" by (metis sorted_wrt_append list.set_intros(1))
      with that \<open>take n ks = _\<close> show ?thesis by (metis (no_types, lifting) Un_iff empty_iff empty_set insert_iff less_asym less_irrefl list.simps(15) set_append)
    qed
    then show ?thesis by (simp add: filter_empty_conv)
  qed
  also have "filter (\<lambda>k. ?l < k) (drop n ks) = drop n ks"
  proof -
    have "sorted_wrt (<) (take n ks @ drop n ks)" unfolding append_take_drop_id assms(2) [symmetric] by (rule sorted_wrt_filter [OF assms(1)])
    then have "\<forall>y\<in>set (drop n ks). ?l < y" using \<open>?l \<in> set (take n ks)\<close> unfolding sorted_wrt_append by blast
    then show ?thesis by (simp add: filter_id_conv)
  qed
  finally show ?thesis by simp
qed

lemma s3_advance_next:
  assumes "pages srv names" and "s3_ready names g" and "s3_pending names g = k # ks"
  obtains g1 cls where "s3_advance srv g = (g1, Inr ())" and "s3_ready names g1" and "s3_pending names g1 = ks"
    and "go_index (fst (the (GList g1))) (GCur g1) = Inr (k, cls)" and "validClass cls"
proof -
  obtain contents trunc where g: "ListMax g = 100" "GList g = Some (contents, trunc)" "-1 \<le> GCur g" "GCur g < int (length contents)"
      "\<forall>c\<in>set contents. validClass (snd c)" "trunc \<longrightarrow> filter (\<lambda>k. GMarker g < k) names \<noteq> []"
    using assms(2) by (auto simp: s3_ready_def)
  show thesis
  proof (cases "GCur g + 1 = int (length contents)")
    case False
    let ?i = "nat (GCur g + 1)"
    have i: "?i < length contents" "int ?i = GCur g + 1" using False g(3,4) by auto
    have "drop ?i (map fst contents) = fst (contents ! ?i) # drop (Suc ?i) (map fst contents)"
      using i(1) by (simp add: Cons_nth_drop_Suc [symmetric])
    moreover have "nat (GCur g + 1 + 1) = Suc ?i" using g(3) by simp
    ultimately have "fst (contents ! ?i) = k" "s3_pending names (g\<lparr>GCur := GCur g + 1\<rparr>) = ks"
      using assms(3) g(2) by (auto simp: s3_pending_def)
    moreover have "s3_ready names (g\<lparr>GCur := GCur g + 1\<rparr>)"
    proof -
      have "-1 \<le> GCur g + 1" "GCur g + 1 < int (length contents)" using False g(3,4) by linarith+
      then show ?thesis unfolding s3_ready_def using g by (intro conjI exI [of _ contents] exI [of _ trunc]) simp_all
    qed
    moreover have "go_index contents (GCur g + 1) = Inr (contents ! ?i)"
    proof -
      have "0 \<le> GCur g + 1" "GCur g + 1 < int (length contents)" using False g(3,4) by linarith+
      then show ?thesis by (simp add: go_index_def)
    qed
    ultimately show thesis
      using that [of "g\<lparr>GCur := GCur g + 1\<rparr>" "snd (contents ! ?i)"] False g(2,5) i(1)
      by (auto simp: s3_advance_def Let_def)
  next
    case True
    let ?ks = "filter (\<lambda>k. GMarker g < k) names"
    from True have nil: "drop (nat (GCur g + 1)) (map fst contents) = []" by simp
    with assms(3) g(2) have tr: "trunc" "?ks = k # ks" by (auto simp: s3_pending_def split: if_splits)
    let ?lst = "map (\<lambda>k. (k, ''STANDARD'')) (take 100 ?ks)"
    let ?g1 = "g\<lparr>GCur := 0, GList := Some (?lst, 100 < length ?ks), GMarker := last (take 100 ?ks)\<rparr>"
    have "ListBucket srv ''@'' (GMarker g) (int 100) = Inr (?lst, 100 < length ?ks)"
      using assms(1) unfolding pages_def Let_def by (metis zero_less_numeral of_nat_numeral)
    then have adv: "s3_advance srv g = (?g1, Inr ())"
      using True g(1,2) tr by (simp add: s3_advance_def updateList_def Let_def last_map)
    have "sorted_wrt (<) names" using assms(1) by (simp add: pages_def)
    from filter_after_take [OF this refl, of 100 "GMarker g"] tr(2)
    have after: "filter (\<lambda>k. last (take 100 ?ks) < k) names = drop 100 ?ks" by simp
    have "s3_pending names ?g1 = drop 1 (take 100 ?ks) @ drop 100 ?ks"
      using after by (auto simp: s3_pending_def comp_def)
    also have "\<dots> = ks" using tr(2) by (simp add: drop_Cons')
    finally have "s3_pending names ?g1 = ks" .
    moreover have "s3_ready names ?g1"
      using g(1) tr(2) after by (auto simp: s3_ready_def validClass_def)
    moreover have "go_index ?lst 0 = Inr (k, ''STANDARD'')" using tr(2) by (simp add: go_index_def)
    ultimately show thesis using that [of ?g1 "''STANDARD''"] adv by (simp add: validClass_def)
  qed
qed

text \<open>What a generator is to give: the rest of the open object, then the pending ones.\<close>

definition object_gives :: "s3_env \<Rightarrow> ('ts, 'z) spool_env \<Rightarrow> s3_server \<Rightarrow> s3_gen \<Rightarrow> string \<Rightarrow> 'ts message list \<Rightarrow> bool" where
  "object_gives env senv srv g key fs \<longleftrightarrow>
     (\<exists>sig resp. s3_accept env srv g key = Inr (sig, resp) \<and>
        stream_gives (Stream senv) (Codecs senv) (open_source (Body resp)) fs)"

lemma s3_accept_cong:
  "GKeys g1 = GKeys g \<Longrightarrow> AllowUnsigned g1 = AllowUnsigned g \<Longrightarrow> object_gives env senv srv g1 = object_gives env senv srv g"
proof -
  assume "GKeys g1 = GKeys g" "AllowUnsigned g1 = AllowUnsigned g"
  then have "extractSignature env g1 = extractSignature env g" by (intro ext) (simp add: extractSignature_def split: option.split)
  then show ?thesis by (intro ext) (simp add: object_gives_def s3_accept_def)
qed

definition s3_gives :: "s3_env \<Rightarrow> ('ts, 'z) spool_env \<Rightarrow> s3_server \<Rightarrow> string list \<Rightarrow> s3_gen \<Rightarrow> 'ts message list \<Rightarrow> bool" where
  "s3_gives env senv srv names g ms \<longleftrightarrow> pages srv names \<and> s3_ready names g \<and>
     (\<exists>cur fss. ms = cur @ concat fss \<and> list_all2 (object_gives env senv srv g) (s3_pending names g) fss \<and>
        (case GDec g of None \<Rightarrow> cur = [] | Some d \<Rightarrow> stream_gives (Stream senv) (Codecs senv) d cur))"

lemma s3_ready_dec [simp]: "s3_ready names (g\<lparr>GDec := d\<rparr>) = s3_ready names g" "s3_ready names (g\<lparr>GSig := s\<rparr>) = s3_ready names g"
  by (simp_all add: s3_ready_def)

lemma s3_pending_dec [simp]: "s3_pending names (g\<lparr>GDec := d\<rparr>) = s3_pending names g" "s3_pending names (g\<lparr>GSig := s\<rparr>) = s3_pending names g"
  by (simp_all add: s3_pending_def split: option.split)

lemma s3_open_next:
  assumes "pages srv names" and "s3_ready names g" and "s3_pending names g = k # ks" and "object_gives env senv srv g k fs"
  obtains g1 d where "s3_open env srv g = (g1, Inr ())" and "GDec g1 = Some d" and "s3_ready names g1" and "s3_pending names g1 = ks"
    and "GKeys g1 = GKeys g" "AllowUnsigned g1 = AllowUnsigned g" and "stream_gives (Stream senv) (Codecs senv) d fs"
proof -
  obtain ga cls where ga: "s3_advance srv g = (ga, Inr ())" "s3_ready names ga" "s3_pending names ga = ks"
    "go_index (fst (the (GList ga))) (GCur ga) = Inr (k, cls)" "validClass cls"
    using s3_advance_next [OF assms(1-3)] by metis
  note keeps = s3_advance_keeps [OF ga(1)]
  with assms(4) have "object_gives env senv srv ga k fs" using s3_accept_cong [of ga g env senv srv] by simp
  then obtain sig resp where acc: "s3_accept env srv ga k = Inr (sig, resp)"
      "stream_gives (Stream senv) (Codecs senv) (open_source (Body resp)) fs"
    by (auto simp: object_gives_def)
  with ga(1,4,5) have "s3_open env srv g = (ga\<lparr>GSig := Some sig, GDec := Some (open_source (Body resp))\<rparr>, Inr ())"
    by (simp add: s3_open_def)
  from that [OF this] ga keeps acc(2) show thesis by simp
qed

lemma s3_open_end:
  assumes "s3_ready names g" and "s3_pending names g = []"
  shows "\<exists>g1. s3_open env srv g = (g1, Inl (Err EOF))"
proof -
  obtain contents trunc where g: "GList g = Some (contents, trunc)" "GCur g < int (length contents)" "-1 \<le> GCur g"
      "trunc \<longrightarrow> filter (\<lambda>k. GMarker g < k) names \<noteq> []"
    using assms(1) by (auto simp: s3_ready_def)
  with assms(2) have "\<not> trunc" "length contents \<le> nat (GCur g + 1)" by (auto simp: s3_pending_def split: if_splits)
  with g have "s3_advance srv g = (g\<lparr>GCur := GCur g + 1, GList := None\<rparr>, Inl (Err EOF))"
    by (simp add: s3_advance_def updateList_def Let_def)
  then show ?thesis by (simp add: s3_open_def)
qed

lemma S3_Generate_gives:
  assumes "s3_gives env senv srv names g ms"
  shows "case ms of [] \<Rightarrow> \<exists>g1. S3_Generate env senv srv g = Some (Inl (Err EOF), g1)
    | m # ms' \<Rightarrow> \<exists>g1. S3_Generate env senv srv g = Some (Inr (Some m), g1) \<and> s3_gives env senv srv names g1 ms'"
  using assms
proof (induction "2 * length (s3_pending names g) + (if GDec g = None then 0 else 1)" arbitrary: g rule: less_induct)
  case less
  let ?goal = "\<lambda>g. case ms of [] \<Rightarrow> \<exists>g1. S3_Generate env senv srv g = Some (Inl (Err EOF), g1)
    | m # ms' \<Rightarrow> \<exists>g1. S3_Generate env senv srv g = Some (Inr (Some m), g1) \<and> s3_gives env senv srv names g1 ms'"
  from less.prems obtain cur fss where pg: "pages srv names" and ready: "s3_ready names g" and ms: "ms = cur @ concat fss"
    and fss: "list_all2 (object_gives env senv srv g) (s3_pending names g) fss"
    and dec: "case GDec g of None \<Rightarrow> cur = [] | Some d \<Rightarrow> stream_gives (Stream senv) (Codecs senv) d cur"
    by (auto simp: s3_gives_def)
  have onward: "?goal g" if "S3_Generate env senv srv g = S3_Generate env senv srv g1" "s3_gives env senv srv names g1 ms"
      "2 * length (s3_pending names g1) + (if GDec g1 = None then 0 else 1) < 2 * length (s3_pending names g) + (if GDec g = None then 0 else 1 :: nat)" for g1
    unfolding that(1) by (rule less.hyps [OF that(3,2)])
  show ?case
  proof (cases "GDec g")
    case None
    with dec ms have ms: "ms = concat fss" by simp
    show ?thesis
    proof (cases "s3_pending names g")
      case Nil
      then obtain g1 where "s3_open env srv g = (g1, Inl (Err EOF))" using s3_open_end [OF ready] by blast
      with None have "S3_Generate env senv srv g = Some (Inl (Err EOF), g1)" by (subst S3_Generate.simps) simp
      with Nil fss ms show ?thesis by simp
    next
      case (Cons k ks)
      with fss obtain fs fss' where fs: "fss = fs # fss'" "object_gives env senv srv g k fs" "list_all2 (object_gives env senv srv g) ks fss'"
        by (auto simp: list_all2_Cons1)
      obtain g1 d where g1: "s3_open env srv g = (g1, Inr ())" "GDec g1 = Some d" "s3_ready names g1" "s3_pending names g1 = ks"
          "GKeys g1 = GKeys g" "AllowUnsigned g1 = AllowUnsigned g" "stream_gives (Stream senv) (Codecs senv) d fs"
        using s3_open_next [OF pg ready Cons fs(2)] by metis
      have "S3_Generate env senv srv g = S3_Generate env senv srv g1" using None g1(1) by (subst S3_Generate.simps) simp
      moreover have "s3_gives env senv srv names g1 ms"
        unfolding s3_gives_def using pg g1 fs ms s3_accept_cong [OF g1(5,6), of env senv srv] by (intro conjI exI [of _ fs] exI [of _ fss']) simp_all
      ultimately show ?thesis using onward [of g1] None Cons g1(2,4) by simp
    qed
  next
    case (Some d)
    with dec have d: "stream_gives (Stream senv) (Codecs senv) d cur" by simp
    show ?thesis
    proof (cases cur)
      case Nil
      with d obtain d1 where "StreamDecoder_Generate (Stream senv) (Codecs senv) d = (Some (Inl (Err EOF)), d1)"
        by (auto elim: stream_gives_end)
      with Some have "S3_Generate env senv srv g = S3_Generate env senv srv (g\<lparr>GDec := None\<rparr>)" by (subst S3_Generate.simps) simp
      moreover have "s3_gives env senv srv names (g\<lparr>GDec := None\<rparr>) ms"
        unfolding s3_gives_def using pg ready ms fss Nil s3_accept_cong [of "g\<lparr>GDec := None\<rparr>" g env senv srv] by auto
      ultimately show ?thesis using onward [of "g\<lparr>GDec := None\<rparr>"] Some by simp
    next
      case (Cons m cur')
      with d obtain d1 where d1: "StreamDecoder_Generate (Stream senv) (Codecs senv) d = (Some (Inr m), d1)"
          "stream_gives (Stream senv) (Codecs senv) d1 cur'"
        by (auto elim: stream_gives_more)
      with Some have "S3_Generate env senv srv g = Some (Inr (Some m), g\<lparr>GDec := Some d1\<rparr>)" by (subst S3_Generate.simps) simp
      moreover have "s3_gives env senv srv names (g\<lparr>GDec := Some d1\<rparr>) (cur' @ concat fss)"
        unfolding s3_gives_def using pg ready fss d1(2) s3_accept_cong [of "g\<lparr>GDec := Some d1\<rparr>" g env senv srv] by auto
      ultimately show ?thesis using Cons ms by simp
    qed
  qed
qed

interpretation s3_source: message_source "s3_generator env senv srv" "s3_gives env senv srv names"
proof
  show "\<exists>g1. GGenerate (s3_generator env senv srv) g = Some (Inr (Some m), g1) \<and> s3_gives env senv srv names g1 ms"
    if "s3_gives env senv srv names g (m # ms)" for g m ms
    using S3_Generate_gives [OF that] by (simp add: s3_generator_def)
  show "\<exists>g1. GGenerate (s3_generator env senv srv) g = Some (Inl (Err EOF), g1)" if "s3_gives env senv srv names g []" for g
    using S3_Generate_gives [OF that] by (simp add: s3_generator_def)
qed

interpretation s3_pipe: pipe "s3_generator env senv srv" "s3_gives env senv srv names" BufferReceiver non_nil "\<lambda>b n. True" ..

section \<open>From the uploads to the generator\<close>

definition hex_encode :: "bytes \<Rightarrow> string" where
  "hex_encode bs = concat (map (\<lambda>b. [hex_digit (unat b div 16), hex_digit (unat b mod 16)]) bs)"

lemma hex_decode_encode: "hex_decode (hex_encode bs) = Some bs"
proof (induction bs)
  case (Cons b bs)
  have "unat b div 16 < 16" "unat b mod 16 < 16" using unsigned_less [of b, where 'a = nat] by auto
  moreover have "(of_nat (16 * (unat b div 16) + unat b mod 16) :: byte) = b" by (simp only: mult_div_mod_eq) simp
  ultimately show ?case using Cons by (simp add: hex_encode_def hex_of_digit del: of_nat_add of_nat_mult)
qed (simp add: hex_encode_def)

text \<open>A server as S3 documents it: the ETag is the MD5 of the body in hexadecimal, the meta data come back as they were sent.\<close>

definition serves :: "s3_env \<Rightarrow> s3_server \<Rightarrow> (string \<times> s3_object) list \<Rightarrow> bool" where
  "serves env srv bucket \<longleftrightarrow> pages srv (filter (\<lambda>k. HasPrefix k ''@'') (map fst bucket)) \<and>
     (\<forall>(k, obj)\<in>set bucket. GetObject srv k = Inr \<lparr>ETag = hex_encode (Md5 env (ObjBody obj)),
        SigValue = (case map_of (ObjMeta obj) SignatureHeaderKey of Some v \<Rightarrow> v | None \<Rightarrow> ''''), Body = ObjBody obj\<rparr>)"

text \<open>What signing relies on: a signature verifies under its public key, the JSON of a signature is read back and is not
  empty, nor is a sum.\<close>

definition signature_laws :: "s3_env \<Rightarrow> privkey \<Rightarrow> bool" where
  "signature_laws env key \<longleftrightarrow>
     (\<forall>md r s. EcdsaSign env key md = Inr (r, s) \<longrightarrow> EcdsaVerify env (PublicOf key) md r s) \<and>
     (\<forall>keyid r s js. SigJson env keyid r s = Inr js \<longrightarrow> js \<noteq> [] \<and> SigOfJson env js = Some (keyid, Some r, Some s)) \<and>
     (\<forall>data. Md5 env data \<noteq> [])"

definition signed_ok :: "s3_env \<Rightarrow> privkey option \<Rightarrow> s3_object \<Rightarrow> bool" where
  "signed_ok env k obj \<longleftrightarrow> sign_meta env k (Md5 env (ObjBody obj)) = Inr (ObjMeta obj)"

lemma b64_encode_nonempty: "bs \<noteq> [] \<Longrightarrow> b64_encode bs \<noteq> ''''"
  by (metis b64_decode_encode b64_encode.simps(1) option.inject)

text \<open>Any store of keys in which the public key is found under its id accepts what its private key has signed.\<close>

context keys
begin

lemma accepts_signed:
  assumes "signature_laws env key" and "signed_ok env (Some key) obj" and "serves env srv bucket" and "(k, obj) \<in> set bucket"
    and "\<And>keyid. KeyId (KeyEnv env) (PublicOf key) = Inr keyid \<Longrightarrow> public_keys st keyid = Some (PublicOf key)"
    and "GKeys g = Some (get st)"
  shows "\<exists>sig resp. s3_accept env srv g k = Inr (sig, resp) \<and> Body resp = ObjBody obj"
proof -
  let ?md = "Md5 env (ObjBody obj)"
  obtain r s keyid js where sig: "EcdsaSign env key ?md = Inr (r, s)" "KeyId (KeyEnv env) (PublicOf key) = Inr keyid"
      "SigJson env keyid r s = Inr js" "ObjMeta obj = [(SignatureHeaderKey, b64_encode js)]"
    using assms(2) by (auto simp: signed_ok_def sign_meta_def bindR_eq_Inr_iff)
  have laws: "EcdsaVerify env (PublicOf key) ?md r s" "js \<noteq> []" "SigOfJson env js = Some (keyid, Some r, Some s)" "?md \<noteq> []"
    using assms(1) sig(1,3) by (auto simp: signature_laws_def)
  have etag: "hex_encode ?md \<noteq> ''''" using laws(4) by (cases ?md) (simp_all add: hex_encode_def)
  have obj: "GetObject srv k = Inr \<lparr>ETag = hex_encode ?md, SigValue = b64_encode js, Body = ObjBody obj\<rparr>"
    using assms(3,4) sig(4) by (auto simp: serves_def)
  have key: "get st keyid = Inr (PublicOf key)" using assms(5) [OF sig(2)] by (simp add: known)
  show ?thesis
    using laws etag obj key assms(6) b64_encode_nonempty [OF laws(2)]
    by (simp add: s3_accept_def extractSignature_def ValidateETag_def hex_decode_encode)
qed

end

lemma accepts_unsigned:
  assumes "signed_ok env None obj" and "serves env srv bucket" and "(k, obj) \<in> set bucket" and "AllowUnsigned g"
  shows "\<exists>sig resp. s3_accept env srv g k = Inr (sig, resp) \<and> Body resp = ObjBody obj"
proof -
  have "GetObject srv k = Inr \<lparr>ETag = hex_encode (Md5 env (ObjBody obj)), SigValue = '''', Body = ObjBody obj\<rparr>"
    using assms(1-3) by (auto simp: serves_def signed_ok_def sign_meta_def)
  with assms(4) show ?thesis by (simp add: s3_accept_def extractSignature_def ValidateETag_def)
qed

text \<open>What is in the bucket, and what is still in the current file of the spool.\<close>

definition s3_holds :: "s3_env \<Rightarrow> ('ts, 'z) spool_env \<Rightarrow> privkey option \<Rightarrow> 'z s3 \<Rightarrow> 'ts message list list \<Rightarrow> 'ts message list \<Rightarrow> bool" where
  "s3_holds env senv k s mss cur \<longleftrightarrow>
     SignKey s = k \<and> sorted_wrt (<) (map fst (Bucket s)) \<and> (\<forall>n\<in>fst ` set (Bucket s). HasPrefix n ''@'') \<and>
     list_all2 (\<lambda>(key, obj) fs. signed_ok env k obj \<and>
        stream_gives (Stream senv) (Codecs senv) (open_source (ObjBody obj)) fs) (Bucket s) mss \<and>
     holds_frames (Codecs senv) (Ops (Stream senv)) (header_bytes spool_header) StreamHeader_SNAPPY (SEnc (S3Spool s)) cur"

definition signs :: "s3_env \<Rightarrow> privkey option \<Rightarrow> bool" where
  "signs env k \<longleftrightarrow> (\<forall>data. \<exists>meta. sign_meta env k (Md5 env data) = Inr meta)"

lemma S3_Rotate_holds:
  assumes "S3_Rotate env senv rot (label, None) s = (s1, Some (Inr ()))" and "s3_holds env senv k s mss cur"
    and "snd (StreamEncoder_Flush (Codecs senv) (SEnc (S3Spool s))) = Inr ()" and "signs env k"
    and "HasPrefix label ''@''" and "\<forall>n\<in>fst ` set (Bucket s). n < label"
    and "ts_laws (Ops (Stream senv))" and "codec_laws (Codecs senv)" and "list_all (streamable (Stream senv)) cur"
  shows "s3_holds env senv k s1 (mss @ [cur]) []"
proof -
  from assms(2) have k: "SignKey s = k" and names: "sorted_wrt (<) (map fst (Bucket s))" "\<forall>n\<in>fst ` set (Bucket s). HasPrefix n ''@''"
    and objs: "list_all2 (\<lambda>(key, obj) fs. signed_ok env k obj \<and> stream_gives (Stream senv) (Codecs senv) (open_source (ObjBody obj)) fs) (Bucket s) mss"
    and cur: "holds_frames (Codecs senv) (Ops (Stream senv)) (header_bytes spool_header) StreamHeader_SNAPPY (SEnc (S3Spool s)) cur"
    by (auto simp: s3_holds_def)
  obtain enc where enc: "StreamEncoder_Flush (Codecs senv) (SEnc (S3Spool s)) = (enc, Inr ())" using assms(3) by (metis prod.collapse)
  let ?data = "Out (SE_W enc)"
  have gives: "stream_gives (Stream senv) (Codecs senv) (open_source ?data) cur"
    using holds_gives [of "Codecs senv" "Stream senv" spool_header "SEnc (S3Spool s)" cur enc] cur snappy_flush_closes [OF cur enc]
      assms(7-9) by (simp add: spool_header_simps)
  obtain meta where meta: "sign_meta env k (Md5 env ?data) = Inr meta" using assms(4) by (auto simp: signs_def)
  obtain obj where obj: "ObjBody obj = ?data" "ObjMeta obj = meta"
    and up: "onRotate env (Inr ?data) label None s = (s\<lparr>LastFile := label, Bucket := AList.update label obj (Bucket s)\<rparr>, Inr ())"
    using meta k that [of "\<lparr>ObjBody = ?data, ObjMd5 = _, ObjMeta = meta, ObjType = _, ObjACL = _\<rparr>"]
    by (simp add: onRotate_def Let_def)
  have upd: "AList.update label obj (Bucket s) = Bucket s @ [(label, obj)]"
    using assms(6) by (intro update_fresh) force
  obtain sp where sp: "Rotate senv (fst rot) (snd rot) (S3Spool s) = (sp, Some (Inr ()))"
      "s1 = s\<lparr>LastFile := label, Bucket := Bucket s @ [(label, obj)], S3Spool := sp\<rparr>"
    using assms(1) enc up upd by (auto simp: S3_Rotate_def split: prod.splits)
  have "holds_frames (Codecs senv) (Ops (Stream senv)) (header_bytes spool_header) StreamHeader_SNAPPY (SEnc sp) []"
    using sp(1) by (auto simp: Rotate_def Let_def intro: openCurrent_new(3))
  moreover have "signed_ok env k obj" using meta obj by (simp add: signed_ok_def)
  ultimately show ?thesis
    using k names objs gives obj assms(5,6)
    by (simp add: s3_holds_def sp(2) sorted_wrt_append list_all2_appendI)
qed

text \<open>Runs of Receive in which the disk takes what is flushed, the uploads succeed, and the objects' labels go up.\<close>

inductive s3_run :: "s3_env \<Rightarrow> ('ts, 'z) spool_env \<Rightarrow> 'ts printers \<Rightarrow> 'z s3 \<Rightarrow> 'ts message list \<Rightarrow> 'z s3 \<Rightarrow> bool"
  for env senv p s0 where
  s3_new: "s3_run env senv p s0 [] s0"
| s3_receive: "s3_run env senv p s0 ms s \<Longrightarrow> S3_Receive env senv p rot (label, None) m s = (s1, Some (Inr ())) \<Longrightarrow>
    snd (StreamEncoder_Flush (Codecs senv) (fst (StreamEncoder_Receive (Codecs senv) (Ops (Stream senv)) p (SEnc (S3Spool s)) m))) = Inr () \<Longrightarrow>
    HasPrefix label ''@'' \<Longrightarrow> \<forall>n\<in>fst ` set (Bucket s). n < label \<Longrightarrow> streamable (Stream senv) m \<Longrightarrow> s3_run env senv p s0 (ms @ [m]) s1"

lemma s3_run_holds:
  assumes "s3_run env senv p s0 ms s" and "s3_holds env senv k s0 [] []" and "signs env k"
    and "ts_laws (Ops (Stream senv))" and "codec_laws (Codecs senv)"
  shows "\<exists>mss cur. ms = concat mss @ cur \<and> s3_holds env senv k s mss cur \<and> list_all (streamable (Stream senv)) cur"
  using assms(1)
proof induction
  case s3_new
  then show ?case using assms(2) by (intro exI [of _ "[]"]) simp
next
  case (s3_receive ms s rot label m s1)
  then obtain mss cur where mc: "ms = concat mss @ cur" "s3_holds env senv k s mss cur" "list_all (streamable (Stream senv)) cur" by blast
  obtain enc where enc: "StreamEncoder_Receive (Codecs senv) (Ops (Stream senv)) p (SEnc (S3Spool s)) m = (enc, Inr ())"
    using s3_receive.hyps(2) by (auto simp: S3_Receive_def Let_def split: prod.splits sum.splits)
  let ?s = "s\<lparr>S3Spool := (S3Spool s)\<lparr>SEnc := enc\<rparr>\<rparr>"
  have holds: "s3_holds env senv k ?s mss (cur @ [m])"
    using mc(2) Receive_holds [OF enc _ assms(4)] by (auto simp: s3_holds_def)
  show ?case
  proof (cases "PerFileSize (S3Spool s) \<le> StartSize (S3Spool s) + SE_Encoded enc")
    case True
    with s3_receive.hyps(2) enc have "S3_Rotate env senv rot (label, None) ?s = (s1, Some (Inr ()))"
      by (simp add: S3_Receive_def Let_def)
    from S3_Rotate_holds [OF this holds _ assms(3) _ _ assms(4,5)] s3_receive.hyps(3-6) enc mc(3)
    have "s3_holds env senv k s1 (mss @ [cur @ [m]]) []" by simp
    with mc(1) show ?thesis by (intro exI [of _ "mss @ [cur @ [m]]"] exI [of _ "[]"]) simp
  next
    case False
    with s3_receive.hyps(2) enc have "s1 = ?s" by (simp add: S3_Receive_def Let_def)
    with holds mc(1,3) s3_receive.hyps(6) show ?thesis by (intro exI [of _ mss] exI [of _ "cur @ [m]"]) simp
  qed
qed

lemma NewS3Generator_pending:
  assumes "NewS3Generator srv allow = Inr g" and "pages srv names" and "'''' \<notin> set names"
  shows "s3_ready names g" "s3_pending names g = names" "GDec g = None" "AllowUnsigned g = allow"
proof -
  let ?lst = "map (\<lambda>k. (k, ''STANDARD'')) (take 100 names)"
  have all: "filter (\<lambda>k. '''' < k) names = names" using assms(3) by (auto simp: filter_id_conv) (metis neq_Nil_conv Nil_less_Cons)
  have "ListBucket srv ''@'' '''' (int 100) = Inr (?lst, 100 < length names)"
    using assms(2) all unfolding pages_def Let_def by (metis zero_less_numeral of_nat_numeral)
  then have g: "g = \<lparr>GKeys = None, AllowUnsigned = allow, GList = Some (?lst, 100 < length names),
      GMarker = (if names = [] then '''' else last (take 100 names)), ListMax = 100, GCur = -1, GDec = None, GSig = None\<rparr>"
    using assms(1) by (auto simp: NewS3Generator_def updateList_def Let_def last_map split: if_splits)
  then show "GDec g = None" "AllowUnsigned g = allow" by simp_all
  have rest: "names \<noteq> [] \<Longrightarrow> filter (\<lambda>k. last (take 100 names) < k) names = drop 100 names"
    using filter_after_take [OF _ all, of 100] assms(2) by (simp add: pages_def)
  then show "s3_pending names g = names"
    by (cases "names = []") (auto simp: g s3_pending_def comp_def)
  show "s3_ready names g"
    using rest by (cases "names = []") (auto simp: g s3_ready_def validClass_def)
qed

lemma uploaded_gives:
  assumes "NewSpool senv [] [] quota = (sp0, Some (Inr ()))" and "NewS3WithSpool get_private cfg acl [] sp0 = Inr s0"
    and "s3_run env senv p s0 ms s" and "S3_Rotate env senv rot (label, None) s = (s1, Some (Inr ()))"
    and "snd (StreamEncoder_Flush (Codecs senv) (SEnc (S3Spool s))) = Inr ()"
    and "HasPrefix label ''@''" and "\<forall>n\<in>fst ` set (Bucket s). n < label"
    and "LabelTime senv ''current'' = None" and "ts_laws (Ops (Stream senv))" and "codec_laws (Codecs senv)"
    and "serves env srv (Bucket s1)" and "NewS3Generator srv allow = Inr g" and "signs env (SignKey s0)"
    and "case SignKey s0 of None \<Rightarrow> allow | Some key \<Rightarrow> signature_laws env key \<and>
       (\<forall>keyid. KeyId (KeyEnv env) (PublicOf key) = Inr keyid \<longrightarrow> PublicKeys d keyid = Some (PublicOf key))"
  shows "s3_gives env senv srv (map fst (Bucket s1)) (g\<lparr>GKeys := Some (Directory_Get d)\<rparr>) ms"
proof -
  let ?k = "SignKey s0"
  let ?g = "g\<lparr>GKeys := Some (Directory_Get d)\<rparr>"
  have "spool_holds senv sp0 []" by (rule NewSpool_holds(1) [OF assms(1,8)])
  then have "s3_holds env senv ?k s0 [] []"
    using assms(2) by (auto simp: s3_holds_def NewS3WithSpool_def bindR_eq_Inr_iff spool_holds_def)
  then obtain mss cur where mc: "ms = concat mss @ cur" "s3_holds env senv ?k s mss cur" "list_all (streamable (Stream senv)) cur"
    using s3_run_holds [OF assms(3) _ assms(13,9,10)] by blast
  have holds: "s3_holds env senv ?k s1 (mss @ [cur]) []"
    by (rule S3_Rotate_holds [OF assms(4) mc(2) assms(5,13,6,7,9,10) mc(3)])
  let ?names = "map fst (Bucket s1)"
  have prefix: "\<forall>n\<in>set ?names. HasPrefix n ''@''" using holds by (auto simp: s3_holds_def)
  then have "filter (\<lambda>k. HasPrefix k ''@'') ?names = ?names" by (simp only: filter_id_conv)
  then have pages: "pages srv ?names" using assms(11) by (simp only: serves_def)
  have "'''' \<notin> set ?names" using prefix by (auto simp: HasPrefix_def)
  note g = NewS3Generator_pending [OF assms(12) pages this]
  have objs: "list_all2 (\<lambda>(key, obj) fs. signed_ok env ?k obj \<and>
      stream_gives (Stream senv) (Codecs senv) (open_source (ObjBody obj)) fs) (Bucket s1) (mss @ [cur])"
    using holds by (simp add: s3_holds_def)
  have accept: "\<exists>sig resp. s3_accept env srv ?g key = Inr (sig, resp) \<and> Body resp = ObjBody obj"
    if "(key, obj) \<in> set (Bucket s1)" "signed_ok env ?k obj" for key obj
  proof (cases ?k)
    case None
    then show ?thesis using accepts_unsigned [OF _ assms(11) that(1)] that(2) assms(14) g(4) by simp
  next
    case (Some k)
    with assms(14) show ?thesis using dir_keys.accepts_signed [OF _ _ assms(11) that(1), of k d ?g] that(2) by simp
  qed
  have "list_all2 (object_gives env senv srv ?g) ?names (mss @ [cur])"
    unfolding list_all2_map1 using objs
    by (rule list_all2_mono [OF list.rel_mono_strong]) (auto simp: object_gives_def dest!: accept)
  then show ?thesis
    unfolding s3_gives_def using pages g mc(1)
    by (intro conjI exI [of _ "[]"] exI [of _ "mss @ [cur]"]) (auto simp: s3_ready_def s3_pending_def split: option.splits)
qed


section \<open>Witnesses\<close>

text \<open>A server over a bucket, and signatures whose JSON is one byte.\<close>

definition bucket_server :: "s3_env \<Rightarrow> (string \<times> s3_object) list \<Rightarrow> s3_server" where
  "bucket_server env bucket =
     \<lparr>ListBucket = (\<lambda>prefix marker n. let ks = filter (\<lambda>k. marker < k) (filter (\<lambda>k. HasPrefix k prefix) (map fst bucket))
        in Inr (map (\<lambda>k. (k, ''STANDARD'')) (take (nat n) ks), nat n < length ks)),
      GetObject = (\<lambda>k. case map_of bucket k of
          None \<Rightarrow> Inl (Err (OtherErr ''NoSuchKey''))
        | Some obj \<Rightarrow> Inr \<lparr>ETag = hex_encode (Md5 env (ObjBody obj)),
            SigValue = (case map_of (ObjMeta obj) SignatureHeaderKey of Some v \<Rightarrow> v | None \<Rightarrow> ''''), Body = ObjBody obj\<rparr>)\<rparr>"

lemma bucket_server_serves:
  assumes "sorted_wrt (<) (map fst bucket)"
  shows "serves env (bucket_server env bucket) bucket"
proof -
  have "distinct (map fst bucket)" using assms by (simp add: strict_sorted_iff)
  then show ?thesis
    using sorted_wrt_filter [OF assms]
    by (auto simp: serves_def pages_def bucket_server_def map_of_is_SomeI)
qed

definition example_s3 :: s3_env where
  "example_s3 = \<lparr>KeyEnv = example_keys, Md5 = (\<lambda>bs. [1]), EcdsaSign = (\<lambda>k md. Inr (3, 4)), EcdsaVerify = (\<lambda>k md r s. r = 3 \<and> s = 4),
     SigJson = (\<lambda>keyid r s. if keyid = b64_encode [9] \<and> r = 3 \<and> s = 4 then Inr [5] else Inl (Err ErrSyntax)),
     SigOfJson = (\<lambda>js. Some (b64_encode [9], Some 3, Some 4))\<rparr>"

definition example_directory :: key_directory where
  "example_directory = \<lparr>PublicKeys = [b64_encode [9] \<mapsto> PublicOf example_key], PrivateKeys = Map.empty\<rparr>"

lemma example_signs: "signs example_s3 (Some example_key)"
  by (simp add: signs_def sign_meta_def example_s3_def KeyId_def example_keys_def)

lemma example_signature_laws: "signature_laws example_s3 example_key"
  by (simp add: signature_laws_def example_s3_def)

lemma example_key_id: "KeyId (KeyEnv example_s3) (PublicOf example_key) = Inr keyid \<Longrightarrow> PublicKeys example_directory keyid = Some (PublicOf example_key)"
  by (simp add: KeyId_def example_s3_def example_keys_def example_directory_def)

lemma example_upload:
  obtains sp0 :: "unit spool" and s0 s s1 where
    "NewSpool small_env [] [] 9 = (sp0, Some (Inr ()))" "NewS3WithSpool (\<lambda>n. Inr example_key) ''main'' Private [] sp0 = Inr s0"
    "s3_run example_s3 small_env plain_printers s0 ([] @ [Log 3]) s" "S3_Rotate example_s3 small_env (''b'', 9) (''@2'', None) s = (s1, Some (Inr ()))"
    "snd (StreamEncoder_Flush (Codecs small_env) (SEnc (S3Spool s))) = Inr ()" "HasPrefix ''@2'' ''@''"
    "\<forall>n\<in>fst ` set (Bucket s). n < ''@2''" "SignKey s0 = Some example_key" "map fst (Bucket s1) = [''@2'']"
proof -
  define sp0 where "sp0 = fst (NewSpool small_env [] [] 9)"
  define s0 where "s0 = \<lparr>ACL = Private, Bucket = [], S3Spool = sp0, LastFile = '''', SignKey = Some example_key\<rparr>"
  define s where "s = fst (S3_Receive example_s3 small_env plain_printers (''a'', 9) (''@1'', None) (Log 3) s0)"
  define s1 where "s1 = fst (S3_Rotate example_s3 small_env (''b'', 9) (''@2'', None) s)"
  have 0: "NewSpool small_env [] [] 9 = (sp0, Some (Inr ()))" unfolding sp0_def by code_simp
  have 1: "NewS3WithSpool (\<lambda>n. Inr example_key) ''main'' Private [] sp0 = Inr s0"
    by (simp add: NewS3WithSpool_def S3_SignKey_def s0_def)
  have r: "S3_Receive example_s3 small_env plain_printers (''a'', 9) (''@1'', None) (Log 3) s0 = (s, Some (Inr ()))"
    unfolding s_def s0_def sp0_def by code_simp
  have f: "snd (StreamEncoder_Flush (Codecs small_env) (fst (StreamEncoder_Receive (Codecs small_env)
      (Ops (Stream small_env)) plain_printers (SEnc (S3Spool s0)) (Log 3)))) = Inr ()" unfolding s0_def sp0_def by code_simp
  have b: "Bucket s0 = []" "HasPrefix ''@1'' ''@''" "HasPrefix ''@2'' ''@''" by (simp_all add: s0_def HasPrefix_def)
  have run: "s3_run example_s3 small_env plain_printers s0 ([] @ [Log 3]) s"
    by (rule s3_receive [OF s3_new r f b(2)]) (use b example_streamable in \<open>simp_all add: small_env_def\<close>)
  have rot: "S3_Rotate example_s3 small_env (''b'', 9) (''@2'', None) s = (s1, Some (Inr ()))"
    unfolding s1_def s_def s0_def sp0_def by code_simp
  have c: "snd (StreamEncoder_Flush (Codecs small_env) (SEnc (S3Spool s))) = Inr ()" unfolding s_def s0_def sp0_def by code_simp
  have b1: "Bucket s = []" "map fst (Bucket s1) = [''@2'']" unfolding s1_def s_def s0_def sp0_def by code_simp+
  show thesis by (rule that [OF 0 1 run rot c b(3)]) (use b1 in \<open>simp_all add: s0_def\<close>)
qed

lemma example_env: "LabelTime small_env ''current'' = None" "ts_laws (Ops (Stream small_env))" "codec_laws (Codecs small_env)"
  using unary_ts_laws plain_codec_laws by (simp_all add: small_env_def example_ops)

lemma example_store:
  "case Some example_key of None \<Rightarrow> allow | Some key \<Rightarrow> signature_laws example_s3 key \<and>
     (\<forall>keyid. KeyId (KeyEnv example_s3) (PublicOf key) = Inr keyid \<longrightarrow> PublicKeys example_directory keyid = Some (PublicOf key))"
  using example_signature_laws example_key_id by simp

lemma example_generator: "\<exists>g. NewS3Generator (bucket_server example_s3 bucket) False = Inr g"
  by (simp add: NewS3Generator_def updateList_def bucket_server_def Let_def)



end
