(* ===== verification/Statsd.thy ===== *)
theory Statsd
  imports Pipes
begin

text \<open>
  statsd/ and its two plugins: packets are parsed into metrics (statsd/server.go), metrics become
  messages (plugins/statsd), and messages update a registry of metrics (plugins/metrics). Floats
  are their 64 bits; arithmetic on them, strconv.ParseFloat and the registry are parameters. A
  packet is its bytes as characters.
\<close>

datatype metric_type = COUNTER | TIMER | GAUGE | GAUGE_DELTA | SET

definition MetricType_String :: "metric_type \<Rightarrow> string" where
  "MetricType_String m =
     (case m of GAUGE \<Rightarrow> ''gauge'' | GAUGE_DELTA \<Rightarrow> ''gauge_delta'' | TIMER \<Rightarrow> ''timer'' | COUNTER \<Rightarrow> ''counter''
      | SET \<Rightarrow> ''unknown'')"

record metric =
  MetricType :: metric_type
  MetricBucket :: string
  MetricValue :: float64

record float_env =
  ParseFloat :: "string \<Rightarrow> float64 result"
  FMul :: "float64 \<Rightarrow> float64 \<Rightarrow> float64"
  FDiv :: "float64 \<Rightarrow> float64 \<Rightarrow> float64"
  FToInt :: "float64 \<Rightarrow> u64"
  IntToF :: "u64 \<Rightarrow> float64"

section \<open>Parsing packets\<close>

definition parseLine :: "float_env \<Rightarrow> string \<Rightarrow> metric result" where
  "parseLine env line =
     (case IndexByte line (CHR '':'') of
        None \<Rightarrow> Inl (Err ErrInvalidFormat)
      | Some bucket \<Rightarrow>
          let rest = drop (Suc bucket) line in
          (case IndexByte rest (CHR ''|'') of
             None \<Rightarrow> Inl (Err ErrInvalidFormat)
           | Some valuePos \<Rightarrow>
               let val = take valuePos rest in
               bindR (ParseFloat env val) (\<lambda>v.
                 let rest = drop (Suc valuePos) rest in
                 bindR (case IndexByte rest (CHR ''@'') of
                          None \<Rightarrow> Inr (IntToF env 1)
                        | Some atPos \<Rightarrow> ParseFloat env (drop (Suc atPos) rest)) (\<lambda>sampleRate.
                 bindR (go_index rest 0) (\<lambda>c.
                   let scaled = FMul env v (FDiv env (IntToF env 1) sampleRate);
                       met = (\<lambda>t x. \<lparr>MetricType = t, MetricBucket = take bucket line, MetricValue = x\<rparr>) in
                   if c = CHR ''m'' then Inr (met TIMER scaled)
                   else if c = CHR ''g'' then
                     bindR (go_index val 0) (\<lambda>d.
                       Inr (met (if d = CHR ''+'' \<or> d = CHR ''-'' then GAUGE_DELTA else GAUGE) v))
                   else if c = CHR ''s'' then Inr (met SET v)
                   else Inr (met COUNTER scaled))))))"

function parsePacket :: "float_env \<Rightarrow> string \<Rightarrow> metric list result" where
  "parsePacket env pkt =
     (case IndexByte pkt (CHR 0x0A) of
        None \<Rightarrow> bindR (parseLine env pkt) (\<lambda>m. Inr [m])
      | Some nl \<Rightarrow>
          bindR (parseLine env (take nl pkt)) (\<lambda>m.
            if drop (Suc nl) pkt = [] then Inr [m]
            else bindR (parsePacket env (drop (Suc nl) pkt)) (\<lambda>ms. Inr (m # ms))))"
  by pat_completeness auto
termination
  by (relation "measure (\<lambda>(env, pkt). length pkt)") (auto dest: IndexByte_less)

declare parsePacket.simps [simp del]

section \<open>The server\<close>

text \<open>A handler of metrics; None is that it does not return.\<close>

fun handle_all :: "('h \<Rightarrow> metric \<Rightarrow> (unit result \<times> 'h) option) \<Rightarrow> metric list \<Rightarrow> 'h \<Rightarrow> (unit result \<times> 'h) option" where
  "handle_all h [] st = Some (Inr (), st)"
| "handle_all h (m # ms) st =
     (case h st m of
        None \<Rightarrow> None
      | Some (Inl e, st1) \<Rightarrow> Some (Inl e, st1)
      | Some (Inr _, st1) \<Rightarrow> handle_all h ms st1)"

definition handlePacket :: "float_env \<Rightarrow> ('h \<Rightarrow> metric \<Rightarrow> (unit result \<times> 'h) option) \<Rightarrow> string \<Rightarrow> 'h \<Rightarrow> (unit result \<times> 'h) option" where
  "handlePacket env h pkt st =
     (case parsePacket env pkt of Inl e \<Rightarrow> Some (Inl e, st) | Inr ms \<Rightarrow> handle_all h ms st)"

definition MaxPacket :: nat where "MaxPacket = 8096"

text \<open>
  Receive over what the reads of the connection give, a datagram or an error with its text: the
  result of handlePacket is dropped, but a panic ends the program. The answer is None while the
  loop waits for more.
\<close>

definition contains :: "string \<Rightarrow> string \<Rightarrow> bool" where
  "contains s part \<longleftrightarrow> (\<exists>i\<in>{0..length s}. take (length part) (drop i s) = part)"

fun Statsd_Receive :: "float_env \<Rightarrow> ('h \<Rightarrow> metric \<Rightarrow> (unit result \<times> 'h) option) \<Rightarrow> (string + string) list \<Rightarrow> 'h \<Rightarrow>
    (unit result option \<times> 'h) option" where
  "Statsd_Receive env h [] st = Some (None, st)"
| "Statsd_Receive env h (Inl err # reads) st =
     (if contains err ''closed'' then Some (Some (Inr ()), st) else Statsd_Receive env h reads st)"
| "Statsd_Receive env h (Inr dgram # reads) st =
     (case handlePacket env h (take MaxPacket dgram) st of
        None \<Rightarrow> None
      | Some (Inl (Panic e), st1) \<Rightarrow> Some (Some (Inl (Panic e)), st1)
      | Some (_, st1) \<Rightarrow> Statsd_Receive env h reads st1)"

section \<open>Metrics as messages\<close>

text \<open>handleMetric builds the message and drops what the receiver answers.\<close>

definition metric_message :: "float_env \<Rightarrow> 'ts \<Rightarrow> metric \<Rightarrow> 'ts message result" where
  "metric_message env now sm =
     bindR (AddString (Metric now) ''name'' (MetricBucket sm)) (\<lambda>m.
     bindR (AddString m ''type'' (MetricType_String (MetricType sm))) (\<lambda>m.
       if MetricType sm = TIMER
       then AddDuration m ''value'' (FToInt env (FMul env (MetricValue sm) (IntToF env 1000000)))
       else AddFloat m ''value'' (MetricValue sm)))"

definition handleMetric :: "float_env \<Rightarrow> ('ts, 'r) receiver \<Rightarrow> 'ts \<Rightarrow> 'r \<Rightarrow> metric \<Rightarrow> (unit result \<times> 'r) option" where
  "handleMetric env recv now r sm =
     (case metric_message env now sm of
        Inl (Panic e) \<Rightarrow> Some (Inl (Panic e), r)
      | Inl (Err e) \<Rightarrow> Some (Inr (), r)
      | Inr m \<Rightarrow>
          (case RReceive recv r (Some m) of
             None \<Rightarrow> None
           | Some (Inl (Panic e), r1) \<Rightarrow> Some (Inl (Panic e), r1)
           | Some (_, r1) \<Rightarrow> Some (Inr (), r1)))"

section \<open>The sink of metrics\<close>

text \<open>The registry of go-metrics: each update gets or registers the metric of the name.\<close>

record 'g registry =
  IncCounter :: "string \<Rightarrow> u64 \<Rightarrow> 'g \<Rightarrow> unit result \<times> 'g"
  UpdateGauge :: "string \<Rightarrow> float64 \<Rightarrow> 'g \<Rightarrow> unit result \<times> 'g"
  UpdateTimer :: "string \<Rightarrow> u64 \<Rightarrow> 'g \<Rightarrow> unit result \<times> 'g"

definition sink_update :: "float_env \<Rightarrow> 'g registry \<Rightarrow> 'ts message \<Rightarrow> string \<Rightarrow> string \<Rightarrow> avalue \<Rightarrow> 'g \<Rightarrow> unit result \<times> 'g" where
  "sink_update env reg m ty name val g =
     (if ty = ''counter'' then
        (case val of
           AInt i \<Rightarrow> IncCounter reg name i g
         | AFloat f \<Rightarrow> IncCounter reg name (FToInt env f) g
         | _ \<Rightarrow> (Inl (Err ErrInvalidMetric), g))
      else if ty = ''gauge'' then
        (case val of
           AInt i \<Rightarrow> UpdateGauge reg name (IntToF env i) g
         | AFloat f \<Rightarrow> UpdateGauge reg name f g
         | _ \<Rightarrow> (Inl (Err ErrInvalidMetric), g))
      else if ty = ''timer'' then
        (case GetInterval m ''value'' of
           Inl e \<Rightarrow> (Inl e, g)
         | Inr None \<Rightarrow> (Inl (Err ErrInvalidMetric), g)
         | Inr (Some i) \<Rightarrow> UpdateTimer reg name (Interval_Duration i) g)
      else (Inl (Err ErrInvalidMetric), g))"

definition MetricSink_Receive :: "float_env \<Rightarrow> 'g registry \<Rightarrow> 'g \<Rightarrow> 'ts message \<Rightarrow> unit result \<times> 'g" where
  "MetricSink_Receive env reg g m =
     (if GetType m \<noteq> METRIC then (Inr (), g)
      else (case bindR (GetString m ''type'') (\<lambda>ty. bindR (if ty = None then Inr None else GetString m ''name'') (\<lambda>name.
                 bindR (if ty = None \<or> name = None then Inr None else Get m ''value'') (\<lambda>val. Inr (ty, name, val)))) of
          Inl e \<Rightarrow> (Inl e, g)
        | Inr (Some ty, Some name, Some val) \<Rightarrow> sink_update env reg m ty name val g
        | Inr _ \<Rightarrow> (Inl (Err ErrInvalidMetric), g)))"

definition metric_sink :: "float_env \<Rightarrow> 'g registry \<Rightarrow> ('ts, 'g) receiver" where
  "metric_sink env reg =
     \<lparr>RReceive = (\<lambda>g m. case m of
          None \<Rightarrow> Some (Inr (), g)
        | Some m \<Rightarrow> Some (MetricSink_Receive env reg g m)),
      RClose = (\<lambda>g. (Inr (), g))\<rparr>"

section \<open>Packets\<close>

lemma drop_Suc_length [simp]: "drop (Suc (length s)) (s @ c # t) = t"
  by (induction s) auto

record stat_line =
  LBucket :: string
  LValue :: string
  LType :: string
  LRate :: "string option"

definition line_text :: "stat_line \<Rightarrow> string" where
  "line_text l = LBucket l @ '':'' @ LValue l @ ''|'' @ LType l @ (case LRate l of None \<Rightarrow> '''' | Some r \<Rightarrow> ''|@'' @ r)"

definition line_ok :: "float_env \<Rightarrow> stat_line \<Rightarrow> bool" where
  "line_ok env l \<longleftrightarrow> CHR '':'' \<notin> set (LBucket l) \<and> CHR ''|'' \<notin> set (LValue l) \<and> LValue l \<noteq> '''' \<and>
     LType l \<noteq> '''' \<and> CHR ''@'' \<notin> set (LType l) \<and> CHR 0x0A \<notin> set (line_text l) \<and>
     (\<exists>x. ParseFloat env (LValue l) = Inr x) \<and> (\<forall>r. LRate l = Some r \<longrightarrow> (\<exists>x. ParseFloat env r = Inr x))"

text \<open>The metric a line stands for: the first letter of its type decides, counters and timers are scaled.\<close>

definition line_metric :: "float_env \<Rightarrow> stat_line \<Rightarrow> metric" where
  "line_metric env l =
     (let num = (\<lambda>s. projr (ParseFloat env s)); v = num (LValue l);
          rate = (case LRate l of None \<Rightarrow> IntToF env 1 | Some r \<Rightarrow> num r);
          scaled = FMul env v (FDiv env (IntToF env 1) rate);
          (t, x) = (if hd (LType l) = CHR ''m'' then (TIMER, scaled)
                    else if hd (LType l) = CHR ''g'' then (if hd (LValue l) \<in> {CHR ''+'', CHR ''-''} then GAUGE_DELTA else GAUGE, v)
                    else if hd (LType l) = CHR ''s'' then (SET, v)
                    else (COUNTER, scaled))
      in \<lparr>MetricType = t, MetricBucket = LBucket l, MetricValue = x\<rparr>)"

lemma parseLine_text:
  assumes "line_ok env l"
  shows "parseLine env (line_text l) = Inr (line_metric env l)"
proof -
  let ?rate = "case LRate l of None \<Rightarrow> '''' | Some r \<Rightarrow> ''|@'' @ r"
  from assms have b: "IndexByte (LBucket l @ CHR '':'' # LValue l @ CHR ''|'' # LType l @ ?rate) (CHR '':'') = Some (length (LBucket l))"
    and v: "IndexByte (LValue l @ CHR ''|'' # LType l @ ?rate) (CHR ''|'') = Some (length (LValue l))"
    by (simp_all add: line_ok_def IndexByte_at)
  have at: "IndexByte (LType l @ ?rate) (CHR ''@'') = (case LRate l of None \<Rightarrow> None | Some r \<Rightarrow> Some (Suc (length (LType l))))"
    using assms IndexByte_at [of "CHR ''@''" "LType l @ ''|''"] by (auto simp: line_ok_def IndexByte_none split: option.split)
  obtain x where x: "ParseFloat env (LValue l) = Inr x" using assms by (auto simp: line_ok_def)
  obtain c cs d ds where cd: "LType l = c # cs" "LValue l = d # ds"
    using assms by (cases "LType l"; cases "LValue l") (auto simp: line_ok_def)
  show ?thesis
  proof (cases "LRate l")
    case None
    then show ?thesis
      using b v at x cd by (auto simp: parseLine_def line_text_def line_metric_def go_index_def Let_def)
  next
    case (Some r)
    then obtain y where "ParseFloat env r = Inr y" using assms by (auto simp: line_ok_def)
    with Some show ?thesis
      using b v at x cd by (auto simp: parseLine_def line_text_def line_metric_def go_index_def Let_def)
  qed
qed

lemma parsePacket_line: "CHR 0x0A \<notin> set l \<Longrightarrow> parsePacket env l = bindR (parseLine env l) (\<lambda>m. Inr [m])"
  by (subst parsePacket.simps) (simp add: IndexByte_none)

lemma parsePacket_more:
  "CHR 0x0A \<notin> set l \<Longrightarrow> parsePacket env (l @ CHR 0x0A # rest) =
     bindR (parseLine env l) (\<lambda>m. if rest = [] then Inr [m] else bindR (parsePacket env rest) (\<lambda>ms. Inr (m # ms)))"
  by (subst parsePacket.simps) (simp add: IndexByte_at cong: if_cong)

definition lines_text :: "stat_line list \<Rightarrow> string" where
  "lines_text ls = concat (map (\<lambda>l. line_text l @ [CHR 0x0A]) ls)"

lemma parsePacket_lines:
  "\<forall>l\<in>set ls. line_ok env l \<Longrightarrow> last_line \<noteq> [] \<Longrightarrow>
     parsePacket env (lines_text ls @ last_line) = bindR (parsePacket env last_line) (\<lambda>ms. Inr (map (line_metric env) ls @ ms))"
proof (induction ls)
  case Nil
  then show ?case by (cases "parsePacket env last_line") (simp_all add: lines_text_def)
next
  case (Cons l ls)
  have "CHR 0x0A \<notin> set (line_text l)" using Cons.prems by (simp add: line_ok_def)
  from parsePacket_more [OF this, of env "lines_text ls @ last_line"] Cons parseLine_text [of env l]
  show ?case by (simp add: lines_text_def bindR_assoc)
qed

text \<open>C25: A packet of statsd lines, with or without a newline at its end, is parsed to the metric of every
  line, in order: type and sign, and the value divided by the sample rate for counters and timers.\<close>

theorem statsd_packet:
  assumes "\<forall>l\<in>set (ls @ [l]). line_ok env l"
  shows "parsePacket env (lines_text ls @ line_text l) = Inr (map (line_metric env) (ls @ [l])) \<and>
    parsePacket env (lines_text (ls @ [l])) = Inr (map (line_metric env) (ls @ [l]))"
proof -
  have l: "CHR 0x0A \<notin> set (line_text l)" "line_text l \<noteq> []" "line_ok env l" using assms by (auto simp: line_ok_def line_text_def)
  have "lines_text (ls @ [l]) = lines_text ls @ (line_text l @ CHR 0x0A # [])" by (simp add: lines_text_def)
  then show ?thesis
    using assms l parsePacket_lines [of ls env "line_text l"] parsePacket_lines [of ls env "line_text l @ CHR 0x0A # []"]
      parsePacket_line [OF l(1)] parsePacket_more [OF l(1), of env "[]"] parseLine_text [OF l(3)] by simp
qed

text \<open>One bad line spoils its packet: whatever good lines go before it, no metric of the packet is handled.
  And a line that ends with the bar, which anyone can send, panics and ends the server.\<close>

lemma statsd_bad_packet:
  assumes "\<forall>l\<in>set ls. line_ok env l" and "parseLine env bad = Inl e" and "CHR 0x0A \<notin> set bad"
    and "CHR '':'' \<notin> set b" "CHR ''|'' \<notin> set v" "CHR 0x0A \<notin> set b" "CHR 0x0A \<notin> set v" "ParseFloat env v = Inr x"
    and "length b + length v + 2 \<le> MaxPacket"
  shows "handlePacket env h (lines_text ls @ bad @ CHR 0x0A # tail) st = Some (Inl e, st) \<and>
    (\<exists>s. Statsd_Receive env h (Inr (b @ '':'' @ v @ ''|'') # reads) st = Some (Some (Inl (Panic s)), st))"
proof
  have "parsePacket env (lines_text ls @ bad @ CHR 0x0A # tail) = Inl e"
    using parsePacket_lines [of ls env "bad @ CHR 0x0A # tail"] parsePacket_more [of bad env tail] assms(1-3) by simp
  then show "handlePacket env h (lines_text ls @ bad @ CHR 0x0A # tail) st = Some (Inl e, st)" by (simp add: handlePacket_def)
  have "parseLine env (b @ '':'' @ v @ ''|'') = Inl (Panic ''index out of range'')"
    using assms(4,5,8) by (simp add: parseLine_def IndexByte_at Let_def go_index_def)
  then have "parsePacket env (b @ '':'' @ v @ ''|'') = Inl (Panic ''index out of range'')"
    using assms(6,7) by (subst parsePacket_line) simp_all
  then show "\<exists>s. Statsd_Receive env h (Inr (b @ '':'' @ v @ ''|'') # reads) st = Some (Some (Inl (Panic s)), st)"
    using assms(9) by (simp add: handlePacket_def)
qed

section \<open>From the packet to the registry\<close>

lemma metric_message_get:
  "\<exists>m. metric_message env now sm = Inr m \<and> GetType m = METRIC \<and>
     GetString m ''type'' = Inr (Some (MetricType_String (MetricType sm))) \<and> GetString m ''name'' = Inr (Some (MetricBucket sm)) \<and>
     Get m ''value'' = Inr (Some (if MetricType sm = TIMER
        then AInterval (durationToInterval (FToInt env (FMul env (MetricValue sm) (IntToF env 1000000)))) else AFloat (MetricValue sm))) \<and>
     (MetricType sm = TIMER \<longrightarrow> GetInterval m ''value'' = Inr (Some (durationToInterval (FToInt env (FMul env (MetricValue sm) (IntToF env 1000000))))))"
proof -
  let ?m0 = "Metric now"
  have known: "known_version ?m0" by (simp add: known_version_def Metric_def DEFAULT_VERSION_def)
  have key: "\<exists>a. SetKey m zero_attribute k = Inr a \<and> StringKey ?m0 a = Inr k \<and> (\<exists>x y. a = zero_attribute\<lparr>Key := x, Skey := y\<rparr>)"
    if "Version m = Version ?m0" for m :: "'a message" and k
    using StringKey_SetKey [OF known, of zero_attribute k] SetKey_version [OF that] by (simp add: zero_attribute_def)
  obtain a x y where a: "SetKey ?m0 zero_attribute ''name'' = Inr a" "StringKey ?m0 a = Inr ''name''" "a = zero_attribute\<lparr>Key := x, Skey := y\<rparr>"
    using key [OF refl] by blast
  define m1 where "m1 = append_attr ?m0 (a\<lparr>Sval := Some (MetricBucket sm)\<rparr>)"
  have "Version m1 = Version ?m0" by (simp add: m1_def append_attr_def)
  from key [OF this] obtain b x' y' where b: "SetKey m1 zero_attribute ''type'' = Inr b" "StringKey ?m0 b = Inr ''type''"
      "b = zero_attribute\<lparr>Key := x', Skey := y'\<rparr>" by blast
  define m2 where "m2 = append_attr m1 (b\<lparr>Sval := Some (MetricType_String (MetricType sm))\<rparr>)"
  have "Version m2 = Version ?m0" by (simp add: m2_def m1_def append_attr_def)
  from key [OF this] obtain c x'' y'' where c: "SetKey m2 zero_attribute ''value'' = Inr c" "StringKey ?m0 c = Inr ''value''"
      "c = zero_attribute\<lparr>Key := x'', Skey := y''\<rparr>" by blast
  let ?c = "if MetricType sm = TIMER then c\<lparr>Tval := Some (durationToInterval (FToInt env (FMul env (MetricValue sm) (IntToF env 1000000))))\<rparr>
    else c\<lparr>Fval := Some (MetricValue sm)\<rparr>"
  define m3 where "m3 = append_attr m2 ?c"
  have m3: "metric_message env now sm = Inr m3"
    using a(1) b(1) c(1) by (simp add: metric_message_def AddString_def AddFloat_def AddDuration_def m3_def m1_def [symmetric] m2_def [symmetric])
  have keys: "StringKey m3 = StringKey ?m0"
    by (rule ext, rule StringKey_version) (simp add: m3_def m2_def m1_def append_attr_def)
  have attrs: "Attributes m3 = [a\<lparr>Sval := Some (MetricBucket sm)\<rparr>, b\<lparr>Sval := Some (MetricType_String (MetricType sm))\<rparr>, ?c]"
    by (simp add: m3_def m2_def m1_def append_attr_def Metric_def zero_message_def)
  have upd: "StringKey ?m0 (z\<lparr>Sval := s\<rparr>) = StringKey ?m0 z" "StringKey ?m0 (z\<lparr>Tval := i\<rparr>) = StringKey ?m0 z"
      "StringKey ?m0 (z\<lparr>Fval := f\<rparr>) = StringKey ?m0 z" for z s i f
    by (simp_all add: StringKey_def)
  have ty: "GetType m3 = METRIC" by (simp add: GetType_def m3_def m2_def m1_def append_attr_def Metric_def)
  have find: "find_attr m3 ''name'' (Attributes m3) = Inr (Some (a\<lparr>Sval := Some (MetricBucket sm)\<rparr>))"
      "find_attr m3 ''type'' (Attributes m3) = Inr (Some (b\<lparr>Sval := Some (MetricType_String (MetricType sm))\<rparr>))"
      "find_attr m3 ''value'' (Attributes m3) = Inr (Some ?c)"
    unfolding attrs by (simp_all add: keys upd a(2) b(2) c(2))
  show ?thesis
    by (intro exI [of _ m3] conjI m3 ty)
      (simp_all add: GetString_def Get_def GetInterval_def find Attribute_Value_def a(3) b(3) c(3) zero_attribute_def)
qed

text \<open>C26: What a metric does to the registry. Handled with the sink as its receiver, a counter adds its value,
  a gauge sets it, and a timer is updated with its milliseconds as a duration, exact to the nanosecond; the
  changes of gauges and the sets, which the sink does not know, are refused, and nothing is reported.\<close>

theorem statsd_to_registry:
  "handleMetric env (metric_sink env reg) now g sm =
     (let dur = FToInt env (FMul env (MetricValue sm) (IntToF env 1000000));
          upd = (case MetricType sm of
            COUNTER \<Rightarrow> IncCounter reg (MetricBucket sm) (FToInt env (MetricValue sm)) g
          | GAUGE \<Rightarrow> UpdateGauge reg (MetricBucket sm) (MetricValue sm) g
          | TIMER \<Rightarrow> UpdateTimer reg (MetricBucket sm) dur g
          | _ \<Rightarrow> (Inl (Err ErrInvalidMetric), g))
      in Some (case fst upd of Inl (Panic e) \<Rightarrow> Inl (Panic e) | _ \<Rightarrow> Inr (), snd upd))"
proof -
  obtain m where m: "metric_message env now sm = Inr m" "GetType m = METRIC"
     "GetString m ''type'' = Inr (Some (MetricType_String (MetricType sm)))" "GetString m ''name'' = Inr (Some (MetricBucket sm))"
     "Get m ''value'' = Inr (Some (if MetricType sm = TIMER
        then AInterval (durationToInterval (FToInt env (FMul env (MetricValue sm) (IntToF env 1000000)))) else AFloat (MetricValue sm)))"
     "MetricType sm = TIMER \<longrightarrow> GetInterval m ''value'' = Inr (Some (durationToInterval (FToInt env (FMul env (MetricValue sm) (IntToF env 1000000)))))"
    using metric_message_get [of env now sm] by blast
  show ?thesis
    using m by (cases "MetricType sm")
      (auto simp: handleMetric_def metric_sink_def MetricSink_Receive_def sink_update_def MetricType_String_def
        Duration_durationToInterval Let_def split: prod.split sum.split fault.split)
qed

section \<open>Witnesses\<close>

definition example_floats :: float_env where
  "example_floats = \<lparr>ParseFloat = (\<lambda>s. if s = '''' then Inl (Err ErrSyntax) else Inr (of_nat (length s))),
     FMul = (*), FDiv = (\<lambda>a b. a), FToInt = id, IntToF = id\<rparr>"

theorem statsd_packet_witness:
  "parsePacket example_floats (lines_text [\<lparr>LBucket = ''a'', LValue = ''12'', LType = ''c'', LRate = Some ''0.1''\<rparr>] @
     line_text \<lparr>LBucket = ''b'', LValue = ''+5'', LType = ''g'', LRate = None\<rparr>) =
   Inr [\<lparr>MetricType = COUNTER, MetricBucket = ''a'', MetricValue = 2\<rparr>, \<lparr>MetricType = GAUGE_DELTA, MetricBucket = ''b'', MetricValue = 2\<rparr>]"
proof -
  have "\<forall>l\<in>set ([\<lparr>LBucket = ''a'', LValue = ''12'', LType = ''c'', LRate = Some ''0.1''\<rparr>] @
      [\<lparr>LBucket = ''b'', LValue = ''+5'', LType = ''g'', LRate = None\<rparr>]). line_ok example_floats l"
    by (simp add: line_ok_def line_text_def example_floats_def)
  from statsd_packet [OF this] show ?thesis by (simp add: line_metric_def example_floats_def)
qed

lemma statsd_bad_packet_witness:
  "handlePacket example_floats (\<lambda>st m. Some (Inr (), Suc st)) (lines_text [\<lparr>LBucket = ''a'', LValue = ''12'', LType = ''c'', LRate = None\<rparr>] @
     ''bad'' @ CHR 0x0A # ''b:1|g'') 0 = Some (Inl (Err ErrInvalidFormat), 0) \<and>
   (\<exists>s. Statsd_Receive example_floats (\<lambda>st m. Some (Inr (), Suc st)) (Inr (''a'' @ '':'' @ ''1'' @ ''|'') # []) 0 =
     Some (Some (Inl (Panic s)), 0))"
  by (rule statsd_bad_packet [where x = 1])
    (simp_all add: line_ok_def line_text_def example_floats_def parseLine_def MaxPacket_def)

end
