(* ===== verification/Filters.thy ===== *)
theory Filters
  imports Pipes Json Config
begin

text \<open>
  The filters of plugins/grep, plugins/json and plugins/geoip. Parameters: regular expressions, the
  printing of a value with %s, net.ParseIP and the lookups of the GeoIP database.
\<close>

section \<open>grep\<close>

record grep =
  GField :: string
  GPattern :: string
  GRegexp :: "(string \<Rightarrow> bool) option"

text \<open>The pattern is compiled for the first message and kept.\<close>

definition Grep_Filter :: "(string \<Rightarrow> (string \<Rightarrow> bool) result) \<Rightarrow> (avalue \<Rightarrow> string) \<Rightarrow> 'ts message \<Rightarrow> grep \<Rightarrow>
    grep \<times> 'ts message option result" where
  "Grep_Filter regex fmt m g =
     (case (case GRegexp g of Some reg \<Rightarrow> Inr reg | None \<Rightarrow> regex (GPattern g)) of
        Inl e \<Rightarrow> (g, Inl e)
      | Inr reg \<Rightarrow>
          (g\<lparr>GRegexp := Some reg\<rparr>,
           bindR (Get m (GField g)) (\<lambda>f.
             case f of
               None \<Rightarrow> Inr None
             | Some f \<Rightarrow> Inr (if reg (case f of AString s \<Rightarrow> s | _ \<Rightarrow> fmt f) then Some m else None))))"

section \<open>json\<close>

text \<open>What json.Unmarshal makes of a text as a map[string]interface\{\}: None is an error; null is no map.\<close>

fun plain_val :: "(string \<Rightarrow> float64 option) \<Rightarrow> json \<Rightarrow> goval option" where
  "plain_val num JNull = Some VNil"
| "plain_val num (JBool b) = Some (VBool b)"
| "plain_val num (JNum s) = map_option VFloat64 (num s)"
| "plain_val num (JStr s) = Some (VString s)"
| "plain_val num (JArr xs) =
     (if \<forall>x\<in>set xs. plain_val num x \<noteq> None then Some (VSlice (map (\<lambda>x. the (plain_val num x)) xs)) else None)"
| "plain_val num (JObj ps) =
     (if \<forall>p\<in>set ps. plain_val num (snd p) \<noteq> None then Some (VMap (map (\<lambda>p. (fst p, the (plain_val num (snd p)))) ps)) else None)"

definition unmarshal_map :: "'ts json_env \<Rightarrow> string \<Rightarrow> (string \<times> goval) list option" where
  "unmarshal_map env s =
     (case json_decode s of
        Inl e \<Rightarrow> None
      | Inr (v, rest) \<Rightarrow>
          if skip_ws rest \<noteq> [] then None
          else (case v of
            JNull \<Rightarrow> Some []
          | JObj ps \<Rightarrow>
              (let ps = MapOrder env ps in
               if \<forall>p\<in>set ps. plain_val (FloatOf env) (snd p) \<noteq> None
               then Some (map (\<lambda>p. (fst p, the (plain_val (FloatOf env) (snd p)))) ps) else None)
          | _ \<Rightarrow> None))"

record json_filter =
  JField :: string
  JKeep :: bool

definition Json_Filter :: "'ts json_env \<Rightarrow> json_filter \<Rightarrow> 'ts message \<Rightarrow> 'ts message result" where
  "Json_Filter env f m =
     bindR (GetString m (JField f)) (\<lambda>str.
       case Option.bind str (unmarshal_map env) of
         None \<Rightarrow> Inr m
       | Some data \<Rightarrow> bindR (add_items m data) (\<lambda>m1. if JKeep f then Inr m1 else Remove m1 (JField f)))"

section \<open>geoip\<close>

record geo_city =
  CityName :: string
  ContinentCode :: string
  CountryIso :: string
  PostalCode :: string
  TimeZone :: string
  Latitude :: float64
  Longitude :: float64

record ('ip, 'db) geo_env =
  ParseIP :: "string \<Rightarrow> 'ip option"
  GeoCity :: "'db \<Rightarrow> 'ip \<Rightarrow> geo_city result"
  LatLong :: "float64 \<Rightarrow> float64 \<Rightarrow> string"
  OpenGeo :: "string \<Rightarrow> 'db result"

record 'db geoip =
  GeoPath :: string
  GeoField :: string
  GeoStrict :: bool
  GeoAll :: bool
  GeoReader :: "'db option"

text \<open>The path of the configuration, of a file of the user, or of a global file; the configured one may be missing or empty.\<close>

definition ImplicitPath :: "(string \<Rightarrow> bool) \<Rightarrow> paths \<Rightarrow> string option \<Rightarrow> string" where
  "ImplicitPath exists p cfg =
     (case cfg of
        Some path \<Rightarrow> if path \<noteq> '''' then path else
          (case UserFile exists p ''geoip.db'' of Some path \<Rightarrow> path
           | None \<Rightarrow> (case GlobalFile exists p ''geoip.db'' of Some path \<Rightarrow> path | None \<Rightarrow> ''''))
      | None \<Rightarrow> (case UserFile exists p ''geoip.db'' of Some path \<Rightarrow> path
           | None \<Rightarrow> (case GlobalFile exists p ''geoip.db'' of Some path \<Rightarrow> path | None \<Rightarrow> '''')))"

definition GeoIP_Open :: "('ip, 'db) geo_env \<Rightarrow> string \<Rightarrow> 'db geoip \<Rightarrow> 'db geoip \<times> unit result" where
  "GeoIP_Open env implicit g =
     (let path = (if GeoPath g = '''' then implicit else GeoPath g) in
      if path = '''' then (g, Inl (Err (OtherErr ''Unable to find a geoip database file to use'')))
      else (case OpenGeo env path of Inl e \<Rightarrow> (g, Inl e) | Inr r \<Rightarrow> (g\<lparr>GeoReader := Some r\<rparr>, Inr ())))"

definition geo_items :: "('ip, 'db) geo_env \<Rightarrow> bool \<Rightarrow> geo_city \<Rightarrow> (string \<times> goval) list" where
  "geo_items env all c =
     (if all then [(''geoip.city_name'', VString (CityName c)), (''geoip.continent_code'', VString (ContinentCode c)),
        (''geoip.country_code'', VString (CountryIso c)), (''geoip.postal_code'', VString (PostalCode c)),
        (''geoip.timezone'', VString (TimeZone c))] else [])
     @ [(''geoip.latitude'', VFloat64 (Latitude c)), (''geoip.longitude'', VFloat64 (Longitude c)),
        (''geoip.location'', VString (LatLong env (Latitude c) (Longitude c)))]"

text \<open>Filter: a message without an address, or one that is not found, passes as it is unless Strict is set.\<close>

definition GeoIP_Filter :: "('ip, 'db) geo_env \<Rightarrow> 'db geoip \<Rightarrow> 'ts message \<Rightarrow> 'ts message result" where
  "GeoIP_Filter env g m =
     bindR (GetString m (GeoField g)) (\<lambda>ipStr.
       case Option.bind ipStr (ParseIP env) of
         None \<Rightarrow> Inr m
       | Some ip \<Rightarrow>
           (case GeoReader g of
              None \<Rightarrow> Inl (Panic ''nil pointer dereference'')
            | Some r \<Rightarrow>
                (case GeoCity env r ip of
                   Inl (Panic e) \<Rightarrow> Inl (Panic e)
                 | Inl (Err e) \<Rightarrow> if GeoStrict g then Inl (Err e) else Inr m
                 | Inr city \<Rightarrow> add_items m (geo_items env (GeoAll g) city))))"

section \<open>What the json filter does\<close>

text \<open>A value that Add turns into one attribute.\<close>

definition flat_value :: "'ts json_env \<Rightarrow> json \<Rightarrow> bool" where
  "flat_value env v \<longleftrightarrow> (case plain_val (FloatOf env) v of Some x \<Rightarrow> is_scalar x | None \<Rightarrow> False)"

definition flat_items :: "'ts json_env \<Rightarrow> (string \<times> json) list \<Rightarrow> (string \<times> goval) list" where
  "flat_items env ps = map (\<lambda>p. (fst p, the (plain_val (FloatOf env) (snd p)))) ps"

lemma flat_items_scalar:
  "\<forall>p\<in>set ps. flat_value env (snd p) \<Longrightarrow> \<forall>(k, v)\<in>set (flat_items env ps). is_scalar v"
  by (auto simp: flat_items_def flat_value_def split: option.splits)

lemma unmarshal_text:
  assumes "json_ok (JObj ps)" and "map_order_ok env" and "\<forall>p\<in>set ps. flat_value env (snd p)"
  shows "unmarshal_map env (json_text (JObj ps)) = Some (flat_items env (MapOrder env ps))"
proof -
  have "set (MapOrder env ps) = set ps" using assms(2) by (metis map_order_ok_def mset_eq_setD)
  then have "\<forall>p\<in>set (MapOrder env ps). plain_val (FloatOf env) (snd p) \<noteq> None"
    using assms(3) by (metis (no_types, lifting) flat_value_def option.simps(4))
  then show ?thesis
    using json_decode_text [OF assms(1), of "[]"]
    by (simp add: unmarshal_map_def flat_items_def Let_def skip_ws_def del: json_text.simps)
qed

lemma find_attr_name:
  assumes "\<forall>a\<in>set as. StringKey m a = Inr (name a)" and "find_attr m k as = Inr (Some a)"
  shows "k \<in> name ` set as"
  using assms by (induction as) (auto split: if_splits)

lemma names_of_new:
  assumes "map (StringKey m) as = map (\<lambda>(k, v). Inr k) (kvs :: (string \<times> goval) list)"
  shows "map (\<lambda>a. projr (StringKey m a)) as = map fst kvs" and "\<forall>a\<in>set as. StringKey m a = Inr (projr (StringKey m a))"
  using assms by (induction as arbitrary: kvs; fastforce simp: Cons_eq_map_conv)+

lemma single_not_before:
  "length (filter p xs) \<le> 1 \<Longrightarrow> \<not> (xs \<noteq> [] \<and> p (last xs) \<and> (\<exists>x\<in>set (butlast xs). p x))"
  by (cases xs rule: rev_cases) (auto simp: filter_empty_conv)

text \<open>C27: The json filter on a message one of whose attributes holds the text of a JSON object with scalar
  values. One attribute per member of the object is added, in the order the map is ranged over, with the
  member's key and its value; the field itself is removed, unless Keep is set. When the last member ranged
  over has the name of the field, which the sender of the text decides, Remove panics.\<close>

theorem json_filter_expands:
  assumes "known_version m" and "\<forall>a\<in>set (Attributes m). StringKey m a = Inr (name a)"
    and "GetString m (JField f) = Inr (Some (json_text (JObj ps)))"
    and "length (filter (\<lambda>a. name a = JField f) (Attributes m)) \<le> 1"
    and "json_ok (JObj ps)" and "map_order_ok env" and "\<forall>p\<in>set ps. flat_value env (snd p)"
    and "qs = MapOrder env ps" and "JField f \<notin> fst ` set (butlast qs)"
  shows "\<exists>new. map (StringKey m) new = map (\<lambda>p. Inr (fst p)) qs \<and>
     map Attribute_Value new = map (\<lambda>(k, v). Attribute_Value (the (scalar_attr v zero_attribute))) (flat_items env qs) \<and>
     Json_Filter env f m =
       (if JKeep f then Inr (m\<lparr>Attributes := Attributes m @ new\<rparr>)
        else if qs \<noteq> [] \<and> fst (last qs) = JField f then Inl (Panic ''slice bounds out of range'')
        else Inr (m\<lparr>Attributes := filter (\<lambda>a. name a \<noteq> JField f) (Attributes m) @ new\<rparr>))"
proof -
  have "set qs = set ps" using assms(6,8) by (metis map_order_ok_def mset_eq_setD)
  then have "\<forall>(k, v)\<in>set (flat_items env qs). is_scalar v" using assms(7) flat_items_scalar by blast
  from add_items_scalars [OF assms(1) this] obtain new where
    add: "add_items m (flat_items env qs) = Inr (m\<lparr>Attributes := Attributes m @ new\<rparr>)" and
    keys: "map (StringKey m) new = map (\<lambda>(k, v). Inr k) (flat_items env qs)" and
    vals: "map Attribute_Value new = map (\<lambda>(k, v). Attribute_Value (the (scalar_attr v zero_attribute))) (flat_items env qs)"
    by blast
  let ?m = "m\<lparr>Attributes := Attributes m @ new\<rparr>"
  let ?name = "\<lambda>a. projr (StringKey m a)"
  have old: "\<forall>a\<in>set (Attributes m). ?name a = name a" using assms(2) by simp
  have new: "map ?name new = map fst qs" using names_of_new(1) [OF keys] by (simp add: flat_items_def)
  have named: "\<forall>a\<in>set (Attributes ?m). StringKey ?m a = Inr (?name a)"
    using names_of_new(2) [OF keys] assms(2) StringKey_version [of ?m m] by auto
  have here: "JField f \<in> ?name ` set (Attributes m)"
    using assms(3) find_attr_name [OF assms(2)] old
    by (auto simp: GetString_def bindR_eq_Inr_iff bind_eq_Some_conv image_iff)
  have rm: "Remove ?m (JField f) =
      (if qs \<noteq> [] \<and> fst (last qs) = JField f then Inl (Panic ''slice bounds out of range'')
       else Inr (m\<lparr>Attributes := filter (\<lambda>a. name a \<noteq> JField f) (Attributes m) @ new\<rparr>))"
  proof (cases "qs = []")
    case True
    then have none: "new = []" using new by simp
    have "filter (\<lambda>a. ?name a = JField f) (Attributes m) = filter (\<lambda>a. name a = JField f) (Attributes m)"
      using old by (intro filter_cong) auto
    then have one: "length (filter (\<lambda>a. ?name a = JField f) (Attributes m)) \<le> 1" using assms(4) by simp
    have "filter (\<lambda>a. ?name a \<noteq> JField f) (Attributes m) = filter (\<lambda>a. name a \<noteq> JField f) (Attributes m)"
      using old by (intro filter_cong) auto
    with Remove_keys [OF named, of "JField f"] drop_matches_filter [OF one] single_not_before [OF one] True none
    show ?thesis by auto
  next
    case False
    then have "new \<noteq> []" using new by auto
    have last: "?name (last new) = fst (last qs)"
      using last_map [OF \<open>new \<noteq> []\<close>, of ?name] last_map [OF False, of fst] new by simp
    show ?thesis
    proof (cases "fst (last qs) = JField f")
      case True
      with Remove_keys [OF named, of "JField f"] last here \<open>new \<noteq> []\<close> False show ?thesis
        by (auto simp: butlast_append)
    next
      case ne: False
      have "JField f \<notin> fst ` set qs"
        using assms(9) ne False by (metis (no_types, lifting) append_butlast_last_id image_iff in_set_conv_decomp_last rotate1.simps(2) set_ConsD set_rotate1)
      then have no: "\<forall>a\<in>set new. ?name a \<noteq> JField f" using new by (metis imageI list.set_map)
      have "filter (\<lambda>a. ?name a = JField f) (Attributes ?m) = filter (\<lambda>a. name a = JField f) (Attributes m)"
        using old no by (auto simp: filter_empty_conv intro: filter_cong)
      then have one: "length (filter (\<lambda>a. ?name a = JField f) (Attributes ?m)) \<le> 1" using assms(4) by simp
      have "filter (\<lambda>a. ?name a \<noteq> JField f) (Attributes ?m) = filter (\<lambda>a. name a \<noteq> JField f) (Attributes m) @ new"
        using old no by (auto intro: filter_cong)
      with Remove_keys [OF named, of "JField f"] drop_matches_filter [OF one] last ne \<open>new \<noteq> []\<close>
      show ?thesis by simp
    qed
  qed
  have "map (StringKey m) new = map (\<lambda>p. Inr (fst p)) qs" using keys by (simp add: flat_items_def)
  moreover have "Json_Filter env f m =
       (if JKeep f then Inr ?m
        else if qs \<noteq> [] \<and> fst (last qs) = JField f then Inl (Panic ''slice bounds out of range'')
        else Inr (m\<lparr>Attributes := filter (\<lambda>a. name a \<noteq> JField f) (Attributes m) @ new\<rparr>))"
    using assms(3) unmarshal_text [OF assms(5-7)] add rm by (simp add: Json_Filter_def assms(8))
  ultimately show ?thesis using vals by blast
qed


text \<open>The value \{"b":"x"\} in the field pid, with ranging over maps backwards.\<close>

theorem json_filter_expands_witness:
  "\<exists>new. map (StringKey (Log (3 :: nat))) new = [Inr ''b''] \<and>
     map Attribute_Value new = [AString ''x''] \<and>
     Json_Filter plain_json \<lparr>JField = ''pid'', JKeep = False\<rparr>
         ((Log 3)\<lparr>Attributes := [zero_attribute\<lparr>Key := 8, Sval := Some (json_text (JObj [(''b'', JStr ''x'')]))\<rparr>]\<rparr>) =
       Inr ((Log 3)\<lparr>Attributes := new\<rparr>)"
proof -
  let ?f = "\<lparr>JField = ''pid'', JKeep = False\<rparr>"
  let ?a = "zero_attribute\<lparr>Key := 8, Sval := Some (json_text (JObj [(''b'', JStr ''x'')]))\<rparr>"
  let ?m = "(Log (3 :: nat))\<lparr>Attributes := [?a]\<rparr>"
  have key: "StringKey ?m ?a = Inr ''pid''"
    by code_simp
  have "\<exists>new. map (StringKey ?m) new = map (\<lambda>p. Inr (fst p)) [(''b'', JStr ''x'')] \<and>
     map Attribute_Value new = map (\<lambda>(k, v). Attribute_Value (the (scalar_attr v zero_attribute))) (flat_items plain_json [(''b'', JStr ''x'')]) \<and>
     Json_Filter plain_json ?f ?m =
       (if JKeep ?f then Inr (?m\<lparr>Attributes := Attributes ?m @ new\<rparr>)
        else if [(''b'', JStr ''x'')] \<noteq> [] \<and> fst (last [(''b'', JStr ''x'')]) = JField ?f then Inl (Panic ''slice bounds out of range'')
        else Inr (?m\<lparr>Attributes := filter (\<lambda>a. ''pid'' \<noteq> JField ?f) (Attributes ?m) @ new\<rparr>))"
  proof (rule json_filter_expands [where name = "\<lambda>_. ''pid''" and ps = "[(''b'', JStr ''x'')]"])
    show "\<forall>a\<in>set (Attributes ?m). StringKey ?m a = Inr ''pid''" using key by simp
    have "find_attr ?m ''pid'' (Attributes ?m) = Inr (Some ?a)" using key by simp
    then show "GetString ?m (JField ?f) = Inr (Some (json_text (JObj [(''b'', JStr ''x'')])))"
      by (simp add: GetString_def)
  qed (simp_all add: known_version_def Log_def zero_message_def is_ascii_def map_order_ok_def plain_json_def flat_value_def
      is_scalar_def scalar_attr_def zero_attribute_def DEFAULT_VERSION_def)
  then obtain new where new: "map (StringKey ?m) new = map (\<lambda>p. Inr (fst p)) [(''b'', JStr ''x'')]"
      "map Attribute_Value new = map (\<lambda>(k, v). Attribute_Value (the (scalar_attr v zero_attribute))) (flat_items plain_json [(''b'', JStr ''x'')])"
    and res: "Json_Filter plain_json ?f ?m =
       (if JKeep ?f then Inr (?m\<lparr>Attributes := Attributes ?m @ new\<rparr>)
        else if [(''b'', JStr ''x'')] \<noteq> [] \<and> fst (last [(''b'', JStr ''x'')]) = JField ?f then Inl (Panic ''slice bounds out of range'')
        else Inr (?m\<lparr>Attributes := filter (\<lambda>a. ''pid'' \<noteq> JField ?f) (Attributes ?m) @ new\<rparr>))" by blast
  have "StringKey ?m = StringKey (Log (3 :: nat))" by (intro ext StringKey_version) simp
  then have "map (StringKey (Log (3 :: nat))) new = [Inr ''b'']" using new(1) by (simp only: list.map fst_conv)
  moreover have "map Attribute_Value new = [AString ''x'']"
    unfolding new(2) by (simp add: flat_items_def scalar_attr_def Attribute_Value_def zero_attribute_def)
  moreover have "Json_Filter plain_json ?f ?m = Inr ((Log 3)\<lparr>Attributes := new\<rparr>)" unfolding res by simp
  ultimately show ?thesis by (intro exI [of _ new] conjI)
qed

end
