(* ===== verification/Typing.thy ===== *)
theory Typing
  imports Values
begin

text \<open>
  The typing of messages: an attribute has a key that its version can print and at most one value, and
  tags have distinct names. Every operation of log.go that builds or changes a message keeps this, and on
  such messages the getters are the six typed views of Get.
\<close>

definition values_of :: "attribute \<Rightarrow> avalue list" where
  "values_of a = List.map_filter id
     [map_option AInt (Ival a), map_option AFloat (Fval a), map_option AString (Sval a),
      map_option ABytes (Bval a), map_option AInterval (Tval a), map_option ABool (Boolval a)]"

definition typed_attribute :: "'ts message \<Rightarrow> attribute \<Rightarrow> bool" where
  "typed_attribute m a \<longleftrightarrow> \<not> is_panic (StringKey m a) \<and> length (values_of a) \<le> 1"

definition typed_message :: "'ts message \<Rightarrow> bool" where
  "typed_message m \<longleftrightarrow> known_version m \<and> distinct (map TName (Tags m)) \<and> (\<forall>a\<in>set (Attributes m). typed_attribute m a)"

text \<open>The operations of log.go on a message.\<close>

datatype message_op =
    OpInt string u64
  | OpFloat string float64
  | OpString string string
  | OpBytes string "bytes option"
  | OpInterval string u64 u32
  | OpDuration string u64
  | OpAdd string goval
  | OpMany "goval list"
  | OpTag string string
  | OpRemove string
  | OpRemoveTag string
  | OpFor string

primrec run_op :: "(goval \<Rightarrow> string) \<Rightarrow> message_op \<Rightarrow> 'ts message \<Rightarrow> 'ts message result" where
  "run_op fmt (OpInt k x) m = AddInt m k x"
| "run_op fmt (OpFloat k x) m = AddFloat m k x"
| "run_op fmt (OpString k x) m = AddString m k x"
| "run_op fmt (OpBytes k x) m = AddBytes m k x"
| "run_op fmt (OpInterval k s n) m = AddInterval m k s n"
| "run_op fmt (OpDuration k d) m = AddDuration m k d"
| "run_op fmt (OpAdd k v) m = bindR (Add m k v) (\<lambda>(m', _). Inr m')"
| "run_op fmt (OpMany vals) m = AddMany fmt m vals"
| "run_op fmt (OpTag k v) m = Inr (AddTag m k v)"
| "run_op fmt (OpRemove k) m = Remove m k"
| "run_op fmt (OpRemoveTag k) m = RemoveTag m k"
| "run_op fmt (OpFor sid) m = Inr (For m sid)"

fun run_ops :: "(goval \<Rightarrow> string) \<Rightarrow> message_op list \<Rightarrow> 'ts message \<Rightarrow> 'ts message result" where
  "run_ops fmt [] m = Inr m"
| "run_ops fmt (x # xs) m = bindR (run_op fmt x m) (run_ops fmt xs)"

lemma typed_attribute_cong:
  "Version m = Version m' \<Longrightarrow> typed_attribute m = typed_attribute m'"
  by (intro ext) (simp add: typed_attribute_def StringKey_version [of m m'])

lemma typed_append:
  "typed_message m \<Longrightarrow> typed_attribute m a \<Longrightarrow> typed_message (append_attr m a)"
  by (auto simp: typed_message_def append_attr_def known_version_def typed_attribute_cong [of "m\<lparr>Attributes := as\<rparr>" m for as])

lemma new_attribute:
  assumes "known_version m" and "SetKey m zero_attribute key = Inr a"
  obtains k s where "a = zero_attribute\<lparr>Key := k, Skey := s\<rparr>" and "StringKey m a = Inr key"
  using StringKey_SetKey [OF assms(1), of zero_attribute key] assms(2) by (auto simp: zero_attribute_def)

lemma new_attribute_empty:
  assumes "SetKey m zero_attribute key = Inr a"
  shows "Ival a = None" "Fval a = None" "Sval a = None" "Bval a = None" "Tval a = None" "Boolval a = None"
  using assms by (auto simp: SetKey_def bindR_eq_Inr_iff zero_attribute_def split: option.splits)

lemmas value_simps = values_of_def List.map_filter_def

lemma typed_new:
  assumes "typed_message m" and "SetKey m zero_attribute key = Inr a"
    and "Key b = Key a" "Skey b = Skey a" "length (values_of b) \<le> 1"
  shows "typed_message (append_attr m b)"
proof -
  have "known_version m" using assms(1) by (simp add: typed_message_def)
  from new_attribute [OF this assms(2)] have "StringKey m a = Inr key" by blast
  with StringKey_keys [OF assms(3,4), of m] assms(1,5) show ?thesis by (auto simp: typed_attribute_def intro: typed_append)
qed

lemma typed_scalar:
  assumes "typed_message m" and "SetKey m zero_attribute key = Inr attr" and "scalar_attr v attr = Some a"
  shows "typed_message (append_attr m a)"
  using assms(3) by (intro typed_new [OF assms(1,2)]; cases v)
    (auto simp: scalar_attr_def new_attribute_empty [OF assms(2)] value_simps)

lemma typed_Add:
  "typed_message m \<Longrightarrow> Add m key v = Inr (m', e) \<Longrightarrow> typed_message m'"
  "typed_message m \<Longrightarrow> add_items m kvs = Inr m' \<Longrightarrow> typed_message m'"
proof (induction m key v and m kvs arbitrary: m' e and m' rule: Add_add_items.induct)
  case (1 m key v)
  then obtain attr where attr: "SetKey m zero_attribute key = Inr attr" by (auto simp: Add.simps bindR_eq_Inr_iff)
  show ?case
  proof (cases "scalar_attr v attr")
    case (Some a)
    with attr 1 show ?thesis by (auto simp: Add.simps intro: typed_scalar)
  next
    case None
    with attr 1 show ?thesis by (auto simp: Add.simps bindR_eq_Inr_iff split: option.splits)
  qed
next
  case (2 m)
  then show ?case by simp
next
  case (3 m k x kvs)
  from "3.prems"(2) obtain m1 e1 where m1: "Add m k x = Inr (m1, e1)" "add_items m1 kvs = Inr m'"
    by (auto simp: bindR_eq_Inr_iff split: prod.splits)
  show ?case by (rule "3.IH"(2) [OF m1(1) refl "3.IH"(1) [OF "3.prems"(1) m1(1)] m1(2)])
qed

lemma typed_add_pairs:
  "typed_message m \<Longrightarrow> add_pairs fmt m vals = Inr m' \<Longrightarrow> typed_message m'"
  by (induction fmt m vals rule: add_pairs.induct) (auto simp: bindR_eq_Inr_iff dest: typed_Add(1))

lemma set_drop_matches: "set (drop_matches p xs) \<subseteq> set xs"
  by (induction p xs rule: drop_matches.induct) auto

lemma typed_names:
  assumes "typed_message m"
  shows "\<forall>a\<in>set (Attributes m). StringKey m a = Inr (projr (StringKey m a))"
proof
  fix a assume "a \<in> set (Attributes m)"
  then have "\<not> is_panic (StringKey m a)" using assms by (simp add: typed_message_def typed_attribute_def)
  then show "StringKey m a = Inr (projr (StringKey m a))"
    by (cases "StringKey m a" rule: sum.exhaust) (auto simp: StringKey_def version_table_def go_index_def FromIndex_def Let_def split: if_splits)
qed

lemma typed_Remove:
  assumes "typed_message m" and "Remove m key = Inr m'"
  shows "typed_message m'"
proof -
  have "m' = m\<lparr>Attributes := drop_matches (\<lambda>a. projr (StringKey m a) = key) (Attributes m)\<rparr>"
    using Remove_keys [OF typed_names [OF assms(1)], of key] assms(2) by (simp split: if_splits)
  then show ?thesis
    using assms(1) set_drop_matches [of "\<lambda>a. projr (StringKey m a) = key" "Attributes m"]
    by (auto simp: typed_message_def known_version_def typed_attribute_cong [of "m\<lparr>Attributes := as\<rparr>" m for as])
qed

lemma typed_tags:
  "typed_message m \<Longrightarrow> distinct (map TName ts) \<Longrightarrow> typed_message (m\<lparr>Tags := ts\<rparr>)"
  by (auto simp: typed_message_def known_version_def typed_attribute_cong [of "m\<lparr>Tags := ts\<rparr>" m])

lemma typed_run_op:
  assumes "typed_message m" and "run_op fmt x m = Inr m'"
  shows "typed_message m'"
proof (cases x)
  case (OpTag k v)
  have "distinct (map TName (set_tag (Tags m) k v))" using assms(1) by (simp add: set_tag_names typed_message_def)
  with assms OpTag show ?thesis by (auto simp: AddTag_def intro: typed_tags)
next
  case (OpRemoveTag k)
  have "distinct (map TName (Tags m))" using assms(1) by (simp add: typed_message_def)
  with remove_tag_filter [OF this, of k] assms OpRemoveTag show ?thesis
    by (auto simp: RemoveTag_def distinct_map_filter intro!: typed_tags)
next
  case (OpFor sid)
  with assms show ?thesis
    by (auto simp: For_def typed_message_def known_version_def typed_attribute_cong [of "m\<lparr>SessionId := Some sid\<rparr>" m])
next
  case (OpAdd k v)
  with assms show ?thesis by (auto simp: bindR_eq_Inr_iff intro: typed_Add(1))
next
  case (OpMany vals)
  with assms show ?thesis by (auto simp: AddMany_def split: if_splits intro: typed_add_pairs)
next
  case (OpRemove k)
  with assms show ?thesis by (auto intro: typed_Remove)
qed (use assms in \<open>auto simp: AddInt_def AddFloat_def AddString_def AddBytes_def AddInterval_def AddDuration_def
      bindR_eq_Inr_iff value_simps new_attribute_empty intro!: typed_new\<close>)

lemma typed_find:
  assumes "\<forall>a\<in>set as. \<not> is_panic (StringKey m a)"
  shows "\<exists>r. find_attr m key as = Inr r \<and> (\<forall>a. r = Some a \<longrightarrow> a \<in> set as)"
  using assms
proof (induction as)
  case (Cons a as)
  then obtain k where "StringKey m a = Inr k"
    by (cases "StringKey m a" rule: sum.exhaust)
      (auto simp: StringKey_def version_table_def go_index_def FromIndex_def Let_def split: if_splits)
  with Cons show ?case by auto
qed simp

lemma typed_views:
  assumes "length (values_of a) \<le> 1"
  shows "Ival a = (case Attribute_Value a of AInt x \<Rightarrow> Some x | _ \<Rightarrow> None)"
    and "Fval a = (case Attribute_Value a of AFloat x \<Rightarrow> Some x | _ \<Rightarrow> None)"
    and "Sval a = (case Attribute_Value a of AString x \<Rightarrow> Some x | _ \<Rightarrow> None)"
    and "Bval a = (case Attribute_Value a of ABytes x \<Rightarrow> Some x | _ \<Rightarrow> None)"
    and "Tval a = (case Attribute_Value a of AInterval x \<Rightarrow> Some x | _ \<Rightarrow> None)"
    and "Boolval a = (case Attribute_Value a of ABool x \<Rightarrow> Some x | _ \<Rightarrow> None)"
  using assms
  by (cases "Ival a"; cases "Fval a"; cases "Sval a"; cases "Bval a"; cases "Tval a"; cases "Boolval a";
      simp add: value_simps Attribute_Value_def)+

section \<open>Properties\<close>

text \<open>
  C21: Messages stay well typed. Whatever operations of log.go are applied to a new message, with keys and values
  of any kind, the result has printable keys, at most one value in every attribute and distinct tags; and so Get
  never panics on it, and each of the typed getters answers exactly when the value that Get finds has its type.
\<close>

theorem messages_typed:
  assumes "m0 \<in> {NewMessage now, Log now, Metric now, Trace now, Audit now, Heartbeat now}"
    and "run_ops fmt ops m0 = Inr m"
  shows "typed_message m \<and> (\<exists>r. Get m key = Inr r \<and>
     GetInt m key = Inr (case r of Some (AInt x) \<Rightarrow> Some x | _ \<Rightarrow> None) \<and>
     GetFloat m key = Inr (case r of Some (AFloat x) \<Rightarrow> Some x | _ \<Rightarrow> None) \<and>
     GetString m key = Inr (case r of Some (AString x) \<Rightarrow> Some x | _ \<Rightarrow> None) \<and>
     GetBytes m key = Inr (case r of Some (ABytes x) \<Rightarrow> Some x | _ \<Rightarrow> None) \<and>
     GetInterval m key = Inr (case r of Some (AInterval x) \<Rightarrow> Some x | _ \<Rightarrow> None) \<and>
     GetBool m key = Inr (case r of Some (ABool x) \<Rightarrow> Some x | _ \<Rightarrow> None))"
proof -
  have "typed_message m0"
    using assms(1) by (auto simp: typed_message_def known_version_def NewMessage_def Log_def Metric_def Trace_def Audit_def
        Heartbeat_def zero_message_def DEFAULT_VERSION_def)
  with assms(2) have typed: "typed_message m"
    by (induction fmt ops m0 rule: run_ops.induct) (auto simp: bindR_eq_Inr_iff intro: typed_run_op)
  then have "\<forall>a\<in>set (Attributes m). \<not> is_panic (StringKey m a)" by (simp add: typed_message_def typed_attribute_def)
  from typed_find [OF this, of key] obtain r where r: "find_attr m key (Attributes m) = Inr r"
    "\<forall>a. r = Some a \<longrightarrow> a \<in> set (Attributes m)" by blast
  note getters = Get_def GetInt_def GetFloat_def GetString_def GetBytes_def GetInterval_def GetBool_def
  show ?thesis
  proof (cases r)
    case None
    with r typed show ?thesis by (simp add: getters)
  next
    case (Some a)
    then have "length (values_of a) \<le> 1" using r(2) typed by (simp add: typed_message_def typed_attribute_def)
    with r(1) typed Some typed_views [of a] show ?thesis by (simp add: getters)
  qed
qed

theorem messages_typed_witness:
  "\<exists>m r. run_ops (\<lambda>_. '''') [OpAdd ''a'' (VSlice [VInt 4, VBool True]), OpTag ''t'' ''x'', OpString ''user'' ''u'', OpRemove ''user''] (Log (0 :: nat)) = Inr m \<and>
     typed_message m \<and> Get m ''a.1'' = Inr r"
proof -
  let ?run = "run_ops (\<lambda>_. '''') [OpAdd ''a'' (VSlice [VInt 4, VBool True]), OpTag ''t'' ''x'', OpString ''user'' ''u'', OpRemove ''user''] (Log (0 :: nat))"
  have "\<not> isl ?run" by code_simp
  then obtain m where m: "?run = Inr m" by (cases ?run) simp_all
  with messages_typed [OF _ m, of 0] show ?thesis by blast
qed

end
