(* ===== verification/JsonFields.thy ===== *)
theory JsonFields
  imports JsonText
begin

text \<open>
  Decoding JSON into the structs of the sources, as encoding/json does it: a member is stored in the field
  whose name or json tag it matches up to case, a missing one and null leave the zero value, and a value of
  the wrong type makes the whole decoding an error.
\<close>

definition json_member :: "(string \<times> json) list \<Rightarrow> string \<Rightarrow> json option" where
  "json_member ps name =
     (case filter (\<lambda>(k, v). ToLower k = name) ps of [] \<Rightarrow> None | xs \<Rightarrow> Some (snd (last xs)))"

definition json_mismatch :: "'a result" where
  "json_mismatch = Inl (Err (OtherErr ''json: cannot unmarshal value''))"

definition string_field :: "json option \<Rightarrow> string result" where
  "string_field v = (case v of Some (JStr s) \<Rightarrow> Inr s | Some JNull \<Rightarrow> Inr '''' | None \<Rightarrow> Inr '''' | _ \<Rightarrow> json_mismatch)"

text \<open>An int64 and a uint of the given size.\<close>

definition int_field :: "json option \<Rightarrow> int result" where
  "int_field v =
     (case v of
        Some (JNum s) \<Rightarrow> (case ParseInt10 64 s of Parsed i \<Rightarrow> Inr i | _ \<Rightarrow> json_mismatch)
      | Some JNull \<Rightarrow> Inr 0 | None \<Rightarrow> Inr 0 | _ \<Rightarrow> json_mismatch)"

definition uint_field :: "nat \<Rightarrow> json option \<Rightarrow> nat result" where
  "uint_field bits v =
     (case v of
        Some (JNum s) \<Rightarrow>
          if s \<noteq> [] \<and> list_all is_digit s \<and> digits_val s < 2 ^ bits then Inr (digits_val s) else json_mismatch
      | Some JNull \<Rightarrow> Inr 0 | None \<Rightarrow> Inr 0 | _ \<Rightarrow> json_mismatch)"

text \<open>The elements of an array of pointers to structs; null is a nil pointer.\<close>

definition array_field :: "((string \<times> json) list \<Rightarrow> 'a result) \<Rightarrow> json option \<Rightarrow> 'a option list result" where
  "array_field f v =
     (case v of
        Some (JArr xs) \<Rightarrow>
          foldr (\<lambda>x r. bindR (case x of JObj ps \<Rightarrow> bindR (f ps) (\<lambda>y. Inr (Some y)) | JNull \<Rightarrow> Inr None | _ \<Rightarrow> json_mismatch)
            (\<lambda>y. bindR r (\<lambda>ys. Inr (y # ys)))) xs (Inr [])
      | Some JNull \<Rightarrow> Inr [] | None \<Rightarrow> Inr [] | _ \<Rightarrow> json_mismatch)"

text \<open>json.Unmarshal and Decoder.Decode into a struct; null decodes to its zero value.\<close>

definition struct_value :: "((string \<times> json) list \<Rightarrow> 'a result) \<Rightarrow> json \<Rightarrow> 'a result" where
  "struct_value f v = (case v of JObj ps \<Rightarrow> f ps | JNull \<Rightarrow> f [] | _ \<Rightarrow> json_mismatch)"

definition json_unmarshal :: "((string \<times> json) list \<Rightarrow> 'a result) \<Rightarrow> string \<Rightarrow> 'a result" where
  "json_unmarshal f s =
     bindR (json_decode s) (\<lambda>(v, rest).
       if skip_ws rest = [] then struct_value f v else Inl (Err (OtherErr ''invalid character after top-level value'')))"

definition json_decode_struct :: "((string \<times> json) list \<Rightarrow> 'a result) \<Rightarrow> string \<Rightarrow> 'a result" where
  "json_decode_struct f s = bindR (json_decode s) (\<lambda>(v, rest). struct_value f v)"

lemma int_field_dec: "- (2 ^ 63) \<le> i \<Longrightarrow> i < 2 ^ 63 \<Longrightarrow> int_field (Some (JNum (int_dec i))) = Inr i"
  using ParseInt10_int_dec [of 64 i] by (simp add: int_field_def)

lemma array_field_simps:
  "array_field f (Some (JArr [])) = Inr []"
  "array_field f (Some (JArr (x # xs))) =
     bindR (case x of JObj ps \<Rightarrow> bindR (f ps) (\<lambda>y. Inr (Some y)) | JNull \<Rightarrow> Inr None | _ \<Rightarrow> json_mismatch)
       (\<lambda>y. bindR (array_field f (Some (JArr xs))) (\<lambda>ys. Inr (y # ys)))"
  by (simp_all add: array_field_def)

end
