(* ===== verification/Files.thy ===== *)
theory Files
  imports Pipes JsonFields
begin

text \<open>
  plugins/file: the lines of files as messages, and the offsets up to which they have been handed on, kept
  from one run to the next. The hashes, the clock and the paths' canonical forms are parameters; the
  operating system opens for a path the file that its canonical form names. The directory of the offset
  database is kept apart from the files that are read.
\<close>

section \<open>Files and their identity\<close>

text \<open>A file: its inode and device numbers as samefile writes them, its birth time attribute, whether the
  file system takes one, and its content.\<close>

record inode =
  INumber :: bytes
  IDevice :: bytes
  IBirth :: "bytes option"
  IXattr :: bool
  IContent :: string

type_synonym fs = "string \<Rightarrow> inode option"

record file_env =
  Clean :: "string \<Rightarrow> string"
  EvalSymlinks :: "string \<Rightarrow> string result"
  Abs :: "string \<Rightarrow> string result"
  Sha1Hex :: "bytes \<Rightarrow> string"
  Sha256Hex :: "string \<Rightarrow> string"
  MkdirAll :: "string \<Rightarrow> unit result"
  CreateFile :: "string \<Rightarrow> unit result"
  Base :: "string \<Rightarrow> string"

definition cleanPath :: "file_env \<Rightarrow> string \<Rightarrow> string" where
  "cleanPath env path =
     (let one = Clean env path in
      case EvalSymlinks env one of
        Inl e \<Rightarrow> one
      | Inr two \<Rightarrow> (case Abs env two of Inl e \<Rightarrow> two | Inr three \<Rightarrow> three))"

definition file_at :: "file_env \<Rightarrow> fs \<Rightarrow> string \<Rightarrow> inode option" where
  "file_at env fs path = fs (cleanPath env path)"

definition no_such_file :: "'a result" where
  "no_such_file = Inl (Err (OtherErr ''no such file or directory''))"

text \<open>What fsHash adds to the hash. The first look at a file marks it with the time, where that is possible;
  at most 64 bytes of the mark are read back. now is what time.Now().MarshalBinary() answers.\<close>

definition fsHash :: "file_env \<Rightarrow> bytes \<Rightarrow> string \<Rightarrow> fs \<Rightarrow> bytes result \<times> fs" where
  "fsHash env now path fs =
     (case file_at env fs path of
        None \<Rightarrow> (no_such_file, fs)
      | Some f \<Rightarrow>
          (case IBirth f of
             Some b \<Rightarrow> if IXattr f \<and> length b \<le> 64 then (Inr (INumber f @ IDevice f @ b), fs)
                       else if IXattr f then (Inr (INumber f @ IDevice f @ now), fs(cleanPath env path \<mapsto> f\<lparr>IBirth := Some now\<rparr>))
                       else (Inr (INumber f @ IDevice f), fs)
           | None \<Rightarrow>
               if IXattr f then (Inr (INumber f @ IDevice f @ now), fs(cleanPath env path \<mapsto> f\<lparr>IBirth := Some now\<rparr>))
               else (Inr (INumber f @ IDevice f), fs)))"

definition samefile_Calculate :: "file_env \<Rightarrow> bytes \<Rightarrow> string \<Rightarrow> fs \<Rightarrow> string result \<times> fs" where
  "samefile_Calculate env now path fs =
     (case fsHash env now path fs of
        (Inl e, fs1) \<Rightarrow> (Inl e, fs1)
      | (Inr h, fs1) \<Rightarrow> (Inr (Sha1Hex env (str_bytes path @ h)), fs1))"

definition samefile_CheckValid :: "file_env \<Rightarrow> bytes \<Rightarrow> string \<Rightarrow> string \<Rightarrow> fs \<Rightarrow> unit result \<times> fs" where
  "samefile_CheckValid env now ident path fs =
     (case samefile_Calculate env now path fs of
        (Inl e, fs1) \<Rightarrow> (Inl e, fs1)
      | (Inr other, fs1) \<Rightarrow> (if ident \<noteq> other then Inl (Err (OtherErr ''SamefileIDs don't match'')) else Inr (), fs1))"

section \<open>The offset database\<close>

record entry =
  EPath :: string
  EOffset :: int
  SameFileID :: string

type_synonym offset_db = "string \<Rightarrow> string option"

text \<open>The database is a directory; a file of it is named by the hash of the path, below its first two characters.\<close>

definition entry_path :: "file_env \<Rightarrow> string \<Rightarrow> string" where
  "entry_path env path = take 2 (Sha256Hex env path) @ ''/'' @ Sha256Hex env path"

definition entry_text :: "entry \<Rightarrow> string" where
  "entry_text e =
     json_text (JObj [(''path'', JStr (EPath e)), (''offset'', JNum (int_dec (EOffset e))), (''samefileid'', JStr (SameFileID e))])
     @ [CHR 0x0A]"

definition entry_of :: "(string \<times> json) list \<Rightarrow> entry result" where
  "entry_of ps =
     bindR (string_field (json_member ps ''path'')) (\<lambda>p.
     bindR (int_field (json_member ps ''offset'')) (\<lambda>n.
     bindR (string_field (json_member ps ''samefileid'')) (\<lambda>i.
       Inr \<lparr>EPath = p, EOffset = n, SameFileID = i\<rparr>)))"

definition OffsetDB_Set :: "file_env \<Rightarrow> bytes \<Rightarrow> string \<Rightarrow> int \<Rightarrow> offset_db \<times> fs \<Rightarrow> unit result \<times> offset_db \<times> fs" where
  "OffsetDB_Set env now path offset dbfs =
     (case dbfs of (db, fs) \<Rightarrow>
        let path = cleanPath env path in
        case MkdirAll env (take 2 (Sha256Hex env path)) of
          Inl e \<Rightarrow> (Inl e, db, fs)
        | Inr _ \<Rightarrow>
            (case samefile_Calculate env now path fs of
               (Inl e, fs1) \<Rightarrow> (Inl e, db, fs1)
             | (Inr sfid, fs1) \<Rightarrow>
                 (case CreateFile env (entry_path env path) of
                    Inl e \<Rightarrow> (Inl e, db, fs1)
                  | Inr _ \<Rightarrow>
                      (Inr (), db(entry_path env path \<mapsto> entry_text \<lparr>EPath = path, EOffset = offset, SameFileID = sfid\<rparr>), fs1))))"

definition OffsetDB_Get :: "file_env \<Rightarrow> string \<Rightarrow> offset_db \<Rightarrow> entry option result" where
  "OffsetDB_Get env path db =
     (case db (entry_path env (cleanPath env path)) of
        None \<Rightarrow> Inr None
      | Some s \<Rightarrow> bindR (json_decode_struct entry_of s) (\<lambda>e. Inr (Some e)))"

definition Entry_CheckValid :: "file_env \<Rightarrow> bytes \<Rightarrow> entry \<Rightarrow> fs \<Rightarrow> unit result \<times> fs" where
  "Entry_CheckValid env now e fs =
     (case samefile_CheckValid env now (SameFileID e) (EPath e) fs of
        (Inl x, fs1) \<Rightarrow> (Inl x, fs1)
      | (Inr _, fs1) \<Rightarrow>
          (case file_at env fs1 (EPath e) of
             None \<Rightarrow> (no_such_file, fs1)
           | Some f \<Rightarrow>
               (if int (length (IContent f)) < EOffset e then Inl (Err (OtherErr ''Current file smaller that offset'')) else Inr (), fs1)))"

definition Entry_Valid :: "file_env \<Rightarrow> bytes \<Rightarrow> entry \<Rightarrow> fs \<Rightarrow> bool \<times> fs" where
  "Entry_Valid env now e fs = (case Entry_CheckValid env now e fs of (r, fs1) \<Rightarrow> (r = Inr (), fs1))"

section \<open>Reading lines\<close>

record 'ts line =
  LText :: string
  LOffset :: int
  LTime :: 'ts

definition Line_Next :: "'ts line \<Rightarrow> int" where
  "Line_Next l = LOffset l + int (length (LText l))"

text \<open>
  The loop of readOnce: a line with its newline for every newline. What is behind the last one is dropped,
  because ReadString returns it together with EOF. The clock gives the time at which the line at an offset
  is handed over.
\<close>

function read_lines :: "(int \<Rightarrow> 'ts) \<Rightarrow> int \<Rightarrow> string \<Rightarrow> 'ts line list" where
  "read_lines clock offset buf =
     (case IndexByte buf (CHR 0x0A) of
        None \<Rightarrow> []
      | Some n \<Rightarrow>
          \<lparr>LText = take (Suc n) buf, LOffset = offset, LTime = clock offset\<rparr>
            # read_lines clock (offset + int (Suc n)) (drop (Suc n) buf))"
  by pat_completeness auto
termination
  by (relation "measure (\<lambda>(clock, offset, buf). length buf)") (auto dest: IndexByte_less)

declare read_lines.simps [simp del]

text \<open>What the goroutine of NewFile sends: nothing if the file does not open or the offset is negative.\<close>

definition readOnce :: "file_env \<Rightarrow> (int \<Rightarrow> 'ts) \<Rightarrow> fs \<Rightarrow> string \<Rightarrow> int \<Rightarrow> 'ts line list" where
  "readOnce env clock fs path offset =
     (case file_at env fs path of
        None \<Rightarrow> []
      | Some f \<Rightarrow> if offset < 0 then [] else read_lines clock offset (drop (nat offset) (IContent f)))"

text \<open>
  readFollow between two waits: the text that has been appended since is read up to the end of the file.
  The part behind the last newline becomes the prefix of the next line; it replaces the prefix there was.
  A chunk is what the file has gained when the reader next gets to its end.
\<close>

function follow_chunk :: "(int \<Rightarrow> 'ts) \<Rightarrow> string \<Rightarrow> int \<Rightarrow> string \<Rightarrow> 'ts line list \<times> string \<times> int" where
  "follow_chunk clock prefix offset buf =
     (case IndexByte buf (CHR 0x0A) of
        None \<Rightarrow> ([], buf, offset)
      | Some n \<Rightarrow>
          let str = prefix @ take (Suc n) buf;
              (ls, rest) = follow_chunk clock '''' (offset + int (length str)) (drop (Suc n) buf)
          in (\<lparr>LText = str, LOffset = offset, LTime = clock offset\<rparr> # ls, rest))"
  by pat_completeness auto
termination
  by (relation "measure (\<lambda>(clock, prefix, offset, buf). length buf)") (auto dest: IndexByte_less)

declare follow_chunk.simps [simp del]

text \<open>What the watcher reports: a write, after which the file has grown by a chunk that may be empty; the
  creation of a file of the path, which is then read from its start; anything else.\<close>

datatype fs_event = Wrote string | Created string | OtherEvent

record follow =
  FPrefix :: string
  FOffset :: int

fun follow_event :: "(int \<Rightarrow> 'ts) \<Rightarrow> follow \<Rightarrow> fs_event \<Rightarrow> 'ts line list \<times> follow" where
  "follow_event clock s (Wrote chunk) =
     (case follow_chunk clock (FPrefix s) (FOffset s) chunk of (ls, p, n) \<Rightarrow> (ls, \<lparr>FPrefix = p, FOffset = n\<rparr>))"
| "follow_event clock s (Created content) =
     (case follow_chunk clock (FPrefix s) 0 content of (ls, p, n) \<Rightarrow> (ls, \<lparr>FPrefix = p, FOffset = n\<rparr>))"
| "follow_event clock s OtherEvent = ([], s)"

fun follow_events :: "(int \<Rightarrow> 'ts) \<Rightarrow> follow \<Rightarrow> fs_event list \<Rightarrow> 'ts line list \<times> follow" where
  "follow_events clock s [] = ([], s)"
| "follow_events clock s (e # es) =
     (case follow_event clock s e of (ls, s1) \<Rightarrow> (case follow_events clock s1 es of (ls1, s2) \<Rightarrow> (ls @ ls1, s2)))"

text \<open>The reader first reads what is there, as after a write.\<close>

definition readFollow :: "file_env \<Rightarrow> (int \<Rightarrow> 'ts) \<Rightarrow> fs \<Rightarrow> string \<Rightarrow> int \<Rightarrow> fs_event list \<Rightarrow> 'ts line list" where
  "readFollow env clock fs path offset es =
     (case file_at env fs path of
        None \<Rightarrow> []
      | Some f \<Rightarrow> if offset < 0 then []
          else fst (follow_events clock \<lparr>FPrefix = '''', FOffset = offset\<rparr> (Wrote (drop (nat offset) (IContent f)) # es)))"

section \<open>A file as a generator\<close>

text \<open>What the goroutine of a file still sends; once it is closed there is nothing left.\<close>

record 'ts tail_file =
  TailName :: string
  LastOffset :: int
  TailLines :: "'ts line list"

definition NewFile :: "file_env \<Rightarrow> (int \<Rightarrow> 'ts) \<Rightarrow> fs \<Rightarrow> string \<Rightarrow> int \<Rightarrow> 'ts tail_file" where
  "NewFile env clock fs path offset =
     \<lparr>TailName = Base env path, LastOffset = 0, TailLines = readOnce env clock fs path offset\<rparr>"

definition NewFollowFile :: "file_env \<Rightarrow> (int \<Rightarrow> 'ts) \<Rightarrow> fs \<Rightarrow> string \<Rightarrow> int \<Rightarrow> fs_event list \<Rightarrow> 'ts tail_file" where
  "NewFollowFile env clock fs path offset es =
     \<lparr>TailName = Base env path, LastOffset = 0, TailLines = readFollow env clock fs path offset es\<rparr>"

definition GenerateLine :: "'ts tail_file \<Rightarrow> 'ts line result \<times> 'ts tail_file" where
  "GenerateLine f = (case TailLines f of [] \<Rightarrow> (Inl (Err EOF), f) | l # ls \<Rightarrow> (Inr l, f\<lparr>TailLines := ls\<rparr>))"

definition line_message :: "string \<Rightarrow> 'ts line \<Rightarrow> 'ts message result" where
  "line_message name l =
     bindR (Add (AddTag (Log (LTime l)) ''source'' name) ''message'' (VString (TrimSpace (LText l)))) (\<lambda>(m, _). Inr m)"

definition File_Generate :: "'ts tail_file \<Rightarrow> 'ts message option result \<times> 'ts tail_file" where
  "File_Generate f =
     (case GenerateLine f of
        (Inl e, f1) \<Rightarrow> (Inl e, f1)
      | (Inr l, f1) \<Rightarrow> (bindR (line_message (TailName f) l) (\<lambda>m. Inr (Some m)), f1\<lparr>LastOffset := Line_Next l\<rparr>))"

definition Tell :: "'ts tail_file \<Rightarrow> int" where
  "Tell f = LastOffset f"

definition File_Close :: "'ts tail_file \<Rightarrow> 'ts tail_file" where
  "File_Close f = f\<lparr>TailLines := []\<rparr>"

section \<open>The monitor\<close>

text \<open>
  For every path a goroutine takes the lines of its file, one at a time (Held), and puts them in the channel
  of Run, which has room for as many lines as there are paths. Current is the line that Run has taken from the
  channel and is handing to the receiver. Closing is what Run returns once it has closed
  the files; Done is the closed channel done, Result what Run has returned. Sent is a ghost: the lines that the
  receiver has taken.
\<close>

record 'ts source =
  SPath :: string
  Held :: "'ts line option"
  SFile :: "'ts tail_file"

record ('ts, 'r) monitor =
  MonDB :: "offset_db option"
  MonFs :: fs
  Sources :: "'ts source list"
  Once :: bool
  MonCap :: nat
  MonLines :: "(string \<times> 'ts line) list"
  Current :: "(string \<times> 'ts line) option"
  Offsets :: "(string \<times> int) list"
  Shutdown :: bool
  Closing :: "unit result option"
  Done :: bool
  Result :: "unit result option"
  MonRecv :: 'r
  Sent :: "(string \<times> 'ts line) list"

definition NewMonitor :: "fs \<Rightarrow> 'r \<Rightarrow> ('ts, 'r) monitor" where
  "NewMonitor fs recv =
     \<lparr>MonDB = None, MonFs = fs, Sources = [], Once = False, MonCap = 0, MonLines = [], Current = None, Offsets = [], Shutdown = False,
      Closing = None, Done = False, Result = None, MonRecv = recv, Sent = []\<rparr>"

definition OpenOffsetDB :: "offset_db \<Rightarrow> ('ts, 'r) monitor \<Rightarrow> ('ts, 'r) monitor" where
  "OpenOffsetDB db m = m\<lparr>MonDB := Some db\<rparr>"

text \<open>Where the last run has stopped; the start of the file if that is not known or the file is another one.\<close>

definition stored_offset :: "file_env \<Rightarrow> bytes \<Rightarrow> offset_db option \<Rightarrow> string \<Rightarrow> fs \<Rightarrow> int result \<times> fs" where
  "stored_offset env now db path fs =
     (case db of
        None \<Rightarrow> (Inr 0, fs)
      | Some db \<Rightarrow>
          (case OffsetDB_Get env path db of
             Inl e \<Rightarrow> (Inl e, fs)
           | Inr None \<Rightarrow> (Inr 0, fs)
           | Inr (Some e) \<Rightarrow> (case Entry_Valid env now e fs of (v, fs1) \<Rightarrow> (Inr (if v then EOffset e else 0), fs1))))"

text \<open>The files are opened one after the other; open_file is NewFile or NewFollowFile.\<close>

fun open_paths :: "file_env \<Rightarrow> bytes \<Rightarrow> (fs \<Rightarrow> string \<Rightarrow> int \<Rightarrow> 'ts tail_file) \<Rightarrow> string list \<Rightarrow> ('ts, 'r) monitor \<Rightarrow> ('ts, 'r) monitor result" where
  "open_paths env now open_file [] m = Inr m"
| "open_paths env now open_file (path # paths) m =
     (case stored_offset env now (MonDB m) path (MonFs m) of
        (Inl e, fs1) \<Rightarrow> Inl e
      | (Inr offset, fs1) \<Rightarrow>
          open_paths env now open_file paths
            (m\<lparr>MonFs := fs1, Offsets := AList.update path offset (Offsets m),
               Sources := Sources m @ [\<lparr>SPath = path, Held = None, SFile = open_file fs1 path offset\<rparr>]\<rparr>))"

definition OpenFiles :: "file_env \<Rightarrow> bytes \<Rightarrow> (int \<Rightarrow> 'ts) \<Rightarrow> (string \<Rightarrow> fs_event list) \<Rightarrow> bool \<Rightarrow> string list \<Rightarrow>
    ('ts, 'r) monitor \<Rightarrow> ('ts, 'r) monitor result" where
  "OpenFiles env now clock events once args m =
     open_paths env now
       (\<lambda>fs path offset. if once then NewFile env clock fs path offset else NewFollowFile env clock fs path offset (events path))
       args (m\<lparr>MonCap := length args, Offsets := [], Once := once\<rparr>)"

text \<open>FlushOffsets, in the order in which the map is ranged over; the errors of Set are dropped.\<close>

definition FlushOffsets :: "file_env \<Rightarrow> bytes \<Rightarrow> (string \<times> int) list \<Rightarrow> ('ts, 'r) monitor \<Rightarrow> ('ts, 'r) monitor" where
  "FlushOffsets env now offsets m =
     (case MonDB m of
        None \<Rightarrow> m
      | Some db \<Rightarrow>
          (case fold (\<lambda>(path, offset) dbfs. snd (OffsetDB_Set env now path offset dbfs)) offsets (db, MonFs m) of
             (db1, fs1) \<Rightarrow> m\<lparr>MonDB := Some db1, MonFs := fs1\<rparr>))"

definition CloseFiles :: "('ts, 'r) monitor \<Rightarrow> ('ts, 'r) monitor" where
  "CloseFiles m = m\<lparr>Sources := map (\<lambda>src. src\<lparr>SFile := File_Close (SFile src)\<rparr>) (Sources m)\<rparr>"

text \<open>
  Run and the goroutines around it. CloseFiles waits for the goroutines of the files, which may still have a
  line to put in the channel; Run closes done and only then writes the offsets. When all files are at their
  end the channel is closed, and the nil line that Run reads from it makes it signal its own shutdown.
\<close>

inductive mon_step :: "file_env \<Rightarrow> bytes \<Rightarrow> ('ts, 'r) receiver \<Rightarrow> ('ts, 'r) monitor \<Rightarrow> ('ts, 'r) monitor \<Rightarrow> bool" for env now recv where
  takes_line: "i < length (Sources s) \<Longrightarrow> Sources s ! i = src \<Longrightarrow> Held src = None \<Longrightarrow> GenerateLine (SFile src) = (Inr l, f) \<Longrightarrow>
    mon_step env now recv s (s\<lparr>Sources := (Sources s)[i := src\<lparr>Held := Some l, SFile := f\<rparr>]\<rparr>)"
| puts_line: "i < length (Sources s) \<Longrightarrow> Sources s ! i = src \<Longrightarrow> Held src = Some l \<Longrightarrow> length (MonLines s) < MonCap s \<Longrightarrow>
    mon_step env now recv s (s\<lparr>Sources := (Sources s)[i := src\<lparr>Held := None\<rparr>], MonLines := MonLines s @ [(SPath src, l)]\<rparr>)"
| picks: "Closing s = None \<Longrightarrow> Current s = None \<Longrightarrow> MonLines s = x # q \<Longrightarrow>
    mon_step env now recv s (s\<lparr>MonLines := q, Current := Some x\<rparr>)"
| hands_on: "Closing s = None \<Longrightarrow> Current s = Some (path, l) \<Longrightarrow> line_message (Base env path) l = Inr m \<Longrightarrow>
    RReceive recv (MonRecv s) (Some m) = Some (Inr (), r) \<Longrightarrow>
    mon_step env now recv s (s\<lparr>Current := None, MonRecv := r, Offsets := AList.update path (Line_Next l) (Offsets s),
      Sent := Sent s @ [(path, l)]\<rparr>)"
| refused: "Closing s = None \<Longrightarrow> Current s = Some (path, l) \<Longrightarrow> line_message (Base env path) l = Inr m \<Longrightarrow>
    RReceive recv (MonRecv s) (Some m) = Some (Inl (Err e), r) \<Longrightarrow>
    mon_step env now recv s (CloseFiles (s\<lparr>Current := None, MonRecv := r, Closing := Some (Inl (Err e))\<rparr>))"
| all_read: "Closing s = None \<Longrightarrow> Current s = None \<Longrightarrow> Once s \<Longrightarrow> MonLines s = [] \<Longrightarrow>
    \<forall>src\<in>set (Sources s). Held src = None \<and> TailLines (SFile src) = [] \<Longrightarrow>
    mon_step env now recv s (s\<lparr>Shutdown := True\<rparr>)"
| SignalShutdown: "mon_step env now recv s (s\<lparr>Shutdown := True\<rparr>)"
| shuts_down: "Closing s = None \<Longrightarrow> Current s = None \<Longrightarrow> Shutdown s \<Longrightarrow>
    mon_step env now recv s (CloseFiles (s\<lparr>Shutdown := False, Closing := Some (Inr ())\<rparr>))"
| finished: "Closing s = Some r \<Longrightarrow> \<forall>src\<in>set (Sources s). Held src = None \<Longrightarrow>
    mon_step env now recv s (s\<lparr>Done := True\<rparr>)"
| flushes: "Done s \<Longrightarrow> Result s = None \<Longrightarrow> mset offsets = mset (Offsets s) \<Longrightarrow>
    mon_step env now recv s ((FlushOffsets env now offsets s)\<lparr>Result := Closing s\<rparr>)"

inductive mon_reaches :: "file_env \<Rightarrow> bytes \<Rightarrow> ('ts, 'r) receiver \<Rightarrow> ('ts, 'r) monitor \<Rightarrow> ('ts, 'r) monitor \<Rightarrow> bool" for env now recv s0 where
  mon_start: "mon_reaches env now recv s0 s0"
| mon_next: "mon_reaches env now recv s0 s \<Longrightarrow> mon_step env now recv s s' \<Longrightarrow> mon_reaches env now recv s0 s'"

section \<open>The plugin\<close>

text \<open>The plugin follows the files that its patterns match.\<close>

record file_plugin =
  Paths :: "string list"
  OffsetDBPath :: string

fun glob_all :: "(string \<Rightarrow> string list result) \<Rightarrow> string list \<Rightarrow> string list result" where
  "glob_all glob [] = Inr []"
| "glob_all glob (pat # pats) = bindR (glob pat) (\<lambda>ms. bindR (glob_all glob pats) (\<lambda>fs. Inr (ms @ fs)))"

definition FilePlugin_Generator :: "file_env \<Rightarrow> bytes \<Rightarrow> (int \<Rightarrow> 'ts) \<Rightarrow> (string \<Rightarrow> fs_event list) \<Rightarrow> (string \<Rightarrow> string list result) \<Rightarrow>
    (string \<Rightarrow> offset_db) \<Rightarrow> fs \<Rightarrow> 'r \<Rightarrow> file_plugin \<Rightarrow> ('ts, 'r) monitor result" where
  "FilePlugin_Generator env now clock events glob dbs fs recv p =
     bindR (glob_all glob (Paths p)) (\<lambda>files.
       let m = NewMonitor fs recv;
           m = (if OffsetDBPath p \<noteq> '''' then OpenOffsetDB (dbs (OffsetDBPath p)) m else m)
       in OpenFiles env now clock events False files m)"

section \<open>Lemmas: lines\<close>

text \<open>The texts of the lines, as a function of the bytes alone.\<close>

definition complete_lines :: "string \<Rightarrow> string list" where
  "complete_lines buf = map LText (read_lines (\<lambda>_. ()) 0 buf)"

abbreviation texts :: "'ts line list \<Rightarrow> string list" where
  "texts ls \<equiv> map LText ls"

lemma texts_same: "texts (read_lines clock n buf) = texts (read_lines clock' n' buf)"
proof (induction clock n buf arbitrary: n' rule: read_lines.induct)
  case (1 clock n buf)
  show ?case
  proof (cases "IndexByte buf (CHR 0x0A)")
    case (Some k)
    show ?thesis
      unfolding read_lines.simps [of clock n buf] read_lines.simps [of clock' n' buf]
      using 1 [OF Some, of "n' + int (Suc k)"] by (simp add: Some)
  qed (simp add: read_lines.simps)
qed

lemma texts_read_lines: "texts (read_lines clock n buf) = complete_lines buf"
  unfolding complete_lines_def by (rule texts_same)

lemma IndexByte_append: "IndexByte buf c = Some n \<Longrightarrow> IndexByte (buf @ new) c = Some n"
  by (induction buf arbitrary: n) (auto split: if_splits)

lemma IndexByte_take:
  "IndexByte buf c = Some n \<Longrightarrow> n < length buf \<and> take (Suc n) buf = take n buf @ [c] \<and> c \<notin> set (take n buf)"
  by (induction buf arbitrary: n) (auto split: if_splits)

lemma read_lines_Cons:
  "read_lines clock n buf = l # ls \<longleftrightarrow>
     (\<exists>k. IndexByte buf (CHR 0x0A) = Some k \<and> l = \<lparr>LText = take (Suc k) buf, LOffset = n, LTime = clock n\<rparr> \<and>
        ls = read_lines clock (n + int (Suc k)) (drop (Suc k) buf))"
  by (subst read_lines.simps) (auto split: option.splits)

lemma complete_lines_more:
  assumes "IndexByte buf (CHR 0x0A) = Some k"
  shows "complete_lines buf = take (Suc k) buf # complete_lines (drop (Suc k) buf)"
  unfolding complete_lines_def by (subst read_lines.simps) (simp add: assms texts_read_lines complete_lines_def [symmetric])

text \<open>Where the lines that have been read end, and what is read from there when the file has grown.\<close>

definition read_bytes :: "'ts line list \<Rightarrow> nat" where
  "read_bytes ls = length (concat (texts ls))"

lemma read_lines_split:
  assumes "ls @ later_ls = read_lines clock n buf"
  shows "read_bytes ls \<le> length buf" and "complete_lines (buf @ new) = texts ls @ complete_lines (drop (read_bytes ls) (buf @ new))"
    and "ls \<noteq> [] \<Longrightarrow> Line_Next (last ls) = n + int (read_bytes ls)"
  using assms
proof (induction ls arbitrary: n buf)
  case (Cons l ls)
  {
    case 1
    then have "read_lines clock n buf = l # ls @ later_ls" by simp
    then obtain k where k: "IndexByte buf (CHR 0x0A) = Some k" "l = \<lparr>LText = take (Suc k) buf, LOffset = n, LTime = clock n\<rparr>"
      "ls @ later_ls = read_lines clock (n + int (Suc k)) (drop (Suc k) buf)" unfolding read_lines_Cons by blast
    from IndexByte_less [OF k(1)] Cons.IH(1) [OF k(3)] k(2) show ?case by (simp add: read_bytes_def)
  next
    case 2
    then have "read_lines clock n buf = l # ls @ later_ls" by simp
    then obtain k where k: "IndexByte buf (CHR 0x0A) = Some k" "l = \<lparr>LText = take (Suc k) buf, LOffset = n, LTime = clock n\<rparr>"
      "ls @ later_ls = read_lines clock (n + int (Suc k)) (drop (Suc k) buf)" unfolding read_lines_Cons by blast
    have less: "Suc k \<le> length buf" using IndexByte_less [OF k(1)] by simp
    have "complete_lines (buf @ new) = take (Suc k) (buf @ new) # complete_lines (drop (Suc k) (buf @ new))"
      by (rule complete_lines_more [OF IndexByte_append [OF k(1)]])
    also have "drop (Suc k) (buf @ new) = drop (Suc k) buf @ new" using less by simp
    also have "complete_lines \<dots> = texts ls @ complete_lines (drop (read_bytes ls) (drop (Suc k) buf @ new))"
      by (rule Cons.IH(2) [OF k(3)])
    finally show ?case using k(2) less by (simp add: read_bytes_def add.commute)
  next
    case 3
    then have "read_lines clock n buf = l # ls @ later_ls" by simp
    then obtain k where k: "IndexByte buf (CHR 0x0A) = Some k" "l = \<lparr>LText = take (Suc k) buf, LOffset = n, LTime = clock n\<rparr>"
      "ls @ later_ls = read_lines clock (n + int (Suc k)) (drop (Suc k) buf)" unfolding read_lines_Cons by blast
    from IndexByte_less [OF k(1)] Cons.IH(3) [OF _ k(3)] k(2) show ?case by (auto simp: read_bytes_def Line_Next_def)
  }
qed (simp_all add: read_bytes_def)

section \<open>Lemmas: following\<close>

lemma follow_chunk_none:
  "CHR 0x0A \<notin> set buf \<Longrightarrow> follow_chunk clock p n buf = ([], buf, n)"
  by (subst follow_chunk.simps) (simp add: IndexByte_none)

lemma follow_chunk_line:
  "CHR 0x0A \<notin> set a \<Longrightarrow> follow_chunk clock p n (a @ CHR 0x0A # b) =
     (case follow_chunk clock '''' (n + int (length (p @ a @ [CHR 0x0A]))) b of
        (ls, rest) \<Rightarrow> (\<lparr>LText = p @ a @ [CHR 0x0A], LOffset = n, LTime = clock n\<rparr> # ls, rest))"
  by (subst follow_chunk.simps) (simp add: IndexByte_at ac_simps)

text \<open>What is behind the last newline, and how many bytes of unfinished lines are replaced by what follows.\<close>

definition unfinished :: "string \<Rightarrow> string" where
  "unfinished buf = rev (takeWhile (\<lambda>c. c \<noteq> CHR 0x0A) (rev buf))"

fun lost_bytes :: "string \<Rightarrow> string list \<Rightarrow> nat" where
  "lost_bytes p [] = 0"
| "lost_bytes p (c # cs) = (if CHR 0x0A \<in> set c then 0 else length p) + lost_bytes (unfinished c) cs"

lemma unfinished_all: "CHR 0x0A \<notin> set buf \<Longrightarrow> unfinished buf = buf"
  using takeWhile_eq_all_conv [of "\<lambda>c. c \<noteq> CHR 0x0A" "rev buf"] by (metis rev_swap set_rev unfinished_def)

lemma unfinished_line: "unfinished (a @ CHR 0x0A # b) = unfinished b"
  by (cases "CHR 0x0A \<in> set b") (auto simp: unfinished_def takeWhile_append1 takeWhile_append2 takeWhile_tail)

lemma follow_chunk_keeps:
  assumes "follow_chunk clock p n buf = (ls, p1, n1)"
  shows "concat (texts ls) @ p1 = (if CHR 0x0A \<in> set buf then p else '''') @ buf \<and> n1 = n + int (read_bytes ls) \<and> p1 = unfinished buf"
  using assms
proof (induction buf arbitrary: p n ls rule: length_induct)
  case (1 buf)
  show ?case
  proof (cases "CHR 0x0A \<in> set buf")
    case False
    then show ?thesis using "1.prems" by (auto simp: follow_chunk_none read_bytes_def unfinished_all)
  next
    case True
    then obtain a b where buf: "buf = a @ CHR 0x0A # b" "CHR 0x0A \<notin> set a" by (metis split_list_first)
    let ?n = "n + int (length (p @ a @ [CHR 0x0A]))"
    obtain ls0 where ls0: "follow_chunk clock '''' ?n b = (ls0, p1, n1)" "ls = \<lparr>LText = p @ a @ [CHR 0x0A], LOffset = n, LTime = clock n\<rparr> # ls0"
      using "1.prems" by (auto simp: buf(1) follow_chunk_line [OF buf(2)] split: prod.splits)
    have "length b < length buf" using buf(1) by simp
    note ih = "1.IH" [rule_format, OF this ls0(1)]
    have ih: "concat (texts ls0) @ p1 = b" "n1 = ?n + int (read_bytes ls0)" "p1 = unfinished b"
      using conjunct1 [OF ih] conjunct1 [OF conjunct2 [OF ih]] conjunct2 [OF conjunct2 [OF ih]] by simp_all
    have "concat (texts ls0) @ unfinished b = b" using ih(1,3) by metis
    with ih(2,3) show ?thesis by (simp add: ls0(2) buf(1) read_bytes_def unfinished_line)
  qed
qed

lemma follow_events_keeps:
  assumes "follow_events clock s (map Wrote cs) = (ls, s1)"
  shows "read_bytes ls + length (FPrefix s1) + lost_bytes (FPrefix s) cs = length (FPrefix s) + length (concat cs) \<and>
    (lost_bytes (FPrefix s) cs = 0 \<longrightarrow> concat (texts ls) @ FPrefix s1 = FPrefix s @ concat cs) \<and>
    FOffset s1 = FOffset s + int (read_bytes ls)"
  using assms
proof (induction cs arbitrary: s ls)
  case (Cons c cs)
  obtain l1 p1 n1 where c: "follow_chunk clock (FPrefix s) (FOffset s) c = (l1, p1, n1)" by (metis prod_cases3)
  from Cons.prems obtain l2 where l2: "follow_events clock \<lparr>FPrefix = p1, FOffset = n1\<rparr> (map Wrote cs) = (l2, s1)" "ls = l1 @ l2"
    by (auto simp: c split: prod.splits)
  have k: "concat (texts l1) @ p1 = (if CHR 0x0A \<in> set c then FPrefix s else '''') @ c" "n1 = FOffset s + int (read_bytes l1)"
    "unfinished c = p1" using follow_chunk_keeps [OF c] by blast+
  have ih: "read_bytes l2 + length (FPrefix s1) + lost_bytes p1 cs = length p1 + length (concat cs)"
    "lost_bytes p1 cs = 0 \<longrightarrow> concat (texts l2) @ FPrefix s1 = p1 @ concat cs" "FOffset s1 = n1 + int (read_bytes l2)"
    using Cons.IH [OF l2(1)] by simp_all
  have "length (concat (texts l1) @ p1) = length ((if CHR 0x0A \<in> set c then FPrefix s else '''') @ c)" using k(1) by metis
  with ih(1) have "read_bytes ls + length (FPrefix s1) + lost_bytes (FPrefix s) (c # cs) = length (FPrefix s) + length (concat (c # cs))"
    by (auto simp: read_bytes_def l2(2) k(3))
  moreover have "concat (texts ls) @ FPrefix s1 = FPrefix s @ concat (c # cs)" if "lost_bytes (FPrefix s) (c # cs) = 0"
  proof -
    have z: "lost_bytes p1 cs = 0" "CHR 0x0A \<in> set c \<or> FPrefix s = ''''" using that by (auto simp: k(3) split: if_splits)
    have "concat (texts ls) @ FPrefix s1 = (concat (texts l1) @ p1) @ concat cs" using ih(2) z(1) by (simp add: l2(2))
    also have "\<dots> = FPrefix s @ concat (c # cs)" unfolding k(1) using z(2) by auto
    finally show ?thesis .
  qed
  moreover have "FOffset s1 = FOffset s + int (read_bytes ls)" using ih(3) k(2) by (simp add: read_bytes_def l2(2))
  ultimately show ?case by blast
qed (simp add: read_bytes_def)

section \<open>Lemmas: the database\<close>

lemma entry_text_decode:
  assumes "list_all is_ascii (EPath e)" and "list_all is_ascii (SameFileID e)" and "- (2 ^ 63) \<le> EOffset e" and "EOffset e < 2 ^ 63"
  shows "json_decode_struct entry_of (entry_text e) = Inr e"
proof -
  let ?ps = "[(''path'', JStr (EPath e)), (''offset'', JNum (int_dec (EOffset e))), (''samefileid'', JStr (SameFileID e))]"
  have "json_ok (JObj ?ps)" using assms(1,2) by (simp add: number_text_int_dec is_ascii_def)
  from json_decode_text [OF this, of "[CHR 0x0A]"] have "json_decode (entry_text e) = Inr (JObj ?ps, [CHR 0x0A])"
    by (simp add: entry_text_def del: json_text.simps)
  moreover have "json_member ?ps ''path'' = Some (JStr (EPath e))" "json_member ?ps ''offset'' = Some (JNum (int_dec (EOffset e)))"
      "json_member ?ps ''samefileid'' = Some (JStr (SameFileID e))"
    by (simp_all add: json_member_def ToLower_def lower_char_def)
  ultimately show ?thesis
    using int_field_dec [OF assms(3,4)] by (simp add: json_decode_struct_def struct_value_def entry_of_def string_field_def)
qed

text \<open>A file whose identity is settled has the mark that samefile wants; marking changes nothing else.\<close>

definition settled :: "inode \<Rightarrow> bool" where
  "settled f \<longleftrightarrow> (IXattr f \<longrightarrow> (\<exists>b. IBirth f = Some b \<and> length b \<le> 64))"

definition ident :: "inode \<Rightarrow> bytes" where
  "ident f = INumber f @ IDevice f @ (if IXattr f then the (IBirth f) else [])"

definition marks :: "fs \<Rightarrow> fs \<Rightarrow> bool" where
  "marks fs fs1 \<longleftrightarrow> (\<forall>x. case fs x of None \<Rightarrow> fs1 x = None
     | Some f \<Rightarrow> \<exists>b. fs1 x = Some (f\<lparr>IBirth := b\<rparr>) \<and> (settled f \<longrightarrow> b = IBirth f))"

lemma marks_refl [simp, inv_intros]: "marks fs fs"
proof -
  have "\<exists>b. f = f\<lparr>IBirth := b\<rparr> \<and> (settled f \<longrightarrow> b = IBirth f)" for f
    by (rule exI [of _ "IBirth f"]) simp
  then show ?thesis by (simp add: marks_def split: option.split)
qed

lemma marks_Some: "marks fs fs1 \<Longrightarrow> fs x = Some f \<Longrightarrow> \<exists>b. fs1 x = Some (f\<lparr>IBirth := b\<rparr>) \<and> (settled f \<longrightarrow> b = IBirth f)"
  by (auto simp: marks_def dest!: spec [of _ x])

lemma marks_None: "marks fs fs1 \<Longrightarrow> fs x = None \<Longrightarrow> fs1 x = None"
  by (auto simp: marks_def dest!: spec [of _ x])

lemma settled_same [simp]: "settled f \<Longrightarrow> settled (f\<lparr>IBirth := IBirth f\<rparr>)"
  by (simp add: settled_def)

lemma marks_trans:
  assumes "marks fs fs1" and "marks fs1 fs2"
  shows "marks fs fs2"
  unfolding marks_def
proof
  fix x
  show "case fs x of None \<Rightarrow> fs2 x = None | Some f \<Rightarrow> \<exists>b. fs2 x = Some (f\<lparr>IBirth := b\<rparr>) \<and> (settled f \<longrightarrow> b = IBirth f)"
  proof (cases "fs x")
    case None
    with assms show ?thesis by (simp add: marks_None)
  next
    case (Some f)
    from marks_Some [OF assms(1) Some] obtain b where b: "fs1 x = Some (f\<lparr>IBirth := b\<rparr>)" "settled f \<longrightarrow> b = IBirth f" by blast
    from marks_Some [OF assms(2) b(1)] obtain c where
      "fs2 x = Some (f\<lparr>IBirth := c\<rparr>)" "settled (f\<lparr>IBirth := b\<rparr>) \<longrightarrow> c = b" by auto
    with b(2) Some show ?thesis by auto
  qed
qed

lemma marks_settled: "marks fs fs1 \<Longrightarrow> fs x = Some f \<Longrightarrow> settled f \<Longrightarrow> fs1 x = Some f"
  by (auto simp: marks_def dest!: spec [of _ x])

lemma marks_content: "marks fs fs1 \<Longrightarrow> map_option IContent (fs1 x) = map_option IContent (fs x)"
  by (auto simp: marks_def dest!: spec [of _ x] split: option.splits)

lemma Calculate_new:
  assumes "file_at env fs path = Some f" and "length now \<le> 64"
  shows "\<exists>f1. samefile_Calculate env now path fs = (Inr (Sha1Hex env (str_bytes path @ ident f1)), fs(cleanPath env path \<mapsto> f1)) \<and>
     settled f1 \<and> (\<exists>b. f1 = f\<lparr>IBirth := b\<rparr> \<and> (settled f \<longrightarrow> b = IBirth f))"
proof -
  have same: "f\<lparr>IBirth := IBirth f\<rparr> = f" by simp
  have there: "fs(cleanPath env path \<mapsto> f) = fs" using assms(1) by (auto simp: file_at_def)
  consider b where "IXattr f" "IBirth f = Some b" "length b \<le> 64" | "IXattr f" "\<not> settled f" | "\<not> IXattr f"
    by (auto simp: settled_def)
  then show ?thesis
  proof cases
    case 1
    then show ?thesis using assms there
      by (intro exI [of _ f]) (auto simp: samefile_Calculate_def fsHash_def settled_def ident_def intro: exI [of _ "IBirth f"])
  next
    case 2
    then show ?thesis using assms
      by (intro exI [of _ "f\<lparr>IBirth := Some now\<rparr>"]) (auto simp: samefile_Calculate_def fsHash_def settled_def ident_def split: option.split)
  next
    case 3
    then show ?thesis using assms there
      by (intro exI [of _ f]) (auto simp: samefile_Calculate_def fsHash_def settled_def ident_def split: option.split intro: exI [of _ "IBirth f"])
  qed
qed

lemma Calculate_settled:
  assumes "file_at env fs path = Some f" and "settled f"
  shows "samefile_Calculate env now path fs = (Inr (Sha1Hex env (str_bytes path @ ident f)), fs)"
  using assms by (auto simp: samefile_Calculate_def fsHash_def settled_def ident_def split: option.split)

lemma marks_update:
  assumes "fs x = Some f" and "settled f \<longrightarrow> b = IBirth f"
  shows "marks fs (fs(x \<mapsto> f\<lparr>IBirth := b\<rparr>))"
  unfolding marks_def
proof
  fix y
  have "\<exists>b. g = g\<lparr>IBirth := b\<rparr> \<and> (settled g \<longrightarrow> b = IBirth g)" for g
    by (rule exI [of _ "IBirth g"]) simp
  then show "case fs y of None \<Rightarrow> (fs(x \<mapsto> f\<lparr>IBirth := b\<rparr>)) y = None
    | Some g \<Rightarrow> \<exists>c. (fs(x \<mapsto> f\<lparr>IBirth := b\<rparr>)) y = Some (g\<lparr>IBirth := c\<rparr>) \<and> (settled g \<longrightarrow> c = IBirth g)"
    using assms by (cases "y = x") (auto split: option.split)
qed

lemma Calculate_marks: "marks fs (snd (samefile_Calculate env now path fs))"
proof -
  have "marks fs (snd (fsHash env now path fs))"
    by (auto simp: fsHash_def file_at_def settled_def split: option.splits intro!: marks_update)
  then show ?thesis by (auto simp: samefile_Calculate_def split: prod.splits sum.splits)
qed

text \<open>What the code relies on: the database can be written, hashes are hexadecimal, paths have different
  entries, and a path in canonical form is its own canonical form.\<close>

definition file_laws :: "file_env \<Rightarrow> string list \<Rightarrow> bool" where
  "file_laws env paths \<longleftrightarrow>
     (\<forall>x. MkdirAll env x = Inr ()) \<and> (\<forall>x. CreateFile env x = Inr ()) \<and> (\<forall>bs. list_all is_ascii (Sha1Hex env bs)) \<and>
     inj_on (\<lambda>p. entry_path env (cleanPath env p)) (set paths) \<and>
     (\<forall>p\<in>set paths. cleanPath env (cleanPath env p) = cleanPath env p \<and> list_all is_ascii (cleanPath env p))"

definition entry_for :: "file_env \<Rightarrow> string \<Rightarrow> int \<Rightarrow> inode \<Rightarrow> entry" where
  "entry_for env p n f =
     \<lparr>EPath = cleanPath env p, EOffset = n, SameFileID = Sha1Hex env (str_bytes (cleanPath env p) @ ident f)\<rparr>"

definition remembers :: "file_env \<Rightarrow> string \<Rightarrow> int \<Rightarrow> offset_db \<times> fs \<Rightarrow> bool" where
  "remembers env p n dbfs \<longleftrightarrow>
     (\<exists>f. snd dbfs (cleanPath env p) = Some f \<and> settled f \<and>
        fst dbfs (entry_path env (cleanPath env p)) = Some (entry_text (entry_for env p n f)))"

lemma Set_remembers:
  assumes "file_laws env paths" and "length now \<le> 64" and "p \<in> set paths" and "fs (cleanPath env p) \<noteq> None"
  shows "\<exists>db1 fs1. OffsetDB_Set env now p n (db, fs) = (Inr (), db1, fs1) \<and> marks fs fs1 \<and> remembers env p n (db1, fs1) \<and>
    (\<forall>q\<in>set paths. \<forall>k. q \<noteq> p \<longrightarrow> remembers env q k (db, fs) \<longrightarrow> remembers env q k (db1, fs1))"
proof -
  let ?c = "cleanPath env p"
  from assms(4) obtain f where f: "fs ?c = Some f" by blast
  have laws: "cleanPath env ?c = ?c" "\<And>x. MkdirAll env x = Inr ()" "\<And>x. CreateFile env x = Inr ()"
    using assms(1,3) by (auto simp: file_laws_def)
  have "file_at env fs ?c = Some f" using f laws(1) by (simp add: file_at_def)
  from Calculate_new [OF this assms(2)] obtain f1 where f1:
    "samefile_Calculate env now ?c fs = (Inr (Sha1Hex env (str_bytes ?c @ ident f1)), fs(?c \<mapsto> f1))" "settled f1"
    "\<exists>b. f1 = f\<lparr>IBirth := b\<rparr> \<and> (settled f \<longrightarrow> b = IBirth f)" using laws(1) by auto
  let ?db = "db(entry_path env ?c \<mapsto> entry_text (entry_for env p n f1))" and ?fs = "fs(?c \<mapsto> f1)"
  have set: "OffsetDB_Set env now p n (db, fs) = (Inr (), ?db, ?fs)"
    by (simp add: OffsetDB_Set_def laws f1(1) entry_for_def Let_def)
  moreover have "marks fs ?fs" using f1(3) f by (auto intro: marks_update)
  moreover have "remembers env p n (?db, ?fs)" using f1(2) by (simp add: remembers_def)
  moreover have "remembers env q k (?db, ?fs)" if "q \<in> set paths" "q \<noteq> p" "remembers env q k (db, fs)" for q k
  proof -
    have "entry_path env (cleanPath env q) \<noteq> entry_path env ?c" using assms(1,3) that(1,2) by (auto simp: file_laws_def inj_on_def)
    then have "cleanPath env q \<noteq> ?c" by auto
    with \<open>entry_path env (cleanPath env q) \<noteq> entry_path env ?c\<close> that(3) show ?thesis by (simp add: remembers_def)
  qed
  ultimately show ?thesis by blast
qed

abbreviation flush_all :: "file_env \<Rightarrow> bytes \<Rightarrow> (string \<times> int) list \<Rightarrow> offset_db \<times> fs \<Rightarrow> offset_db \<times> fs" where
  "flush_all env now offsets \<equiv> fold (\<lambda>(path, offset) dbfs. snd (OffsetDB_Set env now path offset dbfs)) offsets"

lemma flush_remembers:
  assumes "file_laws env paths" and "length now \<le> 64" and "distinct (map fst offsets)" and "fst ` set offsets \<subseteq> set paths"
    and "\<forall>p\<in>set paths. fs (cleanPath env p) \<noteq> None"
  shows "\<exists>db1 fs1. flush_all env now offsets (db, fs) = (db1, fs1) \<and> marks fs fs1 \<and>
    (\<forall>(p, n)\<in>set offsets. remembers env p n (db1, fs1)) \<and>
    (\<forall>q\<in>set paths. \<forall>k. q \<notin> fst ` set offsets \<longrightarrow> remembers env q k (db, fs) \<longrightarrow> remembers env q k (db1, fs1))"
  using assms(3-5)
proof (induction offsets arbitrary: db fs)
  case (Cons x offsets)
  obtain p n where x: "x = (p, n)" by force
  have p: "p \<in> set paths" "fs (cleanPath env p) \<noteq> None" using Cons.prems x by auto
  from Set_remembers [where fs = fs and db = db and n = n, OF assms(1,2) p] obtain db1 fs1 where
    one: "OffsetDB_Set env now p n (db, fs) = (Inr (), db1, fs1)" "marks fs fs1" "remembers env p n (db1, fs1)"
    "\<forall>q\<in>set paths. \<forall>k. q \<noteq> p \<longrightarrow> remembers env q k (db, fs) \<longrightarrow> remembers env q k (db1, fs1)" by blast
  have "\<forall>p\<in>set paths. fs1 (cleanPath env p) \<noteq> None"
    using Cons.prems(3) marks_Some [OF one(2)] by fastforce
  with Cons.IH [of fs1 db1] Cons.prems x obtain db2 fs2 where
    two: "flush_all env now offsets (db1, fs1) = (db2, fs2)" "marks fs1 fs2" "\<forall>(p, n)\<in>set offsets. remembers env p n (db2, fs2)"
    "\<forall>q\<in>set paths. \<forall>k. q \<notin> fst ` set offsets \<longrightarrow> remembers env q k (db1, fs1) \<longrightarrow> remembers env q k (db2, fs2)" by auto
  have "p \<notin> fst ` set offsets" using Cons.prems(1) x by simp
  with two(4) one(3) p(1) have "remembers env p n (db2, fs2)" by blast
  moreover have "flush_all env now (x # offsets) (db, fs) = (db2, fs2)" using one(1) two(1) x by simp
  moreover have "marks fs fs2" using one(2) two(2) by (rule marks_trans)
  ultimately show ?case using one(4) two(3,4) x by (intro exI [of _ db2] exI [of _ fs2]) auto
qed simp

text \<open>The offset is found again when the file has only grown since.\<close>

definition grown :: "inode \<Rightarrow> inode \<Rightarrow> bool" where
  "grown f f1 \<longleftrightarrow> (\<exists>new. f1 = f\<lparr>IContent := IContent f @ new\<rparr>)"

lemma stored_remembered:
  assumes "file_laws env paths" and "p \<in> set paths" and "remembers env p n (db, fs)" and "fs (cleanPath env p) = Some f" and "grown f f1"
    and "fs1 (cleanPath env p) = Some f1" and "0 \<le> n" and "n \<le> int (length (IContent f1))" and "n < 2 ^ 63"
  shows "stored_offset env now (Some db) p fs1 = (Inr n, fs1)"
proof -
  let ?c = "cleanPath env p" and ?e = "entry_for env p n f"
  have laws: "cleanPath env ?c = ?c" "list_all is_ascii ?c" "\<And>bs. list_all is_ascii (Sha1Hex env bs)"
    using assms(1,2) by (auto simp: file_laws_def)
  have db: "db (entry_path env ?c) = Some (entry_text ?e)" "settled f" using assms(3,4) by (auto simp: remembers_def)
  have "json_decode_struct entry_of (entry_text ?e) = Inr ?e"
    using laws(2,3) assms(7,9) by (intro entry_text_decode) (simp_all add: entry_for_def)
  then have "OffsetDB_Get env p db = Inr (Some ?e)" by (simp add: OffsetDB_Get_def db(1))
  moreover have f1: "file_at env fs1 ?c = Some f1" "settled f1" "ident f1 = ident f"
    using assms(5,6) laws(1) db(2) by (auto simp: file_at_def grown_def settled_def ident_def)
  have "Entry_Valid env now ?e fs1 = (True, fs1)"
    using assms(8) f1(1) by (simp add: Entry_Valid_def Entry_CheckValid_def samefile_CheckValid_def entry_for_def
      Calculate_settled [OF f1(1,2)] f1(3))
  ultimately show ?thesis by (simp add: stored_offset_def entry_for_def)
qed

lemma stored_marks: "marks fs (snd (stored_offset env now db p fs))"
proof -
  have "marks fs (snd (Entry_Valid env now e fs))" for e
    using Calculate_marks [of fs env now "EPath e"]
    by (auto simp: Entry_Valid_def Entry_CheckValid_def samefile_CheckValid_def split: prod.splits sum.splits option.splits if_splits)
  then show ?thesis by (auto simp: stored_offset_def split: option.splits sum.splits prod.splits) (metis snd_conv)+
qed

section \<open>Lemmas: the monitor\<close>

lemma open_paths_opens:
  assumes "open_paths env now open_file paths m = Inr m1" and "distinct paths" and "set paths \<inter> fst ` set (Offsets m) = {}"
  shows "\<exists>srcs fs1 offs. m1 = m\<lparr>MonFs := fs1, Offsets := Offsets m @ zip paths offs, Sources := Sources m @ srcs\<rparr> \<and>
    length offs = length paths \<and> length srcs = length paths \<and> marks (MonFs m) fs1 \<and>
    (\<forall>i<length paths. \<exists>fa fb. marks (MonFs m) fa \<and> stored_offset env now (MonDB m) (paths ! i) fa = (Inr (offs ! i), fb) \<and>
       srcs ! i = \<lparr>SPath = paths ! i, Held = None, SFile = open_file fb (paths ! i) (offs ! i)\<rparr>)"
  using assms
proof (induction paths arbitrary: m)
  case Nil
  then show ?case by (intro exI [of _ "[]"] exI [of _ "MonFs m"]) simp
next
  case (Cons p paths)
  obtain n fs1 where st: "stored_offset env now (MonDB m) p (MonFs m) = (Inr n, fs1)"
    using Cons.prems(1) by (auto split: prod.splits sum.splits)
  have mk: "marks (MonFs m) fs1" using stored_marks [of "MonFs m" env now "MonDB m" p] st by simp
  define m2 where "m2 = m\<lparr>MonFs := fs1, Offsets := Offsets m @ [(p, n)],
      Sources := Sources m @ [\<lparr>SPath = p, Held = None, SFile = open_file fs1 p n\<rparr>]\<rparr>"
  have "AList.update p n (Offsets m) = Offsets m @ [(p, n)]" using Cons.prems(3) by (intro update_fresh) auto
  then have "open_paths env now open_file paths m2 = Inr m1" using Cons.prems(1) by (simp add: st m2_def)
  moreover have "set paths \<inter> fst ` set (Offsets m2) = {}" using Cons.prems(2,3) by (auto simp: m2_def)
  ultimately obtain srcs fs2 offs where ih: "m1 = m2\<lparr>MonFs := fs2, Offsets := Offsets m2 @ zip paths offs, Sources := Sources m2 @ srcs\<rparr>"
    "length offs = length paths" "length srcs = length paths" "marks fs1 fs2"
    "\<forall>i<length paths. \<exists>fa fb. marks fs1 fa \<and> stored_offset env now (MonDB m) (paths ! i) fa = (Inr (offs ! i), fb) \<and>
       srcs ! i = \<lparr>SPath = paths ! i, Held = None, SFile = open_file fb (paths ! i) (offs ! i)\<rparr>"
    using Cons.IH [of m2] Cons.prems(2) by (auto simp: m2_def)
  let ?srcs = "\<lparr>SPath = p, Held = None, SFile = open_file fs1 p n\<rparr> # srcs"
  have "\<exists>fa fb. marks (MonFs m) fa \<and> stored_offset env now (MonDB m) ((p # paths) ! i) fa = (Inr ((n # offs) ! i), fb) \<and>
       ?srcs ! i = \<lparr>SPath = (p # paths) ! i, Held = None, SFile = open_file fb ((p # paths) ! i) ((n # offs) ! i)\<rparr>"
    if i: "i < length (p # paths)" for i
  proof (cases i)
    case 0
    then show ?thesis using st by (intro exI [of _ "MonFs m"] exI [of _ fs1]) simp
  next
    case (Suc j)
    with i ih(5) mk show ?thesis using marks_trans by fastforce
  qed
  moreover have "m1 = m\<lparr>MonFs := fs2, Offsets := Offsets m @ zip (p # paths) (n # offs), Sources := Sources m @ ?srcs\<rparr>"
    unfolding ih(1) by (simp add: m2_def)
  moreover have "marks (MonFs m) fs2" using mk ih(4) by (rule marks_trans)
  ultimately show ?case using ih(2,3) by (intro exI [of _ ?srcs] exI [of _ fs2] exI [of _ "n # offs"]) auto
qed

text \<open>
  Of every file the lines that have been handed on are the first ones of the file, and while Run goes on those in
  the channel, the one the goroutine holds and those still to come follow; the offsets are behind the lines that
  have been handed on; and the database changes once, when Run ends.
\<close>

definition of_path :: "string \<Rightarrow> (string \<times> 'ts line) list \<Rightarrow> 'ts line list" where
  "of_path p xs = map snd (filter (\<lambda>x. fst x = p) xs)"

lemma of_path_simps [simp]:
  "of_path p [] = []" "of_path p (xs @ ys) = of_path p xs @ of_path p ys"
  "of_path p (x # xs) = (if fst x = p then [snd x] else []) @ of_path p xs"
  by (simp_all add: of_path_def)

definition sent_offset :: "int \<Rightarrow> 'ts line list \<Rightarrow> int" where
  "sent_offset n ls = (if ls = [] then n else Line_Next (last ls))"

definition source_ok :: "(string \<Rightarrow> 'ts line list) \<Rightarrow> ('ts, 'r) monitor \<Rightarrow> 'ts source \<Rightarrow> bool" where
  "source_ok lns s src \<longleftrightarrow>
     (\<exists>d. of_path (SPath src) (Sent s) @
        (if Closing s = None
         then of_path (SPath src) (case Current s of None \<Rightarrow> [] | Some x \<Rightarrow> [x]) @ of_path (SPath src) (MonLines s) @ (case Held src of None \<Rightarrow> [] | Some l \<Rightarrow> [l]) @ TailLines (SFile src)
         else []) @ d = lns (SPath src))"

definition mon_lines_ok :: "string list \<Rightarrow> (string \<Rightarrow> int) \<Rightarrow> (string \<Rightarrow> 'ts line list) \<Rightarrow> ('ts, 'r) monitor \<Rightarrow> bool" where
  "mon_lines_ok paths start lns s \<longleftrightarrow>
     map SPath (Sources s) = paths \<and> fst ` set (MonLines s) \<subseteq> set paths \<and> fst ` set_option (Current s) \<subseteq> set paths \<and>
     map fst (Offsets s) = paths \<and>
     (\<forall>i<length (Sources s). source_ok lns s (Sources s ! i)) \<and>
     (\<forall>p\<in>set paths. map_of (Offsets s) p = Some (sent_offset (start p) (of_path p (Sent s))))"

definition mon_db_ok :: "file_env \<Rightarrow> bytes \<Rightarrow> offset_db \<Rightarrow> fs \<Rightarrow> ('ts, 'r) monitor \<Rightarrow> bool" where
  "mon_db_ok env now db0 fs0 s \<longleftrightarrow>
     (Done s \<longrightarrow> Closing s \<noteq> None) \<and> (Result s \<noteq> None \<longrightarrow> Closing s \<noteq> None) \<and>
     (if Result s = None then MonDB s = Some db0 \<and> MonFs s = fs0
      else \<exists>offs db1 fs1. mset offs = mset (Offsets s) \<and> flush_all env now offs (db0, fs0) = (db1, fs1) \<and>
        MonDB s = Some db1 \<and> MonFs s = fs1)"

lemma CloseFiles_simps [simp]:
  "MonDB (CloseFiles s) = MonDB s" "MonFs (CloseFiles s) = MonFs s" "MonLines (CloseFiles s) = MonLines s"
  "Current (CloseFiles s) = Current s" "Offsets (CloseFiles s) = Offsets s" "Closing (CloseFiles s) = Closing s" "Done (CloseFiles s) = Done s"
  "Result (CloseFiles s) = Result s" "Sent (CloseFiles s) = Sent s" "map SPath (Sources (CloseFiles s)) = map SPath (Sources s)"
  "length (Sources (CloseFiles s)) = length (Sources s)"
  by (simp_all add: CloseFiles_def comp_def)

lemma FlushOffsets_simps [simp]:
  "MonLines (FlushOffsets env now offs s) = MonLines s" "Current (FlushOffsets env now offs s) = Current s" "Offsets (FlushOffsets env now offs s) = Offsets s"
  "Closing (FlushOffsets env now offs s) = Closing s" "Done (FlushOffsets env now offs s) = Done s"
  "Sent (FlushOffsets env now offs s) = Sent s" "Sources (FlushOffsets env now offs s) = Sources s"
  by (simp_all add: FlushOffsets_def split: option.split prod.split)

lemma mon_step_db_ok:
  assumes "mon_step env now recv s s'" and "mon_db_ok env now db0 fs0 s"
  shows "mon_db_ok env now db0 fs0 s'"
  using assms
proof cases
  case (flushes offsets)
  then have "MonDB s = Some db0" "MonFs s = fs0" "Closing s \<noteq> None" using assms(2) by (simp_all add: mon_db_ok_def)
  moreover obtain db1 fs1 where "flush_all env now offsets (db0, fs0) = (db1, fs1)" by force
  ultimately show ?thesis
    using flushes by (auto simp: mon_db_ok_def FlushOffsets_def)
qed (auto simp: mon_db_ok_def)

lemma mon_step_lines_ok:
  assumes "mon_step env now recv s s'" and ok: "mon_lines_ok paths start lns s" and "distinct paths"
  shows "mon_lines_ok paths start lns s'"
proof -
  have inv: "map SPath (Sources s) = paths" "fst ` set (MonLines s) \<subseteq> set paths" "map fst (Offsets s) = paths"
    "\<And>i. i < length (Sources s) \<Longrightarrow> source_ok lns s (Sources s ! i)"
    "\<And>p. p \<in> set paths \<Longrightarrow> map_of (Offsets s) p = Some (sent_offset (start p) (of_path p (Sent s)))"
    "fst ` set_option (Current s) \<subseteq> set paths"
    using ok by (auto simp: mon_lines_ok_def)
  have at: "SPath (Sources s ! i) \<in> set paths" if "i < length (Sources s)" for i using inv(1) that by (metis list.set_map nth_mem imageI)
  have other: "SPath (Sources s ! j) \<noteq> SPath (Sources s ! i)" if "i < length (Sources s)" "j < length (Sources s)" "j \<noteq> i" for i j
    using that assms(3) inv(1) by (metis length_map nth_eq_iff_index_eq nth_map)
  have paths: "map SPath ((Sources s)[i := src]) = paths" if "i < length (Sources s)" "SPath src = SPath (Sources s ! i)" for i src
    using inv(1) that by (metis list_update_id map_update)
  from assms(1) show ?thesis
  proof cases
    case (takes_line i src l f)
    have "source_ok lns s' ((Sources s)[i := src\<lparr>Held := Some l, SFile := f\<rparr>] ! j)" if "j < length (Sources s)" for j
      using inv(4) [of j] inv(4) [of i] takes_line that
      by (auto simp: source_ok_def GenerateLine_def nth_list_update split: list.splits)
    then show ?thesis using takes_line inv paths [of i "src\<lparr>Held := Some l, SFile := f\<rparr>"] by (simp add: mon_lines_ok_def)
  next
    case (puts_line i src l)
    have "source_ok lns s' ((Sources s)[i := src\<lparr>Held := None\<rparr>] ! j)" if "j < length (Sources s)" for j
      using inv(4) [of j] inv(4) [of i] other [of i j] puts_line that by (auto simp: source_ok_def nth_list_update)
    then show ?thesis using puts_line inv paths [of i "src\<lparr>Held := None\<rparr>"] at [of i] by (auto simp: mon_lines_ok_def)
  next
    case (picks x q)
    have "source_ok lns s' (Sources s ! j)" if "j < length (Sources s)" for j
      using inv(4) [OF that] picks by (auto simp: source_ok_def)
    then show ?thesis using picks inv by (auto simp: mon_lines_ok_def)
  next
    case (hands_on path l m r)
    have p: "path \<in> set paths" using inv(6) hands_on(3) by auto
    have "map fst (AList.update path (Line_Next l) (Offsets s)) = paths" using p inv(3) by (simp add: AList.update_keys)
    moreover have "map_of (AList.update path (Line_Next l) (Offsets s)) p' =
        Some (sent_offset (start p') (of_path p' (Sent s @ [(path, l)])))" if "p' \<in> set paths" for p'
      using inv(5) [OF that] by (simp add: AList.update_conv' sent_offset_def)
    moreover have "source_ok lns s' (Sources s ! j)" if "j < length (Sources s)" for j
      using inv(4) [OF that] hands_on by (auto simp: source_ok_def)
    ultimately show ?thesis using hands_on inv by (auto simp: mon_lines_ok_def)
  next
    case (refused path l m e r)
    have "source_ok lns s' (Sources s' ! j)" if "j < length (Sources s)" for j
      using inv(4) [OF that] refused that by (auto simp: source_ok_def CloseFiles_def)
    moreover have "map SPath (Sources s') = paths" "length (Sources s') = length (Sources s)" using refused inv(1) by (simp_all add: CloseFiles_def comp_def)
    ultimately show ?thesis using refused inv by (auto simp: mon_lines_ok_def)
  next
    case shuts_down
    have "source_ok lns s' (Sources s' ! j)" if "j < length (Sources s)" for j
      using inv(4) [OF that] shuts_down that by (auto simp: source_ok_def CloseFiles_def)
    moreover have "map SPath (Sources s') = paths" "length (Sources s') = length (Sources s)" using shuts_down inv(1) by (simp_all add: CloseFiles_def comp_def)
    ultimately show ?thesis using shuts_down inv by (auto simp: mon_lines_ok_def)
  qed (use inv in \<open>auto simp: mon_lines_ok_def source_ok_def\<close>)
qed

lemma open_paths_known:
  assumes "\<forall>p\<in>set paths. stored_offset env now (MonDB m) p (MonFs m) = (Inr (n p), MonFs m)"
  shows "\<exists>offs. open_paths env now open_file paths m =
    Inr (m\<lparr>Offsets := offs, Sources := Sources m @ map (\<lambda>p. \<lparr>SPath = p, Held = None, SFile = open_file (MonFs m) p (n p)\<rparr>) paths\<rparr>)"
  using assms
proof (induction paths arbitrary: m)
  case Nil
  then show ?case by (intro exI [of _ "Offsets m"]) simp
next
  case (Cons p paths)
  let ?m = "m\<lparr>Offsets := AList.update p (n p) (Offsets m),
    Sources := Sources m @ [\<lparr>SPath = p, Held = None, SFile = open_file (MonFs m) p (n p)\<rparr>]\<rparr>"
  have same: "m\<lparr>MonFs := MonFs m, Offsets := x, Sources := y\<rparr> = m\<lparr>Offsets := x, Sources := y\<rparr>" for x y by simp
  from Cons.IH [of ?m] Cons.prems show ?case by (simp add: same)
qed

lemma once_lines:
  assumes "marks fs fb" and "fs (cleanPath env p) = Some f" and "0 \<le> n"
  shows "TailLines (NewFile env clock fb p n) = read_lines clock n (drop (nat n) (IContent f))"
  using marks_Some [OF assms(1,2)] assms(3) by (auto simp: NewFile_def readOnce_def file_at_def)

text \<open>The state after OpenFiles.\<close>

lemma OpenFiles_lines_ok:
  fixes clock :: "int \<Rightarrow> 'ts" and recv0 :: 'r
  assumes "distinct paths" and "\<forall>p\<in>set paths. fs (cleanPath env p) = Some (f p)"
    and "OpenFiles env now clock events True paths (OpenOffsetDB db (NewMonitor fs recv0)) = Inr s0"
    and "\<forall>p\<in>set paths. map_of (Offsets s0) p = Some (start p) \<and> 0 \<le> start p"
  shows "mon_lines_ok paths start (\<lambda>p. read_lines clock (start p) (drop (nat (start p)) (IContent (f p)))) s0"
    and "mon_db_ok env now db (MonFs s0) s0" and "marks fs (MonFs s0)"
proof -
  define m :: "('ts, 'r) monitor" where "m = OpenOffsetDB db (NewMonitor fs recv0)\<lparr>MonCap := length paths, Offsets := [], Once := True\<rparr>"
  have m: "MonFs m = fs" "Offsets m = []" "Sources m = []" "Sent m = []" "MonLines m = []" "Current m = None" "Done m = False"
      "Closing m = None" "Result m = None" "MonDB m = Some db"
    by (simp_all add: m_def OpenOffsetDB_def NewMonitor_def)
  have op: "open_paths env now (NewFile env clock) paths m = Inr s0" using assms(3) by (simp add: OpenFiles_def m_def)
  have "set paths \<inter> fst ` set (Offsets m) = {}" by (simp add: m)
  from open_paths_opens [OF op assms(1) this] obtain srcs fs1 offs where
    "s0 = m\<lparr>MonFs := fs1, Offsets := Offsets m @ zip paths offs, Sources := Sources m @ srcs\<rparr>"
    and len: "length offs = length paths" "length srcs = length paths" and fs1: "marks fs fs1"
    and srcs: "\<forall>i<length paths. \<exists>fa fb. marks fs fa \<and> stored_offset env now (Some db) (paths ! i) fa = (Inr (offs ! i), fb) \<and>
       srcs ! i = \<lparr>SPath = paths ! i, Held = None, SFile = NewFile env clock fb (paths ! i) (offs ! i)\<rparr>"
    unfolding m(1,10) by blast
  then have s0: "s0 = m\<lparr>MonFs := fs1, Offsets := zip paths offs, Sources := srcs\<rparr>" by (simp add: m)
  have offs: "offs ! i = start (paths ! i)" if "i < length paths" for i
  proof -
    have "map_of (zip paths offs) (paths ! i) = Some (offs ! i)" using assms(1) that len(1) by (simp add: map_of_zip_nth)
    moreover have "map_of (Offsets s0) (paths ! i) = Some (start (paths ! i))" using assms(4) that by simp
    ultimately show ?thesis unfolding s0 by simp
  qed
  have src: "srcs ! i = \<lparr>SPath = paths ! i, Held = None, SFile = SFile (srcs ! i)\<rparr> \<and>
      TailLines (SFile (srcs ! i)) = read_lines clock (start (paths ! i)) (drop (nat (start (paths ! i))) (IContent (f (paths ! i))))"
    if i: "i < length paths" for i
  proof -
    from srcs i obtain fa fb where fb: "marks fs fa" "stored_offset env now (Some db) (paths ! i) fa = (Inr (offs ! i), fb)"
      "srcs ! i = \<lparr>SPath = paths ! i, Held = None, SFile = NewFile env clock fb (paths ! i) (offs ! i)\<rparr>" by blast
    have "marks fs fb" using marks_trans [OF fb(1) stored_marks [of fa env now "Some db" "paths ! i"]] fb(2) by simp
    then have "TailLines (NewFile env clock fb (paths ! i) (offs ! i)) =
        read_lines clock (start (paths ! i)) (drop (nat (start (paths ! i))) (IContent (f (paths ! i))))"
      using once_lines [of fs fb env "paths ! i" "f (paths ! i)" "offs ! i" clock] assms(2,4) i offs [OF i] by simp
    with fb(3) show ?thesis by simp
  qed
  have held: "SPath (srcs ! i) = paths ! i" "Held (srcs ! i) = None" if "i < length paths" for i
    using src [OF that] by (metis source.select_convs)+
  have "map SPath srcs = paths" using held len by (intro nth_equalityI) simp_all
  moreover have "source_ok (\<lambda>p. read_lines clock (start p) (drop (nat (start p)) (IContent (f p)))) s0 (srcs ! i)" if "i < length srcs" for i
  proof -
    have i: "i < length paths" using that len(2) by simp
    show ?thesis using conjunct2 [OF src [OF i]] held [OF i] by (simp add: source_ok_def s0 m)
  qed
  ultimately show "mon_lines_ok paths start (\<lambda>p. read_lines clock (start p) (drop (nat (start p)) (IContent (f p)))) s0"
    using assms(4) len by (simp add: mon_lines_ok_def s0 m sent_offset_def)
  show "mon_db_ok env now db (MonFs s0) s0" by (simp add: mon_db_ok_def s0 m)
  show "marks fs (MonFs s0)" by (simp add: s0 fs1)
qed

lemma mon_reaches_ok:
  assumes "mon_reaches env now recv s0 s" and "mon_lines_ok paths start lns s0" and "mon_db_ok env now db fs s0" and "distinct paths"
  shows "mon_lines_ok paths start lns s" and "mon_db_ok env now db fs s"
  using assms by (induction) (auto intro: mon_step_lines_ok mon_step_db_ok)

text \<open>What the database holds when Run has returned.\<close>

lemma finished_remembers:
  assumes "mon_lines_ok paths start lns s" and "mon_db_ok env now db fs s" and "Result s = Some r"
    and "file_laws env paths" and "length now \<le> 64" and "distinct paths" and "\<forall>p\<in>set paths. fs (cleanPath env p) \<noteq> None"
  obtains db1 where "MonDB s = Some db1" and "marks fs (MonFs s)"
    and "\<And>p. p \<in> set paths \<Longrightarrow> remembers env p (sent_offset (start p) (of_path p (Sent s))) (db1, MonFs s)"
proof -
  from assms(2,3) obtain offs db1 where offs: "mset offs = mset (Offsets s)" "flush_all env now offs (db, fs) = (db1, MonFs s)" "MonDB s = Some db1"
    by (auto simp: mon_db_ok_def)
  have keys: "map fst (Offsets s) = paths" using assms(1) by (simp add: mon_lines_ok_def)
  have same: "set offs = set (Offsets s)" using offs(1) by (metis set_mset_mset)
  have "mset (map fst offs) = mset paths" using offs(1) keys by (metis mset_map)
  then have d: "distinct (map fst offs)" "fst ` set offs \<subseteq> set paths"
    using assms(6) by (metis mset_eq_imp_distinct_iff, metis order_refl list.set_map mset_eq_setD)
  from flush_remembers [OF assms(4,5) d assms(7), of db] offs(2) have
    fl: "marks fs (MonFs s)" "\<forall>(p, n)\<in>set offs. remembers env p n (db1, MonFs s)" by auto
  have "remembers env p (sent_offset (start p) (of_path p (Sent s))) (db1, MonFs s)" if "p \<in> set paths" for p
  proof -
    have "map_of (Offsets s) p = Some (sent_offset (start p) (of_path p (Sent s)))" using assms(1) that by (simp add: mon_lines_ok_def)
    then have "(p, sent_offset (start p) (of_path p (Sent s))) \<in> set offs" using same by (auto dest: map_of_SomeD)
    with fl(2) show ?thesis by blast
  qed
  with that offs(3) fl(1) show ?thesis by blast
qed

lemma lines_sent_first:
  assumes "mon_lines_ok paths start lns s" and "p \<in> set paths"
  obtains ls where "of_path p (Sent s) @ ls = lns p"
proof -
  have "map SPath (Sources s) = paths" using assms(1) by (simp add: mon_lines_ok_def)
  with assms(2) have "p \<in> SPath ` set (Sources s)" by (metis list.set_map)
  then obtain i where i: "i < length (Sources s)" "SPath (Sources s ! i) = p" by (auto simp: in_set_conv_nth)
  then have "source_ok lns s (Sources s ! i)" using assms(1) by (simp add: mon_lines_ok_def)
  with i(2) that show ?thesis by (auto simp: source_ok_def)
qed

section \<open>Properties\<close>


text \<open>A state in which CloseFiles waits for a goroutine that waits for room in the channel.\<close>

definition hung :: "('ts, 'r) monitor \<Rightarrow> bool" where
  "hung s \<longleftrightarrow> Closing s \<noteq> None \<and> \<not> Done s \<and> Result s = None \<and> MonCap s \<le> length (MonLines s) \<and>
     (\<exists>i<length (Sources s). Held (Sources s ! i) \<noteq> None)"

lemma hung_step:
  assumes "mon_step env now recv s s'" and "hung s"
  shows "hung s' \<and> MonDB s' = MonDB s"
proof -
  obtain j where j: "j < length (Sources s)" "Held (Sources s ! j) \<noteq> None" using assms(2) by (auto simp: hung_def)
  from assms(1) show ?thesis
  proof cases
    case (takes_line i src l f)
    then have "j \<noteq> i" using j(2) by auto
    with takes_line assms(2) j show ?thesis by (auto simp: hung_def intro!: exI [of _ j])
  next
    case (finished r)
    then show ?thesis using j by (metis nth_mem)
  qed (use assms(2) in \<open>auto simp: hung_def\<close>)
qed

lemma hung_for_ever:
  assumes "mon_reaches env now recv s s'" and "hung s"
  shows "hung s' \<and> MonDB s' = MonDB s"
  using assms by induction (auto dest: hung_step)

lemma OpenFiles_one:
  assumes "OpenFiles env now clock events once [path] m = Inr s0" and "Sources m = []"
  obtains n fs1 f where "s0 = m\<lparr>MonCap := 1, Once := once, MonFs := fs1, Offsets := [(path, n)], Sources := [\<lparr>SPath = path, Held = None, SFile = f\<rparr>]\<rparr>"
  using assms by (auto simp: OpenFiles_def split: prod.splits sum.splits)

lemma line_message_ok: "\<exists>m. line_message name l = Inr m"
proof -
  have "known_version (AddTag (Log (LTime l)) ''source'' name)"
    by (simp add: AddTag_def Log_def zero_message_def known_version_def DEFAULT_VERSION_def)
  from Add_scalar [OF this, of "VString (TrimSpace (LText l))" "''message''"] show ?thesis
    by (auto simp: line_message_def is_scalar_def scalar_attr_def)
qed

lemma hung_reachable:
  assumes "OpenFiles env now clock events once [path] m = Inr s0" and "m \<in> {NewMonitor fs recv0, OpenOffsetDB db (NewMonitor fs recv0)}"
    and "TailLines (SFile (hd (Sources s0))) = l1 # l2 # l3 # ls"
    and "\<And>msg. RReceive recv recv0 (Some msg) = Some (Inl (Err e), r)"
  shows "\<exists>s. mon_reaches env now recv s0 s \<and> hung s \<and> MonDB s = MonDB s0"
proof -
  have m: "Sources m = []" "MonLines m = []" "Current m = None" "Closing m = None" "Done m = False" "Result m = None" "MonRecv m = recv0"
    using assms(2) by (auto simp: NewMonitor_def OpenOffsetDB_def)
  obtain n fs1 f where s0: "s0 = m\<lparr>MonCap := 1, Once := once, MonFs := fs1, Offsets := [(path, n)], Sources := [\<lparr>SPath = path, Held = None, SFile = f\<rparr>]\<rparr>"
    by (rule OpenFiles_one [OF assms(1) m(1)])
  have f: "TailLines f = l1 # l2 # l3 # ls" using assms(3) by (simp add: s0)
  obtain msg where msg: "line_message (Base env path) l1 = Inr msg" using line_message_ok by blast
  define st where "st h ts q c = s0\<lparr>Sources := [\<lparr>SPath = path, Held = h, SFile = f\<lparr>TailLines := ts\<rparr>\<rparr>], MonLines := map (Pair path) q, Current := c\<rparr>" for h ts q c
  have st0: "s0 = st None (l1 # l2 # l3 # ls) [] None" using f by (cases f) (simp add: st_def s0 m)
  let ?step = "mon_step env now recv"
  have to: "?step a b'" if "?step a b" "MonDB b' = MonDB b" "MonFs b' = MonFs b" "Sources b' = Sources b" "Once b' = Once b" "MonCap b' = MonCap b"
    "MonLines b' = MonLines b" "Current b' = Current b" "Offsets b' = Offsets b" "Shutdown b' = Shutdown b" "Closing b' = Closing b"
    "Done b' = Done b" "Result b' = Result b" "MonRecv b' = MonRecv b" "Sent b' = Sent b" for a b b'
    using that by (metis monitor.equality old.unit.exhaust)
  have srcs: "Sources (st h ts q c) = [\<lparr>SPath = path, Held = h, SFile = f\<lparr>TailLines := ts\<rparr>\<rparr>]" for h ts q c by (simp add: st_def)
  have takes: "?step (st None (l # ts) q c) (st (Some l) ts q c)" for l ts q c
  proof -
    have "?step (st None (l # ts) q c) ((st None (l # ts) q c)\<lparr>Sources := (Sources (st None (l # ts) q c))[0 :=
        \<lparr>SPath = path, Held = None, SFile = f\<lparr>TailLines := l # ts\<rparr>\<rparr>\<lparr>Held := Some l, SFile := f\<lparr>TailLines := ts\<rparr>\<rparr>]\<rparr>)"
      by (rule takes_line) (simp_all add: srcs GenerateLine_def)
    then show ?thesis by (rule to) (simp_all add: st_def)
  qed
  have puts: "?step (st (Some l) ts [] c) (st None ts [l] c)" for l ts c
  proof -
    have "?step (st (Some l) ts [] c) ((st (Some l) ts [] c)\<lparr>Sources := (Sources (st (Some l) ts [] c))[0 :=
        \<lparr>SPath = path, Held = Some l, SFile = f\<lparr>TailLines := ts\<rparr>\<rparr>\<lparr>Held := None\<rparr>],
        MonLines := MonLines (st (Some l) ts [] c) @ [(SPath \<lparr>SPath = path, Held = Some l, SFile = f\<lparr>TailLines := ts\<rparr>\<rparr>, l)]\<rparr>)"
      by (rule puts_line) (simp_all add: st_def s0)
    then show ?thesis by (rule to) (simp_all add: st_def)
  qed
  have picks: "?step (st h ts [l] None) (st h ts [] (Some (path, l)))" for h ts l
  proof -
    have "?step (st h ts [l] None) ((st h ts [l] None)\<lparr>MonLines := [], Current := Some (path, l)\<rparr>)"
      by (rule picks) (simp_all add: st_def s0 m)
    then show ?thesis by (rule to) (simp_all add: st_def)
  qed
  define s where "s = CloseFiles ((st (Some l3) ls [l2] (Some (path, l1)))\<lparr>Current := None, MonRecv := r, Closing := Some (Inl (Err e))\<rparr>)"
  have refused: "?step (st (Some l3) ls [l2] (Some (path, l1))) s"
    unfolding s_def using assms(4) msg by (intro refused [where m = msg]) (simp_all add: st_def s0 m)
  have "mon_reaches env now recv s0 s"
    using mon_start [of env now recv s0] takes puts picks refused unfolding st0 by (meson mon_next)
  moreover have "hung s" by (simp add: hung_def s_def st_def CloseFiles_def s0 m)
  moreover have "MonDB s = MonDB s0" by (simp add: s_def st_def s0)
  ultimately show ?thesis by blast
qed

text \<open>
  A monitor can stop for ever, and then forgets its offsets. If the receiver refuses the first line of a file
  that has three, a state is reachable from which Run never returns and the database is never written, whatever
  happens: CloseFiles waits for the goroutine of the file, which waits for room in a channel that nobody reads.
\<close>

lemma monitor_hangs:
  assumes "OpenFiles env now clock events once [path] m = Inr s0" and "m \<in> {NewMonitor fs recv0, OpenOffsetDB db (NewMonitor fs recv0)}"
    and "TailLines (SFile (hd (Sources s0))) = l1 # l2 # l3 # ls"
    and "\<And>msg. RReceive recv recv0 (Some msg) = Some (Inl (Err e), r)"
  shows "\<exists>s. mon_reaches env now recv s0 s \<and>
    (\<forall>s'. mon_reaches env now recv s s' \<longrightarrow> Result s' = None \<and> MonDB s' = MonDB s0)"
  using hung_reachable [OF assms] hung_for_ever by (metis hung_def)


section \<open>Witnesses\<close>

text \<open>A file of two lines on a file system without attributes; the first run hands on one line and is shut down.\<close>

definition plain_files :: file_env where
  "plain_files = \<lparr>Clean = id, EvalSymlinks = Inr, Abs = Inr, Sha1Hex = (\<lambda>_. ''00''), Sha256Hex = id,
     MkdirAll = (\<lambda>_. Inr ()), CreateFile = (\<lambda>_. Inr ()), Base = id\<rparr>"

definition example_inode :: inode where
  "example_inode = \<lparr>INumber = [1], IDevice = [2], IBirth = None, IXattr = False, IContent = ''x'' @ [CHR 0x0A] @ ''y'' @ [CHR 0x0A]\<rparr>"

definition example_monitor :: "(nat, nat message option list) monitor" where
  "example_monitor = \<lparr>MonDB = Some Map.empty, MonFs = [''a'' \<mapsto> example_inode],
     Sources = [\<lparr>SPath = ''a'', Held = None, SFile = NewFile plain_files (\<lambda>_. 0) [''a'' \<mapsto> example_inode] ''a'' 0\<rparr>], Once = True, MonCap = 1,
     MonLines = [], Current = None, Offsets = [(''a'', 0)], Shutdown = False, Closing = None, Done = False, Result = None, MonRecv = [], Sent = []\<rparr>"

lemma plain_files_simps [simp]:
  "cleanPath plain_files p = p" "MkdirAll plain_files p = Inr ()" "CreateFile plain_files p = Inr ()" "Sha1Hex plain_files bs = ''00''"
  by (simp_all add: cleanPath_def plain_files_def)

lemma example_opens:
  "OpenFiles plain_files [] (\<lambda>_. 0) events True [''a''] (OpenOffsetDB Map.empty (NewMonitor [''a'' \<mapsto> example_inode] [])) = Inr example_monitor"
  by (simp add: OpenFiles_def OpenOffsetDB_def NewMonitor_def stored_offset_def OffsetDB_Get_def example_monitor_def)

lemma example_lines:
  "TailLines (NewFile plain_files (\<lambda>_. 0) [''a'' \<mapsto> example_inode] ''a'' 0) =
     [\<lparr>LText = ''x'' @ [CHR 0x0A], LOffset = 0, LTime = 0\<rparr>, \<lparr>LText = ''y'' @ [CHR 0x0A], LOffset = 2, LTime = 0\<rparr>]"
  by (simp add: NewFile_def readOnce_def file_at_def example_inode_def read_lines.simps)

lemma example_run:
  obtains s where "mon_reaches plain_files [] BufferReceiver example_monitor s" and "Result s = Some (Inr ())"
    and "MonFs s ''a'' = Some example_inode" and "texts (of_path ''a'' (Sent s)) = [''x'' @ [CHR 0x0A]]"
proof -
  let ?l = "\<lparr>LText = ''x'' @ [CHR 0x0A], LOffset = 0, LTime = 0 :: nat\<rparr>"
  let ?f = "NewFile plain_files (\<lambda>_. 0 :: nat) [''a'' \<mapsto> example_inode] ''a'' 0"
  obtain msg where msg: "line_message (Base plain_files ''a'') ?l = Inr msg" using line_message_ok by blast
  define src where "src = \<lparr>SPath = ''a'', Held = None, SFile = ?f\<rparr>"
  define f1 where "f1 = ?f\<lparr>TailLines := tl (TailLines ?f)\<rparr>"
  define s1 where "s1 = example_monitor\<lparr>Sources := (Sources example_monitor)[0 := src\<lparr>Held := Some ?l, SFile := f1\<rparr>]\<rparr>"
  define s2 where "s2 = s1\<lparr>Sources := (Sources s1)[0 := src\<lparr>Held := Some ?l, SFile := f1\<rparr>\<lparr>Held := None\<rparr>], MonLines := MonLines s1 @ [(''a'', ?l)]\<rparr>"
  define s3 where "s3 = s2\<lparr>MonLines := [], Current := Some (''a'', ?l)\<rparr>"
  define s4 where "s4 = s3\<lparr>Current := None, MonRecv := [Some msg], Offsets := AList.update ''a'' (Line_Next ?l) (Offsets s3), Sent := Sent s3 @ [(''a'', ?l)]\<rparr>"
  define s5 where "s5 = s4\<lparr>Shutdown := True\<rparr>"
  define s6 where "s6 = CloseFiles (s5\<lparr>Shutdown := False, Closing := Some (Inr ())\<rparr>)"
  define s7 where "s7 = s6\<lparr>Done := True\<rparr>"
  define s8 where "s8 = (FlushOffsets plain_files [] [(''a'', 2)] s7)\<lparr>Result := Closing s7\<rparr>"
  note defs = s7_def s6_def s5_def s4_def s3_def s2_def s1_def src_def example_monitor_def CloseFiles_def
  let ?step = "mon_step plain_files [] BufferReceiver"
  have "?step example_monitor s1" unfolding s1_def
    by (rule takes_line) (simp_all add: example_monitor_def src_def GenerateLine_def example_lines f1_def)
  moreover have "?step s1 s2" unfolding s2_def using puts_line [of 0 s1 "src\<lparr>Held := Some ?l, SFile := f1\<rparr>" ?l] by (simp add: s1_def src_def example_monitor_def)
  moreover have "?step s2 s3" unfolding s3_def by (rule picks) (simp_all add: defs)
  moreover have "?step s3 s4" unfolding s4_def using msg by (intro hands_on [where m = msg]) (simp_all add: defs BufferReceiver_def)
  moreover have "?step s4 s5" unfolding s5_def by (rule SignalShutdown)
  moreover have "?step s5 s6" unfolding s6_def by (rule shuts_down) (simp_all add: defs)
  moreover have "?step s6 s7" unfolding s7_def by (rule finished) (simp_all add: defs)
  moreover have "?step s7 s8" unfolding s8_def by (rule flushes) (simp_all add: defs Line_Next_def)
  ultimately have run: "mon_reaches plain_files [] BufferReceiver example_monitor s8" by (meson mon_start mon_next)
  have calc: "samefile_Calculate plain_files [] ''a'' [''a'' \<mapsto> example_inode] = (Inr ''00'', [''a'' \<mapsto> example_inode])"
    using Calculate_settled [of plain_files "[''a'' \<mapsto> example_inode]" "''a''" example_inode "[]"]
    by (simp add: file_at_def settled_def example_inode_def)
  have calc: "OffsetDB_Set plain_files [] ''a'' 2 (Map.empty, [''a'' \<mapsto> example_inode]) = (r, db, fs1) \<Longrightarrow> fs1 = [''a'' \<mapsto> example_inode]" for r db fs1
    by (simp add: OffsetDB_Set_def Let_def calc)
  have s7: "MonDB s7 = Some Map.empty" "MonFs s7 = [''a'' \<mapsto> example_inode]" by (simp_all add: defs)
  obtain r db fs1 where "OffsetDB_Set plain_files [] ''a'' 2 (Map.empty, [''a'' \<mapsto> example_inode]) = (r, db, fs1)" by (rule prod_cases3)
  with calc [OF this] have "MonFs s8 = [''a'' \<mapsto> example_inode]" by (simp add: s8_def FlushOffsets_def s7)
  moreover have "Result s8 = Some (Inr ())" "texts (of_path ''a'' (Sent s8)) = [''x'' @ [CHR 0x0A]]"
    by (simp_all add: s8_def) (simp_all add: defs)
  ultimately show thesis using that [OF run] by simp
qed



definition refusing :: "('ts, unit) receiver" where
  "refusing = \<lparr>RReceive = (\<lambda>r m. Some (Inl (Err ErrClosed), r)), RClose = (\<lambda>r. (Inr (), r))\<rparr>"

lemma monitor_hangs_witness:
  "\<exists>s0 s. OpenFiles plain_files [] (\<lambda>_. 0 :: nat) (\<lambda>_. []) True [''a'']
       (OpenOffsetDB Map.empty (NewMonitor [''a'' \<mapsto> example_inode\<lparr>IContent := [CHR 0x0A, CHR 0x0A, CHR 0x0A]\<rparr>] ())) = Inr s0 \<and>
     mon_reaches plain_files [] refusing s0 s \<and>
     (\<forall>s'. mon_reaches plain_files [] refusing s s' \<longrightarrow> Result s' = None \<and> MonDB s' = MonDB s0)"
proof -
  let ?m = "OpenOffsetDB Map.empty (NewMonitor [''a'' \<mapsto> example_inode\<lparr>IContent := [CHR 0x0A, CHR 0x0A, CHR 0x0A]\<rparr>] ())"
  let ?fs = "[''a'' \<mapsto> example_inode\<lparr>IContent := [CHR 0x0A, CHR 0x0A, CHR 0x0A]\<rparr>]"
  obtain s0 where s0: "OpenFiles plain_files [] (\<lambda>_. 0 :: nat) (\<lambda>_. []) True [''a''] ?m = Inr s0"
    "Sources s0 = [\<lparr>SPath = ''a'', Held = None, SFile = NewFile plain_files (\<lambda>_. 0) ?fs ''a'' 0\<rparr>]"
    by (simp add: OpenFiles_def OpenOffsetDB_def NewMonitor_def stored_offset_def OffsetDB_Get_def)
  have lines: "TailLines (SFile (hd (Sources s0))) = [\<lparr>LText = [CHR 0x0A], LOffset = 0, LTime = 0\<rparr>,
      \<lparr>LText = [CHR 0x0A], LOffset = 1, LTime = 0\<rparr>, \<lparr>LText = [CHR 0x0A], LOffset = 2, LTime = 0\<rparr>]"
    unfolding s0(2) by (simp add: NewFile_def readOnce_def file_at_def read_lines.simps)
  have "\<And>msg. RReceive refusing () (Some msg) = Some (Inl (Err ErrClosed), ())" by (simp add: refusing_def)
  from monitor_hangs [OF s0(1) _ lines this] s0(1) show ?thesis by blast
qed

end
