(* ===== verification/Tcplog.thy ===== *)
theory Tcplog
  imports Pipes Json
begin

text \<open>
  The loggers that write to a service: plugins/lib/tcplog, the formatters of logentries, papertrail and
  logstash that it is used with, and the loggly client. Dialling, writing and the loggly client are parameters.
\<close>

section \<open>Formatters\<close>

text \<open>A formatter may change the message.\<close>

type_synonym 'ts formatter = "'ts message \<Rightarrow> 'ts message \<times> bytes result"

definition json_line :: "'ts json_env \<Rightarrow> 'ts message \<Rightarrow> bytes result" where
  "json_line env m = bindR (MarshalJSON env m) (\<lambda>bs. Inr (bs @ str_bytes [CHR 0x0A]))"

definition Papertrail_Format :: "'ts json_env \<Rightarrow> 'ts formatter" where
  "Papertrail_Format env m = (m, json_line env m)"

definition Logstash_Format :: "'ts json_env \<Rightarrow> 'ts formatter" where
  "Logstash_Format env m = (m, json_line env m)"

definition Logentries_Format :: "'ts json_env \<Rightarrow> string \<Rightarrow> 'ts formatter" where
  "Logentries_Format env token m =
     (case Get m ''token'' of
        Inl e \<Rightarrow> (m, Inl e)
      | Inr (Some _) \<Rightarrow> (m, json_line env m)
      | Inr None \<Rightarrow> (case Add m ''token'' (VString token) of Inl e \<Rightarrow> (m, Inl e) | Inr (m1, _) \<Rightarrow> (m1, json_line env m1)))"

definition Loggly_Format :: "'ts json_env \<Rightarrow> 'ts formatter" where
  "Loggly_Format env m = (m, json_line env m)"

text \<open>The receiver of loggly: client is the Write of the library, with its state.\<close>

definition Loggly_Receive :: "'ts json_env \<Rightarrow> ('c \<Rightarrow> bytes \<Rightarrow> unit result \<times> 'c) \<Rightarrow> 'c \<Rightarrow> 'ts message \<Rightarrow> unit result \<times> 'c" where
  "Loggly_Receive env client c m = (case snd (Loggly_Format env m) of Inl e \<Rightarrow> (Inl e, c) | Inr bs \<Rightarrow> client c bs)"

section \<open>The logger\<close>

text \<open>What Read and ReadAsync are called with; the error of Format is dropped, and no bytes are sent then.\<close>

datatype 'ts log_arg = ArgBytes bytes | ArgString string | ArgMessage "'ts message" | ArgOther

definition log_data :: "'ts formatter \<Rightarrow> 'ts log_arg \<Rightarrow> bytes result" where
  "log_data fmt arg =
     (case arg of
        ArgBytes b \<Rightarrow> Inr b
      | ArgString s \<Rightarrow> Inr (str_bytes s)
      | ArgMessage m \<Rightarrow> (case snd (fmt m) of Inr b \<Rightarrow> Inr b | Inl (Err e) \<Rightarrow> Inr [] | Inl (Panic e) \<Rightarrow> Inl (Panic e))
      | ArgOther \<Rightarrow> Inl (Err (OtherErr ''Unable to read message type'')))"

text \<open>The network: dialling, and writing to the connection that was dialled last.\<close>

record 'w net =
  NDial :: "'w \<Rightarrow> unit result \<times> 'w"
  NWrite :: "'w \<Rightarrow> bytes \<Rightarrow> unit result \<times> 'w"

text \<open>The loop of Read: it dials until there is a connection and writes until that succeeds, always to the
  same connection. None is that it does not return.\<close>

partial_function (option) read_loop :: "'w net \<Rightarrow> bytes \<Rightarrow> bool \<Rightarrow> 'w \<Rightarrow> (bool \<times> 'w) option" where
  "read_loop net data connected w =
     (if \<not> connected
      then (case NDial net w of (Inl e, w1) \<Rightarrow> read_loop net data False w1 | (Inr _, w1) \<Rightarrow> read_loop net data True w1)
      else (case NWrite net w data of (Inl e, w1) \<Rightarrow> read_loop net data True w1 | (Inr _, w1) \<Rightarrow> Some (True, w1)))"

definition Logger_Read :: "'w net \<Rightarrow> 'ts formatter \<Rightarrow> 'ts log_arg \<Rightarrow> bool \<times> 'w \<Rightarrow> (unit result \<times> bool \<times> 'w) option" where
  "Logger_Read net fmt arg s =
     (case log_data fmt arg of
        Inl e \<Rightarrow> Some (Inl e, s)
      | Inr data \<Rightarrow> map_option (\<lambda>s1. (Inr (), s1)) (read_loop net data (fst s) (snd s)))"

definition tcplog_receiver :: "'w net \<Rightarrow> 'ts formatter \<Rightarrow> ('ts, bool \<times> 'w) receiver" where
  "tcplog_receiver net fmt =
     \<lparr>RReceive = (\<lambda>s m. case m of None \<Rightarrow> Some (Inl (Panic ''nil pointer dereference''), s)
        | Some m \<Rightarrow> Logger_Read net fmt (ArgMessage m) s),
      RClose = (\<lambda>s. (Inr (), s))\<rparr>"

section \<open>The pump\<close>

text \<open>
  ReadAsync puts lines in a channel of a hundred, from which the goroutine of Run writes them. Mode is where that
  goroutine is. History is a ghost: every line that the goroutine has finished with, and whether it was written;
  Reported is how many lost lines have been reported.
\<close>

definition cBufferSize :: nat where "cBufferSize = 100"

datatype pump_mode = Dialing | Taking | Writing bytes | Redialing bytes | Rewriting bytes | Reporting | Ended | Crashed

record logger =
  Pump :: "bytes list"
  PumpClosed :: bool
  PumpDropped :: u64
  ConnDropped :: u64
  Mode :: pump_mode
  History :: "(bytes \<times> bool) list"
  Reported :: u64
  PumpAccepted :: "bytes list"

definition NewLogger :: logger where
  "NewLogger = \<lparr>Pump = [], PumpClosed = False, PumpDropped = 0, ConnDropped = 0, Mode = Dialing, History = [], Reported = 0, PumpAccepted = []\<rparr>"

definition push :: "bytes \<Rightarrow> logger \<Rightarrow> logger" where
  "push line l = l\<lparr>Pump := Pump l @ [line], PumpAccepted := PumpAccepted l @ [line]\<rparr>"

text \<open>The log message about dropped lines, formatted; the error is dropped.\<close>

definition dropped_line :: "'ts formatter \<Rightarrow> 'ts \<Rightarrow> string \<Rightarrow> u64 \<Rightarrow> bytes result" where
  "dropped_line fmt now who n =
     bindR (Add (Log now) ''error'' (VString (''The tcplog '' @ who @ '' dropped '' @ nat_dec (unat n) @ '' log lines'')))
       (\<lambda>(m, _). log_data fmt (ArgMessage m))"

definition writeAsync :: "'ts formatter \<Rightarrow> 'ts \<Rightarrow> bytes \<Rightarrow> logger \<Rightarrow> unit result \<times> logger" where
  "writeAsync fmt now line l =
     (if PumpClosed l then (Inl (Err (OtherErr ''Pump is closed'')), l)
      else if length (Pump l) < cBufferSize then
        (let l1 = push line l in
         if PumpDropped l = 0 then (Inr (), l1)
         else (case dropped_line fmt now ''pump'' (PumpDropped l) of
                 Inl e \<Rightarrow> (Inl e, l1)
               | Inr data \<Rightarrow>
                   if length (Pump l1) < cBufferSize then (Inr (), (push data l1)\<lparr>PumpDropped := PumpDropped l - PumpDropped l\<rparr>)
                   else (Inr (), l1)))
      else (Inr (), l\<lparr>PumpDropped := PumpDropped l + 1\<rparr>))"

definition ReadAsync :: "'ts formatter \<Rightarrow> 'ts \<Rightarrow> 'ts log_arg \<Rightarrow> logger \<Rightarrow> unit result \<times> logger" where
  "ReadAsync fmt now arg l =
     (case log_data fmt arg of Inl e \<Rightarrow> (Inl e, l) | Inr data \<Rightarrow> writeAsync fmt now data l)"

definition cleanup :: "logger \<Rightarrow> logger" where
  "cleanup l = l\<lparr>PumpClosed := True\<rparr>"

text \<open>
  sendLogs. A line whose write fails is written once more on a new connection and then lost. If that connection
  cannot be made, the variable for it is nil when the loop is left, and Close is called on it.
\<close>

inductive pump_step :: "'ts formatter \<Rightarrow> logger \<Rightarrow> logger \<Rightarrow> bool" for fmt where
  reads: "pump_step fmt l (snd (ReadAsync fmt now arg l))"
| closes: "pump_step fmt l (cleanup l)"
| dials: "Mode l = Dialing \<Longrightarrow> pump_step fmt l (l\<lparr>Mode := Taking\<rparr>)"
| takes: "Mode l = Taking \<Longrightarrow> Pump l = line # q \<Longrightarrow> pump_step fmt l (l\<lparr>Pump := q, Mode := Writing line\<rparr>)"
| ends: "Mode l = Taking \<Longrightarrow> Pump l = [] \<Longrightarrow> PumpClosed l \<Longrightarrow> pump_step fmt l (l\<lparr>Mode := Ended\<rparr>)"
| writes: "Mode l \<in> {Writing line, Rewriting line} \<Longrightarrow>
    pump_step fmt l (l\<lparr>Mode := Reporting, History := History l @ [(line, True)]\<rparr>)"
| write_fails: "Mode l = Writing line \<Longrightarrow> pump_step fmt l (l\<lparr>Mode := Redialing line\<rparr>)"
| redials: "Mode l = Redialing line \<Longrightarrow> pump_step fmt l (l\<lparr>Mode := Rewriting line\<rparr>)"
| redial_fails: "Mode l = Redialing line \<Longrightarrow>
    pump_step fmt l (l\<lparr>Mode := Crashed, ConnDropped := ConnDropped l + 1, History := History l @ [(line, False)]\<rparr>)"
| rewrite_fails: "Mode l = Rewriting line \<Longrightarrow>
    pump_step fmt l (l\<lparr>Mode := Dialing, ConnDropped := ConnDropped l + 1, History := History l @ [(line, False)]\<rparr>)"
| nothing_lost: "Mode l = Reporting \<Longrightarrow> ConnDropped l = 0 \<Longrightarrow> pump_step fmt l (l\<lparr>Mode := Taking\<rparr>)"
| reports: "Mode l = Reporting \<Longrightarrow> ConnDropped l \<noteq> 0 \<Longrightarrow> dropped_line fmt now ''connection'' (ConnDropped l) = Inr data \<Longrightarrow>
    pump_step fmt l (l\<lparr>Mode := Taking, ConnDropped := ConnDropped l - ConnDropped l, Reported := Reported l + ConnDropped l\<rparr>)"
| report_fails: "Mode l = Reporting \<Longrightarrow> ConnDropped l \<noteq> 0 \<Longrightarrow> pump_step fmt l (l\<lparr>Mode := Taking\<rparr>)"

inductive pump_reaches :: "'ts formatter \<Rightarrow> logger \<Rightarrow> logger \<Rightarrow> bool" for fmt l0 where
  pump_start: "pump_reaches fmt l0 l0"
| pump_next: "pump_reaches fmt l0 l \<Longrightarrow> pump_step fmt l l' \<Longrightarrow> pump_reaches fmt l0 l'"

section \<open>Lemmas\<close>

definition in_hand :: "logger \<Rightarrow> bytes list" where
  "in_hand l = (case Mode l of Writing x \<Rightarrow> [x] | Redialing x \<Rightarrow> [x] | Rewriting x \<Rightarrow> [x] | _ \<Rightarrow> [])"

definition lost_lines :: "logger \<Rightarrow> bytes list" where
  "lost_lines l = map fst (filter (\<lambda>x. \<not> snd x) (History l))"

definition pump_ok :: "logger \<Rightarrow> bool" where
  "pump_ok l \<longleftrightarrow>
     PumpAccepted l = map fst (History l) @ in_hand l @ Pump l \<and> length (Pump l) \<le> cBufferSize \<and>
     of_nat (length (lost_lines l)) = ConnDropped l + Reported l"

lemma ReadAsync_ok: "pump_ok l \<Longrightarrow> pump_ok (snd (ReadAsync fmt now arg l))"
  by (auto simp: ReadAsync_def writeAsync_def pump_ok_def push_def in_hand_def lost_lines_def Let_def cBufferSize_def split: sum.split pump_mode.split)

lemma pump_step_ok: "pump_step fmt l l' \<Longrightarrow> pump_ok l \<Longrightarrow> pump_ok l'"
proof (induction rule: pump_step.induct)
  case (reads l now arg)
  then show ?case by (rule ReadAsync_ok)
qed (auto simp: pump_ok_def in_hand_def lost_lines_def cleanup_def)

lemma pump_reaches_ok:
  assumes "pump_reaches fmt l0 l" and "pump_ok l0"
  shows "pump_ok l"
  using assms by induction (auto intro: pump_step_ok)

lemma crashed_step: "pump_step fmt l l' \<Longrightarrow> Mode l = Crashed \<Longrightarrow> Mode l' = Crashed"
  by (induction rule: pump_step.induct)
    (auto simp: ReadAsync_def writeAsync_def push_def cleanup_def Let_def split: sum.split)

lemma crashed_for_ever: "pump_reaches fmt l l' \<Longrightarrow> Mode l = Crashed \<Longrightarrow> Mode l' = Crashed"
  by (induction rule: pump_reaches.induct) (auto dest: crashed_step)

text \<open>A connection that is broken stays broken; the set holds the states of the network in which it is.\<close>

definition broken_in :: "'w net \<Rightarrow> bytes \<Rightarrow> 'w set \<Rightarrow> bool" where
  "broken_in net data dead \<longleftrightarrow> (\<forall>w\<in>dead. isl (fst (NWrite net w data)) \<and> snd (NWrite net w data) \<in> dead)"

lemma read_loop_broken:
  assumes "broken_in net data dead" and "w \<in> dead"
  shows "read_loop net data True w = None"
proof -
  have "\<not> (broken_in net data dead \<and> w \<in> dead \<and> connected)" if "read_loop net data connected w = Some x" for connected x
  proof (rule read_loop.raw_induct [of "\<lambda>net data connected w x. \<not> (broken_in net data dead \<and> w \<in> dead \<and> connected)", OF _ that], goal_cases)
    case (1 loop net data connected w x)
    show ?case
    proof
      assume a: "broken_in net data dead \<and> w \<in> dead \<and> connected"
      then obtain e w1 where w1: "NWrite net w data = (Inl e, w1)" "w1 \<in> dead"
        by (cases "NWrite net w data") (auto simp: broken_in_def isl_def dest!: bspec)
      then have "loop net data True w1 = Some x" using 1(2) a by simp
      from 1(1) [OF this] a w1(2) show False by blast
    qed
  qed
  with assms show ?thesis by (cases "read_loop net data True w") auto
qed

section \<open>Properties\<close>


text \<open>
  What an outage does. When the connection of Read breaks, Read never returns, although it could dial again:
  it writes to the broken connection for ever. And from every state in which the pump has a line to write, the
  process can end: a write that fails followed by a dial that fails calls Close on a nil connection.
\<close>

lemma tcplog_outage:
  assumes "log_data fmt arg = Inr data" and "broken_in net data dead" and "w \<in> dead"
    and "Mode l = Taking" and "Pump l = line # q"
  shows "Logger_Read net fmt arg (True, w) = None \<and>
    (\<exists>l'. pump_reaches fmt l l' \<and> (\<forall>l''. pump_reaches fmt l' l'' \<longrightarrow> Mode l'' = Crashed))"
proof
  show "Logger_Read net fmt arg (True, w) = None"
    using read_loop_broken [OF assms(2,3)] assms(1) by (simp add: Logger_Read_def)
  define l1 where "l1 = l\<lparr>Pump := q, Mode := Writing line\<rparr>"
  define l2 where "l2 = l1\<lparr>Mode := Redialing line\<rparr>"
  define l3 where "l3 = l2\<lparr>Mode := Crashed, ConnDropped := ConnDropped l2 + 1, History := History l2 @ [(line, False)]\<rparr>"
  have "pump_step fmt l l1" unfolding l1_def using assms(4,5) by (rule takes)
  moreover have "pump_step fmt l1 l2" unfolding l2_def by (rule write_fails) (simp add: l1_def)
  moreover have "pump_step fmt l2 l3" unfolding l3_def by (rule redial_fails) (simp add: l2_def)
  ultimately have "pump_reaches fmt l l3" by (meson pump_start pump_next)
  moreover have "Mode l3 = Crashed" by (simp add: l3_def)
  ultimately show "\<exists>l'. pump_reaches fmt l l' \<and> (\<forall>l''. pump_reaches fmt l' l'' \<longrightarrow> Mode l'' = Crashed)"
    using crashed_for_ever by blast
qed

text \<open>What the formatter of logentries sends: the message with the token it had or the configured one.\<close>

lemma Logentries_token:
  assumes "known_version m" and "Get m ''token'' = Inr None"
  shows "\<exists>a. StringKey m a = Inr ''token'' \<and> Attribute_Value a = AString token \<and>
    Logentries_Format env token m = (append_attr m a, json_line env (append_attr m a))"
proof -
  have "is_scalar (VString token)" by (simp add: is_scalar_def scalar_attr_def)
  from Add_scalar [OF assms(1) this, of "''token''"] assms(2) show ?thesis
    by (auto simp: Logentries_Format_def scalar_attr_def Attribute_Value_def zero_attribute_def)
qed

section \<open>Witnesses\<close>

definition plain_format :: "nat formatter" where
  "plain_format m = (m, Inr [1])"


lemma tcplog_outage_witness:
  "Logger_Read \<lparr>NDial = (\<lambda>w. (Inr (), w)), NWrite = (\<lambda>w b. (Inl (Err ErrClosed), w))\<rparr> plain_format (ArgBytes [7]) (True, ()) = None \<and>
   (\<exists>l'. pump_reaches plain_format (NewLogger\<lparr>Mode := Taking, Pump := [[7]]\<rparr>) l' \<and>
      (\<forall>l''. pump_reaches plain_format l' l'' \<longrightarrow> Mode l'' = Crashed))"
  by (rule tcplog_outage [where dead = UNIV and data = "[7]"]) (simp_all add: log_data_def broken_in_def)

end
