(* ===== verification/Pollers.thy ===== *)
theory Pollers
  imports Pipes Json JsonFields
begin

text \<open>
  The generators that poll a service: plugins/loggly, plugins/papertrail and plugins/logentries. The service and
  the encoding of its query strings (go-querystring) are parameters; the answers are decoded here. Generate is the
  same function in the three of them, over what they search with and how they fill their buffer.
\<close>

section \<open>Polling\<close>

text \<open>
  Generate: an event of the buffer, the nil of a buffer that is closed, or else a search whose events go to the
  buffer. The wait of a second in its select is never taken, because the select has a default. None is that
  Generate does not return.
\<close>

record ('ts, 'e, 's) poll_ops =
  PBuf :: "'s \<Rightarrow> 'e list"
  PPut :: "'e list \<Rightarrow> 's \<Rightarrow> 's"
  PClosed :: "'s \<Rightarrow> bool"
  PSearch :: "'s \<Rightarrow> 'e list result \<times> 's"
  PKeep :: "'e list \<Rightarrow> 's \<Rightarrow> unit result \<times> 's"
  PEmit :: "'e option \<Rightarrow> 'ts message option result"

partial_function (option) poll :: "('ts, 'e, 's) poll_ops \<Rightarrow> 's \<Rightarrow> ('ts message option result \<times> 's) option" where
  "poll ops s =
     (case PBuf ops s of
        e # es \<Rightarrow> Some (PEmit ops (Some e), PPut ops es s)
      | [] \<Rightarrow>
          if PClosed ops s then Some (PEmit ops None, s)
          else (case PSearch ops s of
              (Inl x, s1) \<Rightarrow> Some (Inl x, s1)
            | (Inr evs, s1) \<Rightarrow>
                (case PKeep ops evs s1 of (Inl x, s2) \<Rightarrow> Some (Inl x, s2) | (Inr _, s2) \<Rightarrow> poll ops s2)))"

definition nil_dereference :: "'a result" where
  "nil_dereference = Inl (Panic ''nil pointer dereference'')"

text \<open>json.Unmarshal of a text into a message, which checks the whole text and then calls UnmarshalJSON.\<close>

definition unmarshal_message :: "'ts json_env \<Rightarrow> string \<Rightarrow> 'ts message result" where
  "unmarshal_message env s =
     bindR (json_decode s) (\<lambda>(v, rest).
       if skip_ws rest = [] then ParseSimpleJSON env (str_bytes s) else Inl (Err (OtherErr ''invalid character'')))"

text \<open>The message that a text is, or a log message with the text.\<close>

definition text_message :: "'ts json_env \<Rightarrow> string \<Rightarrow> 'ts message result" where
  "text_message env s =
     (case unmarshal_message env s of
        Inr m \<Rightarrow> Inr m
      | Inl (Panic e) \<Rightarrow> Inl (Panic e)
      | Inl (Err e) \<Rightarrow> bindR (Add (Log (JsonNow env)) ''message'' (VString s)) (\<lambda>(m, _). Inr m))"

text \<open>The service: what a request answers, and how it goes on.\<close>

type_synonym 'w http = "string \<Rightarrow> 'w \<Rightarrow> string result \<times> 'w"

definition with_query :: "string \<Rightarrow> string \<Rightarrow> string" where
  "with_query url q = (if q \<noteq> '''' then url @ ''?'' @ q else url)"

section \<open>loggly\<close>

record rsid_options =
  RQ :: string
  RFrom :: string
  RUntil :: string
  ROrder :: string
  RSize :: u64

record events_options =
  ERsid :: string
  EPage :: u64
  EFormat :: string
  EColumns :: string

record event =
  EvTimestamp :: u64
  EvLogmsg :: string

record rsid =
  RsStatus :: string
  RsDateFrom :: u64
  RsElapsed :: float64
  RsDateTo :: u64
  RsID :: string

record 'w loggly =
  RSIDRootURL :: string
  EventsRootURL :: string
  LRSIDOptions :: rsid_options
  LEventsOptions :: events_options
  LBuffer :: "event option list"
  LCap :: nat
  LClosed :: bool
  LWorld :: 'w

record 'w loggly_env =
  RSIDQuery :: "rsid_options \<Rightarrow> string"
  EventsQuery :: "events_options \<Rightarrow> string"
  LFetch :: "'w http"
  LFloat :: "string \<Rightarrow> float64 option"

text \<open>parse_url is url.Parse and String.\<close>

definition NewLogglyRecv :: "(string \<Rightarrow> string result) \<Rightarrow> string \<Rightarrow> rsid_options \<Rightarrow> events_options \<Rightarrow> nat \<Rightarrow> 'w \<Rightarrow> 'w loggly result" where
  "NewLogglyRecv parse_url account ro eo bufferSize w =
     bindR (parse_url (''http://'' @ account @ ''.loggly.com/lrv2/search'')) (\<lambda>rsidUrl.
     bindR (parse_url (''http://'' @ account @ ''.loggly.com/lrv2/events'')) (\<lambda>eventsUrl.
       Inr \<lparr>RSIDRootURL = rsidUrl, EventsRootURL = eventsUrl, LRSIDOptions = ro, LEventsOptions = eo, LBuffer = [],
            LCap = bufferSize, LClosed = False, LWorld = w\<rparr>))"

definition SetDefaultRSIDOptions :: "'w loggly \<Rightarrow> rsid_options \<Rightarrow> rsid_options" where
  "SetDefaultRSIDOptions lr opts =
     (let d = LRSIDOptions lr in
      opts\<lparr>RQ := if RQ opts = '''' then RQ d else RQ opts, RFrom := if RFrom opts = '''' then RFrom d else RFrom opts,
        RUntil := if RUntil opts = '''' then RUntil d else RUntil opts, ROrder := if ROrder opts = '''' then ROrder d else ROrder opts,
        RSize := if RSize opts = 0 then RSize d else RSize opts\<rparr>)"

definition SetDefaultEventsOptions :: "'w loggly \<Rightarrow> events_options \<Rightarrow> events_options" where
  "SetDefaultEventsOptions lr opts =
     (let d = LEventsOptions lr in
      opts\<lparr>ERsid := if ERsid opts = '''' then ERsid d else ERsid opts, EPage := if EPage opts = 0 then EPage d else EPage opts,
        EFormat := if EFormat opts = '''' then EFormat d else EFormat opts,
        EColumns := if EColumns opts = '''' then EColumns d else EColumns opts\<rparr>)"

definition EncodeRSIDURL :: "'w loggly_env \<Rightarrow> 'w loggly \<Rightarrow> rsid_options \<Rightarrow> string" where
  "EncodeRSIDURL env lr opts = with_query (RSIDRootURL lr) (RSIDQuery env opts)"

definition EncodeEventsURL :: "'w loggly_env \<Rightarrow> 'w loggly \<Rightarrow> events_options \<Rightarrow> string" where
  "EncodeEventsURL env lr opts = with_query (EventsRootURL lr) (EventsQuery env opts)"

definition float_field :: "(string \<Rightarrow> float64 option) \<Rightarrow> json option \<Rightarrow> float64 result" where
  "float_field num v =
     (case v of
        Some (JNum s) \<Rightarrow> (case num s of Some f \<Rightarrow> Inr f | None \<Rightarrow> json_mismatch)
      | Some JNull \<Rightarrow> Inr 0 | None \<Rightarrow> Inr 0 | _ \<Rightarrow> json_mismatch)"

definition NewRSID :: "'w loggly_env \<Rightarrow> string \<Rightarrow> rsid result" where
  "NewRSID env body =
     json_unmarshal (\<lambda>ps. struct_value (\<lambda>ps.
         bindR (string_field (json_member ps ''status'')) (\<lambda>status.
         bindR (uint_field 64 (json_member ps ''date_from'')) (\<lambda>from.
         bindR (float_field (LFloat env) (json_member ps ''elapsed_time'')) (\<lambda>elapsed.
         bindR (uint_field 64 (json_member ps ''date_to'')) (\<lambda>to.
         bindR (string_field (json_member ps ''id'')) (\<lambda>i.
           Inr \<lparr>RsStatus = status, RsDateFrom = of_nat from, RsElapsed = elapsed, RsDateTo = of_nat to, RsID = i\<rparr>))))))
       (case json_member ps ''rsid'' of Some v \<Rightarrow> v | None \<Rightarrow> JNull)) body"

definition event_of :: "(string \<times> json) list \<Rightarrow> event result" where
  "event_of ps =
     bindR (uint_field 64 (json_member ps ''timestamp'')) (\<lambda>t.
     bindR (string_field (json_member ps ''logmsg'')) (\<lambda>msg. Inr \<lparr>EvTimestamp = of_nat t, EvLogmsg = msg\<rparr>))"

definition Loggly_NewEvents :: "string \<Rightarrow> event option list result" where
  "Loggly_NewEvents body =
     json_unmarshal (\<lambda>ps.
       bindR (uint_field 64 (json_member ps ''total_events'')) (\<lambda>_.
       bindR (uint_field 64 (json_member ps ''page'')) (\<lambda>_. array_field event_of (json_member ps ''events'')))) body"

text \<open>Search with the receiver's own options, as Generate calls it: the id of the search is kept in them.\<close>

definition Loggly_Search :: "'w loggly_env \<Rightarrow> 'w loggly \<Rightarrow> event option list result \<times> 'w loggly" where
  "Loggly_Search env lr =
     (case LFetch env (EncodeRSIDURL env lr (SetDefaultRSIDOptions lr (LRSIDOptions lr))) (LWorld lr) of
        (body, w1) \<Rightarrow>
          (case bindR body (NewRSID env) of
             Inl e \<Rightarrow> (Inl e, lr\<lparr>LWorld := w1\<rparr>)
           | Inr rs \<Rightarrow>
               let lr1 = lr\<lparr>LWorld := w1, LEventsOptions := (LEventsOptions lr)\<lparr>ERsid := RsID rs\<rparr>\<rparr> in
               (case LFetch env (EncodeEventsURL env lr1 (SetDefaultEventsOptions lr1 (LEventsOptions lr1))) w1 of
                  (body, w2) \<Rightarrow> (bindR body Loggly_NewEvents, lr1\<lparr>LWorld := w2\<rparr>))))"

text \<open>The events that the buffer has no room for are dropped, and the next page is searched for.\<close>

definition Loggly_BufferEvents :: "event option list \<Rightarrow> 'w loggly \<Rightarrow> unit result \<times> 'w loggly" where
  "Loggly_BufferEvents evs lr =
     (Inr (), lr\<lparr>LBuffer := LBuffer lr @ take (LCap lr - length (LBuffer lr)) evs,
        LEventsOptions := (LEventsOptions lr)\<lparr>EPage := EPage (LEventsOptions lr) + 1\<rparr>\<rparr>)"

definition Loggly_NewCypressMessage :: "'ts json_env \<Rightarrow> event option \<Rightarrow> 'ts message option result" where
  "Loggly_NewCypressMessage env ev =
     (case ev of None \<Rightarrow> nil_dereference | Some ev \<Rightarrow> bindR (text_message env (EvLogmsg ev)) (\<lambda>m. Inr (Some m)))"

definition loggly_ops :: "'w loggly_env \<Rightarrow> 'ts json_env \<Rightarrow> ('ts, event option, 'w loggly) poll_ops" where
  "loggly_ops env jenv =
     \<lparr>PBuf = LBuffer, PPut = (\<lambda>b lr. lr\<lparr>LBuffer := b\<rparr>), PClosed = LClosed,
      PSearch = Loggly_Search env,
      PKeep = Loggly_BufferEvents, PEmit = (\<lambda>ev. Loggly_NewCypressMessage jenv (Option.bind ev id))\<rparr>"

definition Loggly_Generate :: "'w loggly_env \<Rightarrow> 'ts json_env \<Rightarrow> 'w loggly \<Rightarrow> ('ts message option result \<times> 'w loggly) option" where
  "Loggly_Generate env jenv lr = poll (loggly_ops env jenv) lr"

definition Loggly_Close :: "'w loggly \<Rightarrow> 'w loggly" where
  "Loggly_Close lr = lr\<lparr>LClosed := True\<rparr>"

section \<open>papertrail\<close>

record pt_options =
  PtQ :: string
  PtGroupId :: string
  PtSystemId :: string
  PtMinId :: string
  PtMaxId :: string
  PtMinTime :: string
  PtMaxTime :: string
  PtTail :: bool

record pt_event =
  PtId :: string
  PtReceivedAt :: string
  PtDisplayReceivedAt :: string
  PtSourceName :: string
  PtSourceId :: u32
  PtSourceIp :: string
  PtFacility :: string
  PtSeverity :: string
  PtProgram :: string
  PtMessage :: string

record 'w papertrail =
  PtOptions :: pt_options
  PtBuffer :: "pt_event option list"
  PtCap :: nat
  PtClosed :: bool
  PtWorld :: 'w

record 'w pt_env =
  PtQuery :: "pt_options \<Rightarrow> string"
  PtFetch :: "'w http"

definition cAPIRoot :: string where
  "cAPIRoot = ''https://papertrailapp.com/pr/v1/events/search.json''"

definition NewPapertrailRecv :: "pt_options \<Rightarrow> nat \<Rightarrow> 'w \<Rightarrow> 'w papertrail" where
  "NewPapertrailRecv options bufferSize w =
     \<lparr>PtOptions = options, PtBuffer = [], PtCap = bufferSize, PtClosed = False, PtWorld = w\<rparr>"

definition Pt_SetDefaultOptions :: "'w papertrail \<Rightarrow> pt_options \<Rightarrow> pt_options" where
  "Pt_SetDefaultOptions pr opts =
     (let d = PtOptions pr; def = (\<lambda>f. if f opts = '''' then f d else f opts) in
      opts\<lparr>PtQ := def PtQ, PtGroupId := def PtGroupId, PtSystemId := def PtSystemId, PtMinId := def PtMinId, PtMaxId := def PtMaxId,
        PtMinTime := def PtMinTime, PtMaxTime := def PtMaxTime\<rparr>)"

definition Pt_EncodeURL :: "'w pt_env \<Rightarrow> pt_options \<Rightarrow> string" where
  "Pt_EncodeURL env opts = with_query cAPIRoot (PtQuery env opts)"

text \<open>The struct tag of Id is not closed, so that the field is matched by its name.\<close>

definition pt_event_of :: "(string \<times> json) list \<Rightarrow> pt_event result" where
  "pt_event_of ps =
     (let str = (\<lambda>n. string_field (json_member ps n)) in
      bindR (str ''id'') (\<lambda>i. bindR (str ''received_at'') (\<lambda>ra. bindR (str ''display_received_at'') (\<lambda>dra.
      bindR (str ''source_name'') (\<lambda>sn. bindR (uint_field 32 (json_member ps ''source_id'')) (\<lambda>si.
      bindR (str ''source_ip'') (\<lambda>ip. bindR (str ''facility'') (\<lambda>fa. bindR (str ''severity'') (\<lambda>se.
      bindR (str ''program'') (\<lambda>pr. bindR (str ''message'') (\<lambda>msg.
        Inr \<lparr>PtId = i, PtReceivedAt = ra, PtDisplayReceivedAt = dra, PtSourceName = sn, PtSourceId = of_nat si, PtSourceIp = ip,
             PtFacility = fa, PtSeverity = se, PtProgram = pr, PtMessage = msg\<rparr>)))))))))))"

definition bool_field :: "json option \<Rightarrow> bool result" where
  "bool_field v = (case v of Some (JBool b) \<Rightarrow> Inr b | Some JNull \<Rightarrow> Inr False | None \<Rightarrow> Inr False | _ \<Rightarrow> json_mismatch)"

definition Pt_NewEvents :: "string \<Rightarrow> pt_event option list result" where
  "Pt_NewEvents body =
     json_unmarshal (\<lambda>ps.
       bindR (array_field pt_event_of (json_member ps ''events'')) (\<lambda>evs.
       bindR (string_field (json_member ps ''min_id'')) (\<lambda>_.
       bindR (string_field (json_member ps ''max_id'')) (\<lambda>_.
       bindR (bool_field (json_member ps ''reached_beginning'')) (\<lambda>_.
       bindR (bool_field (json_member ps ''reached_time_limit'')) (\<lambda>_. Inr evs)))))) body"

definition Pt_Search :: "'w pt_env \<Rightarrow> pt_options \<Rightarrow> 'w papertrail \<Rightarrow> pt_event option list result \<times> 'w papertrail" where
  "Pt_Search env opts pr =
     (case PtFetch env (Pt_EncodeURL env (Pt_SetDefaultOptions pr opts)) (PtWorld pr) of
        (body, w1) \<Rightarrow> (bindR body Pt_NewEvents, pr\<lparr>PtWorld := w1\<rparr>))"

text \<open>The id of the last event that the buffer takes is where the next search begins; a nil event that it takes panics.\<close>

fun Pt_BufferEvents :: "pt_event option list \<Rightarrow> 'w papertrail \<Rightarrow> unit result \<times> 'w papertrail" where
  "Pt_BufferEvents [] pr = (Inr (), pr)"
| "Pt_BufferEvents (ev # evs) pr =
     (if length (PtBuffer pr) < PtCap pr
      then (case ev of
              None \<Rightarrow> (nil_dereference, pr\<lparr>PtBuffer := PtBuffer pr @ [None]\<rparr>)
            | Some e \<Rightarrow> Pt_BufferEvents evs (pr\<lparr>PtBuffer := PtBuffer pr @ [Some e], PtOptions := (PtOptions pr)\<lparr>PtMinId := PtId e\<rparr>\<rparr>))
      else Pt_BufferEvents evs pr)"

definition Pt_NewCypressMessage :: "'ts json_env \<Rightarrow> pt_event option \<Rightarrow> 'ts message option result" where
  "Pt_NewCypressMessage env ev =
     (case ev of None \<Rightarrow> nil_dereference | Some ev \<Rightarrow> bindR (text_message env (PtMessage ev)) (\<lambda>m. Inr (Some m)))"

definition papertrail_ops :: "'w pt_env \<Rightarrow> 'ts json_env \<Rightarrow> ('ts, pt_event option, 'w papertrail) poll_ops" where
  "papertrail_ops env jenv =
     \<lparr>PBuf = PtBuffer, PPut = (\<lambda>b pr. pr\<lparr>PtBuffer := b\<rparr>), PClosed = PtClosed, PSearch = (\<lambda>pr. Pt_Search env (PtOptions pr) pr),
      PKeep = Pt_BufferEvents, PEmit = (\<lambda>ev. Pt_NewCypressMessage jenv (Option.bind ev id))\<rparr>"

definition Papertrail_Generate :: "'w pt_env \<Rightarrow> 'ts json_env \<Rightarrow> 'w papertrail \<Rightarrow> ('ts message option result \<times> 'w papertrail) option" where
  "Papertrail_Generate env jenv pr = poll (papertrail_ops env jenv) pr"

definition Papertrail_Close :: "'w papertrail \<Rightarrow> 'w papertrail" where
  "Papertrail_Close pr = pr\<lparr>PtClosed := True\<rparr>"

section \<open>logentries\<close>

record le_options =
  LeStart :: int
  LeEnd :: int
  LeFilter :: string
  LeLimit :: int

record ('ts, 'w) logentries =
  LeRoot :: string
  LeOptions :: le_options
  LeBuffer :: "'ts message list"
  LeCap :: nat
  LeClosed :: bool
  LeWorld :: 'w

record ('ts, 'w) le_env =
  LeQuery :: "le_options \<Rightarrow> string"
  LeFetch :: "'w http"
  LeMillis :: "'ts \<Rightarrow> int"

definition NewLogentriesRecv :: "(string \<Rightarrow> string result) \<Rightarrow> string \<Rightarrow> string \<Rightarrow> string \<Rightarrow> le_options \<Rightarrow> nat \<Rightarrow> 'w \<Rightarrow> ('ts, 'w) logentries result" where
  "NewLogentriesRecv parse_url key host log options bufferSize w =
     bindR (parse_url (''https://pull.logentries.com/'' @ key @ ''/hosts/'' @ host @ ''/'' @ log @ ''/'')) (\<lambda>root.
       Inr \<lparr>LeRoot = root, LeOptions = options, LeBuffer = [], LeCap = bufferSize, LeClosed = False, LeWorld = w\<rparr>)"

definition Le_SetDefaultOptions :: "('ts, 'w) logentries \<Rightarrow> le_options \<Rightarrow> le_options" where
  "Le_SetDefaultOptions lr opts =
     (let d = LeOptions lr in
      opts\<lparr>LeStart := if LeStart opts = 0 then LeStart d else LeStart opts, LeEnd := if LeEnd opts = 0 then LeEnd d else LeEnd opts,
        LeFilter := if LeFilter opts = '''' then LeFilter d else LeFilter opts, LeLimit := if LeLimit opts = 0 then LeLimit d else LeLimit opts\<rparr>)"

definition Le_EncodeURL :: "('ts, 'w) le_env \<Rightarrow> ('ts, 'w) logentries \<Rightarrow> le_options \<Rightarrow> string" where
  "Le_EncodeURL env lr opts = with_query (LeRoot lr) (LeQuery env opts)"

text \<open>The members of an EventsResponse; its events are messages, which UnmarshalJSON parses.\<close>

definition json_message :: "'ts json_env \<Rightarrow> json \<Rightarrow> 'ts message result" where
  "json_message env v =
     bindR (case v of
         JObj p \<Rightarrow> parse_entries env (MapOrder env p) (zero_message\<lparr>Version := DEFAULT_VERSION\<rparr>)
       | JNull \<Rightarrow> Inr (zero_message\<lparr>Version := DEFAULT_VERSION\<rparr>)
       | _ \<Rightarrow> Inl (Err (OtherErr ''json: cannot unmarshal'')))
     (\<lambda>m. Inr (complete_message env m))"

definition le_response :: "'ts json_env \<Rightarrow> (string \<times> json) list \<Rightarrow> string result" where
  "le_response env ps =
     bindR (string_field (json_member ps ''response'')) (\<lambda>response.
     bindR (string_field (json_member ps ''reason'')) (\<lambda>_.
       case json_member ps ''events'' of
         None \<Rightarrow> Inr response
       | Some JNull \<Rightarrow> Inr response
       | Some (JArr xs) \<Rightarrow>
           foldr (\<lambda>x r. if x = JNull then r else bindR (json_message env x) (\<lambda>_. r)) xs (Inr response)
       | _ \<Rightarrow> json_mismatch))"

fun line_messages :: "'ts json_env \<Rightarrow> string list \<Rightarrow> 'ts message list result" where
  "line_messages env [] = Inr []"
| "line_messages env (l # ls) =
     (if l = '''' then line_messages env ls
      else bindR (text_message env l) (\<lambda>m. bindR (line_messages env ls) (\<lambda>ms. Inr (m # ms))))"

text \<open>An answer that is one JSON text is an error, whatever it says; any other is taken for lines of the log.\<close>

definition Le_NewEvents :: "'ts json_env \<Rightarrow> string \<Rightarrow> 'ts message list result" where
  "Le_NewEvents env body =
     (case json_unmarshal (le_response env) body of
        Inr response \<Rightarrow>
          if response = ''error'' then Inl (Err (OtherErr ''Logentries error'')) else Inl (Err (OtherErr ''Logentires error: No events''))
      | Inl (Panic e) \<Rightarrow> Inl (Panic e)
      | Inl (Err e) \<Rightarrow> line_messages env (SplitByte (CHR 0x0A) body))"

definition Le_Search :: "('ts, 'w) le_env \<Rightarrow> 'ts json_env \<Rightarrow> le_options \<Rightarrow> ('ts, 'w) logentries \<Rightarrow> 'ts message list result \<times> ('ts, 'w) logentries" where
  "Le_Search env jenv opts lr =
     (case LeFetch env (Le_EncodeURL env lr (Le_SetDefaultOptions lr opts)) (LeWorld lr) of
        (body, w1) \<Rightarrow> (bindR body (Le_NewEvents jenv), lr\<lparr>LeWorld := w1\<rparr>))"

text \<open>The time of the last event that the buffer takes is where the next search begins.\<close>

fun Le_BufferEvents :: "('ts, 'w) le_env \<Rightarrow> 'ts message list \<Rightarrow> ('ts, 'w) logentries \<Rightarrow> unit result \<times> ('ts, 'w) logentries" where
  "Le_BufferEvents env [] lr = (Inr (), lr)"
| "Le_BufferEvents env (m # ms) lr =
     (if length (LeBuffer lr) < LeCap lr
      then (let lr1 = lr\<lparr>LeBuffer := LeBuffer lr @ [m]\<rparr> in
            case Timestamp m of
              None \<Rightarrow> (nil_dereference, lr1)
            | Some ts \<Rightarrow> Le_BufferEvents env ms (lr1\<lparr>LeOptions := (LeOptions lr)\<lparr>LeStart := LeMillis env ts\<rparr>\<rparr>))
      else Le_BufferEvents env ms lr)"

definition logentries_ops :: "('ts, 'w) le_env \<Rightarrow> 'ts json_env \<Rightarrow> ('ts, 'ts message, ('ts, 'w) logentries) poll_ops" where
  "logentries_ops env jenv =
     \<lparr>PBuf = LeBuffer, PPut = (\<lambda>b lr. lr\<lparr>LeBuffer := b\<rparr>), PClosed = LeClosed, PSearch = (\<lambda>lr. Le_Search env jenv (LeOptions lr) lr),
      PKeep = Le_BufferEvents env, PEmit = Inr\<rparr>"

definition Logentries_Generate :: "('ts, 'w) le_env \<Rightarrow> 'ts json_env \<Rightarrow> ('ts, 'w) logentries \<Rightarrow>
    ('ts message option result \<times> ('ts, 'w) logentries) option" where
  "Logentries_Generate env jenv lr = poll (logentries_ops env jenv) lr"

definition Logentries_Close :: "('ts, 'w) logentries \<Rightarrow> ('ts, 'w) logentries" where
  "Logentries_Close lr = lr\<lparr>LeClosed := True\<rparr>"

section \<open>What polling gives\<close>

text \<open>The first n answers of a generator that has them.\<close>

fun answers :: "('s \<Rightarrow> ('a \<times> 's) option) \<Rightarrow> nat \<Rightarrow> 's \<Rightarrow> ('a list \<times> 's) option" where
  "answers gen 0 s = Some ([], s)"
| "answers gen (Suc n) s =
     Option.bind (gen s) (\<lambda>(x, s1). map_option (\<lambda>(xs, s2). (x # xs, s2)) (answers gen n s1))"

lemma answers_add:
  "answers gen n s = Some (xs, s1) \<Longrightarrow> answers gen k s1 = Some (ys, s2) \<Longrightarrow> answers gen (n + k) s = Some (xs @ ys, s2)"
  by (induction n arbitrary: s xs) (auto simp: bind_eq_Some_conv)

text \<open>
  The contract of a poller: its buffer is a field of its state, searching leaves it alone, and from an empty buffer
  the events of a search that fit into it are kept, in order.
\<close>

locale poller =
  fixes ops :: "('ts, 'e, 's) poll_ops" and room :: "'s \<Rightarrow> nat" and fine :: "'e list \<Rightarrow> bool"
  assumes put_get: "PBuf ops (PPut ops b s) = b"
    and put_put: "PPut ops b (PPut ops c s) = PPut ops b s"
    and get_put: "PPut ops (PBuf ops s) s = s"
    and search_buf: "PSearch ops s = (r, s1) \<Longrightarrow> PBuf ops s1 = PBuf ops s"
    and search_room: "PSearch ops s = (r, s1) \<Longrightarrow> room s1 = room s"
    and keep_buf: "PBuf ops s = [] \<Longrightarrow> fine evs \<Longrightarrow> \<exists>s1. PKeep ops evs s = (Inr (), s1) \<and> PBuf ops s1 = take (room s) evs"
begin

lemma poll_buffered: "PBuf ops s = e # es \<Longrightarrow> poll ops s = Some (PEmit ops (Some e), PPut ops es s)"
  by (subst poll.simps) simp

lemma poll_closed: "PBuf ops s = [] \<Longrightarrow> PClosed ops s \<Longrightarrow> poll ops s = Some (PEmit ops None, s)"
  by (subst poll.simps) simp

lemma poll_search:
  assumes "PBuf ops s = []" and "\<not> PClosed ops s" and "PSearch ops s = (Inr evs, s1)" and "PKeep ops evs s1 = (Inr (), s2)"
  shows "poll ops s = poll ops s2"
  using assms by (subst poll.simps) simp

lemma poll_error:
  "PBuf ops s = [] \<Longrightarrow> \<not> PClosed ops s \<Longrightarrow> PSearch ops s = (Inl x, s1) \<Longrightarrow> poll ops s = Some (Inl x, s1)"
  by (subst poll.simps) simp

lemma answers_buffer:
  "answers (poll ops) (length (PBuf ops s)) s = Some (map (\<lambda>e. PEmit ops (Some e)) (PBuf ops s), PPut ops [] s)"
proof (induction "PBuf ops s" arbitrary: s)
  case Nil
  from Nil [symmetric] get_put [of s] show ?case by simp
next
  case (Cons e es)
  have "answers (poll ops) (length es) (PPut ops es s) = Some (map (\<lambda>e. PEmit ops (Some e)) es, PPut ops [] s)"
    using Cons(1) [of "PPut ops es s"] by (simp add: put_get put_put)
  with Cons(2) [symmetric] poll_buffered [of s e es] show ?case by simp
qed

text \<open>One search and the events that it fills the buffer with.\<close>

lemma answers_search:
  assumes "PBuf ops s = []" and "\<not> PClosed ops s" and "PSearch ops s = (Inr evs, s1)" and "fine evs" and "evs \<noteq> []" and "0 < room s"
  obtains s2 where "PKeep ops evs s1 = (Inr (), s2)" and "PBuf ops s2 = take (room s) evs"
    and "answers (poll ops) (min (room s) (length evs)) s = Some (map (\<lambda>e. PEmit ops (Some e)) (take (room s) evs), PPut ops [] s2)"
proof -
  have s1: "PBuf ops s1 = []" "room s1 = room s" using search_buf [OF assms(3)] search_room [OF assms(3)] assms(1) by simp_all
  from keep_buf [OF s1(1) assms(4)] s1(2) obtain s2 where s2: "PKeep ops evs s1 = (Inr (), s2)" "PBuf ops s2 = take (room s) evs" by auto
  then obtain e es where e: "PBuf ops s2 = e # es" using assms(5,6) by (cases evs; cases "room s") auto
  have "poll ops s = poll ops s2" by (rule poll_search [OF assms(1-3) s2(1)])
  then have "answers (poll ops) (Suc n) s = answers (poll ops) (Suc n) s2" for n by simp
  moreover have "min (room s) (length evs) = Suc (length es)" using s2(2) e by (metis length_Cons length_take min.commute)
  ultimately have "answers (poll ops) (min (room s) (length evs)) s = answers (poll ops) (length (PBuf ops s2)) s2" using e by simp
  with answers_buffer [of s2] s2 that show ?thesis by simp
qed

text \<open>A search that keeps finding nothing is repeated for ever, without a pause.\<close>

lemma poll_spins:
  assumes "idle s" and "\<And>s. idle s \<Longrightarrow> PBuf ops s = [] \<and> \<not> PClosed ops s \<and>
      (\<exists>evs s1 s2. PSearch ops s = (Inr evs, s1) \<and> PKeep ops evs s1 = (Inr (), s2) \<and> idle s2)"
  shows "poll ops s = None"
proof -
  have "\<not> (ops' = ops \<and> idle s)" if "poll ops' s = Some x" for ops' s x
  proof (rule poll.raw_induct [of "\<lambda>ops' s x. \<not> (ops' = ops \<and> idle s)", OF _ that], goal_cases)
    case (1 p ops' s x)
    show ?case
    proof
      assume a: "ops' = ops \<and> idle s"
      with assms(2) [of s] obtain evs s1 s2 where "PBuf ops s = []" "\<not> PClosed ops s" "PSearch ops s = (Inr evs, s1)"
        "PKeep ops evs s1 = (Inr (), s2)" "idle s2" by blast
      then show False using 1(1) [of ops s2 x] 1(2) a by simp
    qed
  qed
  with assms(1) show ?thesis by (cases "poll ops s") auto
qed

end

lemma Pt_BufferEvents_takes:
  assumes "None \<notin> set evs" and "length (PtBuffer pr) \<le> PtCap pr"
  shows "\<exists>pr1. Pt_BufferEvents evs pr = (Inr (), pr1) \<and> PtBuffer pr1 = PtBuffer pr @ take (PtCap pr - length (PtBuffer pr)) evs \<and>
    PtCap pr1 = PtCap pr \<and> PtClosed pr1 = PtClosed pr \<and>
    PtOptions pr1 = (PtOptions pr)\<lparr>PtMinId := (case take (PtCap pr - length (PtBuffer pr)) evs of [] \<Rightarrow> PtMinId (PtOptions pr)
       | xs \<Rightarrow> PtId (the (last xs)))\<rparr>"
  using assms
proof (induction evs pr rule: Pt_BufferEvents.induct)
  case (2 ev evs pr)
  show ?case
  proof (cases "length (PtBuffer pr) < PtCap pr")
    case True
    then obtain k where k: "PtCap pr - length (PtBuffer pr) = Suc k" by (metis Suc_diff_Suc)
    obtain e where e: "ev = Some e" using "2.prems"(1) by (cases ev) auto
    have "PtCap pr - Suc (length (PtBuffer pr)) = k" using k by simp
    with "2.IH"(1) [OF True e] "2.prems" True k show ?thesis
      by (auto simp: e last_ConsR split: list.splits)
  next
    case False
    with 2 show ?thesis by simp
  qed
qed simp

interpretation loggly_poller: poller "loggly_ops env jenv" LCap "\<lambda>_. True"
  by unfold_locales (auto simp: loggly_ops_def Loggly_Search_def Loggly_BufferEvents_def Let_def split: prod.splits sum.splits)

lemma Pt_BufferEvents_empty:
  assumes "PtBuffer pr = []" and "None \<notin> set evs"
  shows "\<exists>s1. Pt_BufferEvents evs pr = (Inr (), s1) \<and> PtBuffer s1 = take (PtCap pr) evs"
  using Pt_BufferEvents_takes [of evs pr] assms by auto

interpretation papertrail_poller: poller "papertrail_ops env jenv" PtCap "\<lambda>evs. None \<notin> set evs"
  by unfold_locales (auto simp: papertrail_ops_def Pt_Search_def dest: Pt_BufferEvents_empty split: prod.splits)

lemma Le_BufferEvents_takes:
  assumes "\<forall>m\<in>set ms. Timestamp m \<noteq> None" and "length (LeBuffer lr) \<le> LeCap lr"
  shows "\<exists>lr1. Le_BufferEvents env ms lr = (Inr (), lr1) \<and> LeBuffer lr1 = LeBuffer lr @ take (LeCap lr - length (LeBuffer lr)) ms"
  using assms
proof (induction env ms lr rule: Le_BufferEvents.induct)
  case (2 env m ms lr)
  show ?case
  proof (cases "length (LeBuffer lr) < LeCap lr")
    case True
    then obtain k where k: "LeCap lr - length (LeBuffer lr) = Suc k" by (metis Suc_diff_Suc)
    obtain ts where ts: "Timestamp m = Some ts" using "2.prems"(1) by (cases "Timestamp m") auto
    have "LeCap lr - Suc (length (LeBuffer lr)) = k" using k by simp
    with "2.IH"(1) [OF True refl ts] "2.prems" True k show ?thesis by (auto simp: ts Let_def)
  next
    case False
    with 2 show ?thesis by simp
  qed
qed simp

interpretation logentries_poller: poller "logentries_ops env jenv" LeCap "\<lambda>ms. \<forall>m\<in>set ms. Timestamp m \<noteq> None"
proof unfold_locales
  show "PBuf (logentries_ops env jenv) lr = [] \<Longrightarrow> \<forall>m\<in>set ms. Timestamp m \<noteq> None \<Longrightarrow>
      \<exists>s1. PKeep (logentries_ops env jenv) ms lr = (Inr (), s1) \<and> PBuf (logentries_ops env jenv) s1 = take (LeCap lr) ms" for lr ms
    using Le_BufferEvents_takes [of ms lr env] by (auto simp: logentries_ops_def)
qed (auto simp: logentries_ops_def Le_Search_def split: prod.splits)


section \<open>Services\<close>

lemma own_options: "SetDefaultEventsOptions lr (LEventsOptions lr) = LEventsOptions lr"
  "SetDefaultRSIDOptions lr (LRSIDOptions lr) = LRSIDOptions lr"
  by (simp_all add: SetDefaultEventsOptions_def SetDefaultRSIDOptions_def Let_def)

lemma Le_own_options: "Le_SetDefaultOptions lr (LeOptions lr) = LeOptions lr"
  by (simp add: Le_SetDefaultOptions_def Let_def)

text \<open>The service of loggly answers every search for page p with the events of page p.\<close>

definition loggly_serves :: "'w loggly_env \<Rightarrow> 'w loggly \<Rightarrow> (u64 \<Rightarrow> event list) \<Rightarrow> bool" where
  "loggly_serves env lr0 pages \<longleftrightarrow>
     (\<forall>lr. RSIDRootURL lr = RSIDRootURL lr0 \<and> EventsRootURL lr = EventsRootURL lr0 \<longrightarrow>
        fst (Loggly_Search env lr) = Inr (map Some (pages (EPage (LEventsOptions lr)))))"

definition loggly_ready :: "'w loggly \<Rightarrow> 'w loggly \<Rightarrow> bool" where
  "loggly_ready lr0 lr \<longleftrightarrow> RSIDRootURL lr = RSIDRootURL lr0 \<and> EventsRootURL lr = EventsRootURL lr0 \<and>
     LCap lr = LCap lr0 \<and> \<not> LClosed lr \<and> LBuffer lr = []"

lemma Loggly_Search_frame:
  "Loggly_Search env lr = (r, lr1) \<Longrightarrow>
     RSIDRootURL lr1 = RSIDRootURL lr \<and> EventsRootURL lr1 = EventsRootURL lr \<and> LCap lr1 = LCap lr \<and> LClosed lr1 = LClosed lr \<and>
     LBuffer lr1 = LBuffer lr \<and> EPage (LEventsOptions lr1) = EPage (LEventsOptions lr)"
  by (auto simp: Loggly_Search_def Let_def split: prod.splits sum.splits)

lemma loggly_page:
  assumes "loggly_serves env lr0 pages" and "0 < LCap lr0" and "loggly_ready lr0 lr" and "pages (EPage (LEventsOptions lr)) \<noteq> []"
  defines "p \<equiv> EPage (LEventsOptions lr)"
  shows "\<exists>lr'. answers (Loggly_Generate env jenv) (min (LCap lr0) (length (pages p))) lr =
      Some (map (\<lambda>e. Loggly_NewCypressMessage jenv (Some e)) (take (LCap lr0) (pages p)), lr') \<and>
    loggly_ready lr0 lr' \<and> EPage (LEventsOptions lr') = p + 1"
proof -
  from assms(1,3) have "fst (Loggly_Search env lr) = Inr (map Some (pages p))"
    by (simp add: loggly_serves_def loggly_ready_def p_def)
  then obtain lr1 where s1: "Loggly_Search env lr = (Inr (map Some (pages p)), lr1)" by (metis prod.collapse)
  from assms(3) have rd: "LBuffer lr = []" "\<not> LClosed lr" "LCap lr = LCap lr0" by (simp_all add: loggly_ready_def)
  obtain s2 where s2: "Loggly_BufferEvents (map Some (pages p)) lr1 = (Inr (), s2)"
    and a: "answers (Loggly_Generate env jenv) (min (LCap lr0) (length (pages p))) lr =
      Some (map (\<lambda>e. Loggly_NewCypressMessage jenv (Some e)) (take (LCap lr0) (pages p)), s2\<lparr>LBuffer := []\<rparr>)"
    by (rule loggly_poller.answers_search [of env jenv lr "map Some (pages p)" lr1])
      (use rd s1 assms(2,4) in \<open>simp_all add: loggly_ops_def Loggly_Generate_def [abs_def] take_map o_def p_def\<close>)
  have "loggly_ready lr0 (s2\<lparr>LBuffer := []\<rparr>) \<and> EPage (LEventsOptions (s2\<lparr>LBuffer := []\<rparr>)) = p + 1"
    using s2 Loggly_Search_frame [OF s1] assms(3) by (auto simp: Loggly_BufferEvents_def loggly_ready_def p_def)
  with a show ?thesis by blast
qed


lemma loggly_pages:
  assumes "loggly_serves env lr0 pages" and "0 < LCap lr0" and "\<forall>i<n. pages (EPage (LEventsOptions lr) + of_nat i) \<noteq> []"
    and "loggly_ready lr0 lr"
  defines "read \<equiv> concat (map (\<lambda>i. take (LCap lr0) (pages (EPage (LEventsOptions lr) + of_nat i))) [0..<n])"
  shows "\<exists>lr'. answers (Loggly_Generate env jenv) (length read) lr = Some (map (\<lambda>e. Loggly_NewCypressMessage jenv (Some e)) read, lr') \<and>
    loggly_ready lr0 lr' \<and> EPage (LEventsOptions lr') = EPage (LEventsOptions lr) + of_nat n"
  unfolding read_def using assms(3)
proof (induction n)
  case 0
  then show ?case using assms(4) by simp
next
  case (Suc n)
  let ?p = "EPage (LEventsOptions lr)"
  let ?read = "concat (map (\<lambda>i. take (LCap lr0) (pages (?p + of_nat i))) [0..<n])"
  from Suc obtain lr1 where a1: "answers (Loggly_Generate env jenv) (length ?read) lr =
      Some (map (\<lambda>e. Loggly_NewCypressMessage jenv (Some e)) ?read, lr1)"
    and lr1: "loggly_ready lr0 lr1" "EPage (LEventsOptions lr1) = ?p + of_nat n" by force
  from Suc.prems lr1(2) have "pages (EPage (LEventsOptions lr1)) \<noteq> []" by simp
  from loggly_page [OF assms(1,2) lr1(1) this, of jenv] lr1(2) obtain lr2 where
    a2: "answers (Loggly_Generate env jenv) (length (take (LCap lr0) (pages (?p + of_nat n)))) lr1 =
      Some (map (\<lambda>e. Loggly_NewCypressMessage jenv (Some e)) (take (LCap lr0) (pages (?p + of_nat n))), lr2)"
    and lr2: "loggly_ready lr0 lr2" "EPage (LEventsOptions lr2) = ?p + of_nat n + 1" by (auto simp: min.commute)
  from answers_add [OF a1 a2] lr2 show ?case by (auto simp: algebra_simps)
qed

text \<open>
  The service of papertrail answers a search that begins behind the k-th event of its log with the events that
  come next, as many as it likes.
\<close>

definition id_behind :: "pt_options \<Rightarrow> pt_event list \<Rightarrow> nat \<Rightarrow> string" where
  "id_behind opts log k = (if k = 0 then PtMinId opts else PtId (log ! (k - 1)))"

definition papertrail_serves :: "'w pt_env \<Rightarrow> pt_options \<Rightarrow> pt_event list \<Rightarrow> bool" where
  "papertrail_serves env opts log \<longleftrightarrow>
     (\<forall>pr. \<forall>k<length log. PtOptions pr = opts\<lparr>PtMinId := id_behind opts log k\<rparr> \<longrightarrow>
        (\<exists>n>0. fst (Pt_Search env (PtOptions pr) pr) = Inr (map Some (take n (drop k log)))))"

definition papertrail_at :: "pt_options \<Rightarrow> pt_event list \<Rightarrow> nat \<Rightarrow> 'w papertrail \<Rightarrow> bool" where
  "papertrail_at opts log j pr \<longleftrightarrow> \<not> PtClosed pr \<and> 0 < PtCap pr \<and>
     (\<exists>k. j + k \<le> length log \<and> PtBuffer pr = map Some (take k (drop j log)) \<and>
       PtOptions pr = opts\<lparr>PtMinId := id_behind opts log (j + k)\<rparr>)"

lemma Pt_Search_frame:
  "Pt_Search env opts pr = (r, pr1) \<Longrightarrow>
     PtOptions pr1 = PtOptions pr \<and> PtBuffer pr1 = PtBuffer pr \<and> PtCap pr1 = PtCap pr \<and> PtClosed pr1 = PtClosed pr"
  by (auto simp: Pt_Search_def split: prod.splits)

text \<open>An empty buffer is filled with what comes next in the log.\<close>

lemma papertrail_fill:
  assumes "papertrail_serves env opts log" and "papertrail_at opts log j pr" and "j < length log" and "PtBuffer pr = []"
  shows "\<exists>pr2. papertrail_at opts log j pr2 \<and> PtBuffer pr2 \<noteq> [] \<and> Papertrail_Generate env jenv pr = Papertrail_Generate env jenv pr2"
proof -
  from assms(2-4) have at: "\<not> PtClosed pr" "0 < PtCap pr" "PtOptions pr = opts\<lparr>PtMinId := id_behind opts log j\<rparr>"
    by (auto simp: papertrail_at_def)
  with assms(1,3) obtain n where n: "0 < n" "fst (Pt_Search env (PtOptions pr) pr) = Inr (map Some (take n (drop j log)))"
    unfolding papertrail_serves_def by blast
  let ?evs = "take n (drop j log)"
  from n(2) obtain pr1 where s1: "Pt_Search env (PtOptions pr) pr = (Inr (map Some ?evs), pr1)" by (metis prod.collapse)
  note pr1 = Pt_Search_frame [OF s1]
  define k where "k = min (PtCap pr) (length ?evs)"
  have k: "0 < k" "j + k \<le> length log" "take (PtCap pr) (map Some ?evs) = map Some (take k (drop j log))"
    using n(1) at(2) assms(3) by (auto simp: k_def take_map min_def)
  then have last: "last (map Some (take k (drop j log))) = Some (log ! (j + k - 1))" "take k (drop j log) \<noteq> []"
    by (auto simp: last_map last_conv_nth)
  have taken: "take (PtCap pr1 - length (PtBuffer pr1)) (map Some ?evs) = map Some (take k (drop j log))" "PtBuffer pr1 = []"
    using pr1 assms(4) k(3) by simp_all
  obtain x xs where xs: "map Some (take k (drop j log)) = x # xs" using last(2) by (metis list.exhaust map_is_Nil_conv)
  have "None \<notin> set (map Some ?evs)" "length (PtBuffer pr1) \<le> PtCap pr1" using taken(2) by auto
  from Pt_BufferEvents_takes [OF this, unfolded taken(1), unfolded taken(2) append_Nil xs list.case] obtain pr2 where
    s2: "Pt_BufferEvents (map Some ?evs) pr1 = (Inr (), pr2)" "PtBuffer pr2 = x # xs" "PtCap pr2 = PtCap pr1" "PtClosed pr2 = PtClosed pr1"
    and opts2: "PtOptions pr2 = (PtOptions pr1)\<lparr>PtMinId := PtId (the (last (x # xs)))\<rparr>" by auto
  have opts2: "PtOptions pr2 = opts\<lparr>PtMinId := id_behind opts log (j + k)\<rparr>"
    unfolding opts2 xs [symmetric] last(1) using k(1) pr1 at(3) by (simp add: id_behind_def)
  have "papertrail_at opts log j pr2" unfolding papertrail_at_def using s2(2-) opts2 k(2) pr1 at xs by auto
  moreover have "Papertrail_Generate env jenv pr = Papertrail_Generate env jenv pr2"
    unfolding Papertrail_Generate_def
    by (rule papertrail_poller.poll_search [of env jenv pr "map Some ?evs" pr1 pr2])
      (use s1 s2(1) in \<open>simp_all only: papertrail_ops_def poll_ops.simps assms(4) at(1) not_False_eq_True\<close>)
  ultimately show ?thesis using s2(2) by (intro exI [of _ pr2]) simp
qed

lemma papertrail_next:
  assumes "papertrail_serves env opts log" and "papertrail_at opts log j pr" and "j < length log"
  shows "\<exists>pr'. Papertrail_Generate env jenv pr = Some (Pt_NewCypressMessage jenv (Some (log ! j)), pr') \<and> papertrail_at opts log (Suc j) pr'"
proof -
  obtain pr2 where at: "papertrail_at opts log j pr2" "PtBuffer pr2 \<noteq> []"
    and gen: "Papertrail_Generate env jenv pr = Papertrail_Generate env jenv pr2"
    using papertrail_fill [OF assms, of jenv] assms(2) by (cases "PtBuffer pr = []") auto
  from at obtain k where k: "j + k \<le> length log" "PtBuffer pr2 = map Some (take k (drop j log))"
    "PtOptions pr2 = opts\<lparr>PtMinId := id_behind opts log (j + k)\<rparr>" by (auto simp: papertrail_at_def)
  from k(2) at(2) obtain i where i: "k = Suc i" by (cases k) auto
  have "drop j log = log ! j # drop (Suc j) log" using assms(3) by (simp add: Cons_nth_drop_Suc)
  with k(2) i have buf: "PtBuffer pr2 = Some (log ! j) # map Some (take i (drop (Suc j) log))" by simp
  let ?pr = "pr2\<lparr>PtBuffer := map Some (take i (drop (Suc j) log))\<rparr>"
  have "Papertrail_Generate env jenv pr2 = Some (Pt_NewCypressMessage jenv (Some (log ! j)), ?pr)"
    unfolding Papertrail_Generate_def using papertrail_poller.poll_buffered [of env jenv pr2] buf by (simp add: papertrail_ops_def)
  moreover have "papertrail_at opts log (Suc j) ?pr"
    using at(1) k i unfolding papertrail_at_def by (auto intro!: exI [of _ i])
  ultimately show ?thesis using gen by auto
qed

lemma papertrail_answers:
  assumes "papertrail_serves env opts log" and "papertrail_at opts log j pr" and "j + n \<le> length log"
  shows "\<exists>pr'. answers (Papertrail_Generate env jenv) n pr =
      Some (map (\<lambda>e. Pt_NewCypressMessage jenv (Some e)) (take n (drop j log)), pr') \<and> papertrail_at opts log (j + n) pr'"
  using assms(2,3)
proof (induction n arbitrary: j pr)
  case (Suc n)
  then have "j < length log" by simp
  from papertrail_next [OF assms(1) Suc.prems(1) this, of jenv] obtain pr1 where
    1: "Papertrail_Generate env jenv pr = Some (Pt_NewCypressMessage jenv (Some (log ! j)), pr1)" "papertrail_at opts log (Suc j) pr1" by blast
  from Suc.IH [OF 1(2)] Suc.prems(2) obtain pr2 where
    2: "answers (Papertrail_Generate env jenv) n pr1 = Some (map (\<lambda>e. Pt_NewCypressMessage jenv (Some e)) (take n (drop (Suc j) log)), pr2)"
      "papertrail_at opts log (Suc j + n) pr2" by auto
  have "drop j log = log ! j # drop (Suc j) log" using \<open>j < length log\<close> by (simp add: Cons_nth_drop_Suc)
  with 1 2 show ?case by simp
qed simp


text \<open>The service of logentries answers the receiver's own search with body, whenever it is asked.\<close>

definition le_answers :: "('ts, 'w) le_env \<Rightarrow> ('ts, 'w) logentries \<Rightarrow> string \<Rightarrow> bool" where
  "le_answers env lr body \<longleftrightarrow> (\<forall>w. fst (LeFetch env (Le_EncodeURL env lr (LeOptions lr)) w) = Inr body)"

definition one_object :: "string \<Rightarrow> bool" where
  "one_object body \<longleftrightarrow>
     (case json_decode body of
        Inr (JObj ps, rest) \<Rightarrow> skip_ws rest = [] \<and> (\<forall>k\<in>{''response'', ''reason'', ''events''}. json_member ps k = None)
      | _ \<Rightarrow> False)"

definition no_events :: "'a result" where
  "no_events = Inl (Err (OtherErr ''Logentires error: No events''))"

lemma Le_NewEvents_object: "one_object body \<Longrightarrow> Le_NewEvents env body = no_events"
proof -
  assume ob: "one_object body"
  obtain v rest where d: "json_decode body = Inr (v, rest)" using ob by (cases "json_decode body") (auto simp: one_object_def)
  moreover obtain ps where "v = JObj ps" using ob by (cases v) (auto simp: one_object_def d)
  ultimately have "json_decode body = Inr (JObj ps, rest)" "skip_ws rest = []"
    "\<forall>k\<in>{''response'', ''reason'', ''events''}. json_member ps k = None" using ob by (simp_all add: one_object_def)
  then show ?thesis
    by (simp add: Le_NewEvents_def json_unmarshal_def struct_value_def le_response_def string_field_def no_events_def)
qed

lemma Le_NewEvents_empty: "Le_NewEvents env '''' = Inr []"
proof -
  have "case json_decode '''' of Inl (Err e) \<Rightarrow> True | _ \<Rightarrow> False" by code_simp
  then show ?thesis by (auto simp: Le_NewEvents_def json_unmarshal_def split: sum.splits fault.splits)
qed

lemma le_search_again:
  assumes "le_answers env lr body" and "LeBuffer lr = []" and "\<not> LeClosed lr"
  shows "Le_Search env jenv (LeOptions lr) lr =
    (Le_NewEvents jenv body, lr\<lparr>LeWorld := snd (LeFetch env (Le_EncodeURL env lr (LeOptions lr)) (LeWorld lr))\<rparr>)"
proof -
  from assms(1) have "fst (LeFetch env (Le_EncodeURL env lr (LeOptions lr)) (LeWorld lr)) = Inr body" by (simp add: le_answers_def)
  then show ?thesis by (simp add: Le_Search_def Le_own_options split_beta)
qed

lemma le_answers_world: "le_answers env (lr\<lparr>LeWorld := w\<rparr>) body \<longleftrightarrow> le_answers env lr body"
  by (simp add: le_answers_def Le_EncodeURL_def)

lemma le_stuck:
  assumes "le_answers env lr body" and "one_object body" and "LeBuffer lr = []" and "\<not> LeClosed lr"
  shows "\<exists>w. answers (Logentries_Generate env jenv) n lr = Some (replicate n no_events, lr\<lparr>LeWorld := w\<rparr>)"
  using assms(1,3,4)
proof (induction n arbitrary: lr)
  case 0
  then show ?case by (intro exI [of _ "LeWorld lr"]) simp
next
  case (Suc n)
  let ?w = "snd (LeFetch env (Le_EncodeURL env lr (LeOptions lr)) (LeWorld lr))"
  have "Logentries_Generate env jenv lr = Some (no_events, lr\<lparr>LeWorld := ?w\<rparr>)"
    using le_search_again [OF Suc.prems, of jenv] Le_NewEvents_object [OF assms(2), of jenv] Suc.prems
    unfolding Logentries_Generate_def no_events_def
    by (intro logentries_poller.poll_error) (simp_all add: logentries_ops_def)
  moreover have "\<exists>w. answers (Logentries_Generate env jenv) n (lr\<lparr>LeWorld := ?w\<rparr>) =
      Some (replicate n no_events, lr\<lparr>LeWorld := ?w\<rparr>\<lparr>LeWorld := w\<rparr>)"
    using Suc.prems by (intro Suc.IH) (simp_all add: le_answers_world)
  ultimately show ?case by auto
qed

lemma le_spins:
  assumes "le_answers env lr ''''" and "LeBuffer lr = []" and "\<not> LeClosed lr"
  shows "Logentries_Generate env jenv lr = None"
  unfolding Logentries_Generate_def
proof (rule logentries_poller.poll_spins [where idle = "\<lambda>lr. le_answers env lr '''' \<and> LeBuffer lr = [] \<and> \<not> LeClosed lr"])
  show "le_answers env lr '''' \<and> LeBuffer lr = [] \<and> \<not> LeClosed lr" using assms by simp
  fix lr :: "('a, 'b) logentries"
  assume idle: "le_answers env lr '''' \<and> LeBuffer lr = [] \<and> \<not> LeClosed lr"
  then have "Le_Search env jenv (LeOptions lr) lr = (Inr [], lr\<lparr>LeWorld := snd (LeFetch env (Le_EncodeURL env lr (LeOptions lr)) (LeWorld lr))\<rparr>)"
    using le_search_again [of env lr "''''" jenv] by (simp add: Le_NewEvents_empty)
  with idle show "PBuf (logentries_ops env jenv) lr = [] \<and> \<not> PClosed (logentries_ops env jenv) lr \<and>
      (\<exists>evs s1 s2. PSearch (logentries_ops env jenv) lr = (Inr evs, s1) \<and> PKeep (logentries_ops env jenv) evs s1 = (Inr (), s2) \<and>
         (le_answers env s2 '''' \<and> LeBuffer s2 = [] \<and> \<not> LeClosed s2))"
    by (auto simp: logentries_ops_def le_answers_world)
qed

section \<open>Properties\<close>

text \<open>
  C31: What polling loggly delivers. Of n pages of the service, none of them empty, Generate delivers, in order, of
  each page the events that its buffer has room for; the rest of a page is never asked for again, because the next
  search is for the next page.
\<close>

theorem loggly_drops:
  assumes "loggly_serves env lr pages" and "LBuffer lr = []" and "\<not> LClosed lr" and "0 < LCap lr"
    and "\<forall>i<n. pages (EPage (LEventsOptions lr) + of_nat i) \<noteq> []"
    and "delivered = concat (map (\<lambda>i. take (LCap lr) (pages (EPage (LEventsOptions lr) + of_nat i))) [0..<n])"
  shows "\<exists>lr'. answers (Loggly_Generate env jenv) (length delivered) lr =
      Some (map (\<lambda>e. Loggly_NewCypressMessage jenv (Some e)) delivered, lr') \<and>
    EPage (LEventsOptions lr') = EPage (LEventsOptions lr) + of_nat n \<and> LBuffer lr' = []"
proof -
  have "loggly_ready lr lr" using assms(2,3) by (simp add: loggly_ready_def)
  from loggly_pages [OF assms(1,4,5) this, of jenv] show ?thesis unfolding assms(6) by (auto simp: loggly_ready_def)
qed

text \<open>
  C32: Polling papertrail loses nothing. If the service answers a search that begins behind an event of its log with
  the events that come next, as many as it likes, Generate delivers the log in order, however small its buffer is:
  what a buffer has no room for is searched for again.
\<close>

theorem papertrail_in_order:
  assumes "papertrail_serves env opts log" and "PtOptions pr = opts" and "PtBuffer pr = []" and "\<not> PtClosed pr" and "0 < PtCap pr"
    and "n \<le> length log"
  shows "\<exists>pr'. answers (Papertrail_Generate env jenv) n pr = Some (map (\<lambda>e. Pt_NewCypressMessage jenv (Some e)) (take n log), pr')"
proof -
  have "papertrail_at opts log 0 pr" using assms(2-5) unfolding papertrail_at_def
    by (intro conjI exI [of _ 0]) (simp_all add: id_behind_def)
  from papertrail_answers [OF assms(1) this, of n jenv] assms(6) show ?thesis by auto
qed

text \<open>
  C33: What a poll of logentries does with too little. As long as the service has one line and the line is a JSON
  object, every call of Generate is an error and the search does not advance, although the line is an event; and
  when it has no line at all, Generate never returns: it searches again at once, for ever.
\<close>

theorem logentries_stuck:
  assumes "LeBuffer lr = []" and "\<not> LeClosed lr" and "le_answers env lr line" and "one_object line" and "le_answers env' lr ''''"
  shows "(\<exists>lr'. answers (Logentries_Generate env jenv) n lr = Some (replicate n no_events, lr') \<and> LeOptions lr' = LeOptions lr) \<and>
    Logentries_Generate env' jenv lr = None"
  using le_stuck [OF assms(3,4,1,2), of jenv n] le_spins [OF assms(5,1,2)] by fastforce


section \<open>Witnesses\<close>

definition page_service :: "unit loggly_env" where
  "page_service = \<lparr>RSIDQuery = (\<lambda>o1. ''''), EventsQuery = (\<lambda>o1. if EPage o1 = 0 then '''' else ''page''),
     LFetch = (\<lambda>url w. (Inr (if url = ''search'' then ''{\"rsid\":{\"id\":\"1\"}}''
        else if url = ''events'' then ''{\"events\":[{\"logmsg\":\"a\"},{\"logmsg\":\"b\"}]}''
        else ''{\"events\":[{\"logmsg\":\"c\"}]}''), w)),
     LFloat = (\<lambda>s. None)\<rparr>"

definition example_event :: "string \<Rightarrow> event" where
  "example_event s = \<lparr>EvTimestamp = 0, EvLogmsg = s\<rparr>"

definition example_pages :: "u64 \<Rightarrow> event list" where
  "example_pages p = (if p = 0 then [example_event ''a'', example_event ''b''] else [example_event ''c''])"

definition example_loggly :: "unit loggly" where
  "example_loggly = \<lparr>RSIDRootURL = ''search'', EventsRootURL = ''events'',
     LRSIDOptions = \<lparr>RQ = '''', RFrom = '''', RUntil = '''', ROrder = '''', RSize = 0\<rparr>,
     LEventsOptions = \<lparr>ERsid = '''', EPage = 0, EFormat = '''', EColumns = ''''\<rparr>, LBuffer = [], LCap = 1, LClosed = False, LWorld = ()\<rparr>"

lemma page_service_search: "NewRSID page_service ''{\"rsid\":{\"id\":\"1\"}}'' = Inr \<lparr>RsStatus = '''', RsDateFrom = 0, RsElapsed = 0, RsDateTo = 0, RsID = ''1''\<rparr>"
  by code_simp

lemma page_service_events:
  "Loggly_NewEvents ''{\"events\":[{\"logmsg\":\"a\"},{\"logmsg\":\"b\"}]}'' = Inr [Some (example_event ''a''), Some (example_event ''b'')]"
  "Loggly_NewEvents ''{\"events\":[{\"logmsg\":\"c\"}]}'' = Inr [Some (example_event ''c'')]"
  by code_simp+

lemma page_service_serves: "loggly_serves page_service example_loggly example_pages"
  unfolding loggly_serves_def
proof (intro allI impI, elim conjE)
  fix lr :: "unit loggly"
  assume "RSIDRootURL lr = RSIDRootURL example_loggly" "EventsRootURL lr = EventsRootURL example_loggly"
  then have "RSIDRootURL lr = ''search''" "EventsRootURL lr = ''events''" by (simp_all add: example_loggly_def)
  moreover have "LFetch page_service ''search'' w = (Inr ''{\"rsid\":{\"id\":\"1\"}}'', w)" for w by (simp add: page_service_def)
  ultimately show "fst (Loggly_Search page_service lr) = Inr (map Some (example_pages (EPage (LEventsOptions lr))))"
    by (simp add: Loggly_Search_def own_options EncodeRSIDURL_def EncodeEventsURL_def with_query_def page_service_search Let_def
        page_service_def [THEN arg_cong [of _ _ RSIDQuery]] page_service_def [THEN arg_cong [of _ _ EventsQuery]]
        page_service_def [THEN arg_cong [of _ _ LFetch]] page_service_events example_pages_def)
qed

theorem loggly_drops_witness:
  "\<exists>lr'. answers (Loggly_Generate page_service plain_json) 2 example_loggly =
     Some ([Loggly_NewCypressMessage plain_json (Some (example_event ''a'')), Loggly_NewCypressMessage plain_json (Some (example_event ''c''))], lr') \<and>
   length (concat (map example_pages [0, 1])) = 3"
proof -
  have "\<forall>i<2. example_pages (EPage (LEventsOptions example_loggly) + of_nat i) \<noteq> []" by (simp add: example_pages_def)
  from loggly_drops [OF page_service_serves _ _ _ this refl, of plain_json]
  show ?thesis by (auto simp: example_loggly_def example_pages_def upt_rec numeral_2_eq_2)
qed

definition log_service :: "unit pt_env" where
  "log_service = \<lparr>PtQuery = PtMinId, PtFetch = (\<lambda>url w. (Inr
     (if url = cAPIRoot then ''{\"events\":[{\"id\":\"1\"},{\"id\":\"2\"}]}''
      else if url = cAPIRoot @ ''?1'' then ''{\"events\":[{\"id\":\"2\"}]}''
      else ''{\"events\":[{\"id\":\"3\"}]}''), w))\<rparr>"

definition example_pt_event :: "string \<Rightarrow> pt_event" where
  "example_pt_event i = \<lparr>PtId = i, PtReceivedAt = '''', PtDisplayReceivedAt = '''', PtSourceName = '''', PtSourceId = 0, PtSourceIp = '''',
     PtFacility = '''', PtSeverity = '''', PtProgram = '''', PtMessage = ''''\<rparr>"

definition example_log :: "pt_event list" where
  "example_log = [example_pt_event ''1'', example_pt_event ''2'', example_pt_event ''3'']"

definition example_opts :: pt_options where
  "example_opts = \<lparr>PtQ = '''', PtGroupId = '''', PtSystemId = '''', PtMinId = '''', PtMaxId = '''', PtMinTime = '''', PtMaxTime = '''', PtTail = False\<rparr>"

lemma log_service_events:
  "Pt_NewEvents ''{\"events\":[{\"id\":\"1\"},{\"id\":\"2\"}]}'' = Inr [Some (example_pt_event ''1''), Some (example_pt_event ''2'')]"
  "Pt_NewEvents ''{\"events\":[{\"id\":\"2\"}]}'' = Inr [Some (example_pt_event ''2'')]"
  "Pt_NewEvents ''{\"events\":[{\"id\":\"3\"}]}'' = Inr [Some (example_pt_event ''3'')]"
  by code_simp+

lemma log_service_serves: "papertrail_serves log_service example_opts example_log"
  unfolding papertrail_serves_def
proof (intro allI impI)
  fix pr :: "unit papertrail" and k
  assume k: "k < length example_log" and o1: "PtOptions pr = example_opts\<lparr>PtMinId := id_behind example_opts example_log k\<rparr>"
  have own: "Pt_SetDefaultOptions pr (PtOptions pr) = PtOptions pr" by (simp add: Pt_SetDefaultOptions_def Let_def)
  from k have "k = 0 \<or> k = 1 \<or> k = 2" by (auto simp: example_log_def)
  then show "\<exists>n>0. fst (Pt_Search log_service (PtOptions pr) pr) = Inr (map Some (take n (drop k example_log)))"
  proof (elim disjE)
    assume k0: "k = 0"
    show ?thesis
      by (rule exI [of _ 2], simp add: Pt_Search_def own, simp add: o1 k0)
        (simp add: Pt_EncodeURL_def log_service_def with_query_def id_behind_def example_opts_def log_service_events example_log_def)
  next
    assume k1: "k = 1"
    show ?thesis
      by (rule exI [of _ 1], simp add: Pt_Search_def own, simp add: o1 k1)
        (simp add: Pt_EncodeURL_def log_service_def with_query_def id_behind_def example_opts_def log_service_events example_log_def
          example_pt_event_def)
  next
    assume k2: "k = 2"
    show ?thesis
      by (rule exI [of _ 1], simp add: Pt_Search_def own, simp add: o1 k2)
        (simp add: Pt_EncodeURL_def log_service_def with_query_def id_behind_def example_opts_def log_service_events example_log_def
          example_pt_event_def)
  qed
qed

theorem papertrail_in_order_witness:
  "\<exists>pr'. answers (Papertrail_Generate log_service plain_json) 3 (NewPapertrailRecv example_opts 1 ()) =
     Some (map (\<lambda>e. Pt_NewCypressMessage plain_json (Some e)) example_log, pr')"
  using papertrail_in_order [OF log_service_serves, of "NewPapertrailRecv example_opts 1 ()" 3 plain_json]
  by (simp add: NewPapertrailRecv_def example_log_def)

definition line_service :: "string \<Rightarrow> (nat, unit) le_env" where
  "line_service body = \<lparr>LeQuery = (\<lambda>o1. ''''), LeFetch = (\<lambda>url w. (Inr body, w)), LeMillis = int\<rparr>"

definition example_logentries :: "(nat, unit) logentries" where
  "example_logentries = \<lparr>LeRoot = ''log'', LeOptions = \<lparr>LeStart = 0, LeEnd = 0, LeFilter = '''', LeLimit = 0\<rparr>, LeBuffer = [], LeCap = 1,
     LeClosed = False, LeWorld = ()\<rparr>"

theorem logentries_stuck_witness:
  "(\<exists>lr'. answers (Logentries_Generate (line_service ''{\"message\":\"hello\"}'') plain_json) 3 example_logentries =
      Some (replicate 3 no_events, lr') \<and> LeOptions lr' = LeOptions example_logentries) \<and>
   Logentries_Generate (line_service '''') plain_json example_logentries = None"
proof (rule logentries_stuck)
  show "one_object ''{\"message\":\"hello\"}''" by code_simp
qed (simp_all add: le_answers_def line_service_def example_logentries_def)

end
