(* ===== verification/Equality.thy ===== *)
theory Equality
  imports Wire
begin

text \<open>
  log.pb.go, comparing: Equal and VerboseEqual of the five structs with whatever an interface holds. The error of
  VerboseEqual is the field it names and which of its texts it is; the values that the text prints are left out.
\<close>

section \<open>Interfaces and pointers\<close>

text \<open>What an interface holds: nothing, a value of another type, or a pointer of the type that is looked for.\<close>

datatype 'a iface = NoValue | OtherType | Ptr "'a option"

datatype difference =
    ThatNoValue
  | ThatOtherType
  | ThatNilPointer
  | ThisNilPointer
  | NotEqual string
  | NotEqualAt string nat
  | ThisNilField string

definition Equal_with :: "('a \<Rightarrow> 'a \<Rightarrow> bool) \<Rightarrow> 'a option \<Rightarrow> 'a iface \<Rightarrow> bool" where
  "Equal_with eq this that =
     (case that of
        NoValue \<Rightarrow> this = None
      | OtherType \<Rightarrow> False
      | Ptr None \<Rightarrow> this = None
      | Ptr (Some b) \<Rightarrow> (case this of None \<Rightarrow> False | Some a \<Rightarrow> eq a b))"

definition VerboseEqual_with :: "('a \<Rightarrow> 'a \<Rightarrow> difference option) \<Rightarrow> 'a option \<Rightarrow> 'a iface \<Rightarrow> difference option" where
  "VerboseEqual_with diff this that =
     (case that of
        NoValue \<Rightarrow> (if this = None then None else Some ThatNoValue)
      | OtherType \<Rightarrow> Some ThatOtherType
      | Ptr None \<Rightarrow> (if this = None then None else Some ThatNilPointer)
      | Ptr (Some b) \<Rightarrow> (case this of None \<Rightarrow> Some ThisNilPointer | Some a \<Rightarrow> diff a b))"

text \<open>The tests of a field, in the order of the fields; the first that fails is the answer.\<close>

fun first_difference :: "difference option list \<Rightarrow> difference option" where
  "first_difference [] = None"
| "first_difference (d # ds) = (case d of None \<Rightarrow> first_difference ds | Some x \<Rightarrow> Some x)"

definition same :: "string \<Rightarrow> bool \<Rightarrow> difference option" where
  "same f b = (if b then None else Some (NotEqual f))"

text \<open>A pointer to a scalar: the text for a field that only this has says that this is nil.\<close>

definition same_opt :: "string \<Rightarrow> ('a \<Rightarrow> 'a \<Rightarrow> bool) \<Rightarrow> 'a option \<Rightarrow> 'a option \<Rightarrow> difference option" where
  "same_opt f eq x y =
     (case (x, y) of
        (Some a, Some b) \<Rightarrow> same f (eq a b)
      | (Some a, None) \<Rightarrow> Some (ThisNilField f)
      | (None, Some b) \<Rightarrow> Some (NotEqual f)
      | (None, None) \<Rightarrow> None)"

fun same_from :: "string \<Rightarrow> ('a \<Rightarrow> 'a \<Rightarrow> bool) \<Rightarrow> nat \<Rightarrow> 'a list \<Rightarrow> 'a list \<Rightarrow> difference option" where
  "same_from f eq i (x # xs) (y # ys) = (if eq x y then same_from f eq (Suc i) xs ys else Some (NotEqualAt f i))"
| "same_from f eq i _ _ = None"

definition same_list :: "string \<Rightarrow> ('a \<Rightarrow> 'a \<Rightarrow> bool) \<Rightarrow> 'a list \<Rightarrow> 'a list \<Rightarrow> difference option" where
  "same_list f eq xs ys = (if length xs = length ys then same_from f eq 0 xs ys else Some (NotEqual f))"

section \<open>The five structs\<close>

definition Interval_diff :: "interval \<Rightarrow> interval \<Rightarrow> difference option" where
  "Interval_diff a b = first_difference
     [same ''Seconds'' (Seconds a = Seconds b), same ''Nanoseconds'' (Nanoseconds a = Nanoseconds b),
      same ''XXX_unrecognized'' (IUnrecognized a = IUnrecognized b)]"

definition Attribute_diff :: "(float64 \<Rightarrow> float64 \<Rightarrow> bool) \<Rightarrow> attribute \<Rightarrow> attribute \<Rightarrow> difference option" where
  "Attribute_diff feq a b = first_difference
     [same ''Key'' (Key a = Key b), same_opt ''Skey'' (=) (Skey a) (Skey b), same_opt ''Ival'' (=) (Ival a) (Ival b),
      same_opt ''Sval'' (=) (Sval a) (Sval b), same ''Bval'' (bytes_of (Bval a) = bytes_of (Bval b)),
      same ''Tval'' (Equal_with Interval_Equal (Tval a) (Ptr (Tval b))), same_opt ''Boolval'' (=) (Boolval a) (Boolval b),
      same_opt ''Fval'' feq (Fval a) (Fval b), same ''XXX_unrecognized'' (AUnrecognized a = AUnrecognized b)]"

definition Tag_diff :: "tag \<Rightarrow> tag \<Rightarrow> difference option" where
  "Tag_diff a b = first_difference
     [same ''Name'' (TName a = TName b), same_opt ''Value'' (=) (TValue a) (TValue b),
      same ''XXX_unrecognized'' (TUnrecognized a = TUnrecognized b)]"

definition Message_diff :: "'ts ts_ops \<Rightarrow> (float64 \<Rightarrow> float64 \<Rightarrow> bool) \<Rightarrow> 'ts message \<Rightarrow> 'ts message \<Rightarrow> difference option" where
  "Message_diff ops feq a b = first_difference
     [same ''Timestamp'' (TsEqual ops (Timestamp a) (Timestamp b)), same_opt ''Type'' (=) (MType a) (MType b),
      same_list ''Attributes'' (Attribute_Equal feq) (Attributes a) (Attributes b),
      same_opt ''SessionId'' (=) (SessionId a) (SessionId b), same_list ''Tags'' Tag_Equal (Tags a) (Tags b),
      same ''Version'' (Version a = Version b), same ''XXX_unrecognized'' (MUnrecognized a = MUnrecognized b)]"

definition StreamHeader_diff :: "stream_header \<Rightarrow> stream_header \<Rightarrow> difference option" where
  "StreamHeader_diff a b = first_difference
     [same_opt ''Compression'' (=) (Compression a) (Compression b), same_opt ''Mode'' (=) (Mode a) (Mode b),
      same ''XXX_unrecognized'' (SHUnrecognized a = SHUnrecognized b)]"

definition Interval_VerboseEqual :: "interval option \<Rightarrow> interval iface \<Rightarrow> difference option" where
  "Interval_VerboseEqual = VerboseEqual_with Interval_diff"

definition Attribute_VerboseEqual :: "(float64 \<Rightarrow> float64 \<Rightarrow> bool) \<Rightarrow> attribute option \<Rightarrow> attribute iface \<Rightarrow> difference option" where
  "Attribute_VerboseEqual feq = VerboseEqual_with (Attribute_diff feq)"

definition Tag_VerboseEqual :: "tag option \<Rightarrow> tag iface \<Rightarrow> difference option" where
  "Tag_VerboseEqual = VerboseEqual_with Tag_diff"

definition Message_VerboseEqual ::
  "'ts ts_ops \<Rightarrow> (float64 \<Rightarrow> float64 \<Rightarrow> bool) \<Rightarrow> 'ts message option \<Rightarrow> 'ts message iface \<Rightarrow> difference option" where
  "Message_VerboseEqual ops feq = VerboseEqual_with (Message_diff ops feq)"

definition StreamHeader_VerboseEqual :: "stream_header option \<Rightarrow> stream_header iface \<Rightarrow> difference option" where
  "StreamHeader_VerboseEqual = VerboseEqual_with StreamHeader_diff"

section \<open>Lemmas\<close>

named_theorems diff_simps

lemma same_None [diff_simps]: "same f b = None \<longleftrightarrow> b"
  by (simp add: same_def)

lemma same_opt_None [diff_simps]: "same_opt f eq x y = None \<longleftrightarrow> opt_eq eq x y"
  by (auto simp: same_opt_def opt_eq_def same_None split: option.split)

lemma same_from_None: "length xs = length ys \<Longrightarrow> same_from f eq i xs ys = None \<longleftrightarrow> list_all2 eq xs ys"
  by (induction xs ys arbitrary: i rule: list_induct2) auto

lemma same_list_None [diff_simps]: "same_list f eq xs ys = None \<longleftrightarrow> list_all2 eq xs ys"
  using list_all2_lengthD by (auto simp: same_list_def same_from_None)

lemma first_difference_None [diff_simps]: "first_difference ds = None \<longleftrightarrow> list_all (\<lambda>d. d = None) ds"
  by (induction ds) (auto split: option.split)

lemma Equal_with_ptr [diff_simps]: "Equal_with eq x (Ptr y) \<longleftrightarrow> opt_eq eq x y"
  by (auto simp: Equal_with_def opt_eq_def split: option.split)

lemma VerboseEqual_with_None:
  "(\<And>a b. diff a b = None \<longleftrightarrow> eq a b) \<Longrightarrow> VerboseEqual_with diff this that = None \<longleftrightarrow> Equal_with eq this that"
  by (auto simp: VerboseEqual_with_def Equal_with_def split: iface.split option.split)

text \<open>The difference that is reported is one: the fields before it agree.\<close>

lemma first_difference_Some:
  "first_difference ds = Some d \<longleftrightarrow> (\<exists>k<length ds. ds ! k = Some d \<and> (\<forall>i<k. ds ! i = None))"
  by (induction ds) (auto simp: Ex_less_Suc2 All_less_Suc2 split: option.split)

lemma first_difference_Some_Cons:
  "first_difference [] \<noteq> Some x"
  "first_difference (d # ds) = Some x \<longleftrightarrow> d = Some x \<or> d = None \<and> first_difference ds = Some x"
  by (auto split: option.split)

declare first_difference.simps [simp del]

lemma same_from_Some:
  "length xs = length ys \<Longrightarrow> same_from f eq j xs ys = Some d \<longleftrightarrow>
     (\<exists>k<length xs. d = NotEqualAt f (j + k) \<and> \<not> eq (xs ! k) (ys ! k) \<and> (\<forall>i<k. eq (xs ! i) (ys ! i)))"
proof (induction xs ys arbitrary: j rule: list_induct2)
  case (Cons x xs y ys)
  show ?case using Cons.IH [of "Suc j"] by (auto simp: Ex_less_Suc2 All_less_Suc2)
qed simp

lemma same_kinds:
  "same f b \<noteq> Some (NotEqualAt g k)" "same f b \<noteq> Some (ThisNilField g)"
  "same_opt f eq x y \<noteq> Some (NotEqualAt g k)" "same_list f eq xs ys \<noteq> Some (ThisNilField g)"
  "same_opt f eq x y = Some (ThisNilField g) \<longleftrightarrow> g = f \<and> x \<noteq> None \<and> y = None"
proof -
  have "same_from f eq i xs ys \<noteq> Some (ThisNilField g)" for i by (induction xs ys arbitrary: i rule: list_induct2') auto
  then show "same_list f eq xs ys \<noteq> Some (ThisNilField g)" by (simp add: same_list_def)
qed (auto simp: same_def same_opt_def split: option.split)

lemma same_list_at:
  "same_list f eq xs ys = Some (NotEqualAt g k) \<longleftrightarrow>
     g = f \<and> length xs = length ys \<and> k < length xs \<and> \<not> eq (xs ! k) (ys ! k) \<and> (\<forall>i<k. eq (xs ! i) (ys ! i))"
  by (auto simp: same_list_def same_from_Some)

lemma Interval_diff_None: "Interval_diff a b = None \<longleftrightarrow> Interval_Equal a b"
  by (simp add: Interval_diff_def Interval_Equal_def diff_simps)

lemma Attribute_diff_None: "Attribute_diff feq a b = None \<longleftrightarrow> Attribute_Equal feq a b"
  by (simp add: Attribute_diff_def Attribute_Equal_def diff_simps)

lemma Tag_diff_None: "Tag_diff a b = None \<longleftrightarrow> Tag_Equal a b"
  by (simp add: Tag_diff_def Tag_Equal_def diff_simps)

lemma Message_diff_None: "Message_diff ops feq a b = None \<longleftrightarrow> Message_Equal ops feq a b"
  by (simp add: Message_diff_def Message_Equal_def diff_simps)

lemma StreamHeader_diff_None: "StreamHeader_diff a b = None \<longleftrightarrow> StreamHeader_Equal a b"
  by (simp add: StreamHeader_diff_def StreamHeader_Equal_def diff_simps)

text \<open>
  C34: VerboseEqual finds no difference exactly when Equal holds, for all five structs, nil pointers, empty
  interfaces and values of other types included. The attribute that it reports is the first that differs, in
  messages whose times and types agree. And the text that says that this has no value and that has one is
  written for tags exactly in the opposite case.
\<close>

theorem verbose_equal:
  "(Interval_VerboseEqual i i' = None \<longleftrightarrow> Equal_with Interval_Equal i i') \<and>
   (Attribute_VerboseEqual feq a a' = None \<longleftrightarrow> Equal_with (Attribute_Equal feq) a a') \<and>
   (Tag_VerboseEqual t t' = None \<longleftrightarrow> Equal_with Tag_Equal t t') \<and>
   (Message_VerboseEqual ops feq m m' = None \<longleftrightarrow> Equal_with (Message_Equal ops feq) m m') \<and>
   (StreamHeader_VerboseEqual h h' = None \<longleftrightarrow> Equal_with StreamHeader_Equal h h') \<and>
   (Message_VerboseEqual ops feq (Some x) (Ptr (Some y)) = Some (NotEqualAt ''Attributes'' k) \<longleftrightarrow>
      TsEqual ops (Timestamp x) (Timestamp y) \<and> opt_eq (=) (MType x) (MType y) \<and>
      length (Attributes x) = length (Attributes y) \<and> k < length (Attributes x) \<and>
      \<not> Attribute_Equal feq (Attributes x ! k) (Attributes y ! k) \<and>
      list_all2 (Attribute_Equal feq) (take k (Attributes x)) (take k (Attributes y))) \<and>
   (Tag_VerboseEqual (Some u) (Ptr (Some v)) = Some (ThisNilField f) \<longleftrightarrow>
      TName u = TName v \<and> f = ''Value'' \<and> TValue u \<noteq> None \<and> TValue v = None)"
proof (intro conjI)
  show "Message_VerboseEqual ops feq (Some x) (Ptr (Some y)) = Some (NotEqualAt ''Attributes'' k) \<longleftrightarrow>
      TsEqual ops (Timestamp x) (Timestamp y) \<and> opt_eq (=) (MType x) (MType y) \<and>
      length (Attributes x) = length (Attributes y) \<and> k < length (Attributes x) \<and>
      \<not> Attribute_Equal feq (Attributes x ! k) (Attributes y ! k) \<and>
      list_all2 (Attribute_Equal feq) (take k (Attributes x)) (take k (Attributes y))"
    by (simp add: Message_VerboseEqual_def VerboseEqual_with_def Message_diff_def same_kinds same_list_at same_None same_opt_None
        first_difference_Some_Cons list_all2_conv_all_nth cong: conj_cong)
  show "Tag_VerboseEqual (Some u) (Ptr (Some v)) = Some (ThisNilField f) \<longleftrightarrow>
      TName u = TName v \<and> f = ''Value'' \<and> TValue u \<noteq> None \<and> TValue v = None"
    by (auto simp: Tag_VerboseEqual_def VerboseEqual_with_def Tag_diff_def same_kinds same_None first_difference_Some_Cons)
qed (simp_all add: Interval_VerboseEqual_def Attribute_VerboseEqual_def Tag_VerboseEqual_def Message_VerboseEqual_def
    StreamHeader_VerboseEqual_def VerboseEqual_with_None Interval_diff_None Attribute_diff_None Tag_diff_None Message_diff_None
    StreamHeader_diff_None)

end
