(* ===== verification/Tcp.thy ===== *)
theory Tcp
  imports Pipes ReliableSend
begin

text \<open>
  plugins/tcp: connecting to one of several hosts, for ReliableSend, and the generator that collects the messages of
  all the connections that a listener accepts. Parameters: the numbers of math/rand, and what dialling gives. An
  accepted connection is any generator; its goroutine, the reader of the channel and Close are the steps.
\<close>

section \<open>tcp_send.go\<close>

text \<open>shuffle: r i is what rand.Intn (i + 1) answers.\<close>

definition swap_at :: "(nat \<Rightarrow> nat) \<Rightarrow> nat \<Rightarrow> 'a list \<Rightarrow> 'a list" where
  "swap_at r i a = a[i := a ! r i, r i := a ! i]"

definition shuffle :: "(nat \<Rightarrow> nat) \<Rightarrow> 'a list \<Rightarrow> 'a list" where
  "shuffle r a = fold (swap_at r) [0..<length a] a"

record 'w tcp_net =
  TDial :: "string \<Rightarrow> 'w \<Rightarrow> sink option \<times> 'w"
  THangUp :: "string \<Rightarrow> 'w \<Rightarrow> 'w"

text \<open>The first host that answers and takes the handshake; a connection that does not take it is closed.\<close>

fun connect_first :: "'z codecs \<Rightarrow> 'w tcp_net \<Rightarrow> int \<Rightarrow> 'r \<Rightarrow> string list \<Rightarrow> 'w \<Rightarrow> (string \<times> ('ts, 'z, 'r) send) result \<times> 'w" where
  "connect_first cd net window r [] w = (Inl (Err ErrNoAvailableHosts), w)"
| "connect_first cd net window r (h # hs) w =
     (case TDial net h w of
        (None, w1) \<Rightarrow> connect_first cd net window r hs w1
      | (Some c, w1) \<Rightarrow>
          (case NewSend c window r of
             Inl e \<Rightarrow> (Inl e, w1)
           | Inr s \<Rightarrow>
               (case SendHandshake cd s of
                  (s1, Inr _) \<Rightarrow> (Inr (h, s1), w1)
                | (s1, Inl (Panic e)) \<Rightarrow> (Inl (Panic e), w1)
                | (s1, Inl (Err e)) \<Rightarrow> connect_first cd net window r hs (THangUp net h w1))))"

record tcp_send =
  Hosts :: "string list"
  TWindow :: int

text \<open>Connect shuffles the hosts in place. The answer has the host with the Send.\<close>

definition Tcp_Connect :: "'z codecs \<Rightarrow> 'w tcp_net \<Rightarrow> (nat \<Rightarrow> nat) \<Rightarrow> 'r \<Rightarrow> tcp_send \<Rightarrow> 'w \<Rightarrow>
    (string \<times> ('ts, 'z, 'r) send) result \<times> tcp_send \<times> 'w" where
  "Tcp_Connect cd net rnd r t w =
     (let t1 = t\<lparr>Hosts := shuffle rnd (Hosts t)\<rparr> in
      case connect_first cd net (TWindow t1) r (Hosts t1) w of (x, w1) \<Rightarrow> (x, t1, w1))"

section \<open>tcp_recv.go\<close>

definition cRecvBuffer :: nat where
  "cRecvBuffer = 10"

text \<open>
  A connection: its Recv, and the message that HandleGenerator is about to put into the channel. Taken is a ghost, as
  are the numbers of the connections beside the messages in the channel and those that Generate has answered.
\<close>

record ('ts, 'g) tcp_conn =
  CGen :: 'g
  CHeld :: "'ts message option option"
  CDone :: bool
  CTaken :: "'ts message option list"

record ('ts, 'g) tcp_recv =
  Conns :: "('ts, 'g) tcp_conn list"
  TBuf :: "(nat \<times> 'ts message option) list"
  TClosed :: bool
  TCrashed :: bool
  TDelivered :: "(nat \<times> 'ts message option) list"

definition NewTCPRecvGenerator :: "('ts, 'g) tcp_recv" where
  "NewTCPRecvGenerator = \<lparr>Conns = [], TBuf = [], TClosed = False, TCrashed = False, TDelivered = []\<rparr>"

definition new_conn :: "'g \<Rightarrow> ('ts, 'g) tcp_conn" where
  "new_conn g = \<lparr>CGen = g, CHeld = None, CDone = False, CTaken = []\<rparr>"

text \<open>Generate, when it does not wait.\<close>

definition Tcp_Generate :: "('ts, 'g) tcp_recv \<Rightarrow> ('ts message option result \<times> ('ts, 'g) tcp_recv) option" where
  "Tcp_Generate s =
     (case TBuf s of
        (i, m) # q \<Rightarrow> Some (Inr m, s\<lparr>TBuf := q, TDelivered := TDelivered s @ [(i, m)]\<rparr>)
      | [] \<Rightarrow> if TClosed s then Some (Inl (Err EOF), s) else None)"

text \<open>Close closes the listener and then the channel; a second call panics.\<close>

definition Tcp_Close :: "('ts, 'g) tcp_recv \<Rightarrow> ('ts, 'g) tcp_recv" where
  "Tcp_Close s = (if TClosed s then s\<lparr>TCrashed := True\<rparr> else s\<lparr>TClosed := True\<rparr>)"

inductive tcp_step :: "('ts, 'g) generator \<Rightarrow> ('ts, 'g) tcp_recv \<Rightarrow> ('ts, 'g) tcp_recv \<Rightarrow> bool" for gen where
  accepts: "\<not> TCrashed s \<Longrightarrow> \<not> TClosed s \<Longrightarrow> tcp_step gen s (s\<lparr>Conns := Conns s @ [new_conn g]\<rparr>)"
| gets: "\<not> TCrashed s \<Longrightarrow> i < length (Conns s) \<Longrightarrow> c = Conns s ! i \<Longrightarrow> \<not> CDone c \<Longrightarrow> CHeld c = None \<Longrightarrow>
    GGenerate gen (CGen c) = Some (Inr m, g') \<Longrightarrow>
    tcp_step gen s (s\<lparr>Conns := (Conns s)[i := c\<lparr>CGen := g', CHeld := Some m, CTaken := CTaken c @ [m]\<rparr>]\<rparr>)"
| stops: "\<not> TCrashed s \<Longrightarrow> i < length (Conns s) \<Longrightarrow> c = Conns s ! i \<Longrightarrow> \<not> CDone c \<Longrightarrow> CHeld c = None \<Longrightarrow>
    GGenerate gen (CGen c) = Some (Inl e, g') \<Longrightarrow>
    tcp_step gen s (s\<lparr>Conns := (Conns s)[i := c\<lparr>CGen := GClose gen g', CDone := True\<rparr>]\<rparr>)"
| puts: "\<not> TCrashed s \<Longrightarrow> i < length (Conns s) \<Longrightarrow> c = Conns s ! i \<Longrightarrow> CHeld c = Some m \<Longrightarrow> \<not> TClosed s \<Longrightarrow>
    length (TBuf s) < cRecvBuffer \<Longrightarrow>
    tcp_step gen s (s\<lparr>Conns := (Conns s)[i := c\<lparr>CHeld := None\<rparr>], TBuf := TBuf s @ [(i, m)]\<rparr>)"
| panics: "\<not> TCrashed s \<Longrightarrow> i < length (Conns s) \<Longrightarrow> CHeld (Conns s ! i) = Some m \<Longrightarrow> TClosed s \<Longrightarrow>
    tcp_step gen s (s\<lparr>TCrashed := True\<rparr>)"
| generates: "\<not> TCrashed s \<Longrightarrow> Tcp_Generate s = Some (x, s') \<Longrightarrow> tcp_step gen s s'"
| closes: "\<not> TCrashed s \<Longrightarrow> tcp_step gen s (Tcp_Close s)"

inductive tcp_reaches :: "('ts, 'g) generator \<Rightarrow> ('ts, 'g) tcp_recv \<Rightarrow> ('ts, 'g) tcp_recv \<Rightarrow> bool" for gen where
  tcp_start: "tcp_reaches gen s s"
| tcp_next: "tcp_reaches gen s s1 \<Longrightarrow> tcp_step gen s1 s2 \<Longrightarrow> tcp_reaches gen s s2"

text \<open>Run hands the messages of the channel to a receiver.\<close>

partial_function (option) Tcp_Run :: "('ts, 'r) receiver \<Rightarrow> 'ts channel \<Rightarrow> 'r \<Rightarrow> (unit result \<times> 'ts channel \<times> 'r) option" where
  "Tcp_Run recv c r =
     do {
       (x, c1) \<leftarrow> Channel_Generate c;
       case x of
         Inl e \<Rightarrow> Some (Inl e, c1, r)
       | Inr m \<Rightarrow>
           do {
             (y, r1) \<leftarrow> RReceive recv r m;
             case y of
               Inl e \<Rightarrow> Some (Inl e, c1, r1)
             | Inr _ \<Rightarrow> Tcp_Run recv c1 r1
           }
     }"

section \<open>Lemmas\<close>

lemma mset_swap_at: "i < length a \<Longrightarrow> r i < length a \<Longrightarrow> mset (swap_at r i a) = mset a"
  unfolding swap_at_def by (rule mset_swap)

lemma length_swap_at [simp]: "length (swap_at r i a) = length a"
  by (simp add: swap_at_def)

lemma mset_shuffle:
  assumes "\<forall>i. r i \<le> i"
  shows "mset (shuffle r a) = mset a"
proof -
  have "mset (fold (swap_at r) is a) = mset a \<and> length (fold (swap_at r) is a) = length a"
    if "set is \<subseteq> {..<length a}" for "is"
    using that
  proof (induction "is" rule: rev_induct)
    case (snoc i "is")
    let ?b = "fold (swap_at r) is a"
    from snoc have b: "mset ?b = mset a" "length ?b = length a" "i < length a" by auto
    moreover have "r i < length a" using assms b(3) by (meson le_less_trans)
    ultimately show ?case using mset_swap_at [of i ?b r] by simp
  qed simp
  then show ?thesis unfolding shuffle_def by (simp add: subset_iff)
qed

definition reliable_header :: bytes where
  "reliable_header = projr (StreamHeader_Marshal (zero_header\<lparr>Compression := Some StreamHeader_NONE, Mode := Some StreamHeader_RELIABLE\<rparr>))"

lemma reliable_header: "StreamHeader_Marshal (zero_header\<lparr>Compression := Some StreamHeader_NONE, Mode := Some StreamHeader_RELIABLE\<rparr>) = Inr reliable_header"
  unfolding reliable_header_def by code_simp

lemma handshake:
  fixes cd :: "'z codecs" and r :: 'r
  assumes "- 1 \<le> window"
  obtains s s1 :: "('ts, 'z, 'r) send" where "NewSend k window r = Inr s"
    and "3 \<le> Quota k \<Longrightarrow> SendHandshake cd s = (s1, Inr ()) \<and> Window s1 = Window s \<and> \<not> SClosed s1 \<and> SReq s1 = r"
    and "Quota k < 3 \<Longrightarrow> \<exists>e. SendHandshake cd s = (s1, Inl (Err e))"
proof -
  obtain s :: "('ts, 'z, 'r) send" where s: "NewSend k window r = Inr s" using assms by (cases "NewSend k window r") (auto simp: NewSend_def Let_def MinimumWindow_20 split: if_splits)
  then have enc: "SEnc s = NewStreamEncoder False k" "\<not> SClosed s" "SReq s = r" by (auto simp: NewSend_def Let_def split: if_splits)
  obtain s1 x where hs: "SendHandshake cd s = (s1, x)" by fastforce
  have "3 \<le> Quota k \<Longrightarrow> x = Inr () \<and> Window s1 = Window s \<and> \<not> SClosed s1 \<and> SReq s1 = r"
    using hs enc by (auto simp: SendHandshake_def WriteCustomHeader_def reliable_header NewStreamEncoder_def w_write_def
        wrap_writer_def WriteCompressed_def GetCompression_def split: if_splits prod.splits)
  moreover have "Quota k < 3 \<Longrightarrow> \<exists>e. x = Inl (Err e)"
    using hs enc by (auto simp: SendHandshake_def WriteCustomHeader_def reliable_header NewStreamEncoder_def w_write_def
        split: if_splits prod.splits)
  ultimately show thesis using that [OF s, of s1] hs by auto
qed

text \<open>The first of the hosts that answers with a connection that takes the three writes of a handshake.\<close>

definition host_up :: "(string \<Rightarrow> sink option) \<Rightarrow> string \<Rightarrow> bool" where
  "host_up up h \<longleftrightarrow> (\<exists>k. up h = Some k \<and> 3 \<le> Quota k)"

lemma connect_first_finds:
  fixes cd :: "'z codecs" and r :: 'r and x :: "(string \<times> ('ts, 'z, 'r) send) result"
  assumes "- 1 \<le> window" and "\<forall>h w. fst (TDial net h w) = up h" and "connect_first cd net window r hs w = (x, w')"
  shows "(case find (host_up up) hs of
      None \<Rightarrow> x = Inl (Err ErrNoAvailableHosts)
    | Some h \<Rightarrow> \<exists>s. x = Inr (h, s) \<and> \<not> SClosed s \<and> SReq s = r)"
  using assms(3)
proof (induction hs arbitrary: w)
  case (Cons h hs)
  obtain c w1 where d: "TDial net h w = (c, w1)" by fastforce
  with assms(2) have c: "up h = c" by (metis fst_conv)
  show ?case
  proof (cases c)
    case None
    with Cons d c show ?thesis by (simp add: host_up_def)
  next
    case (Some k)
    obtain s s1 :: "('ts, 'z, 'r) send" where s: "NewSend k window r = Inr s"
      and ok: "3 \<le> Quota k \<Longrightarrow> SendHandshake cd s = (s1, Inr ()) \<and> Window s1 = Window s \<and> \<not> SClosed s1 \<and> SReq s1 = r"
      and bad: "Quota k < 3 \<Longrightarrow> \<exists>e. SendHandshake cd s = (s1, Inl (Err e))" by (rule handshake [OF assms(1), of k r cd]) (rule that)
    show ?thesis
    proof (cases "3 \<le> Quota k")
      case True
      then have "x = Inr (h, s1)" "host_up up h" using ok [OF True] Cons.prems by (simp_all add: d Some s c host_up_def)
      with ok [OF True] show ?thesis by simp
    next
      case False
      then obtain e where "SendHandshake cd s = (s1, Inl (Err e))" using bad by auto
      then have "connect_first cd net window r hs (THangUp net h w1) = (x, w')" using Cons.prems by (simp add: d Some s)
      moreover have "\<not> host_up up h" using False by (simp add: host_up_def c Some)
      ultimately show ?thesis using Cons.IH by simp
    qed
  qed
qed simp

section \<open>The collecting generator\<close>

definition of_conn :: "nat \<Rightarrow> (nat \<times> 'a) list \<Rightarrow> 'a list" where
  "of_conn i xs = map snd (filter (\<lambda>p. fst p = i) xs)"

definition held :: "('ts, 'g) tcp_conn \<Rightarrow> 'ts message option list" where
  "held c = (case CHeld c of None \<Rightarrow> [] | Some m \<Rightarrow> [m])"

definition tcp_ok :: "('ts, 'g) tcp_recv \<Rightarrow> bool" where
  "tcp_ok s \<longleftrightarrow>
     (\<forall>i<length (Conns s). CTaken (Conns s ! i) = of_conn i (TDelivered s @ TBuf s) @ held (Conns s ! i)) \<and>
     (\<forall>p\<in>set (TDelivered s @ TBuf s). fst p < length (Conns s)) \<and>
     length (TBuf s) \<le> cRecvBuffer"

lemma of_conn_simps [simp]:
  "of_conn i (xs @ ys) = of_conn i xs @ of_conn i ys" "of_conn i [] = []"
  "of_conn i (p # ps) = (if fst p = i then snd p # of_conn i ps else of_conn i ps)"
  by (simp_all add: of_conn_def)

lemma of_conn_new: "\<forall>p\<in>set xs. fst p < n \<Longrightarrow> n \<le> i \<Longrightarrow> of_conn i xs = []"
  by (auto simp: of_conn_def filter_empty_conv)

lemma tcp_step_ok: "tcp_step gen s s' \<Longrightarrow> tcp_ok s \<Longrightarrow> tcp_ok s'"
proof (induction rule: tcp_step.induct)
  case (accepts s g)
  then have "of_conn (length (Conns s)) (TDelivered s) = []" "of_conn (length (Conns s)) (TBuf s) = []"
    by (auto simp: tcp_ok_def intro!: of_conn_new)
  with accepts show ?case by (auto simp: tcp_ok_def nth_append new_conn_def held_def less_Suc_eq)
next
  case (gets s i c m g')
  then show ?case by (auto simp: tcp_ok_def nth_list_update held_def)
next
  case (stops s i c e g')
  then show ?case by (auto simp: tcp_ok_def nth_list_update held_def)
next
  case (puts s i c m)
  then show ?case by (auto simp: tcp_ok_def nth_list_update held_def)
next
  case (generates s x s')
  then have "TDelivered s' @ TBuf s' = TDelivered s @ TBuf s" "Conns s' = Conns s" "length (TBuf s') \<le> length (TBuf s)"
    by (auto simp: Tcp_Generate_def split: list.splits if_splits)
  with generates(3) show ?case by (simp add: tcp_ok_def del: of_conn_simps(1))
qed (auto simp: tcp_ok_def Tcp_Close_def)

lemma tcp_reaches_ok: "tcp_reaches gen s s' \<Longrightarrow> tcp_ok s \<Longrightarrow> tcp_ok s'"
  by (induction rule: tcp_reaches.induct) (auto intro: tcp_step_ok)


text \<open>After Close nothing is put into the channel any more.\<close>

lemma tcp_closed: "tcp_reaches gen s s' \<Longrightarrow> TClosed s \<Longrightarrow> TClosed s' \<and> TDelivered s' @ TBuf s' = TDelivered s @ TBuf s"
proof (induction rule: tcp_reaches.induct)
  case (tcp_next s s1 s2)
  then have "TClosed s1" "TDelivered s1 @ TBuf s1 = TDelivered s @ TBuf s" by simp_all
  from tcp_next(2) this show ?case
    by (cases rule: tcp_step.cases) (auto simp: Tcp_Generate_def Tcp_Close_def split: list.splits if_splits)
qed simp

text \<open>Run on a closed channel hands everything that is left to the receiver, and answers EOF.\<close>

lemma Tcp_Run_drains:
  assumes "ChanClosed c"
  shows "Tcp_Run BufferReceiver c b = Some (Inl (Err EOF), c\<lparr>Queued := []\<rparr>, b @ Queued c)"
  using assms
proof (induction "Queued c" arbitrary: c b)
  case Nil
  from Nil(1) [symmetric] Nil(2) show ?case by (subst Tcp_Run.simps) (simp add: Channel_Generate_def)
next
  case (Cons m q)
  have "Tcp_Run BufferReceiver (c\<lparr>Queued := q\<rparr>) (b @ [m]) = Some (Inl (Err EOF), c\<lparr>Queued := []\<rparr>, b @ Queued c)"
    using Cons.hyps(1) [of "c\<lparr>Queued := q\<rparr>" "b @ [m]"] Cons.prems Cons.hyps(2) [symmetric] by simp
  with Cons.hyps(2) [symmetric] show ?case by (subst Tcp_Run.simps) (simp add: Channel_Generate_def BufferReceiver_def)
qed

section \<open>Properties\<close>


text \<open>
  C36: What the generator of a listener keeps. In every reachable state the messages taken from a connection are, in
  order, those that Generate has answered, those in the channel, which holds at most ten, and the one in hand. If a
  connection has one in hand when Close is called, the process can panic, and whatever it does nothing more is put
  into the channel.
\<close>

theorem tcp_recv_order:
  assumes "tcp_reaches gen NewTCPRecvGenerator s" and "i < length (Conns s)" and "\<not> TCrashed s" and "\<not> TClosed s"
  shows "CTaken (Conns s ! i) = of_conn i (TDelivered s) @ of_conn i (TBuf s) @ held (Conns s ! i) \<and>
    length (TBuf s) \<le> cRecvBuffer \<and>
    (held (Conns s ! i) \<noteq> [] \<longrightarrow> tcp_step gen (Tcp_Close s) (Tcp_Close s\<lparr>TCrashed := True\<rparr>)) \<and>
    (\<forall>s1. tcp_reaches gen (Tcp_Close s) s1 \<longrightarrow> TDelivered s1 @ TBuf s1 = TDelivered s @ TBuf s)"
proof -
  have "tcp_ok (NewTCPRecvGenerator :: ('a, 'b) tcp_recv)" by (simp add: tcp_ok_def NewTCPRecvGenerator_def)
  with assms(1) have "tcp_ok s" by (rule tcp_reaches_ok)
  moreover have "tcp_step gen (Tcp_Close s) (Tcp_Close s\<lparr>TCrashed := True\<rparr>)" if "held (Conns s ! i) \<noteq> []"
  proof -
    from that obtain m where "CHeld (Conns s ! i) = Some m" by (auto simp: held_def split: option.splits)
    then show ?thesis using assms(2-) by (intro panics [of _ i m]) (simp_all add: Tcp_Close_def)
  qed
  moreover have "TDelivered s1 @ TBuf s1 = TDelivered s @ TBuf s" if "tcp_reaches gen (Tcp_Close s) s1" for s1
    using tcp_closed [OF that] assms(4) by (simp add: Tcp_Close_def)
  ultimately show ?thesis using assms(2) by (auto simp: tcp_ok_def)
qed

section \<open>Witnesses\<close>

definition two_hosts :: "unit tcp_net" where
  "two_hosts = \<lparr>TDial = (\<lambda>h w. (if h = ''up'' then Some \<lparr>Out = [], Quota = 9\<rparr> else None, w)), THangUp = (\<lambda>h w. w)\<rparr>"


definition one_message :: "(nat, bool) generator" where
  "one_message = \<lparr>GGenerate = (\<lambda>sent. Some (if sent then Inl (Err EOF) else Inr (Some (Log 3)), True)), GClose = id\<rparr>"

theorem tcp_recv_order_witness:
  "\<exists>s. tcp_reaches one_message NewTCPRecvGenerator s \<and> CTaken (Conns s ! 0) = [Some (Log 3)] \<and>
     CTaken (Conns s ! 0) = of_conn 0 (TDelivered s) @ of_conn 0 (TBuf s) @ held (Conns s ! 0) \<and>
     tcp_step one_message (Tcp_Close s) (Tcp_Close s\<lparr>TCrashed := True\<rparr>)"
proof -
  let ?s1 = "NewTCPRecvGenerator\<lparr>Conns := [new_conn False]\<rparr> :: (nat, bool) tcp_recv"
  let ?s2 = "?s1\<lparr>Conns := [(new_conn False)\<lparr>CGen := True, CHeld := Some (Some (Log 3)), CTaken := [Some (Log 3)]\<rparr>]\<rparr>"
  have "tcp_step one_message NewTCPRecvGenerator ?s1"
    using accepts [of "NewTCPRecvGenerator :: (nat, bool) tcp_recv" one_message False] by (simp add: NewTCPRecvGenerator_def)
  moreover have "tcp_step one_message ?s1 ?s2"
    using gets [of ?s1 0 "new_conn False" one_message "Some (Log 3)" True] by (simp add: NewTCPRecvGenerator_def new_conn_def one_message_def)
  ultimately have run: "tcp_reaches one_message NewTCPRecvGenerator ?s2" by (meson tcp_start tcp_next)
  have "0 < length (Conns ?s2)" "\<not> TCrashed ?s2" "\<not> TClosed ?s2" "held (Conns ?s2 ! 0) \<noteq> []" "CTaken (Conns ?s2 ! 0) = [Some (Log 3)]"
    by (simp_all add: NewTCPRecvGenerator_def held_def)
  with tcp_recv_order [OF run, of 0] run show ?thesis by blast
qed

end
