(* ===== verification/Agent.thy ===== *)
theory Agent
  imports Pipes Decimal "HOL-Library.Sublist"
begin

text \<open>
  agent/: the daemon of the local loggers. local.go serves their connections, redis.go moves messages through a list
  of a Redis server, pipeline.go makes sources and sinks from their descriptions and starts them. Parameters: what
  Accept, Redis, url.Parse and NewSpool answer.
\<close>

section \<open>local.go\<close>

text \<open>
  serve: what a client sends goes to the receiver until the end of the connection. After any other error of the
  decoder the message is nil, and is handed on all the same; the errors of the receiver are dropped.
\<close>

partial_function (option) serve :: "'ts stream_env \<Rightarrow> ('ts, 'r) receiver \<Rightarrow> decoder \<Rightarrow> 'r \<Rightarrow> (unit result \<times> 'r) option" where
  "serve env recv d r =
     (case Decoder_Decode env d of
        (None, d1) \<Rightarrow> None
      | (Some (Inl (Panic e)), d1) \<Rightarrow> Some (Inl (Panic e), r)
      | (Some (Inl (Err e)), d1) \<Rightarrow>
          if e = EOF then Some (Inr (), r)
          else (case RReceive recv r None of
              None \<Rightarrow> None
            | Some (Inl (Panic p), r1) \<Rightarrow> Some (Inl (Panic p), r1)
            | Some (_, r1) \<Rightarrow> serve env recv d1 r1)
      | (Some (Inr m), d1) \<Rightarrow>
          (case RReceive recv r (Some m) of
             None \<Rightarrow> None
           | Some (Inl (Panic p), r1) \<Rightarrow> Some (Inl (Panic p), r1)
           | Some (_, r1) \<Rightarrow> serve env recv d1 r1))"

text \<open>
  Start: the loop around Accept. The connections that are open are tracked; the test for a closed listener has the
  arguments of strings.Index the wrong way round.
\<close>

datatype accept = Connection source | AcceptEOF | AcceptError string

record agent_server =
  ServerPath :: string
  Tracked :: "(nat \<times> source) list"
  NextConn :: nat
  HungUp :: "nat list"

definition newServer :: "string \<Rightarrow> agent_server" where
  "newServer path = \<lparr>ServerPath = path, Tracked = [], NextConn = 0, HungUp = []\<rparr>"

definition trackConn :: "source \<Rightarrow> agent_server \<Rightarrow> agent_server" where
  "trackConn c s = s\<lparr>Tracked := Tracked s @ [(NextConn s, c)], NextConn := Suc (NextConn s)\<rparr>"

definition removeConn :: "nat \<Rightarrow> agent_server \<Rightarrow> agent_server" where
  "removeConn n s = s\<lparr>Tracked := filter (\<lambda>c. fst c \<noteq> n) (Tracked s)\<rparr>"

definition closeConns :: "agent_server \<Rightarrow> agent_server" where
  "closeConns s = s\<lparr>HungUp := HungUp s @ map fst (Tracked s)\<rparr>"

definition closed_text :: string where
  "closed_text = ''closed network connection''"

definition accept_turn :: "accept \<Rightarrow> agent_server \<Rightarrow> agent_server \<times> bool" where
  "accept_turn a s =
     (case a of
        Connection c \<Rightarrow> (trackConn c s, True)
      | AcceptEOF \<Rightarrow> (closeConns s, False)
      | AcceptError e \<Rightarrow> (s, \<not> sublist e closed_text))"

text \<open>The answers that Accept has given so far; the flag says whether the loop still runs.\<close>

fun Server_Start :: "accept list \<Rightarrow> agent_server \<Rightarrow> agent_server \<times> bool" where
  "Server_Start [] s = (s, True)"
| "Server_Start (a # as) s =
     (case accept_turn a s of (s1, goes_on) \<Rightarrow> if goes_on then Server_Start as s1 else (s1, False))"

section \<open>redis.go\<close>

record 'w redis =
  LPush :: "bytes \<Rightarrow> 'w \<Rightarrow> go_err option \<times> 'w"
  BRPop :: "'w \<Rightarrow> ((go_err + bytes) \<times> 'w) option"
  Redial :: "'w \<Rightarrow> bool \<times> 'w"

text \<open>The loop of RedisOutput.process for one datum: pushed, dropped after an error, or the end of the goroutine.\<close>

datatype pushed = Pushed | DroppedDatum | NoRedis

partial_function (option) redis_push :: "'w redis \<Rightarrow> bytes \<Rightarrow> 'w \<Rightarrow> (pushed \<times> 'w) option" where
  "redis_push net d w =
     (case LPush net d w of
        (None, w1) \<Rightarrow> Some (Pushed, w1)
      | (Some e, w1) \<Rightarrow>
          if e = EOF then (case Redial net w1 of (up, w2) \<Rightarrow> if up then redis_push net d w2 else Some (NoRedis, w2))
          else Some (DroppedDatum, w1))"

text \<open>What becomes of the data that are sent to process; after it has ended, a sender waits for ever.\<close>

fun redis_process :: "'w redis \<Rightarrow> bytes list \<Rightarrow> 'w \<Rightarrow> (pushed list \<times> 'w) option" where
  "redis_process net [] w = Some ([], w)"
| "redis_process net (d # ds) w =
     do {
       (x, w1) \<leftarrow> redis_push net d w;
       if x = NoRedis then Some ([NoRedis], w1)
       else do { (xs, w2) \<leftarrow> redis_process net ds w1; Some (x # xs, w2) }
     }"

definition RedisOutput_Receive :: "'ts ts_ops \<Rightarrow> 'ts message \<Rightarrow> bytes result" where
  "RedisOutput_Receive ops m = Message_Marshal ops m"

text \<open>One turn of RedisInput.Start. BRPop waits while the list is empty. active says that Close has not been called.\<close>

datatype 'r turn = GoesOn 'r | Returns "unit result" 'r

definition redis_turn :: "'ts ts_ops \<Rightarrow> 'w redis \<Rightarrow> ('ts, 'r) receiver \<Rightarrow> bool \<Rightarrow> 'r \<Rightarrow> 'w \<Rightarrow> ('r turn \<times> 'w) option" where
  "redis_turn ops net recv active r w =
     (case BRPop net w of
        None \<Rightarrow> None
      | Some (Inl e, w1) \<Rightarrow>
          Some (if e \<noteq> EOF then (Returns (Inl (Err e)) r, w1)
            else if \<not> active then (Returns (Inr ()) r, w1)
            else (case Redial net w1 of (up, w2) \<Rightarrow>
                if up then (GoesOn r, w2) else (Returns (Inl (Err (OtherErr ''dial''))) r, w2)))
      | Some (Inr data, w1) \<Rightarrow>
          (case Message_Unmarshal ops zero_message data of
             None \<Rightarrow> None
           | Some (Inl (Panic p)) \<Rightarrow> Some (Returns (Inl (Panic p)) r, w1)
           | Some (Inl (Err e)) \<Rightarrow> Some (GoesOn r, w1)
           | Some (Inr m) \<Rightarrow>
               (case RReceive recv r (Some m) of
                  None \<Rightarrow> None
                | Some (Inl (Panic p), r1) \<Rightarrow> Some (Returns (Inl (Panic p)) r1, w1)
                | Some (_, r1) \<Rightarrow> Some (GoesOn r1, w1))))"

fun redis_turns :: "'ts ts_ops \<Rightarrow> 'w redis \<Rightarrow> ('ts, 'r) receiver \<Rightarrow> nat \<Rightarrow> 'r \<Rightarrow> 'w \<Rightarrow> ('r turn \<times> 'w) option" where
  "redis_turns ops net recv 0 r w = Some (GoesOn r, w)"
| "redis_turns ops net recv (Suc n) r w =
     do {
       (t, w1) \<leftarrow> redis_turn ops net recv True r w;
       (case t of GoesOn r1 \<Rightarrow> redis_turns ops net recv n r1 w1 | Returns x r1 \<Rightarrow> Some (t, w1))
     }"

section \<open>pipeline.go\<close>

record agent_env =
  UrlParse :: "string \<Rightarrow> (string \<times> string \<times> string) option"
  OpenSpool :: "string \<Rightarrow> go_err option"

datatype agent_source = LocalSource | RedisSource string string
datatype agent_sink = SpoolSink string | RedisSink string string

definition DefaultSpoolDir :: string where
  "DefaultSpoolDir = ''/var/lib/cypress/spool''"

text \<open>The errors of Init and of Start, which dial the server, are dropped.\<close>

definition ParseSource :: "agent_env \<Rightarrow> string \<Rightarrow> agent_source result" where
  "ParseSource env s =
     (if s = ''local'' then Inr LocalSource
      else (case UrlParse env s of
          Some (scheme, host, path) \<Rightarrow>
            if scheme = ''redis'' then Inr (RedisSource host path) else Inl (Panic ''Unknown source'')
        | None \<Rightarrow> Inl (Panic ''Unknown source'')))"

definition new_spool_sink :: "agent_env \<Rightarrow> string \<Rightarrow> agent_sink result" where
  "new_spool_sink env dir = (case OpenSpool env dir of None \<Rightarrow> Inr (SpoolSink dir) | Some e \<Rightarrow> Inl (Err e))"

definition slice_from :: "nat \<Rightarrow> string \<Rightarrow> string result" where
  "slice_from n s = (if length s < n then Inl (Panic ''slice bounds out of range'') else Inr (drop n s))"

definition slice_to :: "nat \<Rightarrow> string \<Rightarrow> string result" where
  "slice_to n s = (if length s < n then Inl (Panic ''slice bounds out of range'') else Inr (take n s))"

definition ParseSink :: "agent_env \<Rightarrow> string \<Rightarrow> agent_sink result" where
  "ParseSink env s =
     (if s = ''spool'' then new_spool_sink env DefaultSpoolDir
      else bindR (slice_to 6 s) (\<lambda>p.
        if p = ''spool:'' then bindR (slice_from 7 s) (new_spool_sink env)
        else (case UrlParse env s of
            Some (scheme, host, path) \<Rightarrow>
              if scheme = ''redis'' then Inr (RedisSink host path) else Inl (Err (OtherErr (''Invalid uri: '' @ s)))
          | None \<Rightarrow> Inl (Err (OtherErr (''Invalid sink: '' @ s))))))"

fun each_result :: "('a \<Rightarrow> 'b result) \<Rightarrow> 'a list \<Rightarrow> 'b list result" where
  "each_result f [] = Inr []"
| "each_result f (x # xs) = bindR (f x) (\<lambda>y. bindR (each_result f xs) (\<lambda>ys. Inr (y # ys)))"

record pipeline =
  PReceivers :: "agent_sink list"
  PSources :: "agent_source list"

definition MakePipeline :: "agent_env \<Rightarrow> string \<Rightarrow> string \<Rightarrow> pipeline result" where
  "MakePipeline env srcs sinks =
     bindR (each_result (ParseSink env) (SplitByte (CHR '','') sinks)) (\<lambda>rs.
     bindR (each_result (ParseSource env) (SplitByte (CHR '','') srcs)) (\<lambda>ss.
       Inr \<lparr>PReceivers = rs, PSources = ss\<rparr>))"

text \<open>
  Start: every goroutine runs the source that the loop variable has when it begins, pick i for the i-th. The last
  error is the answer, when all have returned.
\<close>

fun last_error :: "unit result option list \<Rightarrow> unit result \<Rightarrow> unit result option" where
  "last_error [] outer = Some outer"
| "last_error (x # xs) outer =
     (case x of None \<Rightarrow> None | Some (Inr _) \<Rightarrow> last_error xs outer | Some (Inl e) \<Rightarrow> last_error xs (Inl e))"

definition legal_picks :: "nat \<Rightarrow> (nat \<Rightarrow> nat) \<Rightarrow> bool" where
  "legal_picks n pick \<longleftrightarrow> (\<forall>i<n. i \<le> pick i \<and> pick i < n)"

definition Pipeline_Start :: "(agent_source \<Rightarrow> unit result option) \<Rightarrow> (nat \<Rightarrow> nat) \<Rightarrow> pipeline \<Rightarrow> agent_source list \<times> unit result option" where
  "Pipeline_Start runs pick p =
     (let started = map (\<lambda>i. PSources p ! pick i) [0..<length (PSources p)] in
      (started, last_error (map runs started) (Inr ())))"

section \<open>Serving a client\<close>

definition cut_frame :: "bytes \<Rightarrow> nat \<Rightarrow> bytes" where
  "cut_frame body n = of_char CHR ''+'' # PutUvarint (of_nat (length body)) @ take n body"

lemma serve_frames:
  assumes "ts_laws (Ops env)" and "list_all (streamable env) ms"
    and "list_all2 (\<lambda>m b. Message_MarshalTo (Ops env) m = Inr b) ms bodies" and "k = Native \<or> k = Unprobed"
  shows "\<exists>k'. (k' = Native \<or> k' = Unprobed) \<and>
    serve env BufferReceiver \<lparr>DSrc = \<lparr>Data = concat (map frame bodies) @ rest, AtEnd = e\<rparr>, DKind = k\<rparr> b =
    serve env BufferReceiver \<lparr>DSrc = \<lparr>Data = rest, AtEnd = e\<rparr>, DKind = k'\<rparr> (b @ map Some ms)"
  using assms(2-)
proof (induction ms arbitrary: bodies k b)
  case (Cons m ms)
  then obtain x bs where bodies: "bodies = x # bs" "Message_MarshalTo (Ops env) m = Inr x"
    "list_all2 (\<lambda>m b. Message_MarshalTo (Ops env) m = Inr b) ms bs" by (auto simp: list_all2_Cons1)
  have "serve env BufferReceiver \<lparr>DSrc = \<lparr>Data = concat (map frame bodies) @ rest, AtEnd = e\<rparr>, DKind = k\<rparr> b =
      serve env BufferReceiver \<lparr>DSrc = \<lparr>Data = concat (map frame bs) @ rest, AtEnd = e\<rparr>, DKind = Native\<rparr> (b @ [Some m])"
    using decode_frame [OF assms(1) _ bodies(2), of "\<lparr>Data = concat (map frame bodies) @ rest, AtEnd = e\<rparr>"
      "concat (map frame bs) @ rest" k] Cons.prems(1,3) bodies(1)
    by (subst serve.simps) (simp add: BufferReceiver_def)
  with Cons.IH [of bs Native "b @ [Some m]"] Cons.prems(1) bodies(3) show ?case by simp
qed auto

lemma serve_end:
  assumes "k = Native \<or> k = Unprobed"
  shows "serve env recv \<lparr>DSrc = \<lparr>Data = [], AtEnd = EOF\<rparr>, DKind = k\<rparr> r = Some (Inr (), r)"
  using assms by (subst serve.simps)
    (auto simp: Decoder_Decode_def Decoder_probe_def Decoder_run_def decodeNative_def read_byte_def)

lemma decode_cut:
  assumes "0 < n" "n < length body" "length body < 2 ^ 63" "length body \<le> MaxAlloc env" and "k = Native \<or> k = Unprobed"
  shows "Decoder_Decode env \<lparr>DSrc = \<lparr>Data = cut_frame body n, AtEnd = EOF\<rparr>, DKind = k\<rparr> =
    (Some (Inl (Err UnexpectedEOF)), \<lparr>DSrc = \<lparr>Data = [], AtEnd = EOF\<rparr>, DKind = Native\<rparr>)"
proof -
  have "unat (of_nat (length body) :: u64) = length body" using assms(3) by (simp add: unat_of_nat)
  with assms show ?thesis
    by (auto simp: Decoder_Decode_def Decoder_probe_def Decoder_run_def decodeNative_def read_byte_def make_bytes_def
        read_full_def cut_frame_def)
qed

lemma serve_json_spins:
  assumes "json_decode (bytes_str junk) = Inl (Err e)" and "e \<noteq> EOF" and "junk = of_char CHR ''{'' # junk'"
  shows "serve env BufferReceiver (NewDecoder \<lparr>Data = junk, AtEnd = EOF\<rparr>) b = None"
proof -
  have stuck: "serve env BufferReceiver d b = None" if d: "DKind d = JSON (Some e)" for d b
  proof -
    have "\<not> (env' = env \<and> recv = BufferReceiver \<and> DKind d = JSON (Some e))" if "serve env' recv d b = Some x" for env' recv d b x
    proof (rule serve.raw_induct [of "\<lambda>env' recv d b x. \<not> (env' = env \<and> recv = BufferReceiver \<and> DKind d = JSON (Some e))", OF _ that], goal_cases)
      case (1 s env' recv d b x)
      show ?case
      proof
        assume a: "env' = env \<and> recv = BufferReceiver \<and> DKind d = JSON (Some e)"
        then have "Decoder_Decode env d = (Some (Inl (Err e)), d)"
          by (cases d) (simp add: Decoder_Decode_def Decoder_run_def decodeJSON_def)
        with 1(2) a assms(2) have "s env BufferReceiver d (b @ [None]) = Some x" by (simp add: BufferReceiver_def)
        from 1(1) [OF this] a show False by simp
      qed
    qed
    with d show ?thesis by (cases "serve env BufferReceiver d b") auto
  qed
  have "Decoder_Decode env (NewDecoder \<lparr>Data = junk, AtEnd = EOF\<rparr>) =
      (Some (Inl (Err e)), \<lparr>DSrc = \<lparr>Data = junk, AtEnd = EOF\<rparr>, DKind = JSON (Some e)\<rparr>)"
    using assms by (simp add: Decoder_Decode_def NewDecoder_def Decoder_probe_def Decoder_run_def decodeJSON_def Let_def)
  with assms(2) stuck show ?thesis by (subst serve.simps) (simp add: BufferReceiver_def)
qed

section \<open>A list of a Redis server\<close>

text \<open>What the code relies on: lpush and brpop make a queue, and a call that fails does not change it.\<close>

definition redis_laws :: "'w redis \<Rightarrow> ('w \<Rightarrow> bytes list) \<Rightarrow> bool" where
  "redis_laws net q \<longleftrightarrow>
     (\<forall>d w e w1. LPush net d w = (e, w1) \<longrightarrow> q w1 = q w @ (if e = None then [d] else [])) \<and>
     (\<forall>w x w1. BRPop net w = Some (x, w1) \<longrightarrow> q w = (case x of Inr d \<Rightarrow> d # q w1 | Inl _ \<Rightarrow> q w1)) \<and>
     (\<forall>w up w1. Redial net w = (up, w1) \<longrightarrow> q w1 = q w)"

lemma redis_push_queue:
  assumes "redis_laws net q" and "redis_push net d w = Some (x, w1)"
  shows "q w1 = q w @ (if x = Pushed then [d] else [])"
proof -
  have "net' = net \<longrightarrow> q (snd y) = q w @ (if fst y = Pushed then [d] else [])" if "redis_push net' d w = Some y" for net' d w y
  proof (rule redis_push.raw_induct [of "\<lambda>net' d w y. net' = net \<longrightarrow> q (snd y) = q w @ (if fst y = Pushed then [d] else [])", OF _ that], goal_cases)
    case (1 f net' d w y)
    show ?case
    proof
      assume net: "net' = net"
      obtain e w1 where p: "LPush net d w = (e, w1)" by fastforce
      obtain up w2 where r: "Redial net w1 = (up, w2)" by fastforce
      have q1: "q w1 = q w @ (if e = None then [d] else [])" "q w2 = q w1" using assms(1) p r by (auto simp: redis_laws_def)
      show "q (snd y) = q w @ (if fst y = Pushed then [d] else [])"
        using 1(2) 1(1) [of net d w2 y] q1 by (auto simp: net p r split: option.splits if_splits)
    qed
  qed
  from this [OF assms(2)] show ?thesis by simp
qed

definition pushed_of :: "pushed list \<Rightarrow> 'a list \<Rightarrow> 'a list" where
  "pushed_of xs ds = map snd (filter (\<lambda>p. fst p = Pushed) (zip xs ds))"

lemma redis_process_queue:
  assumes "redis_laws net q" and "redis_process net ds w = Some (xs, w1)"
  shows "q w1 = q w @ pushed_of xs ds"
  using assms(2)
proof (induction ds arbitrary: w xs)
  case (Cons d ds)
  obtain x w2 where p: "redis_push net d w = Some (x, w2)" using Cons.prems by (auto simp: bind_eq_Some_conv)
  note q2 = redis_push_queue [OF assms(1) p]
  show ?case
  proof (cases "x = NoRedis")
    case True
    with Cons.prems p q2 show ?thesis by (auto simp: pushed_of_def)
  next
    case False
    with Cons.prems p obtain ys where "redis_process net ds w2 = Some (ys, w1)" "xs = x # ys"
      by (auto simp: bind_eq_Some_conv)
    with Cons.IH q2 show ?thesis by (auto simp: pushed_of_def)
  qed
qed (simp add: pushed_of_def)

definition turn_state :: "'r turn \<Rightarrow> 'r" where
  "turn_state t = (case t of GoesOn r \<Rightarrow> r | Returns _ r \<Rightarrow> r)"

definition carries :: "'ts ts_ops \<Rightarrow> 'ts message \<Rightarrow> bytes \<Rightarrow> bool" where
  "carries ops m d \<longleftrightarrow> Message_Unmarshal ops zero_message d = Some (Inr m)"

lemma carries_marshal:
  assumes "ts_laws ops" and "message_ok m" and "Message_Size ops m < 2 ^ 63" and "Message_Marshal ops m = Inr d"
  shows "carries ops m d"
proof -
  from assms(4) obtain bs where bs: "Message_MarshalTo ops m = Inr bs" by (auto simp: Message_Marshal_def go_simps)
  then have len: "length bs = Message_Size ops m" by (rule Message_Size_MarshalTo [OF assms(1)])
  with assms(4) bs have "d = bs" by (simp add: Message_Marshal_def into_buffer_def)
  moreover have zero: "zero_message\<lparr>Version := 0\<rparr> = zero_message" by (simp add: zero_message_def)
  have "Message_Unmarshal ops zero_message bs = Some (Inr m)"
    using Message_Unmarshal_MarshalTo [OF assms(1,2) bs, of 0] len assms(3) unfolding zero by simp
  ultimately show ?thesis by (simp add: carries_def)
qed

lemma redis_turn_queue:
  assumes "redis_laws net q" and "list_all2 (carries ops) ms (q w)" and "redis_turn ops net BufferReceiver active b w = Some (t, w1)"
  shows "\<exists>k\<le>length ms. turn_state t = b @ map Some (take k ms) \<and> q w1 = drop k (q w)"
proof -
  obtain x w2 where p: "BRPop net w = Some (x, w2)"
    using assms(3) by (cases "BRPop net w") (auto simp: redis_turn_def)
  obtain up w3 where r: "Redial net w2 = (up, w3)" by fastforce
  have q: "q w = (case x of Inr d \<Rightarrow> d # q w2 | Inl _ \<Rightarrow> q w2)" "q w3 = q w2" using assms(1) p r by (auto simp: redis_laws_def)
  show ?thesis
  proof (cases x)
    case (Inl e)
    with assms(3) p q r show ?thesis
      by (intro exI [of _ 0]) (auto simp: redis_turn_def turn_state_def split: if_splits)
  next
    case (Inr d)
    with assms(2) q obtain m ms' where m: "ms = m # ms'" "carries ops m d" by (auto simp: list_all2_Cons2)
    with assms(3) p q Inr show ?thesis
      by (intro exI [of _ 1]) (auto simp: redis_turn_def turn_state_def carries_def BufferReceiver_def)
  qed
qed

lemma redis_turns_queue:
  assumes "redis_laws net q" and "list_all2 (carries ops) ms (q w)" and "redis_turns ops net BufferReceiver n b w = Some (t, w1)"
  shows "\<exists>k\<le>length ms. turn_state t = b @ map Some (take k ms) \<and> q w1 = drop k (q w)"
  using assms(2-)
proof (induction n arbitrary: ms b w)
  case 0
  then show ?case by (auto simp: turn_state_def)
next
  case (Suc n)
  then obtain t1 w2 where t1: "redis_turn ops net BufferReceiver True b w = Some (t1, w2)" by (auto simp: bind_eq_Some_conv)
  obtain k where k: "k \<le> length ms" "turn_state t1 = b @ map Some (take k ms)" "q w2 = drop k (q w)"
    using redis_turn_queue [OF assms(1) Suc.prems(1) t1] by blast
  show ?case
  proof (cases t1)
    case (Returns x r)
    with Suc.prems(2) t1 k show ?thesis by auto
  next
    case (GoesOn r)
    with Suc.prems(2) t1 have "redis_turns ops net BufferReceiver n r w2 = Some (t, w1)" by simp
    moreover have "list_all2 (carries ops) (drop k ms) (q w2)" using Suc.prems(1) k(3) by simp
    ultimately obtain j where j: "j \<le> length (drop k ms)" "turn_state t = r @ map Some (take j (drop k ms))" "q w1 = drop j (q w2)"
      using Suc.IH by blast
    have "r = b @ map Some (take k ms)" using k(2) GoesOn by (simp add: turn_state_def)
    moreover have "drop (k + j) (q w) = drop j (drop k (q w))" by (simp add: add.commute)
    ultimately show ?thesis using j k by (intro exI [of _ "k + j"]) (simp add: take_add)
  qed
qed

section \<open>Where the agent goes wrong\<close>

text \<open>After Close of the listener, Accept fails with a longer text than the one that is looked for, and Start never ends.\<close>

lemma server_spins: "length closed_text < length e \<Longrightarrow> Server_Start (replicate n (AcceptError e)) s = (s, True)"
  by (induction n) (auto simp: accept_turn_def dest: sublist_length_le)

text \<open>All goroutines may run the last source, and then the others are never started.\<close>

lemma pipeline_last_only:
  assumes "n = length (PSources p)"
  shows "legal_picks n (\<lambda>i. n - 1) \<and> fst (Pipeline_Start runs (\<lambda>i. n - 1) p) = replicate n (PSources p ! (n - 1))"
  using assms by (auto simp: legal_picks_def Pipeline_Start_def Let_def map_replicate_trivial map_replicate_const)

text \<open>Short descriptions of sinks panic, and a spool loses the first byte of its directory.\<close>

lemma ParseSink_slices:
  "length s < 6 \<Longrightarrow> s \<noteq> ''spool'' \<Longrightarrow> ParseSink env s = Inl (Panic ''slice bounds out of range'')"
  "ParseSink env (''spool:'' @ c # dir) = new_spool_sink env dir"
  by (auto simp: ParseSink_def slice_to_def slice_from_def)

section \<open>Properties\<close>



section \<open>Witnesses\<close>


definition redis_list :: "bytes list redis" where
  "redis_list = \<lparr>LPush = (\<lambda>d q. (None, d # q)),
     BRPop = (\<lambda>q. if q = [] then None else Some (Inr (last q), butlast q)), Redial = (\<lambda>q. (True, q))\<rparr>"

lemma redis_list_laws: "redis_laws redis_list rev"
  unfolding redis_laws_def redis_list_def by (auto split: if_splits)

lemma example_ok: "message_ok (Log n)" "Message_Size unary_ts (Log 3) < 2 ^ 63" "Message_Size unary_ts (Log 4) < 2 ^ 63"
  by (simp_all add: message_ok_def Log_def zero_message_def Message_Size_def unary_ts_def DEFAULT_VERSION_def LOG_def delim_size_def
      sovLog_small)


end
