(* ===== verification/Postgres.thy ===== *)
theory Postgres
  imports Render Values Pollers "HOL-Library.Sublist"
begin

text \<open>
  plugins/postgres: messages as rows of a table, and the receiver that searches the table for them. The database is a
  parameter: what it answers to a statement. The maps of a row's hstore columns are lists in the order of iteration.
\<close>

section \<open>postgres_send.go\<close>

definition cEnableHstore :: string where
  "cEnableHstore = [CHR 0x0A] @ ''CREATE EXTENSION IF NOT EXISTS hstore'' @ [CHR 0x0A]"

definition table_columns :: "(string \<times> string) list" where
  "table_columns = [(''timestamp'', ''TIMESTAMP''), (''version'', ''INTEGER''), (''type'', ''INTEGER''), (''session_id'', ''TEXT''),
     (''attributes'', ''HSTORE''), (''tags'', ''HSTORE'')]"

fun join_lines :: "string list \<Rightarrow> string" where
  "join_lines [] = ''''"
| "join_lines [l] = [CHR 0x09] @ l @ [CHR 0x0A]"
| "join_lines (l # ls) = [CHR 0x09] @ l @ '','' @ [CHR 0x0A] @ join_lines ls"

definition cCreateTable :: string where
  "cCreateTable = [CHR 0x0A] @ ''CREATE TABLE IF NOT EXISTS cypress_messages ('' @ [CHR 0x0A] @
     join_lines (map (\<lambda>(c, t). c @ '' '' @ t) table_columns) @ '')''"

definition cAddRow :: string where
  "cAddRow = [CHR 0x0A] @ ''INSERT INTO cypress_messages ('' @ [CHR 0x0A] @ join_lines (map fst table_columns) @
     '') VALUES ($1, $2, $3, $4, $5, $6)''"

datatype sql_arg = SqlText string | SqlInt int | SqlNull

record pg_row =
  RowTimestamp :: "string option"
  RowVersion :: "u64 option"
  RowType :: "u64 option"
  RowSession :: "string option"
  RowAttributes :: "(string \<times> string option) list"
  RowTags :: "(string \<times> string option) list"

text \<open>A query fails, or gives rows, each of which can fail to be scanned, and an error at their end.\<close>

record 'w pg_db =
  DPing :: "'w \<Rightarrow> go_err option \<times> 'w"
  DExec :: "string \<Rightarrow> sql_arg list \<Rightarrow> 'w \<Rightarrow> go_err option \<times> 'w"
  DQuery :: "string \<Rightarrow> 'w \<Rightarrow> (go_err + (go_err + pg_row) list \<times> go_err option) \<times> 'w"
  DClose :: "'w \<Rightarrow> go_err option \<times> 'w"

definition SetupDB :: "'w pg_db \<Rightarrow> 'w \<Rightarrow> go_err option \<times> 'w" where
  "SetupDB db w =
     (case DPing db w of
        (Some e, w1) \<Rightarrow> (Some e, w1)
      | (None, w1) \<Rightarrow>
          (case DExec db cEnableHstore [] w1 of
             (Some e, w2) \<Rightarrow> (Some e, w2)
           | (None, w2) \<Rightarrow> DExec db cCreateTable [] w2))"

text \<open>time3339nano is Time().Format(time.RFC3339Nano).\<close>

definition Postgres_Receive :: "'w pg_db \<Rightarrow> ('ts \<Rightarrow> string) \<Rightarrow> 'ts printers \<Rightarrow> 'ts message \<Rightarrow> 'w \<Rightarrow> unit result \<times> 'w" where
  "Postgres_Receive db time3339nano p m w =
     (case Timestamp m of
        None \<Rightarrow> (Inl (Panic ''nil pointer dereference''), w)
      | Some t \<Rightarrow>
          (case HstoreAttributes p m of
             Inl e \<Rightarrow> (Inl e, w)
           | Inr attrs \<Rightarrow>
               (case DExec db cAddRow
                   [SqlText (time3339nano t), SqlInt (sint (Version m)),
                    (case MType m of None \<Rightarrow> SqlNull | Some ty \<Rightarrow> SqlInt (uint ty)),
                    (case SessionId m of None \<Rightarrow> SqlNull | Some s \<Rightarrow> SqlText s),
                    SqlText attrs, SqlText (HstoreTags m)] w of
                  (Some e, w1) \<Rightarrow> (Inl (Err e), w1)
                | (None, w1) \<Rightarrow> (Inr (), w1))))"

definition Postgres_Close :: "'w pg_db \<Rightarrow> 'w \<Rightarrow> go_err option \<times> 'w" where
  "Postgres_Close db w = DClose db w"

section \<open>postgres_recv.go\<close>

record sql_options =
  OStart :: string
  OEnd :: string
  OVersion :: u32
  OType :: u32
  OSession :: string
  OAttrKey :: string
  OAttrValue :: string
  OTagKey :: string
  OTagValue :: string
  OOrder :: string
  OLimit :: u64

definition quote :: char where
  "quote = CHR 0x27"

definition lit :: "string \<Rightarrow> string" where
  "lit s = quote # s @ [quote]"

definition cStmt :: string where
  "cStmt = ''SELECT timestamp, version, type, session_id, attributes, tags FROM cypress_messages WHERE timestamp IS NOT NULL''"

definition time_stmt :: "sql_options \<Rightarrow> string" where
  "time_stmt opts =
     (if OStart opts \<noteq> '''' \<and> OEnd opts \<noteq> '''' then '' AND timestamp BETWEEN '' @ lit (OStart opts) @ '' AND '' @ lit (OEnd opts)
      else (if OStart opts \<noteq> '''' then '' AND timestamp >= '' @ lit (OStart opts) else '''') @
           (if OEnd opts \<noteq> '''' then '' AND timestamp <= '' @ lit (OEnd opts) else ''''))"

definition BuildStmt :: "nat \<Rightarrow> sql_options \<Rightarrow> string" where
  "BuildStmt bufferSize opts =
     cStmt @ time_stmt opts @
     (if OVersion opts \<noteq> 0 then '' AND version = '' @ int_dec (sint (OVersion opts)) else '''') @
     (if OType opts \<noteq> 0 then '' AND type = '' @ nat_dec (unat (OType opts)) else '''') @
     (if OSession opts \<noteq> '''' then '' AND session_id = '' @ lit (OSession opts) else '''') @
     (if OAttrKey opts \<noteq> '''' \<and> OAttrValue opts \<noteq> '''' then '' AND attributes->'' @ lit (OAttrKey opts) @ '' = '' @ lit (OAttrValue opts) else '''') @
     (if OTagKey opts \<noteq> '''' \<and> OTagValue opts \<noteq> '''' then '' AND tags->'' @ lit (OTagKey opts) @ '' = '' @ lit (OTagValue opts) else '''') @
     (if OOrder opts = ''asc'' \<or> OOrder opts = ''ASC'' then '' ORDER BY timestamp ASC'' else '' ORDER BY timestamp DESC'') @
     '' LIMIT '' @ (if OLimit opts \<noteq> 0 then nat_dec (unat (OLimit opts)) else nat_dec bufferSize)"

text \<open>
  A row becomes a message: the answers of Add are dropped, but not its panics. from_time is tai64n.FromTime of the
  column's time.
\<close>

fun add_columns :: "(string \<times> string option) list \<Rightarrow> 'ts message \<Rightarrow> 'ts message result" where
  "add_columns [] m = Inr m"
| "add_columns ((k, v) # kvs) m =
     (case v of
        None \<Rightarrow> add_columns kvs m
      | Some s \<Rightarrow>
          (case Add m k (VString s) of
             Inr (m1, _) \<Rightarrow> add_columns kvs m1
           | Inl (Err e) \<Rightarrow> add_columns kvs m
           | Inl (Panic e) \<Rightarrow> Inl (Panic e)))"

fun add_tag_columns :: "(string \<times> string option) list \<Rightarrow> 'ts message \<Rightarrow> 'ts message" where
  "add_tag_columns [] m = m"
| "add_tag_columns ((k, v) # kvs) m = add_tag_columns kvs (case v of None \<Rightarrow> m | Some s \<Rightarrow> AddTag m k s)"

definition row_message :: "'ts \<Rightarrow> (string \<Rightarrow> 'ts) \<Rightarrow> pg_row \<Rightarrow> 'ts message result" where
  "row_message now from_time row =
     (let m = Log now;
          m = (case RowTimestamp row of None \<Rightarrow> m | Some t \<Rightarrow> m\<lparr>Timestamp := Some (from_time t)\<rparr>);
          m = (case RowVersion row of None \<Rightarrow> m | Some v \<Rightarrow> m\<lparr>Version := ucast v\<rparr>);
          m = (case RowType row of None \<Rightarrow> m | Some v \<Rightarrow> m\<lparr>MType := Some (ucast v)\<rparr>);
          m = (case RowSession row of None \<Rightarrow> m | Some s \<Rightarrow> m\<lparr>SessionId := Some s\<rparr>)
      in bindR (add_columns (RowAttributes row) m) (\<lambda>m. Inr (add_tag_columns (RowTags row) m)))"

fun rows_messages :: "'ts \<Rightarrow> (string \<Rightarrow> 'ts) \<Rightarrow> (go_err + pg_row) list \<Rightarrow> 'ts message list result" where
  "rows_messages now from_time [] = Inr []"
| "rows_messages now from_time (Inl e # rows) = Inl (Err e)"
| "rows_messages now from_time (Inr row # rows) =
     bindR (row_message now from_time row) (\<lambda>m. bindR (rows_messages now from_time rows) (\<lambda>ms. Inr (m # ms)))"

text \<open>
  The variable that a row's session is scanned into is the same for all rows, and the messages point to it: in the
  end every message that has a session has the one of the last row.
\<close>

definition last_session :: "(go_err + pg_row) list \<Rightarrow> string" where
  "last_session rows =
     (if rows = [] then '''' else (case last rows of Inl e \<Rightarrow> '''' | Inr row \<Rightarrow> (case RowSession row of None \<Rightarrow> '''' | Some s \<Rightarrow> s)))"

definition share_session :: "string \<Rightarrow> 'ts message \<Rightarrow> 'ts message" where
  "share_session s m = m\<lparr>SessionId := map_option (\<lambda>_. s) (SessionId m)\<rparr>"

record ('ts, 'w) pg_env =
  PgDB :: "'w pg_db"
  PgNow :: 'ts
  PgFromTime :: "string \<Rightarrow> 'ts"
  PgFormat :: "'ts \<Rightarrow> string"

record ('ts, 'w) postgres =
  PgOptions :: sql_options
  PgBuffer :: "'ts message list"
  PgSize :: nat
  PgClosed :: bool
  PgWorld :: 'w

definition NewPostgresRecv :: "sql_options \<Rightarrow> nat \<Rightarrow> 'w \<Rightarrow> ('ts, 'w) postgres" where
  "NewPostgresRecv options bufferSize w =
     \<lparr>PgOptions = options, PgBuffer = [], PgSize = bufferSize, PgClosed = False, PgWorld = w\<rparr>"

text \<open>A query that fails ends the program (log.Fatal).\<close>

definition Pg_Search :: "('ts, 'w) pg_env \<Rightarrow> sql_options \<Rightarrow> ('ts, 'w) postgres \<Rightarrow> 'ts message list result \<times> ('ts, 'w) postgres" where
  "Pg_Search env opts pr =
     (case DQuery (PgDB env) (BuildStmt (PgSize pr) opts) (PgWorld pr) of
        (Inl e, w1) \<Rightarrow> (Inl (Panic ''log.Fatal''), pr\<lparr>PgWorld := w1\<rparr>)
      | (Inr (rows, err), w1) \<Rightarrow>
          (bindR (rows_messages (PgNow env) (PgFromTime env) rows) (\<lambda>ms.
             case err of None \<Rightarrow> Inr (map (share_session (last_session rows)) ms) | Some e \<Rightarrow> Inl (Err e)), pr\<lparr>PgWorld := w1\<rparr>))"

fun Pg_BufferMessages :: "('ts, 'w) pg_env \<Rightarrow> 'ts message list \<Rightarrow> ('ts, 'w) postgres \<Rightarrow> unit result \<times> ('ts, 'w) postgres" where
  "Pg_BufferMessages env [] pr = (Inr (), pr)"
| "Pg_BufferMessages env (m # ms) pr =
     (if length (PgBuffer pr) < PgSize pr
      then (let pr1 = pr\<lparr>PgBuffer := PgBuffer pr @ [m]\<rparr> in
            case Timestamp m of
              None \<Rightarrow> (nil_dereference, pr1)
            | Some t \<Rightarrow> Pg_BufferMessages env ms (pr1\<lparr>PgOptions := (PgOptions pr)\<lparr>OStart := PgFormat env t\<rparr>\<rparr>))
      else Pg_BufferMessages env ms pr)"

definition postgres_ops :: "('ts, 'w) pg_env \<Rightarrow> ('ts, 'ts message, ('ts, 'w) postgres) poll_ops" where
  "postgres_ops env =
     \<lparr>PBuf = PgBuffer, PPut = (\<lambda>b pr. pr\<lparr>PgBuffer := b\<rparr>), PClosed = PgClosed, PSearch = (\<lambda>pr. Pg_Search env (PgOptions pr) pr),
      PKeep = Pg_BufferMessages env, PEmit = Inr\<rparr>"

definition Postgres_Generate :: "('ts, 'w) pg_env \<Rightarrow> ('ts, 'w) postgres \<Rightarrow> ('ts message option result \<times> ('ts, 'w) postgres) option" where
  "Postgres_Generate env pr = poll (postgres_ops env) pr"

definition PostgresRecv_Close :: "('ts, 'w) postgres \<Rightarrow> ('ts, 'w) postgres" where
  "PostgresRecv_Close pr = pr\<lparr>PgClosed := True\<rparr>"


section \<open>Literals of a statement\<close>

text \<open>
  What a database reads in a statement: the text outside of literals, and the literals, in which two quotes are one.
  The first argument is the literal that is being read. None is a literal that is not closed.
\<close>

fun sql_parts :: "string option \<Rightarrow> string \<Rightarrow> (string \<times> string list) option" where
  "sql_parts None [] = Some ([], [])"
| "sql_parts (Some acc) [] = None"
| "sql_parts None (c # cs) =
     (if c = quote then sql_parts (Some []) cs else map_option (\<lambda>(p, ls). (c # p, ls)) (sql_parts None cs))"
| "sql_parts (Some acc) (c # cs) =
     (if c \<noteq> quote then sql_parts (Some (acc @ [c])) cs
      else (case cs of
          [] \<Rightarrow> Some ([], [acc])
        | d # ds \<Rightarrow> if d = quote then sql_parts (Some (acc @ [quote])) ds
                   else map_option (\<lambda>(p, ls). (p, acc # ls)) (sql_parts None (d # ds))))"

datatype piece = Plain string | Lit string

definition render_piece :: "piece \<Rightarrow> string" where
  "render_piece p = (case p of Plain s \<Rightarrow> s | Lit s \<Rightarrow> lit s)"

definition render_pieces :: "piece list \<Rightarrow> string" where
  "render_pieces ps = concat (map render_piece ps)"

definition plain_text :: "piece list \<Rightarrow> string" where
  "plain_text ps = concat (map (\<lambda>p. case p of Plain s \<Rightarrow> s | Lit s \<Rightarrow> []) ps)"

definition literals :: "piece list \<Rightarrow> string list" where
  "literals ps = concat (map (\<lambda>p. case p of Plain s \<Rightarrow> [] | Lit s \<Rightarrow> [s]) ps)"

definition good_piece :: "piece \<Rightarrow> bool" where
  "good_piece p = (case p of Plain s \<Rightarrow> s \<noteq> [] \<and> quote \<notin> set s | Lit s \<Rightarrow> quote \<notin> set s)"

fun apart :: "piece list \<Rightarrow> bool" where
  "apart (Lit s # Lit u # ps) = False"
| "apart (p # ps) = apart ps"
| "apart [] = True"

lemma pieces_simps [simp]:
  "render_pieces [] = []" "render_pieces (p # ps) = render_piece p @ render_pieces ps"
  "render_pieces (ps @ qs) = render_pieces ps @ render_pieces qs"
  "plain_text [] = []" "plain_text (Plain s # ps) = s @ plain_text ps" "plain_text (Lit s # ps) = plain_text ps"
  "plain_text (ps @ qs) = plain_text ps @ plain_text qs"
  "literals [] = []" "literals (Plain s # ps) = literals ps" "literals (Lit s # ps) = s # literals ps"
  "literals (ps @ qs) = literals ps @ literals qs"
  "render_piece (Plain s) = s" "render_piece (Lit s) = lit s"
  by (simp_all add: render_pieces_def plain_text_def literals_def render_piece_def)

lemma sql_parts_plain:
  "quote \<notin> set s \<Longrightarrow> sql_parts None (s @ r) = map_option (\<lambda>(p, ls). (s @ p, ls)) (sql_parts None r)"
  by (induction s) (auto simp: option.map_comp o_def split_def option.map_ident)

lemma sql_parts_lit:
  assumes "quote \<notin> set s" and "r = [] \<or> hd r \<noteq> quote"
  shows "sql_parts None (lit s @ r) = map_option (\<lambda>(p, ls). (p, s # ls)) (sql_parts None r)"
proof -
  have "sql_parts (Some acc) (s @ quote # r) = map_option (\<lambda>(p, ls). (p, (acc @ s) # ls)) (sql_parts None r)" for acc
    using assms by (induction s arbitrary: acc) (auto split: list.split)
  from this [of "[]"] show ?thesis by (simp add: lit_def)
qed

lemma render_head: "apart (Lit s # ps) \<Longrightarrow> list_all good_piece ps \<Longrightarrow> render_pieces ps = [] \<or> hd (render_pieces ps) \<noteq> quote"
proof (cases ps)
  case (Cons p qs)
  assume a: "apart (Lit s # ps)" "list_all good_piece ps"
  then obtain u where "p = Plain u" using Cons by (cases p) auto
  with a(2) Cons show ?thesis by (cases u) (auto simp: good_piece_def)
qed simp

lemma sql_parts_render:
  "apart ps \<Longrightarrow> list_all good_piece ps \<Longrightarrow> sql_parts None (render_pieces ps) = Some (plain_text ps, literals ps)"
proof (induction ps)
  case (Cons p ps)
  have "apart ps" using Cons.prems(1) by (cases p; cases ps; cases "hd ps") auto
  with Cons have IH: "sql_parts None (render_pieces ps) = Some (plain_text ps, literals ps)" by simp
  show ?case
  proof (cases p)
    case (Plain s)
    then have "quote \<notin> set s" using Cons.prems(2) by (simp add: good_piece_def)
    then show ?thesis using IH by (simp add: Plain sql_parts_plain)
  next
    case (Lit s)
    then have "quote \<notin> set s" using Cons.prems(2) by (simp add: good_piece_def)
    moreover have "render_pieces ps = [] \<or> hd (render_pieces ps) \<noteq> quote" using Cons.prems Lit by (intro render_head) simp_all
    ultimately show ?thesis using IH by (simp add: Lit sql_parts_lit)
  qed
qed simp

section \<open>The pieces of a statement\<close>

text \<open>The statement with the pieces sess in the place of the literal for the session.\<close>

definition stmt_pieces :: "nat \<Rightarrow> sql_options \<Rightarrow> piece list \<Rightarrow> piece list" where
  "stmt_pieces bufferSize opts sess =
     [Plain cStmt] @
     (if OStart opts \<noteq> '''' \<and> OEnd opts \<noteq> '''' then [Plain '' AND timestamp BETWEEN '', Lit (OStart opts), Plain '' AND '', Lit (OEnd opts)]
      else (if OStart opts \<noteq> '''' then [Plain '' AND timestamp >= '', Lit (OStart opts)] else []) @
           (if OEnd opts \<noteq> '''' then [Plain '' AND timestamp <= '', Lit (OEnd opts)] else [])) @
     (if OVersion opts \<noteq> 0 then [Plain ('' AND version = '' @ int_dec (sint (OVersion opts)))] else []) @
     (if OType opts \<noteq> 0 then [Plain ('' AND type = '' @ nat_dec (unat (OType opts)))] else []) @
     (if OSession opts \<noteq> '''' then Plain '' AND session_id = '' # sess else []) @
     (if OAttrKey opts \<noteq> '''' \<and> OAttrValue opts \<noteq> ''''
      then [Plain '' AND attributes->'', Lit (OAttrKey opts), Plain '' = '', Lit (OAttrValue opts)] else []) @
     (if OTagKey opts \<noteq> '''' \<and> OTagValue opts \<noteq> ''''
      then [Plain '' AND tags->'', Lit (OTagKey opts), Plain '' = '', Lit (OTagValue opts)] else []) @
     [Plain (if OOrder opts = ''asc'' \<or> OOrder opts = ''ASC'' then '' ORDER BY timestamp ASC'' else '' ORDER BY timestamp DESC''),
      Plain ('' LIMIT '' @ (if OLimit opts \<noteq> 0 then nat_dec (unat (OLimit opts)) else nat_dec bufferSize))]"

definition used_texts :: "sql_options \<Rightarrow> string list" where
  "used_texts opts =
     filter (\<lambda>s. s \<noteq> '''') [OStart opts, OEnd opts] @ filter (\<lambda>s. s \<noteq> '''') [OSession opts] @
     (if OAttrKey opts \<noteq> '''' \<and> OAttrValue opts \<noteq> '''' then [OAttrKey opts, OAttrValue opts] else []) @
     (if OTagKey opts \<noteq> '''' \<and> OTagValue opts \<noteq> '''' then [OTagKey opts, OTagValue opts] else [])"

definition same_shape :: "sql_options \<Rightarrow> sql_options \<Rightarrow> bool" where
  "same_shape a b \<longleftrightarrow>
     (\<forall>f\<in>{OStart, OEnd, OSession, OAttrKey, OAttrValue, OTagKey, OTagValue}. f a = '''' \<longleftrightarrow> f b = '''') \<and>
     OVersion a = OVersion b \<and> OType a = OType b \<and> OLimit a = OLimit b \<and>
     (OOrder a \<in> {''asc'', ''ASC''} \<longleftrightarrow> OOrder b \<in> {''asc'', ''ASC''})"

lemma stmt_render: "BuildStmt n opts = render_pieces (stmt_pieces n opts [Lit (OSession opts)])"
  by (simp add: BuildStmt_def stmt_pieces_def time_stmt_def)

lemma stmt_injected:
  assumes "OSession opts = s @ quote # c @ quote # u"
  shows "BuildStmt n opts = render_pieces (stmt_pieces n opts [Lit s, Plain c, Lit u])"
  by (simp add: BuildStmt_def stmt_pieces_def time_stmt_def assms lit_def)


lemma dec_no_quote: "quote \<notin> set (nat_dec n)" "quote \<notin> set (int_dec i)"
proof -
  have "\<not> is_digit quote" by (simp add: is_digit_def quote_def)
  then show nat: "quote \<notin> set (nat_dec n)" for n using nat_dec_digits [of n] by (auto simp: list_all_iff)
  then show "quote \<notin> set (int_dec i)" by (simp add: int_dec_def quote_def)
qed

lemma apart_append:
  "apart (ps @ Plain s # qs) \<longleftrightarrow> apart ps \<and> apart qs"
  by (induction ps rule: apart.induct) auto

lemma stmt_texts:
  "plain_text (stmt_pieces n opts [Lit s]) = plain_text (stmt_pieces n opts [Lit u])"
  "literals (stmt_pieces n opts [Lit (OSession opts)]) = used_texts opts"
  by (simp_all add: stmt_pieces_def used_texts_def)

lemma stmt_apart: "apart (stmt_pieces n opts [Lit s])" "apart (stmt_pieces n opts [Lit s, Plain c, Lit u])"
  unfolding stmt_pieces_def by (simp_all add: apart_append)

lemma stmt_good:
  assumes "\<forall>s\<in>set (used_texts (opts\<lparr>OSession := []\<rparr>)). quote \<notin> set s" and "list_all good_piece sess"
  shows "list_all good_piece (stmt_pieces n opts sess)"
proof -
  have texts: "quote \<notin> set (OStart opts)" "quote \<notin> set (OEnd opts)"
    using assms(1) by (cases "OStart opts = []"; cases "OEnd opts = []"; simp add: used_texts_def)+
  have pairs: "OAttrKey opts \<noteq> [] \<and> OAttrValue opts \<noteq> [] \<Longrightarrow> quote \<notin> set (OAttrKey opts) \<and> quote \<notin> set (OAttrValue opts)"
    "OTagKey opts \<noteq> [] \<and> OTagValue opts \<noteq> [] \<Longrightarrow> quote \<notin> set (OTagKey opts) \<and> quote \<notin> set (OTagValue opts)"
    using assms(1) by (simp_all add: used_texts_def)
  have plain: "good_piece (Plain cStmt)" "good_piece (Plain '' AND timestamp BETWEEN '')" "good_piece (Plain '' AND '')"
    "good_piece (Plain '' AND timestamp >= '')" "good_piece (Plain '' AND timestamp <= '')" "good_piece (Plain '' AND session_id = '')"
    "good_piece (Plain '' AND attributes->'')" "good_piece (Plain '' = '')" "good_piece (Plain '' AND tags->'')"
    "good_piece (Plain (if b then '' ORDER BY timestamp ASC'' else '' ORDER BY timestamp DESC''))" for b
    by (simp_all add: good_piece_def quote_def cStmt_def)
  have num: "good_piece (Plain ('' AND version = '' @ int_dec i))" "good_piece (Plain ('' AND type = '' @ nat_dec j))"
    "good_piece (Plain ('' LIMIT '' @ (if b then nat_dec j else nat_dec k)))" for b i j k
    using dec_no_quote by (simp_all add: good_piece_def) (simp_all add: quote_def)
  have lits: "good_piece (Lit s) \<longleftrightarrow> quote \<notin> set s" for s by (simp add: good_piece_def)
  have if_list: "list_all P (if b then xs else ys) \<longleftrightarrow> (b \<longrightarrow> list_all P xs) \<and> (\<not> b \<longrightarrow> list_all P ys)" for P b and xs ys :: "piece list"
    by simp
  show ?thesis unfolding stmt_pieces_def list_all_append if_list
    by (intro conjI impI; (elim conjE)?; use assms(2) texts pairs in \<open>simp add: plain num lits del: List.append.simps(2)\<close>)
qed


lemma used_without_session:
  "\<forall>s\<in>set (used_texts opts). quote \<notin> set s \<Longrightarrow> \<forall>s\<in>set (used_texts (opts\<lparr>OSession := []\<rparr>)). quote \<notin> set s"
  "\<forall>s\<in>set (used_texts opts). quote \<notin> set s \<Longrightarrow> quote \<notin> set (OSession opts)"
  by (cases "OSession opts = []"; simp add: used_texts_def)+

lemma stmt_reads:
  assumes "\<forall>s\<in>set (used_texts opts). quote \<notin> set s"
  shows "sql_parts None (BuildStmt n opts) = Some (plain_text (stmt_pieces n opts [Lit []]), used_texts opts)"
proof -
  have "list_all good_piece (stmt_pieces n opts [Lit (OSession opts)])"
    using used_without_session [OF assms] by (intro stmt_good) (simp_all add: good_piece_def)
  from sql_parts_render [OF stmt_apart(1) this] show ?thesis
    unfolding stmt_render stmt_texts(2) by (simp add: stmt_texts(1) [of n opts "OSession opts" "[]"])
qed

lemma stmt_shape: "same_shape a b \<Longrightarrow> plain_text (stmt_pieces n a [Lit []]) = plain_text (stmt_pieces n b [Lit []])"
  unfolding same_shape_def stmt_pieces_def by simp

lemma stmt_reads_injected:
  assumes "\<forall>s\<in>set (used_texts (opts\<lparr>OSession := []\<rparr>)). quote \<notin> set s" and "OSession opts = s @ quote # c @ quote # u"
    and "quote \<notin> set s" "quote \<notin> set c" "quote \<notin> set u" "c \<noteq> []"
  shows "\<exists>p ls. sql_parts None (BuildStmt n opts) = Some (p, ls) \<and> sublist c p"
proof -
  have "list_all good_piece (stmt_pieces n opts [Lit s, Plain c, Lit u])"
    using assms by (intro stmt_good) (simp_all add: good_piece_def)
  note parts = sql_parts_render [OF stmt_apart(2) this]
  have "\<exists>pre post. stmt_pieces n opts [Lit s, Plain c, Lit u] = pre @ [Lit s, Plain c, Lit u] @ post"
    unfolding stmt_pieces_def using assms(2)
    by (simp del: append_Cons split del: if_split) (metis append.assoc append_Cons append_Nil)
  then obtain pre post where "stmt_pieces n opts [Lit s, Plain c, Lit u] = pre @ [Lit s, Plain c, Lit u] @ post" by blast
  then have "sublist c (plain_text (stmt_pieces n opts [Lit s, Plain c, Lit u]))" by simp
  with parts show ?thesis unfolding stmt_injected [OF assms(2)] by blast
qed


section \<open>Polling\<close>

lemma Pg_BufferMessages_takes:
  assumes "\<forall>m\<in>set ms. Timestamp m \<noteq> None" and "length (PgBuffer pr) \<le> PgSize pr"
  shows "\<exists>pr1. Pg_BufferMessages env ms pr = (Inr (), pr1) \<and>
    PgBuffer pr1 = PgBuffer pr @ take (PgSize pr - length (PgBuffer pr)) ms \<and> PgSize pr1 = PgSize pr \<and> PgClosed pr1 = PgClosed pr \<and>
    PgOptions pr1 = (case take (PgSize pr - length (PgBuffer pr)) ms of [] \<Rightarrow> PgOptions pr
      | xs \<Rightarrow> (PgOptions pr)\<lparr>OStart := PgFormat env (the (Timestamp (last xs)))\<rparr>)"
  using assms
proof (induction env ms pr rule: Pg_BufferMessages.induct)
  case (2 env m ms pr)
  show ?case
  proof (cases "length (PgBuffer pr) < PgSize pr")
    case True
    then obtain k where k: "PgSize pr - length (PgBuffer pr) = Suc k" by (metis Suc_diff_Suc)
    obtain t where t: "Timestamp m = Some t" using "2.prems"(1) by (cases "Timestamp m") auto
    have "PgSize pr - Suc (length (PgBuffer pr)) = k" using k by simp
    with "2.IH"(1) [OF True refl t] "2.prems" True k show ?thesis
      by (auto simp: t Let_def last_ConsR split: list.splits)
  next
    case False
    with 2 show ?thesis by simp
  qed
qed simp

lemma Pg_BufferMessages_empty:
  assumes "PgBuffer pr = []" and "\<forall>m\<in>set ms. Timestamp m \<noteq> None"
  shows "\<exists>pr1. Pg_BufferMessages env ms pr = (Inr (), pr1) \<and> PgBuffer pr1 = take (PgSize pr) ms"
  using Pg_BufferMessages_takes [of ms pr env] assms by auto

interpretation postgres_poller: poller "postgres_ops env" PgSize "\<lambda>ms. \<forall>m\<in>set ms. Timestamp m \<noteq> None"
proof unfold_locales
  show "PBuf (postgres_ops env) pr = [] \<Longrightarrow> \<forall>m\<in>set ms. Timestamp m \<noteq> None \<Longrightarrow>
      \<exists>s1. PKeep (postgres_ops env) ms pr = (Inr (), s1) \<and> PBuf (postgres_ops env) s1 = take (PgSize pr) ms" for pr ms
    using Pg_BufferMessages_empty [of pr ms env] by (auto simp: postgres_ops_def)
qed (auto simp: postgres_ops_def Pg_Search_def split: prod.splits sum.splits)

text \<open>The database answers the two statements with the same rows, which are these messages.\<close>

definition pg_answers :: "('ts, 'w) pg_env \<Rightarrow> nat \<Rightarrow> sql_options set \<Rightarrow> 'ts message list \<Rightarrow> bool" where
  "pg_answers env n opts ms \<longleftrightarrow>
     (\<exists>rows ms'. rows_messages (PgNow env) (PgFromTime env) rows = Inr ms' \<and> ms = map (share_session (last_session rows)) ms' \<and>
       (\<forall>o1\<in>opts. \<forall>w. fst (DQuery (PgDB env) (BuildStmt n o1) w) = Inr (rows, None)))"

lemma Pg_Search_answers:
  assumes "pg_answers env (PgSize pr) opts ms" and "o1 \<in> opts"
  shows "\<exists>w1. Pg_Search env o1 pr = (Inr ms, pr\<lparr>PgWorld := w1\<rparr>)"
proof -
  obtain rows ms' where rows: "rows_messages (PgNow env) (PgFromTime env) rows = Inr ms'"
    and ms: "ms = map (share_session (last_session rows)) ms'"
    and q: "fst (DQuery (PgDB env) (BuildStmt (PgSize pr) o1) (PgWorld pr)) = Inr (rows, None)"
    using assms unfolding pg_answers_def by blast
  then obtain w1 where "DQuery (PgDB env) (BuildStmt (PgSize pr) o1) (PgWorld pr) = (Inr (rows, None), w1)" by (metis prod.collapse)
  with rows ms show ?thesis by (intro exI [of _ w1]) (simp add: Pg_Search_def)
qed

text \<open>Whatever the rows say, the messages of a search that have a session have the same one.\<close>

lemma Pg_Search_sessions:
  assumes "Pg_Search env o1 pr = (Inr ms, pr1)" and "m \<in> set ms" "m' \<in> set ms" "SessionId m \<noteq> None" "SessionId m' \<noteq> None"
  shows "SessionId m = SessionId m'"
  using assms by (auto simp: Pg_Search_def go_simps share_session_def split: prod.splits sum.splits option.splits)

definition pg_ready :: "nat \<Rightarrow> sql_options set \<Rightarrow> ('ts, 'w) postgres \<Rightarrow> bool" where
  "pg_ready n opts pr \<longleftrightarrow> PgBuffer pr = [] \<and> \<not> PgClosed pr \<and> PgSize pr = n \<and> PgOptions pr \<in> opts"

lemma postgres_round:
  assumes "pg_answers env n {o1, o1\<lparr>OStart := second\<rparr>} ms" and "pg_ready n {o1, o1\<lparr>OStart := second\<rparr>} pr" and "0 < n" and "ms \<noteq> []"
    and "\<forall>m\<in>set ms. \<exists>t. Timestamp m = Some t \<and> PgFormat env t = second"
  shows "\<exists>pr'. answers (Postgres_Generate env) (length (take n ms)) pr = Some (map (\<lambda>m. Inr (Some m)) (take n ms), pr') \<and>
    pg_ready n {o1, o1\<lparr>OStart := second\<rparr>} pr'"
proof -
  from assms(2) have rd: "PgBuffer pr = []" "\<not> PgClosed pr" "PgSize pr = n" "PgOptions pr \<in> {o1, o1\<lparr>OStart := second\<rparr>}"
    by (auto simp: pg_ready_def)
  with Pg_Search_answers [of env pr _ ms "PgOptions pr"] assms(1) obtain w1 where
    s1: "Pg_Search env (PgOptions pr) pr = (Inr ms, pr\<lparr>PgWorld := w1\<rparr>)" by blast
  have stamped: "\<forall>m\<in>set ms. Timestamp m \<noteq> None" using assms(5) by auto
  obtain s2 where s2: "Pg_BufferMessages env ms (pr\<lparr>PgWorld := w1\<rparr>) = (Inr (), s2)"
    and a: "answers (Postgres_Generate env) (length (take n ms)) pr = Some (map (\<lambda>m. Inr (Some m)) (take n ms), s2\<lparr>PgBuffer := []\<rparr>)"
    by (rule postgres_poller.answers_search [of env pr ms "pr\<lparr>PgWorld := w1\<rparr>"])
      (use rd s1 stamped assms(3,4) in \<open>simp_all add: postgres_ops_def Postgres_Generate_def [abs_def] min.commute\<close>)
  obtain x xs where xs: "take n ms = x # xs" using assms(3,4) by (cases ms; cases n) auto
  then have "last (x # xs) \<in> set ms" by (metis in_set_takeD last_in_set list.distinct(1))
  with assms(5) have sec: "PgFormat env (the (Timestamp (last (x # xs)))) = second" by force
  have "PgOptions s2 = (PgOptions pr)\<lparr>OStart := second\<rparr> \<and> PgSize s2 = n \<and> \<not> PgClosed s2"
    using Pg_BufferMessages_takes [of ms "pr\<lparr>PgWorld := w1\<rparr>" env] stamped rd s2 sec by (auto simp: xs)
  with a rd(4) show ?thesis by (intro exI [of _ "s2\<lparr>PgBuffer := []\<rparr>"]) (auto simp: pg_ready_def)
qed

section \<open>Properties\<close>

text \<open>
  C39: What a database reads in a statement of BuildStmt. If no text of the options has a quote, the statement is the
  same for all options of the same shape except for its literals, and these are the texts, in order: no option can
  change what is searched for. If the session has two quotes, the text between them, whatever it is, is outside of
  every literal, as a part of the statement.
\<close>

theorem stmt_literals:
  assumes "\<forall>s\<in>set (used_texts a) \<union> set (used_texts b). quote \<notin> set s" and "same_shape a b"
    and "quote \<notin> set s" "quote \<notin> set c" "quote \<notin> set u" "c \<noteq> []"
  shows "(\<exists>plain. sql_parts None (BuildStmt n a) = Some (plain, used_texts a) \<and> sql_parts None (BuildStmt n b) = Some (plain, used_texts b)) \<and>
    (\<exists>plain lits. sql_parts None (BuildStmt n (a\<lparr>OSession := s @ quote # c @ quote # u\<rparr>)) = Some (plain, lits) \<and> sublist c plain)"
proof
  from assms(1) have "\<forall>s\<in>set (used_texts a). quote \<notin> set s" "\<forall>s\<in>set (used_texts b). quote \<notin> set s" by auto
  from this [THEN stmt_reads] show "\<exists>plain. sql_parts None (BuildStmt n a) = Some (plain, used_texts a) \<and>
      sql_parts None (BuildStmt n b) = Some (plain, used_texts b)" using stmt_shape [OF assms(2)] by simp
  have "\<forall>s\<in>set (used_texts (a\<lparr>OSession := []\<rparr>)). quote \<notin> set s" using assms(1) by (intro used_without_session(1)) auto
  then show "\<exists>plain lits. sql_parts None (BuildStmt n (a\<lparr>OSession := s @ quote # c @ quote # u\<rparr>)) = Some (plain, lits) \<and> sublist c plain"
    by (intro stmt_reads_injected [of _ s c u]) (use assms in simp_all)
qed


section \<open>Witnesses\<close>

definition no_options :: sql_options where
  "no_options = \<lparr>OStart = '''', OEnd = '''', OVersion = 0, OType = 0, OSession = '''', OAttrKey = '''', OAttrValue = '''',
     OTagKey = '''', OTagValue = '''', OOrder = '''', OLimit = 0\<rparr>"

theorem stmt_literals_witness:
  "(\<exists>plain. sql_parts None (BuildStmt 10 (no_options\<lparr>OSession := ''x''\<rparr>)) = Some (plain, [''x'']) \<and>
      sql_parts None (BuildStmt 10 (no_options\<lparr>OSession := ''y''\<rparr>)) = Some (plain, [''y''])) \<and>
   (\<exists>plain lits. sql_parts None (BuildStmt 10 (no_options\<lparr>OSession := ''x'' @ quote # '' OR TRUE OR session_id='' @ quote # ''x''\<rparr>)) =
      Some (plain, lits) \<and> sublist '' OR TRUE OR session_id='' plain)"
  using stmt_literals [of "no_options\<lparr>OSession := ''x''\<rparr>" "no_options\<lparr>OSession := ''y''\<rparr>" "''x''" "'' OR TRUE OR session_id=''" "''x''" 10]
  by (simp add: no_options_def used_texts_def same_shape_def quote_def)

definition one_row :: "(nat, unit) pg_env" where
  "one_row = \<lparr>PgDB = \<lparr>DPing = (\<lambda>w. (None, w)), DExec = (\<lambda>s as w. (None, w)),
       DQuery = (\<lambda>s w. (Inr ([Inr \<lparr>RowTimestamp = Some ''a'', RowVersion = None, RowType = None, RowSession = None, RowAttributes = [],
          RowTags = []\<rparr>], None), w)), DClose = (\<lambda>w. (None, w))\<rparr>,
     PgNow = 0, PgFromTime = length, PgFormat = (\<lambda>t. ''a'')\<rparr>"


end
