(* ===== verification/Spec2Isabelle.thy ===== *)
theory Spec2Isabelle
  imports Prelude Varint Decimal Symbols Message Values Render Wire Scanner KVParse KVRoundtrip JsonText Json Streams StreamRoundtrip Send ReliableSend System Pipes Config Router Spool Syslog Keystore S3 Statsd Filters Typing JsonFields Files Tcplog Pollers Equality Tcp Agent Postgres
begin

text \<open>
  A verification library for cypress, a log and metrics router written in Go. The program takes messages from
  generators (connections, files, services, packets), moves them through filters to receivers (files, sockets,
  services), and has its own formats for them. Each theory models one part; a theory imports the parts its code
  calls.

  What all theories share (Prelude). A Go function that can fail is a value of type result: Inl of an error (Err) or
  of a run-time panic (Panic), or Inr of its answer. A function that may not return is a partial_function of the
  option monad, and None is a call that never returns. Integers have the width they have in Go (u8, u32, u64; int is
  a 64-bit two's complement word where it can overflow). Strings are lists of characters, one per byte, byte slices
  are lists of words; a nil slice that differs from an empty one is None. A float64 is its bit pattern, and its
  arithmetic, printing and parsing are parameters. Goroutines are step relations: a state is a record that has the
  fields of the Go struct, what its channels hold and where each goroutine is, and a step is what a goroutine does
  between two points where another can run. Ghost fields record what was accepted and delivered, for the invariants.

  Messages and their formats.
    Symbols         symbols.go: the numbers of the common attribute keys.
    Message         log.go: the structs, constructors, typed adders and getters, tags, Remove.
    Values          log.go: Add and AddMany, with the reflection in tryContainers.
    Typing          the typing of messages that every operation of log.go keeps.
    Render          log.go: the text forms (KV, HSTORE, syslog, for people).
    Varint, Wire    varint.go, log.pb.go: sizes, marshalling, unmarshalling of the five structs.
    Equality        log.pb.go: Equal and VerboseEqual.
    Scanner, KVParse, KVRoundtrip   scanner/scanner.go, kv.go: the tokens, the parser, and that it undoes KVString.
    Base64, JsonText, Json, JsonFields   json.go over a model of encoding/json and encoding/base64.
    Decimal         strconv and strings as the parsers use them.

  Streams and connections.
    Streams, StreamRoundtrip   compress.go, probe.go, peek.go, header.go, encoder.go, decoder.go, stream_encoder.go,
                    stream_decoder.go, recv.go: framing, compression, detection of the format, acknowledgements.
    Send, ReliableSend   send.go, reliable_send.go: windows, acknowledgements, reconnecting and sending again.
    System          system.go: the client of the local agent.
    Agent           agent: the server of the local clients, and messages through a list of a Redis server.

  Moving messages.
    Pipes           interfaces.go, glue.go, generator.go, memory.go, channel.go, serial.go, agent/local.go, tools/cat.go.
    Config, Router  config.go, global_config.go, path.go, plugins.go, router/router.go.

  Plugins.
    Spool, S3, Keystore   plugins/spool, plugins/s3, keystore.
    Syslog, Statsd, Files   plugins/syslog; statsd, plugins/statsd and plugins/metrics; plugins/file.
    Filters         plugins/grep, plugins/json, plugins/geoip.
    Tcp             plugins/tcp: connecting to one of several hosts, and collecting what connections send.
    Tcplog, Pollers plugins/lib/tcplog and the senders that use it; the receivers of loggly, papertrail, logentries.
    Postgres        plugins/postgres: the table of messages, and the receiver that searches it.

  Interfaces. The locales state what one part relies on in another: byte_writer (a write that succeeds appends;
  interpreted on the raw writer and on the compressing ones), message_source, message_sink and pipe (what a
  generator gives and a receiver keeps; on channels, buffers, streams, spools and buckets), send_requests and
  counting_requests (how requests are called back; on the two handlers), keys (what a key store finds; on
  directories, user keys and test keys), typed_attr (a typed adder and its getter; on the six types), poller (a
  buffer that searches fill; on the three services and on PostgreSQL).

  What the properties show. Round trips: every format is read back (wire, KV, JSON, streams, spools, buckets, keys).
  Invariants and conservation: no message is lost or doubled by the senders, the local logger, the router's flow, the
  TCP loggers and the file monitor over two runs, except exactly where the statements say so. Totality and
  termination: what returns, and which inputs never do. Error behaviour: the panics and losses that inputs and
  failures cause, stated exactly. Where the code goes wrong the theorem says what it does, and the manifest lists it.

  Bounds and fuel. The JSON reader takes its depth from fuel, and twice the length of the text is proved enough
  (parse_enough); every other recursion is structural, has a termination proof or is a partial function whose
  results are proved to exist where a property needs them.

  Not modelled: the HTTP, TCP and Unix sockets themselves; the parsing of command lines and the
  interactive prompts (cmd/ and the cli.go of the plugins); the printing and the JSON of generated code (String and
  the enum helpers of log.pb.go); test helpers and mocks; updates of the GeoIP database over HTTP; line and column
  numbers of the scanner. The reporters to InfluxDB and Elasticsearch (influxdb, plugins/elasticsearch) and the HTTP
  writers (httputil/stream.go) only arrange values for client libraries and encoders.
\<close>

end
